(* ===== verification/Prelude.thy ===== *)
theory Prelude
  imports Main "HOL-Library.Word"
begin

text \<open>
  Shared vocabulary of the development.

  A C++ operation of the modelled program may return, throw, stop the process in
  a \<open>BOOST_ASSERT\<close>, or run into undefined behaviour (a call through a null
  pointer, a dereferenced \<open>end()\<close> iterator). The type \<open>res\<close> has one constructor
  for each. \<open>BOOST_ASSERT\<close> is compiled out of a Release build (\<open>NDEBUG\<close>, the
  default of conanfile.py), so every operation that asserts takes the build as an
  argument.

  The second half holds the generic facts the components share: event runs and
  reachability with the invariant rules (locales \<open>state_machine\<close> and
  \<open>total_machine\<close>), and containers keyed by a field that the program searches
  with \<open>std::find_if\<close> and shrinks with \<open>erase\<close>.
\<close>

named_theorems res_simps \<open>computation rules of the outcome type\<close>

section \<open>Outcomes\<close>

datatype build = Debug | Release

datatype exn = System_error | Operation_aborted | Json_error | Response_error | Runtime_error
  | Out_of_range | Bad_alloc

datatype 'a res = Ok 'a | Throw exn | Assert_failed | Undefined

primrec rbind :: "'a res \<Rightarrow> ('a \<Rightarrow> 'b res) \<Rightarrow> 'b res" where
  "rbind (Ok a) f = f a"
| "rbind (Throw e) f = Throw e"
| "rbind Assert_failed f = Assert_failed"
| "rbind Undefined f = Undefined"

definition boost_assert :: "build \<Rightarrow> bool \<Rightarrow> unit res" where
  "boost_assert b c = (if b = Debug \<and> \<not> c then Assert_failed else Ok ())"

text \<open>A block of statements: each maps the state to an outcome.\<close>

fun block :: "('s \<Rightarrow> 's res) list \<Rightarrow> 's \<Rightarrow> 's res" where
  "block [] s = Ok s"
| "block (f # fs) s = rbind (f s) (block fs)"

definition assert_stmt :: "build \<Rightarrow> ('s \<Rightarrow> bool) \<Rightarrow> 's \<Rightarrow> 's res" where
  "assert_stmt b p s = (if b = Debug \<and> \<not> p s then Assert_failed else Ok s)"

text \<open>A range-based for loop.\<close>

fun foreach :: "'a list \<Rightarrow> ('a \<Rightarrow> 's \<Rightarrow> 's res) \<Rightarrow> 's \<Rightarrow> 's res" where
  "foreach [] f s = Ok s"
| "foreach (x # xs) f s = rbind (f x s) (foreach xs f)"

lemma rbind_Ok_iff [res_simps]:
  "rbind r f = Ok y \<longleftrightarrow> (\<exists>x. r = Ok x \<and> f x = Ok y)"
  by (cases r) auto

lemma block_Nil [simp]: "block [] = Ok"
  by (rule ext) simp

lemma foreach_Nil [simp]: "foreach [] f = Ok"
  by (rule ext) simp

lemma rbind_assoc: "rbind (rbind r f) g = rbind r (\<lambda>x. rbind (f x) g)"
  by (cases r) auto

lemma rbind_Ok_right [simp]: "rbind r Ok = r"
  by (cases r) auto

text \<open>From an evaluated outcome to the state it holds.\<close>

lemma res_caseD:
  "(case r of Ok w \<Rightarrow> P w | Throw e \<Rightarrow> False | Assert_failed \<Rightarrow> False | Undefined \<Rightarrow> False) \<Longrightarrow>
   \<exists>w. r = Ok w \<and> P w"
  by (cases r) auto

text \<open>The same as a test, for runs that are evaluated.\<close>

definition ran :: "'a res \<Rightarrow> ('a \<Rightarrow> bool) \<Rightarrow> bool" where
  "ran r p = (case r of Ok a \<Rightarrow> p a | _ \<Rightarrow> False)"

lemma ranD: "ran r p \<Longrightarrow> \<exists>a. r = Ok a \<and> p a"
  by (cases r) (simp_all add: ran_def)

lemma block_single [simp]: "block [f] = f"
  by (rule ext) simp

lemma boost_assert_Release [simp]: "boost_assert Release c = Ok ()"
  by (simp add: boost_assert_def)

lemma boost_assert_True [simp]: "boost_assert b True = Ok ()"
  by (simp add: boost_assert_def)

lemma boost_assert_Ok [res_simps]: "boost_assert b c = Ok u \<longleftrightarrow> (b = Debug \<longrightarrow> c)"
  by (simp add: boost_assert_def)

lemma assert_stmt_Ok [res_simps]:
  "assert_stmt b p s = Ok s' \<longleftrightarrow> s' = s \<and> (b = Debug \<longrightarrow> p s)"
  by (auto simp: assert_stmt_def)

lemma block_append: "block (fs @ gs) = (\<lambda>s. rbind (block fs s) (block gs))"
  by (induction fs) (rule ext, simp add: rbind_assoc)+

lemma foreach_append: "foreach (xs @ ys) f = (\<lambda>s. rbind (foreach xs f s) (foreach ys f))"
  by (induction xs) (rule ext, simp add: rbind_assoc)+

text \<open>The invariant rule of a loop.\<close>

lemma foreach_invariant:
  assumes "foreach xs f s = Ok s'" "P s"
    and "\<And>x s s'. x \<in> set xs \<Longrightarrow> P s \<Longrightarrow> f x s = Ok s' \<Longrightarrow> P s'"
  shows "P s'"
  using assms
proof (induction xs arbitrary: s)
  case Nil
  then show ?case by simp
next
  case (Cons x xs)
  from Cons.prems(1) obtain t where t: "f x s = Ok t" "foreach xs f t = Ok s'"
    by (auto simp: res_simps)
  from Cons.prems(3)[OF _ Cons.prems(2) t(1)] have "P t" by simp
  from Cons.IH[OF t(2) this] Cons.prems(3) show ?case by auto
qed

lemma foreach_total:
  assumes "\<And>x s. x \<in> set xs \<Longrightarrow> P s \<Longrightarrow> \<exists>s'. f x s = Ok s' \<and> P s'" "P s"
  shows "\<exists>s'. foreach xs f s = Ok s' \<and> P s'"
  using assms
proof (induction xs arbitrary: s)
  case Nil
  then show ?case by simp
next
  case (Cons x xs)
  then obtain t where "f x s = Ok t" "P t" by (metis list.set_intros(1))
  with Cons.IH[of t] Cons.prems(1) show ?case by auto
qed


section \<open>Event runs and invariants\<close>

fun run_events :: "('s \<Rightarrow> 'e \<Rightarrow> 's res) \<Rightarrow> 's \<Rightarrow> 'e list \<Rightarrow> 's res" where
  "run_events step s [] = Ok s"
| "run_events step s (e # es) = rbind (step s e) (\<lambda>t. run_events step t es)"

inductive reachable :: "('s \<Rightarrow> 'e \<Rightarrow> 's res) \<Rightarrow> 's \<Rightarrow> 's \<Rightarrow> bool"
  for step :: "'s \<Rightarrow> 'e \<Rightarrow> 's res" and s0 :: 's where
  reach_start: "reachable step s0 s0"
| reach_step: "reachable step s0 s \<Longrightarrow> step s e = Ok t \<Longrightarrow> reachable step s0 t"

lemma run_events_append:
  "run_events step s (es @ fs) = rbind (run_events step s es) (\<lambda>t. run_events step t fs)"
  by (induction es arbitrary: s) (simp_all add: rbind_assoc)

lemma run_events_reachable:
  assumes "run_events step s0 es = Ok s"
  shows "reachable step s0 s"
  using assms
proof (induction es arbitrary: s rule: rev_induct)
  case Nil
  then show ?case by (simp add: reach_start)
next
  case (snoc e es)
  then obtain t where "run_events step s0 es = Ok t" "step t e = Ok s"
    by (auto simp: run_events_append res_simps)
  with snoc.IH show ?case by (blast intro: reach_step)
qed

lemma reachable_run:
  assumes "reachable step s0 s"
  shows "\<exists>es. run_events step s0 es = Ok s"
  using assms
proof induction
  case reach_start
  show ?case by (rule exI[of _ "[]"]) simp
next
  case (reach_step s e t)
  then obtain es where "run_events step s0 es = Ok s" by blast
  with reach_step.hyps(2) have "run_events step s0 (es @ [e]) = Ok t"
    by (simp add: run_events_append)
  then show ?case by blast
qed

text \<open>The contract of a component driven by events: every event that returns
  keeps the invariant.\<close>

locale state_machine =
  fixes step :: "'s \<Rightarrow> 'e \<Rightarrow> 's res" and inv :: "'s \<Rightarrow> bool"
  assumes step_inv: "inv s \<Longrightarrow> step s e = Ok t \<Longrightarrow> inv t"
begin

lemma run_inv: "inv s \<Longrightarrow> run_events step s es = Ok t \<Longrightarrow> inv t"
  by (induction es arbitrary: s) (auto simp: res_simps dest: step_inv)

lemma reachable_inv: "reachable step s0 s \<Longrightarrow> inv s0 \<Longrightarrow> inv s"
  by (induction rule: reachable.induct) (auto dest: step_inv)

end

text \<open>A component that, in addition, handles every event of a kind: no assertion
  fires, nothing is thrown and nothing is undefined.\<close>

locale total_machine = state_machine step inv
  for step :: "'s \<Rightarrow> 'e \<Rightarrow> 's res" and inv :: "'s \<Rightarrow> bool" +
  fixes ok :: "'e \<Rightarrow> bool"
  assumes step_ok: "inv s \<Longrightarrow> ok e \<Longrightarrow> \<exists>t. step s e = Ok t"
begin

lemma run_ok:
  assumes "inv s" "\<forall>e \<in> set es. ok e"
  shows "\<exists>t. run_events step s es = Ok t \<and> inv t"
  using assms
proof (induction es arbitrary: s)
  case Nil
  then show ?case by simp
next
  case (Cons e es)
  then obtain t where t: "step s e = Ok t"
    using step_ok[of s e] by auto
  with Cons.prems(1) have "inv t" by (rule step_inv)
  with Cons t show ?case by simp
qed

end


section \<open>Containers searched by a key\<close>

text \<open>\<open>std::find_if\<close> over a vector: the first element that satisfies the
  predicate, or \<open>end()\<close>.\<close>

fun find_first :: "('a \<Rightarrow> bool) \<Rightarrow> 'a list \<Rightarrow> 'a option" where
  "find_first p [] = None"
| "find_first p (x # xs) = (if p x then Some x else find_first p xs)"

text \<open>\<open>std::find_if\<close> as an index.\<close>

fun find_index :: "('a \<Rightarrow> bool) \<Rightarrow> 'a list \<Rightarrow> nat option" where
  "find_index p [] = None"
| "find_index p (x # xs) = (if p x then Some 0 else map_option Suc (find_index p xs))"

definition erase_at :: "nat \<Rightarrow> 'a list \<Rightarrow> 'a list" where
  "erase_at i xs = take i xs @ drop (Suc i) xs"

lemma find_first_Some:
  "find_first p xs = Some x \<Longrightarrow> x \<in> set xs \<and> p x"
  by (induction xs) (auto split: if_splits)

lemma find_first_None: "find_first p xs = None \<longleftrightarrow> (\<forall>x \<in> set xs. \<not> p x)"
  by (induction xs) auto

lemma find_index_Some:
  "find_index p xs = Some i \<Longrightarrow> i < length xs \<and> p (xs ! i) \<and> (\<forall>j < i. \<not> p (xs ! j))"
proof (induction xs arbitrary: i)
  case Nil
  then show ?case by simp
next
  case (Cons x xs)
  then show ?case
    by (auto split: if_splits simp: nth_Cons split: nat.splits)
qed

lemma find_index_None: "find_index p xs = None \<longleftrightarrow> (\<forall>x \<in> set xs. \<not> p x)"
  by (induction xs) auto

lemma find_index_first:
  "find_first p xs = map_option (\<lambda>i. xs ! i) (find_index p xs)"
  by (induction xs) (auto simp: option.map_comp comp_def)

lemma length_erase_at [simp]: "i < length xs \<Longrightarrow> length (erase_at i xs) = length xs - 1"
  by (simp add: erase_at_def)

lemma set_erase_at: "set (erase_at i xs) \<subseteq> set xs"
  by (auto simp: erase_at_def dest: in_set_takeD in_set_dropD)

lemma map_erase_at: "map f (erase_at i xs) = erase_at i (map f xs)"
  by (simp add: erase_at_def take_map drop_map)

lemma erase_at_split:
  "i < length xs \<Longrightarrow> xs = take i xs @ xs ! i # drop (Suc i) xs"
  by (simp add: id_take_nth_drop)

lemma distinct_erase_at:
  assumes "distinct xs"
  shows "distinct (erase_at i xs)"
  using assms set_take_disj_set_drop_if_distinct[of xs i "Suc i"]
  by (auto simp: erase_at_def)

lemma set_erase_at_distinct:
  assumes "distinct xs" "i < length xs"
  shows "set (erase_at i xs) = set xs - {xs ! i}"
proof -
  from assms(2) have x: "xs = take i xs @ xs ! i # drop (Suc i) xs"
    by (rule erase_at_split)
  with assms(1) have "distinct (take i xs @ xs ! i # drop (Suc i) xs)" by simp
  then have "xs ! i \<notin> set (erase_at i xs)" by (auto simp: erase_at_def)
  moreover from x have "set xs = set (take i xs @ xs ! i # drop (Suc i) xs)"
    by simp
  then have "set xs = insert (xs ! i) (set (erase_at i xs))"
    by (simp add: erase_at_def)
  ultimately show ?thesis by blast
qed

lemma bex_list_update:
  assumes "i < length xs"
  shows "(\<exists>x \<in> set (xs[i := y]). P x) \<longleftrightarrow> P y \<or> (\<exists>j < length xs. j \<noteq> i \<and> P (xs ! j))"
proof
  assume "\<exists>x \<in> set (xs[i := y]). P x"
  then obtain j where "j < length xs" "P (xs[i := y] ! j)" by (auto simp: in_set_conv_nth)
  then show "P y \<or> (\<exists>j < length xs. j \<noteq> i \<and> P (xs ! j))"
    by (cases "j = i") auto
next
  assume "P y \<or> (\<exists>j < length xs. j \<noteq> i \<and> P (xs ! j))"
  then show "\<exists>x \<in> set (xs[i := y]). P x"
  proof
    assume "P y"
    with assms show ?thesis by (auto intro: set_update_memI)
  next
    assume "\<exists>j < length xs. j \<noteq> i \<and> P (xs ! j)"
    then obtain j where "j < length xs" "j \<noteq> i" "P (xs ! j)" by blast
    then show ?thesis by (metis length_list_update nth_list_update_neq nth_mem)
  qed
qed

lemma nth_erase_at:
  "i < length xs \<Longrightarrow> j < length xs - 1 \<Longrightarrow>
   erase_at i xs ! j = xs ! (if j < i then j else Suc j)"
  by (auto simp: erase_at_def nth_append min_def)

lemma bex_erase_at:
  assumes "i < length xs"
  shows "(\<exists>x \<in> set (erase_at i xs). P x) \<longleftrightarrow> (\<exists>j < length xs. j \<noteq> i \<and> P (xs ! j))"
proof
  assume "\<exists>x \<in> set (erase_at i xs). P x"
  then obtain j where j: "j < length xs - 1" "P (erase_at i xs ! j)"
    using assms by (auto simp: in_set_conv_nth)
  then show "\<exists>j < length xs. j \<noteq> i \<and> P (xs ! j)"
    using assms by (intro exI[of _ "if j < i then j else Suc j"]) (auto simp: nth_erase_at)
next
  assume "\<exists>j < length xs. j \<noteq> i \<and> P (xs ! j)"
  then obtain j where j: "j < length xs" "j \<noteq> i" "P (xs ! j)" by blast
  let ?k = "if j < i then j else j - 1"
  from assms j have "?k < length (erase_at i xs)" "P (erase_at i xs ! ?k)"
    by (auto simp: nth_erase_at)
  then show "\<exists>x \<in> set (erase_at i xs). P x" by (meson nth_mem)
qed

end
