(* ===== verification/Json_Message.thy ===== *)
theory Json_Message
  imports Prelude
begin

text \<open>
  Signaling messages and their JSON encoding
  (src/fubble/signaling/json\_message.cpp and the message structs beside it).

  The JSON library (nlohmann) is not part of the repository. Its values and
  operations are the record \<open>json_ops\<close>, an argument of everything that uses them;
  \<open>json_laws\<close> states what its documentation promises. The text on the wire has a
  type of its own, since the code hands it from \<open>dump\<close> to \<open>parse\<close> unseen.
  \<open>plain_json\<close> is a concrete value type that meets the laws.
\<close>

section \<open>The JSON library\<close>

record ('t, 'j) json_ops =
  json_parse :: "'t \<Rightarrow> 'j res"
  json_dump :: "'j \<Rightarrow> 't res"
  json_at :: "'j \<Rightarrow> string \<Rightarrow> 'j res"
  json_eq :: "'j \<Rightarrow> string \<Rightarrow> bool"
  json_to_string :: "'j \<Rightarrow> string res"
  json_to_int :: "'j \<Rightarrow> 32 word res"
  json_of_string :: "string \<Rightarrow> 'j"
  json_of_int :: "32 word \<Rightarrow> 'j"
  json_object :: "(string \<times> 'j) list \<Rightarrow> 'j"

definition json_laws :: "('t, 'j) json_ops \<Rightarrow> bool" where
  "json_laws J \<longleftrightarrow>
     (\<forall>j t. json_dump J j = Ok t \<longrightarrow> json_parse J t = Ok j) \<and>
     (\<forall>kvs k v. distinct (map fst kvs) \<longrightarrow> map_of kvs k = Some v \<longrightarrow>
        json_at J (json_object J kvs) k = Ok v) \<and>
     (\<forall>s t. json_eq J (json_of_string J s) t \<longleftrightarrow> s = t) \<and>
     (\<forall>s. json_to_string J (json_of_string J s) = Ok s) \<and>
     (\<forall>i. json_to_int J (json_of_int J i) = Ok i)"

datatype json =
    JNull
  | JBool bool
  | JInt int
  | JString string
  | JArray "json list"
  | JObject "(string \<times> json) list"

fun plain_at :: "json \<Rightarrow> string \<Rightarrow> json res" where
  "plain_at (JObject kvs) k = Ok (case map_of kvs k of Some v \<Rightarrow> v | None \<Rightarrow> JNull)"
| "plain_at JNull k = Ok JNull"
| "plain_at _ k = Throw Json_error"

fun plain_to_string :: "json \<Rightarrow> string res" where
  "plain_to_string (JString s) = Ok s"
| "plain_to_string _ = Throw Json_error"

fun plain_to_int :: "json \<Rightarrow> 32 word res" where
  "plain_to_int (JInt i) = Ok (word_of_int i)"
| "plain_to_int (JBool b) = Ok (if b then 1 else 0)"
| "plain_to_int _ = Throw Json_error"

definition plain_json :: "(json, json) json_ops" where
  "plain_json = \<lparr> json_parse = Ok, json_dump = Ok, json_at = plain_at,
     json_eq = (\<lambda>j s. j = JString s), json_to_string = plain_to_string,
     json_to_int = plain_to_int, json_of_string = JString,
     json_of_int = (\<lambda>i. JInt (sint i)), json_object = JObject \<rparr>"

lemma plain_json_laws: "json_laws plain_json"
  by (simp add: json_laws_def plain_json_def)


section \<open>Messages\<close>

record offer = offer_sdp :: string

record answer = answer_sdp :: string

record ice_candidate =
  mlineindex :: "32 word"
  mid :: string
  ice_sdp :: string

record registration =
  key :: string
  reconnect_token :: string

datatype message =
    Offer offer
  | Answer answer
  | Ice_candidate ice_candidate
  | Create_offer
  | Registration registration
  | Want_to_negotiate


section \<open>Parsing\<close>

definition parse_offer :: "('t, 'j) json_ops \<Rightarrow> 'j \<Rightarrow> message res" where
  "parse_offer J j =
     rbind (json_at J j ''sdp'') (\<lambda>v. rbind (json_to_string J v) (\<lambda>s.
     Ok (Offer \<lparr> offer_sdp = s \<rparr>)))"

definition parse_answer :: "('t, 'j) json_ops \<Rightarrow> 'j \<Rightarrow> message res" where
  "parse_answer J j =
     rbind (json_at J j ''sdp'') (\<lambda>v. rbind (json_to_string J v) (\<lambda>s.
     Ok (Answer \<lparr> answer_sdp = s \<rparr>)))"

definition parse_ice_candidate :: "('t, 'j) json_ops \<Rightarrow> 'j \<Rightarrow> message res" where
  "parse_ice_candidate J j =
     rbind (json_at J j ''sdp'') (\<lambda>v. rbind (json_to_string J v) (\<lambda>s.
     rbind (json_at J j ''mlineindex'') (\<lambda>v. rbind (json_to_int J v) (\<lambda>i.
     rbind (json_at J j ''mid'') (\<lambda>v. rbind (json_to_string J v) (\<lambda>m.
     Ok (Ice_candidate \<lparr> mlineindex = i, mid = m, ice_sdp = s \<rparr>)))))))"

definition parse_registration :: "('t, 'j) json_ops \<Rightarrow> 'j \<Rightarrow> message res" where
  "parse_registration J j =
     rbind (json_at J j ''key'') (\<lambda>v. rbind (json_to_string J v) (\<lambda>k.
     rbind (json_at J j ''token'') (\<lambda>v. rbind (json_to_string J v) (\<lambda>t.
     Ok (Registration \<lparr> key = k, reconnect_token = t \<rparr>)))))"

definition parse :: "('t, 'j) json_ops \<Rightarrow> 't \<Rightarrow> message res" where
  "parse J t =
     rbind (json_parse J t) (\<lambda>j.
     rbind (json_at J j ''type'') (\<lambda>ty.
       if json_eq J ty ''offer'' then parse_offer J j
       else if json_eq J ty ''answer'' then parse_answer J j
       else if json_eq J ty ''ice_candidate'' then parse_ice_candidate J j
       else if json_eq J ty ''create_offer'' then Ok Create_offer
       else if json_eq J ty ''registration'' then parse_registration J j
       else if json_eq J ty ''want_to_negotiate'' then Ok Want_to_negotiate
       else rbind (json_to_string J ty) (\<lambda>_. Throw Runtime_error)))"


section \<open>Serialising\<close>

fun serialize :: "('t, 'j) json_ops \<Rightarrow> build \<Rightarrow> message \<Rightarrow> 't res" where
  "serialize J b (Offer o') =
     json_dump J (json_object J [(''type'', json_of_string J ''offer''),
       (''sdp'', json_of_string J (offer_sdp o'))])"
| "serialize J b (Answer a) =
     json_dump J (json_object J [(''type'', json_of_string J ''answer''),
       (''sdp'', json_of_string J (answer_sdp a))])"
| "serialize J b (Ice_candidate c) =
     json_dump J (json_object J [(''type'', json_of_string J ''ice_candidate''),
       (''sdp'', json_of_string J (ice_sdp c)),
       (''mlineindex'', json_of_int J (mlineindex c)),
       (''mid'', json_of_string J (mid c))])"
| "serialize J b Create_offer =
     json_dump J (json_object J [(''type'', json_of_string J ''create_offer'')])"
| "serialize J b (Registration r) =
     rbind (boost_assert b (key r \<noteq> [])) (\<lambda>_.
     rbind (boost_assert b (reconnect_token r \<noteq> [])) (\<lambda>_.
     json_dump J (json_object J [(''type'', json_of_string J ''registration''),
       (''key'', json_of_string J (key r)),
       (''token'', json_of_string J (reconnect_token r))])))"
| "serialize J b Want_to_negotiate =
     json_dump J (json_object J [(''type'', json_of_string J ''want_to_negotiate'')])"

lemma json_lawsD:
  assumes "json_laws J"
  shows "json_dump J j = Ok t \<Longrightarrow> json_parse J t = Ok j"
    and "distinct (map fst kvs) \<Longrightarrow> map_of kvs k = Some v \<Longrightarrow>
      json_at J (json_object J kvs) k = Ok v"
    and "json_eq J (json_of_string J s) s' \<longleftrightarrow> s = s'"
    and "json_to_string J (json_of_string J s) = Ok s"
    and "json_to_int J (json_of_int J i) = Ok i"
  using assms by (auto simp: json_laws_def)

lemmas parse_defs =
  parse_def parse_offer_def parse_answer_def parse_ice_candidate_def parse_registration_def

text \<open>C34. Decoding what the encoder produced gives the message back: for every
  message kind, whatever the field contents, if \<open>serialize\<close> returns a text then
  \<open>parse\<close> of that text is the message.\<close>

theorem parse_serialize:
  assumes "json_laws J" "serialize J b m = Ok t"
  shows "parse J t = Ok m"
proof (cases m)
  case (Registration r)
  with assms(2) have "json_dump J (json_object J
      [(''type'', json_of_string J ''registration''), (''key'', json_of_string J (key r)),
       (''token'', json_of_string J (reconnect_token r))]) = Ok t"
    by (simp add: res_simps)
  then show ?thesis
    by (simp add: Registration parse_defs json_lawsD[OF assms(1)])
qed (use assms(2) in \<open>simp_all add: parse_defs json_lawsD[OF assms(1)]\<close>)

lemma parse_serialize_witness:
  "parse plain_json (JObject [(''type'', JString ''ice_candidate''), (''sdp'', JString ''s''),
     (''mlineindex'', JInt (- 1)), (''mid'', JString ''m'')])
   = Ok (Ice_candidate \<lparr> mlineindex = - 1, mid = ''m'', ice_sdp = ''s'' \<rparr>)"
  by (rule parse_serialize[OF plain_json_laws, where b = Debug])
    (simp add: plain_json_def)

lemma serialize_release:
  "serialize J Debug m = Ok t \<Longrightarrow> serialize J Release m = Ok t"
  by (cases m) (auto simp: res_simps)

text \<open>A registration with an empty key or token is refused in a Debug build
  only.\<close>

lemma serialize_empty_key:
  "key r = [] \<or> reconnect_token r = [] \<Longrightarrow> serialize J Debug (Registration r) = Assert_failed"
  by (auto simp: boost_assert_def)

end
