(* ===== verification/Device.thy ===== *)
theory Device
  imports Json_Message
begin

text \<open>
  The relay half of the signaling server: class \<open>signaling::device::device\<close>
  (src/fubble/signaling/device/device.cpp).

  Devices are heap objects reached through shared and weak pointers, so the model
  keeps a store \<open>devs\<close> from object ids to the live objects; locking a weak pointer
  is a lookup. A device sends over its connection; \<open>sent\<close> logs those messages in
  order, and \<open>ws_alive c\<close> says that the connection still owns its websocket (after
  \<open>close\<close> it does not, and sending would go through a null pointer).
  The record can be extended, so the operations apply to the registration
  handler's state as well.
\<close>

section \<open>State\<close>

record device =
  connection :: nat
  partner :: "nat option"
  wants_to_negotiate :: bool
  active_negotiating :: bool
  token :: string
  offer_cache :: "offer option"
  answer_cache :: "answer option"
  candidates_cache :: "ice_candidate list"

record hub =
  devs :: "nat \<Rightarrow> device option"
  ws_alive :: "nat \<Rightarrow> bool"
  sent :: "(nat \<times> message) list"

definition make_device :: "nat \<Rightarrow> string \<Rightarrow> device" where
  "make_device c t = \<lparr> connection = c, partner = None, wants_to_negotiate = False,
     active_negotiating = False, token = t, offer_cache = None, answer_cache = None,
     candidates_cache = [] \<rparr>"

definition upd_dev :: "nat \<Rightarrow> (device \<Rightarrow> device) \<Rightarrow> 'a hub_scheme \<Rightarrow> 'a hub_scheme" where
  "upd_dev d f w = w\<lparr>devs := (devs w)(d := map_option f (devs w d))\<rparr>"

definition with_dev ::
    "nat \<Rightarrow> (device \<Rightarrow> 'a hub_scheme \<Rightarrow> 'a hub_scheme res) \<Rightarrow> 'a hub_scheme \<Rightarrow> 'a hub_scheme res" where
  "with_dev d f w = (case devs w d of None \<Rightarrow> Undefined | Some x \<Rightarrow> f x w)"

definition lock_partner :: "'a hub_scheme \<Rightarrow> device \<Rightarrow> (nat \<times> device) option" where
  "lock_partner w x =
     (case partner x of None \<Rightarrow> None | Some p \<Rightarrow> map_option (Pair p) (devs w p))"

definition is_active :: "'a hub_scheme \<Rightarrow> nat \<Rightarrow> bool" where
  "is_active w d = (case devs w d of None \<Rightarrow> False | Some x \<Rightarrow> active_negotiating x)"


section \<open>Sending\<close>

definition conn_send :: "nat \<Rightarrow> message \<Rightarrow> 'a hub_scheme \<Rightarrow> 'a hub_scheme res" where
  "conn_send c m w = (if ws_alive w c then Ok (w\<lparr>sent := sent w @ [(c, m)]\<rparr>) else Undefined)"

definition send_on :: "nat \<Rightarrow> message \<Rightarrow> 'a hub_scheme \<Rightarrow> 'a hub_scheme res" where
  "send_on d m = with_dev d (\<lambda>x. conn_send (connection x) m)"

definition send_offer :: "nat \<Rightarrow> offer \<Rightarrow> 'a hub_scheme \<Rightarrow> 'a hub_scheme res" where
  "send_offer d x = send_on d (Offer x)"

definition send_ice_candidate :: "nat \<Rightarrow> ice_candidate \<Rightarrow> 'a hub_scheme \<Rightarrow> 'a hub_scheme res" where
  "send_ice_candidate d x = send_on d (Ice_candidate x)"

definition negotiate :: "nat \<Rightarrow> 'a hub_scheme \<Rightarrow> 'a hub_scheme res" where
  "negotiate d = with_dev d (\<lambda>x w.
     if \<not> wants_to_negotiate x then Ok w
     else if active_negotiating x then Ok w
     else case lock_partner w x of
       None \<Rightarrow> Ok w
     | Some (p, y) \<Rightarrow>
         if active_negotiating y then Ok w
         else conn_send (connection x) Create_offer
           (upd_dev d (\<lambda>x. x\<lparr>active_negotiating := True, wants_to_negotiate := False\<rparr>) w))"

definition send_answer :: "build \<Rightarrow> nat \<Rightarrow> answer \<Rightarrow> 'a hub_scheme \<Rightarrow> 'a hub_scheme res" where
  "send_answer b d a = block
    [send_on d (Answer a),
     assert_stmt b (\<lambda>w. is_active w d),
     \<lambda>w. Ok (upd_dev d (\<lambda>x. x\<lparr>active_negotiating := False\<rparr>) w),
     negotiate d,
     with_dev d (\<lambda>x w.
       if active_negotiating x then Ok w
       else case lock_partner w x of
         None \<Rightarrow> if b = Debug then Assert_failed else Ok w
       | Some (p, y) \<Rightarrow> negotiate p w)]"

text \<open>With no partner, \<open>send_cache\<close> dereferences null unless all caches are empty.\<close>

definition send_cache :: "build \<Rightarrow> nat \<Rightarrow> 'a hub_scheme \<Rightarrow> 'a hub_scheme res" where
  "send_cache b d = with_dev d (\<lambda>x w.
     case lock_partner w x of
       None \<Rightarrow>
         if b = Debug then Assert_failed
         else if candidates_cache x = [] \<and> offer_cache x = None \<and> answer_cache x = None
         then Ok w else Undefined
     | Some (p, y) \<Rightarrow> block
         [foreach (candidates_cache x) (send_ice_candidate p),
          \<lambda>w. Ok (upd_dev d (\<lambda>x. x\<lparr>candidates_cache := []\<rparr>) w),
          case offer_cache x of None \<Rightarrow> Ok | Some offer' \<Rightarrow> send_offer p offer',
          \<lambda>w. Ok (upd_dev d (\<lambda>x. x\<lparr>offer_cache := None\<rparr>) w),
          case answer_cache x of None \<Rightarrow> Ok | Some answer' \<Rightarrow> send_answer b p answer',
          \<lambda>w. Ok (upd_dev d (\<lambda>x. x\<lparr>answer_cache := None\<rparr>) w)] w)"


section \<open>Partners\<close>

definition set_partner :: "build \<Rightarrow> nat \<Rightarrow> nat \<Rightarrow> 'a hub_scheme \<Rightarrow> 'a hub_scheme res" where
  "set_partner b d p = block
    [assert_stmt b (\<lambda>w. devs w p \<noteq> None),
     \<lambda>w. Ok (upd_dev d (\<lambda>x. x\<lparr>partner := Some p\<rparr>) w),
     send_cache b d,
     negotiate d]"

definition reset_partner :: "nat \<Rightarrow> 'a hub_scheme \<Rightarrow> 'a hub_scheme" where
  "reset_partner d w = upd_dev d (\<lambda>x.
     if \<not> active_negotiating x then x\<lparr>partner := None\<rparr>
     else x\<lparr>partner := None, active_negotiating := False, wants_to_negotiate := True\<rparr>) w"


section \<open>Messages from the connection\<close>

definition on_want_to_negotiate :: "nat \<Rightarrow> 'a hub_scheme \<Rightarrow> 'a hub_scheme res" where
  "on_want_to_negotiate d = block
    [\<lambda>w. Ok (upd_dev d (\<lambda>x. x\<lparr>wants_to_negotiate := True\<rparr>) w),
     with_dev d (\<lambda>x w. case lock_partner w x of None \<Rightarrow> Ok w | Some _ \<Rightarrow> negotiate d w)]"

definition on_answer :: "build \<Rightarrow> nat \<Rightarrow> answer \<Rightarrow> 'a hub_scheme \<Rightarrow> 'a hub_scheme res" where
  "on_answer b d a = with_dev d (\<lambda>x w.
     case lock_partner w x of
       Some (p, y) \<Rightarrow> send_answer b p a w
     | None \<Rightarrow>
         if b = Debug \<and> answer_cache x \<noteq> None then Assert_failed
         else Ok (upd_dev d (\<lambda>x. x\<lparr>answer_cache := Some a\<rparr>) w))"

definition on_offer :: "build \<Rightarrow> nat \<Rightarrow> offer \<Rightarrow> 'a hub_scheme \<Rightarrow> 'a hub_scheme res" where
  "on_offer b d f = with_dev d (\<lambda>x w.
     case lock_partner w x of
       Some (p, y) \<Rightarrow> send_offer p f w
     | None \<Rightarrow>
         if b = Debug \<and> offer_cache x \<noteq> None then Assert_failed
         else Ok (upd_dev d (\<lambda>x. x\<lparr>offer_cache := Some f\<rparr>) w))"

definition on_ice_candidate :: "nat \<Rightarrow> ice_candidate \<Rightarrow> 'a hub_scheme \<Rightarrow> 'a hub_scheme res" where
  "on_ice_candidate d c = with_dev d (\<lambda>x w.
     case lock_partner w x of
       Some (p, y) \<Rightarrow> send_ice_candidate p c w
     | None \<Rightarrow> Ok (upd_dev d (\<lambda>x. x\<lparr>candidates_cache := candidates_cache x @ [c]\<rparr>) w))"


section \<open>What the operations leave alone\<close>

text \<open>\<open>evolves S w w'\<close>: only negotiation flags and caches of the devices in \<open>S\<close> and
  the log changed; identity, connection, token and partner did not.\<close>

definition same_identity :: "device \<Rightarrow> device \<Rightarrow> bool" where
  "same_identity x y \<longleftrightarrow> connection x = connection y \<and> token x = token y \<and> partner x = partner y"

definition evolves :: "nat set \<Rightarrow> 'a hub_scheme \<Rightarrow> 'a hub_scheme \<Rightarrow> bool" where
  "evolves S w w' \<longleftrightarrow> w' = w\<lparr>devs := devs w', sent := sent w'\<rparr> \<and>
     (\<forall>d. rel_option same_identity (devs w d) (devs w' d)) \<and>
     (\<forall>d. d \<notin> S \<longrightarrow> devs w' d = devs w d)"

lemma same_identity_refl [simp]: "same_identity x x"
  by (simp add: same_identity_def)

lemma evolves_refl [simp, intro]: "evolves S w w"
  by (auto simp: evolves_def option.rel_refl)

lemma evolves_trans:
  assumes "evolves S w w'" "evolves S w' w''"
  shows "evolves S w w''"
  unfolding evolves_def
proof (intro conjI allI impI)
  from assms have "w' = w\<lparr>devs := devs w', sent := sent w'\<rparr>"
    "w'' = w'\<lparr>devs := devs w'', sent := sent w''\<rparr>" by (auto simp: evolves_def)
  then show "w'' = w\<lparr>devs := devs w'', sent := sent w''\<rparr>"
    by (metis (no_types, lifting) hub.fold_congs(1) hub.surjective hub.update_convs(1,3))
  fix d
  from assms have "rel_option same_identity (devs w d) (devs w' d)"
    "rel_option same_identity (devs w' d) (devs w'' d)" by (auto simp: evolves_def)
  then show "rel_option same_identity (devs w d) (devs w'' d)"
    by (cases "devs w d"; cases "devs w' d"; cases "devs w'' d") (auto simp: same_identity_def)
  assume "d \<notin> S"
  with assms show "devs w'' d = devs w d" by (simp add: evolves_def)
qed

lemma evolves_mono: "evolves S w w' \<Longrightarrow> S \<subseteq> T \<Longrightarrow> evolves T w w'"
  by (auto simp: evolves_def)

lemma evolves_upd:
  "(\<And>x. same_identity x (f x)) \<Longrightarrow> d \<in> S \<Longrightarrow> evolves S w (upd_dev d f w)"
  by (auto simp: evolves_def upd_dev_def option.rel_map intro!: option.rel_refl_strong)

lemma evolves_send: "conn_send c m w = Ok w' \<Longrightarrow> evolves S w w'"
  by (auto simp: evolves_def conn_send_def option.rel_refl split: if_splits)

lemma evolves_alive: "evolves S w w' \<Longrightarrow> devs w' d = None \<longleftrightarrow> devs w d = None"
  by (auto simp: evolves_def option_rel_Some1 dest!: spec[of _ d]
      elim!: option.rel_cases)


section \<open>Pairs of devices\<close>

text \<open>\<open>pair_ok\<close>: two live devices that are each other's partner and do not both
  negotiate. \<open>pair_served\<close>: whenever one of them wants to negotiate, one of them is
  negotiating, so the wish will be taken up by the next answer.\<close>

definition pair_ok :: "'a hub_scheme \<Rightarrow> nat \<Rightarrow> nat \<Rightarrow> bool" where
  "pair_ok w a b \<longleftrightarrow> a \<noteq> b \<and> (case (devs w a, devs w b) of
     (Some x, Some y) \<Rightarrow> partner x = Some b \<and> partner y = Some a \<and>
       \<not> (active_negotiating x \<and> active_negotiating y)
   | _ \<Rightarrow> False)"

definition pair_served :: "'a hub_scheme \<Rightarrow> nat \<Rightarrow> nat \<Rightarrow> bool" where
  "pair_served w a b \<longleftrightarrow> (case (devs w a, devs w b) of
     (Some x, Some y) \<Rightarrow> wants_to_negotiate x \<or> wants_to_negotiate y \<longrightarrow>
       active_negotiating x \<or> active_negotiating y
   | _ \<Rightarrow> True)"

lemma pair_ok_sym: "pair_ok w a b \<longleftrightarrow> pair_ok w b a"
  by (auto simp: pair_ok_def split: option.splits)

lemma pair_served_sym: "pair_served w a b \<longleftrightarrow> pair_served w b a"
  by (auto simp: pair_served_def split: option.splits)

lemma pair_okE:
  assumes "pair_ok w a b"
  obtains x y where "a \<noteq> b" "devs w a = Some x" "devs w b = Some y"
    "partner x = Some b" "partner y = Some a" "\<not> (active_negotiating x \<and> active_negotiating y)"
  using assms by (auto simp: pair_ok_def split: option.splits)

lemmas device_op_simps =
  with_dev_def lock_partner_def is_active_def upd_dev_def conn_send_def assert_stmt_def

lemmas pair_simps = pair_ok_def pair_served_def

lemma pair_sent [simp]:
  "pair_ok (w\<lparr>sent := l\<rparr>) a b = pair_ok w a b"
  "pair_served (w\<lparr>sent := l\<rparr>) a b = pair_served w a b"
  "is_active (w\<lparr>sent := l\<rparr>) a = is_active w a"
  by (simp_all add: pair_ok_def pair_served_def is_active_def split: option.splits)

text \<open>The relation between the states before and after an operation on a pair.\<close>

definition pair_step :: "nat \<Rightarrow> nat \<Rightarrow> 'a hub_scheme \<Rightarrow> 'a hub_scheme \<Rightarrow> bool" where
  "pair_step a b w w' \<longleftrightarrow> pair_ok w' a b \<and> evolves {a, b} w w'"

lemma pair_step_trans:
  "pair_step a b w w' \<Longrightarrow> pair_step a b w' w'' \<Longrightarrow> pair_step a b w w''"
  by (auto simp: pair_step_def intro: evolves_trans)

lemma pair_step_refl: "pair_ok w a b \<Longrightarrow> pair_step a b w w"
  by (simp add: pair_step_def)

lemma pair_step_sym: "pair_step a b w w' \<longleftrightarrow> pair_step b a w w'"
  by (simp add: pair_step_def pair_ok_sym[of _ a b] insert_commute)

lemma conn_send_pair:
  "pair_ok w a b \<Longrightarrow> conn_send c m w = Ok w' \<Longrightarrow> pair_step a b w w'"
  by (auto simp: pair_step_def evolves_send) (auto simp: conn_send_def split: if_splits)

lemma send_on_pair:
  "pair_ok w a b \<Longrightarrow> send_on d m w = Ok w' \<Longrightarrow> pair_step a b w w'"
  by (auto simp: send_on_def with_dev_def conn_send_pair split: option.splits)

lemma upd_dev_pair:
  assumes "pair_ok w a b" "d = a \<or> d = b" "\<And>x. same_identity x (f x)"
    and "\<And>x. active_negotiating (f x) \<Longrightarrow> active_negotiating x"
  shows "pair_step a b w (upd_dev d f w)"
proof -
  have "pair_ok (upd_dev d f w) a b"
    using assms by (elim pair_okE) (auto simp: pair_ok_def upd_dev_def same_identity_def)
  moreover have "evolves {a, b} w (upd_dev d f w)"
    using assms(2,3) by (intro evolves_upd) auto
  ultimately show ?thesis by (simp add: pair_step_def)
qed

lemma negotiate_cases:
  assumes "pair_ok w a b"
  obtains x y where "devs w a = Some x" "devs w b = Some y"
    "negotiate a w = (if wants_to_negotiate x \<and> \<not> active_negotiating x \<and> \<not> active_negotiating y
       then conn_send (connection x) Create_offer
         (upd_dev a (\<lambda>x. x\<lparr>active_negotiating := True, wants_to_negotiate := False\<rparr>) w)
       else Ok w)"
  using assms
  by (elim pair_okE) (auto simp: negotiate_def with_dev_def lock_partner_def)

lemma negotiate_pair:
  assumes "pair_ok w a b" "negotiate a w = Ok w'"
  shows "pair_step a b w w'"
proof -
  let ?f = "\<lambda>x. x\<lparr>active_negotiating := True, wants_to_negotiate := False\<rparr> :: device"
  from negotiate_cases[OF assms(1)] obtain x y where xy: "devs w a = Some x" "devs w b = Some y"
    and n: "negotiate a w = (if wants_to_negotiate x \<and> \<not> active_negotiating x \<and>
       \<not> active_negotiating y then conn_send (connection x) Create_offer (upd_dev a ?f w) else Ok w)"
    by blast
  show ?thesis
  proof (cases "wants_to_negotiate x \<and> \<not> active_negotiating x \<and> \<not> active_negotiating y")
    case True
    have "pair_ok (upd_dev a ?f w) a b"
      using assms(1) xy True by (auto simp: pair_ok_def upd_dev_def)
    moreover have "evolves {a, b} w (upd_dev a ?f w)"
      by (intro evolves_upd) (auto simp: same_identity_def)
    ultimately have "pair_step a b w (upd_dev a ?f w)" by (simp add: pair_step_def)
    moreover from assms(2) n True
    have "conn_send (connection x) Create_offer (upd_dev a ?f w) = Ok w'" by simp
    then have "pair_step a b (upd_dev a ?f w) w'"
      by (rule conn_send_pair[OF \<open>pair_ok (upd_dev a ?f w) a b\<close>])
    ultimately show ?thesis by (rule pair_step_trans)
  next
    case False
    with assms n have "w' = w" by simp
    with assms(1) show ?thesis by (simp add: pair_step_refl)
  qed
qed

text \<open>After \<open>negotiate\<close> its device has no wish left unless one side negotiates; a
  device that does not want to is not served by it, so a wish of the partner
  remains a wish.\<close>

definition wish_served :: "'a hub_scheme \<Rightarrow> nat \<Rightarrow> nat \<Rightarrow> bool" where
  "wish_served w a b \<longleftrightarrow> (\<forall>x. devs w a = Some x \<longrightarrow> wants_to_negotiate x \<longrightarrow>
     is_active w a \<or> is_active w b)"

lemma pair_served_wishes:
  "pair_ok w a b \<Longrightarrow> pair_served w a b \<longleftrightarrow> wish_served w a b \<and> wish_served w b a"
  by (elim pair_okE) (auto simp: pair_served_def wish_served_def is_active_def)

lemma negotiate_wish:
  assumes "pair_ok w a b" "negotiate a w = Ok w'"
  shows "wish_served w' a b"
  using assms(1)
proof (cases rule: negotiate_cases)
  case (1 x y)
  show ?thesis
  proof (cases "wants_to_negotiate x \<and> \<not> active_negotiating x \<and> \<not> active_negotiating y")
    case True
    with 1 assms(2) show ?thesis
      by (auto simp: conn_send_def upd_dev_def wish_served_def split: if_splits)
  next
    case False
    with 1 assms(2) have "w' = w" by auto
    with 1 False show ?thesis by (auto simp: wish_served_def is_active_def)
  qed
qed

lemma negotiate_active:
  assumes "pair_ok w a b" "negotiate a w = Ok w'"
  shows "is_active w d \<Longrightarrow> is_active w' d" "devs w' b = devs w b"
    "is_active w b \<Longrightarrow> w' = w"
  using assms(1)
  by (cases rule: negotiate_cases, use assms in \<open>auto simp: conn_send_def upd_dev_def is_active_def
      pair_ok_def split: if_splits option.splits\<close>)+

text \<open>Sending changes the log only.\<close>

lemma send_on_log: "send_on d m w = Ok w' \<Longrightarrow> \<exists>l. w' = w\<lparr>sent := l\<rparr>"
  by (auto simp: send_on_def with_dev_def conn_send_def split: option.splits if_splits)

lemma send_candidates_log:
  "foreach cs (send_ice_candidate p) w = Ok w' \<Longrightarrow> \<exists>l. w' = w\<lparr>sent := l\<rparr>"
proof (induction cs arbitrary: w)
  case Nil
  then show ?case by (auto intro: exI[of _ "sent w"])
next
  case (Cons c cs)
  then obtain v where v: "send_ice_candidate p c w = Ok v" "foreach cs (send_ice_candidate p) v = Ok w'"
    by (auto simp: res_simps)
  from send_on_log v(1) have "\<exists>l. v = w\<lparr>sent := l\<rparr>" by (auto simp: send_ice_candidate_def)
  with Cons.IH[OF v(2)] show ?case by auto
qed

lemma wish_served_sent [simp]: "wish_served (w\<lparr>sent := l\<rparr>) a b = wish_served w a b"
  by (simp add: wish_served_def)

lemma log_pair_step:
  assumes "pair_ok w a b" "\<exists>l. w' = w\<lparr>sent := l\<rparr>"
  shows "pair_step a b w w'" "wish_served w' b a = wish_served w b a"
  using assms by (auto simp: pair_step_def evolves_def option.rel_refl)

text \<open>Forwarding an answer ends the round: whatever was wanted is negotiated next.\<close>

lemma send_answer_pair:
  assumes "pair_ok w a b" "send_answer bd a ans w = Ok w'"
  shows "pair_step a b w w' \<and> pair_served w' a b"
proof -
  let ?f = "\<lambda>x. x\<lparr>active_negotiating := False\<rparr> :: device"
  from assms(2) obtain v u where v: "send_on a (Answer ans) w = Ok v"
    and u: "negotiate a (upd_dev a ?f v) = Ok u"
    and r: "with_dev a (\<lambda>x w. if active_negotiating x then Ok w else case lock_partner w x of
         None \<Rightarrow> if bd = Debug then Assert_failed else Ok w | Some (p, y) \<Rightarrow> negotiate p w) u = Ok w'"
    by (auto simp: send_answer_def res_simps)
  from send_on_pair[OF assms(1) v] have v1: "pair_step a b w v" .
  then have "pair_ok v a b" by (simp add: pair_step_def)
  then have f: "pair_step a b v (upd_dev a ?f v)"
    by (rule upd_dev_pair) (auto simp: same_identity_def)
  then have fo: "pair_ok (upd_dev a ?f v) a b" by (simp add: pair_step_def)
  from negotiate_pair[OF this u] have u1: "pair_step a b (upd_dev a ?f v) u" .
  then have uo: "pair_ok u a b" by (simp add: pair_step_def)
  from negotiate_wish[OF fo u] have wa: "wish_served u a b" .
  from v1 f u1 have wu: "pair_step a b w u" by (blast intro: pair_step_trans)
  show ?thesis
  proof (cases "is_active u a")
    case True
    with r uo have "w' = u" by (auto elim!: pair_okE simp: with_dev_def is_active_def)
    with True wu uo show ?thesis
      by (auto simp: pair_served_wishes wish_served_def)
  next
    case False
    with r uo have n: "negotiate b u = Ok w'"
      by (auto elim!: pair_okE simp: with_dev_def is_active_def lock_partner_def)
    from uo have uo': "pair_ok u b a" by (simp add: pair_ok_sym)
    from negotiate_pair[OF uo' n] have s: "pair_step a b u w'" by (simp add: pair_step_sym)
    from negotiate_wish[OF uo' n] have "wish_served w' b a" .
    moreover from negotiate_active[OF uo' n] wa have "wish_served w' a b"
      by (auto simp: wish_served_def)
    moreover from s have "pair_ok w' a b" by (simp add: pair_step_def)
    ultimately show ?thesis using pair_step_trans[OF wu s] by (simp add: pair_served_wishes)
  qed
qed

text \<open>Replaying the cache of \<open>a\<close> to its partner \<open>b\<close>.\<close>

lemma upd_dev_wish:
  "(\<And>x. wants_to_negotiate (f x) = wants_to_negotiate x) \<Longrightarrow>
   (\<And>x. active_negotiating (f x) = active_negotiating x) \<Longrightarrow>
   wish_served (upd_dev d f w) a b = wish_served w a b"
  by (auto simp: wish_served_def upd_dev_def is_active_def split: option.splits)

lemma clear_cache_step:
  assumes "pair_ok w a b"
    and "f = (\<lambda>x. x\<lparr>candidates_cache := []\<rparr>) \<or> f = (\<lambda>x. x\<lparr>offer_cache := None\<rparr>) \<or>
      f = (\<lambda>x. x\<lparr>answer_cache := None\<rparr>)"
  shows "pair_step a b w (upd_dev a f w) \<and> wish_served (upd_dev a f w) b a = wish_served w b a"
  using assms by (intro conjI upd_dev_pair upd_dev_wish) (auto simp: same_identity_def)

lemma send_cache_pair:
  assumes "pair_ok w a b" "send_cache bd a w = Ok w'"
  shows "pair_step a b w w' \<and> (wish_served w b a \<longrightarrow> wish_served w' b a)"
proof -
  let ?c = "\<lambda>x. x\<lparr>candidates_cache := []\<rparr> :: device"
  let ?o = "\<lambda>x. x\<lparr>offer_cache := None\<rparr> :: device"
  let ?a = "\<lambda>x. x\<lparr>answer_cache := None\<rparr> :: device"
  from assms(1) obtain x y where xy: "devs w a = Some x" "devs w b = Some y" "partner x = Some b"
    by (rule pair_okE)
  with assms(2) have "\<exists>w1. foreach (candidates_cache x) (send_ice_candidate b) w = Ok w1 \<and>
      (\<exists>w2. (case offer_cache x of None \<Rightarrow> Ok | Some f \<Rightarrow> send_offer b f) (upd_dev a ?c w1) = Ok w2 \<and>
      (\<exists>w3. (case answer_cache x of None \<Rightarrow> Ok | Some f \<Rightarrow> send_answer bd b f) (upd_dev a ?o w2) = Ok w3 \<and>
      upd_dev a ?a w3 = w'))"
    by (simp add: send_cache_def with_dev_def lock_partner_def res_simps)
  then obtain w1 w2 w3 where
    1: "foreach (candidates_cache x) (send_ice_candidate b) w = Ok w1"
    and 2: "(case offer_cache x of None \<Rightarrow> Ok | Some f \<Rightarrow> send_offer b f) (upd_dev a ?c w1) = Ok w2"
    and 3: "(case answer_cache x of None \<Rightarrow> Ok | Some f \<Rightarrow> send_answer bd b f) (upd_dev a ?o w2) = Ok w3"
    and 4: "w' = upd_dev a ?a w3"
    by blast
  have s1: "pair_step a b w w1" and l1: "wish_served w1 b a = wish_served w b a"
    by (rule log_pair_step[OF assms(1) send_candidates_log[OF 1]])+
  have c1: "pair_step a b w1 (upd_dev a ?c w1)" "wish_served (upd_dev a ?c w1) b a = wish_served w1 b a"
    using s1 clear_cache_step[of w1 a b ?c] by (auto simp: pair_step_def)
  have l: "\<exists>l. w2 = (upd_dev a ?c w1)\<lparr>sent := l\<rparr>"
    using 2 by (cases "offer_cache x")
      (auto simp: send_offer_def dest: send_on_log intro: exI[of _ "sent w2"])
  have s2: "pair_step a b (upd_dev a ?c w1) w2" and l2: "wish_served w2 b a = wish_served (upd_dev a ?c w1) b a"
    using c1(1) log_pair_step[OF _ l] by (auto simp: pair_step_def)
  have c2: "pair_step a b w2 (upd_dev a ?o w2)" "wish_served (upd_dev a ?o w2) b a = wish_served w2 b a"
    using s2 clear_cache_step[of w2 a b ?o] by (auto simp: pair_step_def)
  then have ok: "pair_ok (upd_dev a ?o w2) b a" by (simp add: pair_step_def pair_ok_sym)
  have s3: "pair_step a b (upd_dev a ?o w2) w3 \<and> (wish_served (upd_dev a ?o w2) b a \<longrightarrow> wish_served w3 b a)"
  proof (cases "answer_cache x")
    case None
    with 3 ok show ?thesis by (auto simp: pair_step_refl pair_ok_sym)
  next
    case (Some f)
    with 3 have "send_answer bd b f (upd_dev a ?o w2) = Ok w3" by simp
    from send_answer_pair[OF ok this] show ?thesis
      by (auto simp: pair_served_wishes pair_step_def pair_ok_sym[of w3 a b] insert_commute)
  qed
  have c3: "pair_step a b w3 w'" "wish_served w' b a = wish_served w3 b a"
    using s3 clear_cache_step[of w3 a b ?a] 4 by (auto simp: pair_step_def)
  have "pair_step a b w w'"
    using s1 c1(1) s2 c2(1) s3 c3(1) by (blast intro: pair_step_trans)
  then show ?thesis using l1 c1(2) l2 c2(2) s3 c3(2) by blast
qed

text \<open>Giving device \<open>a\<close> the partner \<open>b\<close> that already points back at it.\<close>

lemma set_partner_pair:
  assumes "pair_ok (upd_dev a (\<lambda>x. x\<lparr>partner := Some b\<rparr>) w) a b" "set_partner bd a b w = Ok w'"
  shows "pair_step a b (upd_dev a (\<lambda>x. x\<lparr>partner := Some b\<rparr>) w) w'"
    and "wish_served w' a b"
    and "wish_served (upd_dev a (\<lambda>x. x\<lparr>partner := Some b\<rparr>) w) b a \<Longrightarrow> wish_served w' b a"
proof -
  let ?w = "upd_dev a (\<lambda>x. x\<lparr>partner := Some b\<rparr>) w"
  from assms(2) obtain v where v: "send_cache bd a ?w = Ok v" "negotiate a v = Ok w'"
    by (auto simp: set_partner_def res_simps)
  from send_cache_pair[OF assms(1) v(1)]
  have s: "pair_step a b ?w v" "wish_served ?w b a \<longrightarrow> wish_served v b a" by auto
  then have ok: "pair_ok v a b" by (simp add: pair_step_def)
  from negotiate_pair[OF ok v(2)] s(1) show "pair_step a b ?w w'" by (blast intro: pair_step_trans)
  from negotiate_wish[OF ok v(2)] show "wish_served w' a b" .
  show "wish_served ?w b a \<Longrightarrow> wish_served w' b a"
    using s(2) negotiate_active[OF ok v(2)] by (auto simp: wish_served_def)
qed

text \<open>A device just created has nothing to send and nothing to negotiate.\<close>

lemma set_partner_fresh:
  assumes "devs w a = Some (make_device c t)" "devs w b \<noteq> None"
  shows "set_partner bd a b w = Ok (upd_dev a (\<lambda>x. x\<lparr>partner := Some b\<rparr>) w)"
proof (cases "a = b")
  case True
  with assms show ?thesis
    by (auto simp: set_partner_def assert_stmt_def send_cache_def with_dev_def upd_dev_def
        lock_partner_def make_device_def negotiate_def fun_upd_idem_iff)
next
  case False
  from assms obtain y where "devs w b = Some y" by auto
  with assms(1) False show ?thesis
    by (simp add: set_partner_def assert_stmt_def send_cache_def with_dev_def upd_dev_def
        lock_partner_def make_device_def negotiate_def)
qed


section \<open>Messages to a device\<close>

text \<open>What the connection's signals deliver to one device.\<close>

fun device_receive :: "build \<Rightarrow> nat \<Rightarrow> message \<Rightarrow> 'a hub_scheme \<Rightarrow> 'a hub_scheme res" where
  "device_receive b d (Offer f) = on_offer b d f"
| "device_receive b d (Answer a) = on_answer b d a"
| "device_receive b d (Ice_candidate c) = on_ice_candidate d c"
| "device_receive b d Want_to_negotiate = on_want_to_negotiate d"
| "device_receive b d Create_offer = Ok"
| "device_receive b d (Registration r) = Ok"

definition single_ok :: "'a hub_scheme \<Rightarrow> nat \<Rightarrow> bool" where
  "single_ok w a \<longleftrightarrow> (\<exists>x. devs w a = Some x \<and> partner x = None \<and> \<not> active_negotiating x)"

lemma on_want_pair:
  assumes "pair_ok w a b" "pair_served w a b" "on_want_to_negotiate a w = Ok w'"
  shows "pair_step a b w w' \<and> pair_served w' a b"
proof -
  let ?u = "upd_dev a (\<lambda>x. x\<lparr>wants_to_negotiate := True\<rparr>) w"
  have u: "pair_step a b w ?u"
    using assms(1) by (rule upd_dev_pair) (auto simp: same_identity_def)
  then have ok: "pair_ok ?u a b" by (simp add: pair_step_def)
  with assms(3) have n: "negotiate a ?u = Ok w'"
    by (elim pair_okE) (auto simp: on_want_to_negotiate_def with_dev_def lock_partner_def)
  have "wish_served ?u b a"
    using assms(1,2) by (auto simp: pair_served_wishes wish_served_def is_active_def upd_dev_def
        pair_ok_def split: option.splits if_splits)
  then have "wish_served w' b a"
    using negotiate_active[OF ok n] by (auto simp: wish_served_def)
  moreover have "pair_step a b ?u w'" by (rule negotiate_pair[OF ok n])
  ultimately show ?thesis
    using negotiate_wish[OF ok n] pair_step_trans[OF u]
    by (auto simp: pair_served_wishes pair_step_def)
qed

lemma device_receive_pair:
  assumes "pair_ok w a b" "pair_served w a b" "device_receive bd a m w = Ok w'"
  shows "pair_step a b w w' \<and> pair_served w' a b"
proof -
  have log: "pair_step a b w v \<and> pair_served v a b" if "\<exists>l. v = w\<lparr>sent := l\<rparr>" for v
    using assms(1,2) that log_pair_step(1)[OF assms(1) that] by auto
  from assms(1) obtain x y where xy: "devs w a = Some x" "devs w b = Some y" "partner x = Some b"
    by (rule pair_okE)
  from assms(1) have ok: "pair_ok w b a" by (simp add: pair_ok_sym)
  show ?thesis
  proof (cases m)
    case (Offer f)
    with assms(3) xy have "send_on b (message.Offer f) w = Ok w'"
      by (simp add: on_offer_def with_dev_def lock_partner_def send_offer_def)
    then show ?thesis by (intro log send_on_log)
  next
    case (Answer f)
    with assms(3) xy have "send_answer bd b f w = Ok w'"
      by (simp add: on_answer_def with_dev_def lock_partner_def)
    from send_answer_pair[OF ok this] show ?thesis
      by (simp add: pair_step_sym[of a b] pair_served_sym[of w' a b])
  next
    case (Ice_candidate c)
    with assms(3) xy have "send_on b (message.Ice_candidate c) w = Ok w'"
      by (simp add: on_ice_candidate_def with_dev_def lock_partner_def send_ice_candidate_def)
    then show ?thesis by (intro log send_on_log)
  next
    case Want_to_negotiate
    with assms show ?thesis by (intro on_want_pair) auto
  qed (use assms in \<open>auto simp: pair_step_refl\<close>)
qed

lemma device_receive_single:
  assumes "single_ok w a" "device_receive bd a m w = Ok w'"
  shows "single_ok w' a \<and> evolves {a} w w'"
  using assms
  by (cases m) (auto simp: single_ok_def on_offer_def on_answer_def on_ice_candidate_def
      on_want_to_negotiate_def with_dev_def lock_partner_def same_identity_def upd_dev_def
      evolves_def option.rel_refl split: if_splits)

end
