(* ===== verification/Registration.thy ===== *)
theory Registration
  imports Device
begin

text \<open>
  The signaling server: class \<open>registration_handler\<close>
  (src/fubble/signaling/registration\_handler.cpp), the server side connection
  (src/fubble/signaling/server/connection.cpp) and \<open>server::on_connection\<close>.

  A connection id stands for a \<open>server::connection\<close> object. Its signals are modelled
  by who is connected to them: the live devices created on it, in creation order,
  and the close handles stored in the registered entries. \<open>reading c\<close> says that the
  read loop of \<open>run\<close> has a read pending.
\<close>

section \<open>State\<close>

record close_handle =
  hconn :: nat
  hkey :: string
  htoken :: string
  hid :: nat

record registered_connection =
  rc_key :: string
  rc_devices :: "nat option \<times> nat option"
  rc_handles :: "close_handle option \<times> close_handle option"

record server = hub +
  registered :: "registered_connection list"
  reading :: "nat \<Rightarrow> bool"
  next_id :: nat
  next_conn :: nat

definition initial_server :: server where
  "initial_server = \<lparr> devs = (\<lambda>_. None), ws_alive = (\<lambda>_. False), sent = [],
     registered = [], reading = (\<lambda>_. False), next_id = 0, next_conn = 0 \<rparr>"

definition slot :: "nat \<Rightarrow> 'x \<times> 'x \<Rightarrow> 'x" where
  "slot i p = (if i = 0 then fst p else snd p)"

definition set_slot :: "nat \<Rightarrow> 'x \<Rightarrow> 'x \<times> 'x \<Rightarrow> 'x \<times> 'x" where
  "set_slot i v p = (if i = 0 then (v, snd p) else (fst p, v))"

definition other_index :: "nat \<Rightarrow> nat" where
  "other_index i = (if i = 0 then 1 else 0)"

definition token_is :: "server \<Rightarrow> string \<Rightarrow> nat option \<Rightarrow> bool" where
  "token_is w t d = (case d of None \<Rightarrow> False
     | Some d \<Rightarrow> (case devs w d of None \<Rightarrow> False | Some x \<Rightarrow> token x = t))"


section \<open>The handler\<close>

definition find_registered :: "string \<Rightarrow> server \<Rightarrow> nat option" where
  "find_registered k w = find_index (\<lambda>e. rc_key e = k) (registered w)"

definition find_or_create :: "string \<Rightarrow> server \<Rightarrow> nat \<times> server" where
  "find_or_create k w = (case find_registered k w of
     Some i \<Rightarrow> (i, w)
   | None \<Rightarrow> (length (registered w),
       w\<lparr>registered := registered w @
         [\<lparr> rc_key = k, rc_devices = (None, None), rc_handles = (None, None) \<rparr>]\<rparr>))"

definition close_connection :: "nat \<Rightarrow> 'a hub_scheme \<Rightarrow> 'a hub_scheme res" where
  "close_connection c w =
     (if ws_alive w c then Ok (w\<lparr>ws_alive := (ws_alive w)(c := False)\<rparr>) else Undefined)"

definition device_close :: "nat \<Rightarrow> 'a hub_scheme \<Rightarrow> 'a hub_scheme res" where
  "device_close d = with_dev d (\<lambda>x. close_connection (connection x))"

text \<open>The slot a registration goes to: the one with its token (the second wins),
  else the first free one. With both taken by other tokens a Debug build asserts
  and a Release build takes the second.\<close>

definition my_device_index :: "build \<Rightarrow> server \<Rightarrow> string \<Rightarrow> registered_connection \<Rightarrow> nat res" where
  "my_device_index b w t e =
     (if token_is w t (snd (rc_devices e)) then Ok 1
      else if token_is w t (fst (rc_devices e)) then Ok 0
      else if b = Debug \<and> fst (rc_devices e) \<noteq> None \<and> snd (rc_devices e) \<noteq> None
      then Assert_failed
      else Ok (if fst (rc_devices e) = None then 0 else 1))"

definition create_device :: "nat \<Rightarrow> string \<Rightarrow> server \<Rightarrow> server" where
  "create_device c t w =
     w\<lparr>devs := (devs w)(next_id w := Some (make_device c t)), next_id := Suc (next_id w)\<rparr>"

definition store_device :: "nat \<Rightarrow> nat \<Rightarrow> nat \<Rightarrow> close_handle \<Rightarrow> server \<Rightarrow> server" where
  "store_device i m d h w = w\<lparr>registered := (registered w)[i := (registered w ! i)
     \<lparr> rc_devices := set_slot m (Some d) (rc_devices (registered w ! i)),
       rc_handles := set_slot m (Some h) (rc_handles (registered w ! i)) \<rparr>]\<rparr>"

definition destroy_device :: "nat option \<Rightarrow> server \<Rightarrow> server" where
  "destroy_device d w = (case d of None \<Rightarrow> w | Some d \<Rightarrow> w\<lparr>devs := (devs w)(d := None)\<rparr>)"

text \<open>The replaced device lives until the locals of \<open>register_\<close> go out of scope.\<close>

definition do_register :: "build \<Rightarrow> nat \<Rightarrow> registration \<Rightarrow> server \<Rightarrow> server res" where
  "do_register b c r w0 =
     (let (i, w) = find_or_create (key r) w0;
          e = registered w ! i
      in rbind (my_device_index b w (reconnect_token r) e) (\<lambda>m.
      let old = slot m (rc_devices e);
          other = slot (other_index m) (rc_devices e);
          d = next_id w;
          h = \<lparr> hconn = c, hkey = key r, htoken = reconnect_token r, hid = d \<rparr>
      in block
        [\<lambda>w. Ok (create_device c (reconnect_token r) w),
         case old of None \<Rightarrow> Ok | Some x \<Rightarrow> device_close x,
         \<lambda>w. Ok (store_device i m d h w),
         case other of None \<Rightarrow> Ok
         | Some x \<Rightarrow> block
             [assert_stmt b (\<lambda>w. \<not> token_is w (reconnect_token r) (Some x)),
              set_partner b d x,
              set_partner b x d],
         \<lambda>w. Ok (destroy_device old w)] w))"

definition remove_index :: "build \<Rightarrow> server \<Rightarrow> string \<Rightarrow> registered_connection \<Rightarrow> nat res" where
  "remove_index b w t e =
     (if token_is w t (fst (rc_devices e)) then Ok 0
      else if token_is w t (snd (rc_devices e)) then Ok 1
      else if b = Debug then Assert_failed else Ok 0)"

definition drop_slot :: "nat \<Rightarrow> nat \<Rightarrow> server \<Rightarrow> server" where
  "drop_slot i m w =
     (let e = registered w ! i; ds = rc_devices e;
          w1 = (case slot (other_index m) ds of None \<Rightarrow> w | Some x \<Rightarrow> reset_partner x w);
          w2 = destroy_device (slot m ds) w1;
          e2 = e\<lparr> rc_devices := set_slot m None ds, rc_handles := set_slot m None (rc_handles e) \<rparr>
      in if rc_devices e2 = (None, None) then w2\<lparr>registered := erase_at i (registered w)\<rparr>
         else w2\<lparr>registered := (registered w)[i := e2]\<rparr>)"

definition on_device_closed :: "build \<Rightarrow> string \<Rightarrow> string \<Rightarrow> server \<Rightarrow> server res" where
  "on_device_closed b k t w = (case find_registered k w of
     None \<Rightarrow> if b = Debug then Assert_failed else Undefined
   | Some i \<Rightarrow> rbind (remove_index b w t (registered w ! i)) (\<lambda>m. Ok (drop_slot i m w)))"


section \<open>The connection's signals\<close>

definition subscribers :: "server \<Rightarrow> nat \<Rightarrow> nat list" where
  "subscribers w c = filter (\<lambda>d. case devs w d of None \<Rightarrow> False | Some x \<Rightarrow> connection x = c)
     [0..<next_id w]"

definition stored_handles :: "server \<Rightarrow> close_handle list" where
  "stored_handles w = concat (map (\<lambda>e.
     (case fst (rc_handles e) of None \<Rightarrow> [] | Some h \<Rightarrow> [h]) @
     (case snd (rc_handles e) of None \<Rightarrow> [] | Some h \<Rightarrow> [h])) (registered w))"

definition emit_to_devices :: "build \<Rightarrow> nat \<Rightarrow> message \<Rightarrow> server \<Rightarrow> server res" where
  "emit_to_devices b c m w = foreach (subscribers w c)
     (\<lambda>d v. if devs v d = None then Ok v else device_receive b d m v) w"

definition emit_on_closed :: "build \<Rightarrow> nat \<Rightarrow> server \<Rightarrow> server res" where
  "emit_on_closed b c w =
     foreach (sort_key hid (filter (\<lambda>h. hconn h = c) (stored_handles w)))
       (\<lambda>h v. if h \<in> set (stored_handles v) then on_device_closed b (hkey h) (htoken h) v else Ok v) w"

definition message_visitor :: "build \<Rightarrow> nat \<Rightarrow> message \<Rightarrow> server \<Rightarrow> server res" where
  "message_visitor b c m w = (case m of
     Registration r \<Rightarrow> do_register b c r w
   | Create_offer \<Rightarrow> if b = Debug then Assert_failed else Ok w
   | _ \<Rightarrow> emit_to_devices b c m w)"


section \<open>Events\<close>

text \<open>\<open>Received\<close>: a read completed with a text that parses. \<open>Unparsable\<close>: the parser
  threw something other than \<open>boost::system::system_error\<close>, which nothing catches:
  the read loop ends without \<open>on_closed\<close>. \<open>Read_failed\<close>: the read completed with a
  system error.\<close>

datatype event = Connected | Received nat message | Unparsable nat | Read_failed nat

definition on_connection :: "server \<Rightarrow> server" where
  "on_connection w = w\<lparr>ws_alive := (ws_alive w)(next_conn w := True),
     reading := (reading w)(next_conn w := True), next_conn := Suc (next_conn w)\<rparr>"

definition run_next :: "nat \<Rightarrow> server \<Rightarrow> server res" where
  "run_next c w = (if ws_alive w c then Ok w else Undefined)"

fun server_step :: "build \<Rightarrow> server \<Rightarrow> event \<Rightarrow> server res" where
  "server_step b w Connected = Ok (on_connection w)"
| "server_step b w (Received c m) =
     (if reading w c then block [message_visitor b c m, run_next c] w else Ok w)"
| "server_step b w (Unparsable c) = Ok (w\<lparr>reading := (reading w)(c := False)\<rparr>)"
| "server_step b w (Read_failed c) =
     (if reading w c then emit_on_closed b c (w\<lparr>reading := (reading w)(c := False)\<rparr>) else Ok w)"


section \<open>The invariant\<close>

definition entry_ids :: "registered_connection \<Rightarrow> nat set" where
  "entry_ids e = set_option (fst (rc_devices e)) \<union> set_option (snd (rc_devices e))"

definition handle_ok :: "'a hub_scheme \<Rightarrow> string \<Rightarrow> nat option \<Rightarrow> close_handle option \<Rightarrow> bool" where
  "handle_ok w k d h = (case d of None \<Rightarrow> h = None
     | Some d \<Rightarrow> h \<noteq> None \<and> h = map_option (\<lambda>x.
         \<lparr> hconn = connection x, hkey = k, htoken = token x, hid = d \<rparr>) (devs w d))"

definition tokens_differ :: "'a hub_scheme \<Rightarrow> nat \<Rightarrow> nat \<Rightarrow> bool" where
  "tokens_differ w a b \<longleftrightarrow> map_option token (devs w a) \<noteq> map_option token (devs w b)"

definition entry_ok :: "'a hub_scheme \<Rightarrow> registered_connection \<Rightarrow> bool" where
  "entry_ok w e \<longleftrightarrow>
     handle_ok w (rc_key e) (fst (rc_devices e)) (fst (rc_handles e)) \<and>
     handle_ok w (rc_key e) (snd (rc_devices e)) (snd (rc_handles e)) \<and>
     (case rc_devices e of
       (Some a, Some b) \<Rightarrow> pair_ok w a b \<and> pair_served w a b \<and> tokens_differ w a b
     | (Some a, None) \<Rightarrow> single_ok w a
     | (None, Some b) \<Rightarrow> single_ok w b
     | (None, None) \<Rightarrow> False)"

text \<open>\<open>core_inv w i\<close>: everything but what concerns the devices of entry \<open>i\<close>.\<close>

definition core_inv :: "server \<Rightarrow> nat \<Rightarrow> bool" where
  "core_inv w i \<longleftrightarrow>
     distinct (map rc_key (registered w)) \<and>
     (\<forall>j k d. j < length (registered w) \<and> k < length (registered w) \<and>
        d \<in> entry_ids (registered w ! j) \<and> d \<in> entry_ids (registered w ! k) \<longrightarrow> j = k) \<and>
     (\<forall>d. devs w d \<noteq> None \<longleftrightarrow> (\<exists>e \<in> set (registered w). d \<in> entry_ids e)) \<and>
     (\<forall>d. devs w d \<noteq> None \<longrightarrow> d < next_id w) \<and>
     (\<forall>j < length (registered w). j \<noteq> i \<longrightarrow> entry_ok w (registered w ! j))"

definition server_inv :: "server \<Rightarrow> bool" where
  "server_inv w \<longleftrightarrow> core_inv w (length (registered w))"

lemma server_inv_initial: "server_inv initial_server"
  by (simp add: server_inv_def core_inv_def initial_server_def)

lemma server_inv_iff:
  "i < length (registered w) \<Longrightarrow>
   server_inv w \<longleftrightarrow> core_inv w i \<and> entry_ok w (registered w ! i)"
proof -
  assume i: "i < length (registered w)"
  have "(\<forall>j < length (registered w). j \<noteq> length (registered w) \<longrightarrow> entry_ok w (registered w ! j)) \<longleftrightarrow>
     (\<forall>j < length (registered w). j \<noteq> i \<longrightarrow> entry_ok w (registered w ! j)) \<and>
     entry_ok w (registered w ! i)"
    using i by auto
  then show ?thesis unfolding server_inv_def core_inv_def by simp
qed

text \<open>Everything \<open>entry_ok\<close> says depends on the devices of the entry only.\<close>

lemma entry_ok_cong:
  assumes "\<And>d. d \<in> entry_ids e \<Longrightarrow> devs w' d = devs w d"
  shows "entry_ok w' e = entry_ok w e"
proof (cases "rc_devices e")
  case (Pair p q)
  have "p = Some d \<or> q = Some d \<Longrightarrow> devs w' d = devs w d" for d
    using assms[of d] by (auto simp: entry_ids_def Pair)
  then show ?thesis
    by (cases p; cases q) (auto simp: entry_ok_def Pair handle_ok_def pair_ok_def pair_served_def
        tokens_differ_def single_ok_def)
qed

text \<open>Replacing entry \<open>i\<close>: the one argument behind every operation.\<close>

lemma core_inv_replace:
  assumes core: "core_inv w i" and i: "i < length (registered w)"
    and reg: "registered w' = (registered w)[i := e']"
    and key: "rc_key e' = rc_key (registered w ! i)"
    and fresh: "\<And>d. d \<in> entry_ids e' \<Longrightarrow> d \<in> entry_ids (registered w ! i) \<or> devs w d = None"
    and alive: "\<And>d. devs w' d \<noteq> None \<longleftrightarrow>
      d \<in> entry_ids e' \<or> (d \<notin> entry_ids (registered w ! i) \<and> devs w d \<noteq> None)"
    and same: "\<And>d. d \<notin> entry_ids (registered w ! i) \<Longrightarrow> d \<notin> entry_ids e' \<Longrightarrow> devs w' d = devs w d"
    and bound: "\<And>d. devs w' d \<noteq> None \<Longrightarrow> d < next_id w'"
  shows "core_inv w' i"
proof -
  let ?r = "registered w" let ?r' = "registered w'"
  have own: "devs w d \<noteq> None" if "j < length ?r" "d \<in> entry_ids (?r ! j)" for j d
    using core that unfolding core_inv_def by (metis nth_mem)
  have uniq: "j = k" if "j < length ?r" "k < length ?r" "d \<in> entry_ids (?r ! j)"
      "d \<in> entry_ids (?r ! k)" for j k d
    using core that unfolding core_inv_def by blast
  have nth': "?r' ! j = (if j = i then e' else ?r ! j)" if "j < length ?r" for j
    using that reg by (simp add: nth_list_update)
  have apart: "d \<notin> entry_ids e'" if "j < length ?r" "j \<noteq> i" "d \<in> entry_ids (?r ! j)" for j d
    using fresh own uniq i that by blast
  have "distinct (map rc_key ?r')"
  proof -
    have "map rc_key ?r' = (map rc_key ?r)[i := rc_key e']" by (simp add: reg map_update)
    then have "map rc_key ?r' = map rc_key ?r" using i by (simp add: key list_update_same_conv)
    with core show ?thesis by (simp add: core_inv_def)
  qed
  moreover have "j = k" if "j < length ?r'" "k < length ?r'" "d \<in> entry_ids (?r' ! j)"
      "d \<in> entry_ids (?r' ! k)" for j k d
    using that apart[of j d] apart[of k d] uniq[of j k d] reg
    by (cases "j = i"; cases "k = i") (auto simp: nth_list_update)
  moreover have "devs w' d \<noteq> None \<longleftrightarrow> (\<exists>e \<in> set ?r'. d \<in> entry_ids e)" for d
  proof -
    have "(\<exists>e \<in> set ?r'. d \<in> entry_ids e) \<longleftrightarrow>
        d \<in> entry_ids e' \<or> (\<exists>j < length ?r. j \<noteq> i \<and> d \<in> entry_ids (?r ! j))"
      unfolding reg by (rule bex_list_update[OF i])
    moreover have "(\<exists>j < length ?r. j \<noteq> i \<and> d \<in> entry_ids (?r ! j)) \<longleftrightarrow>
        d \<notin> entry_ids (?r ! i) \<and> devs w d \<noteq> None"
      using core uniq i own unfolding core_inv_def set_conv_nth by blast
    ultimately show ?thesis using alive by blast
  qed
  moreover have "entry_ok w' (?r' ! j)" if "j < length ?r'" "j \<noteq> i" for j
  proof -
    from that reg have j: "j < length ?r" by simp
    then have "entry_ok w' (?r ! j) = entry_ok w (?r ! j)"
      using that(2) apart uniq[OF j i] by (intro entry_ok_cong same) blast+
    with core j that(2) show ?thesis by (simp add: nth' core_inv_def)
  qed
  ultimately show ?thesis using bound unfolding core_inv_def by blast
qed

lemma evolves_frame:
  assumes "evolves S (w :: server) w'"
  shows "registered w' = registered w" "next_id w' = next_id w" "reading w' = reading w"
    "ws_alive w' = ws_alive w" "next_conn w' = next_conn w"
proof -
  from assms have "w' = w\<lparr>devs := devs w', sent := sent w'\<rparr>" by (simp add: evolves_def)
  then have "\<exists>f g. w' = w\<lparr>devs := f, sent := g\<rparr>" by blast
  then show "registered w' = registered w" "next_id w' = next_id w" "reading w' = reading w"
    "ws_alive w' = ws_alive w" "next_conn w' = next_conn w" by auto
qed

lemma evolves_map:
  assumes "evolves S w w'"
  shows "map_option token (devs w' d) = map_option token (devs w d)"
    "map_option connection (devs w' d) = map_option connection (devs w d)"
    "handle_ok w' k o' h = handle_ok w k o' h"
proof -
  have r: "rel_option same_identity (devs w d) (devs w' d)" for d
    using assms by (simp add: evolves_def)
  from r[of d] show "map_option token (devs w' d) = map_option token (devs w d)"
    "map_option connection (devs w' d) = map_option connection (devs w d)"
    by (cases "devs w d"; cases "devs w' d"; auto simp: same_identity_def)+
  have "map_option (\<lambda>x. \<lparr> hconn = connection x, hkey = k, htoken = token x, hid = d \<rparr>) (devs w' d)
      = map_option (\<lambda>x. \<lparr> hconn = connection x, hkey = k, htoken = token x, hid = d \<rparr>) (devs w d)" for d
    using r[of d] by (cases "devs w d"; cases "devs w' d") (auto simp: same_identity_def)
  then show "handle_ok w' k o' h = handle_ok w k o' h"
    by (auto simp: handle_ok_def split: option.splits)
qed

lemma tokens_differ_evolves: "evolves S w w' \<Longrightarrow> tokens_differ w' a b = tokens_differ w a b"
  by (simp add: tokens_differ_def evolves_map)

lemma server_inv_evolves:
  assumes "server_inv w" "i < length (registered w)"
    and e: "evolves (entry_ids (registered w ! i)) w w'"
    and "entry_ok w' (registered w ! i)"
  shows "server_inv w'"
proof -
  from assms(1,2) have core: "core_inv w i" and "entry_ok w (registered w ! i)"
    by (auto simp: server_inv_iff)
  note fr = evolves_frame[OF e]
  have al: "devs w' d \<noteq> None \<longleftrightarrow> devs w d \<noteq> None" for d
    using evolves_alive[OF e] by metis
  have own: "d \<in> entry_ids (registered w ! i) \<Longrightarrow> devs w d \<noteq> None" for d
    using core assms(2) by (auto simp: core_inv_def)
  have "core_inv w' i"
    using core assms(2)
  proof (rule core_inv_replace[where e' = "registered w ! i"])
    show "registered w' = (registered w)[i := registered w ! i]" by (simp add: fr)
    show "\<And>d. d \<notin> entry_ids (registered w ! i) \<Longrightarrow> d \<notin> entry_ids (registered w ! i) \<Longrightarrow>
        devs w' d = devs w d"
      using e by (simp add: evolves_def)
    show "\<And>d. devs w' d \<noteq> None \<Longrightarrow> d < next_id w'"
      using core al by (simp add: core_inv_def fr)
  qed (use al own in auto)
  with assms(2,4) fr show ?thesis by (simp add: server_inv_iff)
qed

lemma server_inv_entry:
  "server_inv w \<Longrightarrow> i < length (registered w) \<Longrightarrow> entry_ok w (registered w ! i)"
  by (simp add: server_inv_iff)

lemma server_inv_owner:
  assumes "server_inv w" "devs w d \<noteq> None"
  obtains i where "i < length (registered w)" "d \<in> entry_ids (registered w ! i)"
  using assms unfolding server_inv_def core_inv_def by (metis in_set_conv_nth)

text \<open>A message handled by one device.\<close>

lemma device_receive_inv:
  assumes inv: "server_inv w" and d: "devs w d \<noteq> None" and r: "device_receive bd d m w = Ok w'"
  shows "server_inv w' \<and> registered w' = registered w"
proof -
  from server_inv_owner[OF inv d] obtain i where i: "i < length (registered w)"
    and di: "d \<in> entry_ids (registered w ! i)" .
  let ?e = "registered w ! i"
  from server_inv_entry[OF inv i] have ok: "entry_ok w ?e" .
  have "entry_ok w' ?e \<and> evolves (entry_ids ?e) w w'"
  proof (cases "rc_devices ?e")
    case (Pair p q)
    show ?thesis
    proof (cases p)
      case None
      with di Pair have q: "q = Some d" by (auto simp: entry_ids_def)
      with ok None Pair have "single_ok w d" by (simp add: entry_ok_def)
      from device_receive_single[OF this r] ok Pair None q show ?thesis
        by (auto simp: entry_ok_def entry_ids_def evolves_map)
    next
      case (Some a)
      note p = this
      show ?thesis
      proof (cases q)
        case None
        with di Pair Some have "d = a" by (auto simp: entry_ids_def)
        with ok None Pair p have "single_ok w d" by (simp add: entry_ok_def)
        from device_receive_single[OF this r] ok Pair None p \<open>d = a\<close> show ?thesis
          by (auto simp: entry_ok_def entry_ids_def evolves_map)
      next
        case (Some b)
        from ok Pair p Some have pair: "pair_ok w a b" "pair_served w a b" "tokens_differ w a b"
          by (auto simp: entry_ok_def)
        from di Pair p Some consider "d = a" | "d = b" by (auto simp: entry_ids_def)
        then have "pair_step a b w w' \<and> pair_served w' a b"
        proof cases
          case 1
          with device_receive_pair[OF pair(1,2)] r show ?thesis by simp
        next
          case 2
          with device_receive_pair[of w b a] pair r show ?thesis
            by (simp add: pair_ok_sym[of w b a] pair_served_sym[of _ b a] pair_step_sym[of b a])
        qed
        with ok Pair p Some pair(3) show ?thesis
          by (auto simp: entry_ok_def entry_ids_def evolves_map pair_step_def tokens_differ_evolves
              insert_commute)
      qed
    qed
  qed
  with server_inv_evolves[OF inv i] show ?thesis by (auto simp: evolves_frame)
qed

lemma emit_to_devices_inv:
  assumes "server_inv w" "emit_to_devices bd c m w = Ok w'"
  shows "server_inv w'"
  using assms(2)[unfolded emit_to_devices_def] assms(1)
  by (rule foreach_invariant) (auto split: if_splits dest: device_receive_inv)

text \<open>Erasing entry \<open>i\<close> together with its devices.\<close>

lemma core_inv_erase:
  assumes core: "core_inv w i" and i: "i < length (registered w)"
    and reg: "registered w' = erase_at i (registered w)"
    and alive: "\<And>d. devs w' d \<noteq> None \<longleftrightarrow> d \<notin> entry_ids (registered w ! i) \<and> devs w d \<noteq> None"
    and same: "\<And>d. d \<notin> entry_ids (registered w ! i) \<Longrightarrow> devs w' d = devs w d"
    and bound: "\<And>d. devs w' d \<noteq> None \<Longrightarrow> d < next_id w'"
  shows "server_inv w'"
proof -
  let ?r = "registered w" let ?r' = "registered w'"
  let ?up = "\<lambda>j. if j < i then j else Suc j"
  have uniq: "j = k" if "j < length ?r" "k < length ?r" "d \<in> entry_ids (?r ! j)"
      "d \<in> entry_ids (?r ! k)" for j k d
    using core that unfolding core_inv_def by blast
  have nth': "?r' ! j = ?r ! ?up j" "?up j < length ?r" "?up j \<noteq> i" if "j < length ?r'" for j
    using that i reg by (auto simp: nth_erase_at)
  have "distinct (map rc_key ?r')"
    using core by (simp add: reg map_erase_at distinct_erase_at core_inv_def)
  moreover have "j = k" if "j < length ?r'" "k < length ?r'" "d \<in> entry_ids (?r' ! j)"
      "d \<in> entry_ids (?r' ! k)" for j k d
    using uniq[of "?up j" "?up k" d] that nth'[OF that(1)] nth'[OF that(2)]
    by (auto split: if_splits)
  moreover have "devs w' d \<noteq> None \<longleftrightarrow> (\<exists>e \<in> set ?r'. d \<in> entry_ids e)" for d
  proof -
    have "(\<exists>j < length ?r. j \<noteq> i \<and> d \<in> entry_ids (?r ! j)) \<longleftrightarrow>
        d \<notin> entry_ids (?r ! i) \<and> devs w d \<noteq> None"
      using core uniq i unfolding core_inv_def set_conv_nth by blast
    then show ?thesis using alive unfolding reg bex_erase_at[OF i] by blast
  qed
  moreover have "entry_ok w' (?r' ! j)" if "j < length ?r'" for j
  proof -
    note n = nth'[OF that]
    then have "entry_ok w' (?r ! ?up j) = entry_ok w (?r ! ?up j)"
      using uniq[OF n(2) i] by (intro entry_ok_cong same) blast
    with core n show ?thesis by (simp add: core_inv_def)
  qed
  ultimately show ?thesis using bound unfolding server_inv_def core_inv_def by blast
qed

lemma find_registered_Some:
  assumes "find_registered k w = Some i"
  shows "i < length (registered w)" "rc_key (registered w ! i) = k"
  using find_index_Some[OF assms[unfolded find_registered_def]] by auto

lemma remove_index_range: "remove_index b w t e = Ok m \<Longrightarrow> m = 0 \<or> m = 1"
  by (auto simp: remove_index_def split: if_splits)

lemma reset_partner_frame:
  "registered (reset_partner d w) = registered w" "next_id (reset_partner d w) = next_id w"
  "devs (reset_partner d w) e = (if e = d then map_option (\<lambda>x.
     if \<not> active_negotiating x then x\<lparr>partner := None\<rparr>
     else x\<lparr>partner := None, active_negotiating := False, wants_to_negotiate := True\<rparr>) (devs w d)
   else devs w e)"
  by (simp_all add: reset_partner_def upd_dev_def)

lemma destroy_device_frame:
  "registered (destroy_device o' w) = registered w" "next_id (destroy_device o' w) = next_id w"
  "devs (destroy_device o' w) e = (if o' = Some e then None else devs w e)"
  by (auto simp: destroy_device_def split: option.splits)

lemma drop_slot_inv:
  assumes "server_inv w" "i < length (registered w)" "m = 0 \<or> m = 1"
  shows "server_inv (drop_slot i m w)"
proof -
  let ?e = "registered w ! i"
  let ?e2 = "?e\<lparr> rc_devices := set_slot m None (rc_devices ?e),
    rc_handles := set_slot m None (rc_handles ?e) \<rparr>"
  let ?w1 = "case slot (other_index m) (rc_devices ?e) of None \<Rightarrow> w | Some x \<Rightarrow> reset_partner x w"
  let ?w2 = "destroy_device (slot m (rc_devices ?e)) ?w1"
  from assms(1,2) have core: "core_inv w i" and ok: "entry_ok w ?e"
    by (auto simp: server_inv_iff)
  have own: "d \<in> entry_ids ?e \<Longrightarrow> devs w d \<noteq> None" for d
    using core assms(2) by (auto simp: core_inv_def)
  have bound: "devs w d \<noteq> None \<Longrightarrow> d < next_id w" for d
    using core by (simp add: core_inv_def)
  obtain p q where pq: "rc_devices ?e = (p, q)" by fastforce
  have frame: "registered ?w2 = registered w" "next_id ?w2 = next_id w"
    by (auto simp: destroy_device_frame reset_partner_frame split: option.splits)
  have devs2: "devs ?w2 d = (if slot m (p, q) = Some d then None
      else if slot (other_index m) (p, q) = Some d then map_option (\<lambda>x.
        if \<not> active_negotiating x then x\<lparr>partner := None\<rparr>
        else x\<lparr>partner := None, active_negotiating := False, wants_to_negotiate := True\<rparr>) (devs w d)
      else devs w d)" for d
    by (simp add: pq destroy_device_frame reset_partner_frame split: option.splits)
  have ids: "entry_ids ?e = set_option p \<union> set_option q" by (simp add: entry_ids_def pq)
  have diff: "p = Some a \<Longrightarrow> q = Some b \<Longrightarrow> a \<noteq> b" for a b
    using ok pq by (auto simp: entry_ok_def pair_ok_def)
  show ?thesis
  proof (cases "rc_devices ?e2 = (None, None)")
    case True
    have e: "drop_slot i m w = ?w2\<lparr>registered := erase_at i (registered w)\<rparr>"
      using True by (simp add: drop_slot_def Let_def)
    from True assms(3) pq have oth: "slot (other_index m) (p, q) = None"
      by (auto simp: set_slot_def slot_def other_index_def)
    then have s: "set_option (slot m (p, q)) = entry_ids ?e"
      using assms(3) by (auto simp: ids slot_def other_index_def)
    show ?thesis unfolding e
      using core assms(2)
    proof (rule core_inv_erase)
      fix d show "devs (?w2\<lparr>registered := erase_at i (registered w)\<rparr>) d \<noteq> None \<longleftrightarrow>
          d \<notin> entry_ids ?e \<and> devs w d \<noteq> None"
        using devs2[of d] oth by (auto simp: s[symmetric])
    qed (use devs2 oth bound in \<open>auto simp: s[symmetric] frame split: if_splits\<close>)
  next
    case False
    have e: "drop_slot i m w = ?w2\<lparr>registered := (registered w)[i := ?e2]\<rparr>"
      using False by (simp add: drop_slot_def Let_def)
    let ?v = "?w2\<lparr>registered := (registered w)[i := ?e2]\<rparr>"
    from False assms(3) pq obtain a where oth: "slot (other_index m) (p, q) = Some a"
      by (auto simp: set_slot_def slot_def other_index_def split: if_splits)
    have ids2: "entry_ids ?e2 = {a}"
      using assms(3) oth pq by (auto simp: entry_ids_def set_slot_def slot_def other_index_def)
    have sm: "slot m (p, q) \<noteq> Some a"
      using diff oth assms(3) by (auto simp: slot_def other_index_def split: if_splits)
    have ids1: "entry_ids ?e = set_option (slot m (p, q)) \<union> {a}"
      using assms(3) oth by (auto simp: ids slot_def other_index_def)
    have "core_inv ?v i"
      using core assms(2)
    proof (rule core_inv_replace[where e' = ?e2])
      fix d show "devs ?v d \<noteq> None \<longleftrightarrow> d \<in> entry_ids ?e2 \<or> (d \<notin> entry_ids ?e \<and> devs w d \<noteq> None)"
        using devs2[of d] oth own[of d] sm by (auto simp: ids2 ids1)
    qed (use devs2 oth bound ids1 in \<open>auto simp: ids2 frame split: if_splits\<close>)
    moreover have "entry_ok ?v ?e2"
    proof -
      from own[of a] ids1 obtain x where x: "devs w a = Some x" by auto
      have "single_ok ?v a" using devs2[of a] oth sm x by (simp add: single_ok_def)
      moreover have "map_option f (devs ?v a) = map_option f (devs w a)"
        if "\<And>x p act wnt. f (x\<lparr>partner := p, active_negotiating := act, wants_to_negotiate := wnt\<rparr>) = f x"
          "\<And>x p. f (x\<lparr>partner := p\<rparr>) = f x" for f :: "device \<Rightarrow> close_handle"
        using devs2[of a] oth sm x that by simp
      then have "handle_ok ?v k (Some a) h = handle_ok w k (Some a) h" for k h
        by (simp add: handle_ok_def)
      ultimately show ?thesis
        using ok assms(3) oth pq
        by (auto simp: entry_ok_def set_slot_def slot_def other_index_def handle_ok_def[of _ _ None])
    qed
    ultimately show ?thesis unfolding e using assms(2) by (simp add: server_inv_iff)
  qed
qed

lemma on_device_closed_inv:
  "server_inv w \<Longrightarrow> on_device_closed b k t w = Ok w' \<Longrightarrow> server_inv w'"
  by (auto simp: on_device_closed_def res_simps split: option.splits if_splits
      intro!: drop_slot_inv dest: find_registered_Some remove_index_range)

lemma emit_on_closed_inv:
  assumes "server_inv w" "emit_on_closed b c w = Ok w'"
  shows "server_inv w'"
  using assms(2)[unfolded emit_on_closed_def] assms(1)
  by (rule foreach_invariant) (auto split: if_splits dest: on_device_closed_inv)

text \<open>Introducing a new device \<open>d\<close> and the device \<open>x\<close> registered before it.\<close>

abbreviation introduced :: "nat \<Rightarrow> nat \<Rightarrow> 'a hub_scheme \<Rightarrow> 'a hub_scheme" where
  "introduced x d w \<equiv> upd_dev x (\<lambda>z. z\<lparr>partner := Some d\<rparr>) (upd_dev d (\<lambda>z. z\<lparr>partner := Some x\<rparr>) w)"

lemma introduce_pair:
  assumes d: "devs w d = Some (make_device c t)" and x: "devs w x = Some y" and ne: "x \<noteq> d"
    and r: "block [assert_stmt b P, set_partner b d x, set_partner b x d] w = Ok w'"
  shows "pair_ok w' x d \<and> pair_served w' x d \<and> evolves {x, d} (introduced x d w) w'"
proof -
  from r have s: "set_partner b x d (upd_dev d (\<lambda>z. z\<lparr>partner := Some x\<rparr>) w) = Ok w'"
    using set_partner_fresh[OF d, of x] x by (auto simp: res_simps)
  have p: "pair_ok (introduced x d w) x d"
    using d x ne by (simp add: pair_ok_def upd_dev_def make_device_def)
  have q: "wish_served (introduced x d w) d x"
    using d x ne by (simp add: wish_served_def upd_dev_def make_device_def)
  from set_partner_pair[OF p s] q show ?thesis
    by (simp add: pair_step_def pair_served_wishes)
qed

definition blank_entry :: "registered_connection \<Rightarrow> bool" where
  "blank_entry e \<longleftrightarrow> rc_devices e = (None, None) \<and> rc_handles e = (None, None)"

lemma find_or_create_core:
  assumes "server_inv w0" "find_or_create k w0 = (i, w)"
  shows "core_inv w i" "i < length (registered w)" "rc_key (registered w ! i) = k"
    "entry_ok w (registered w ! i) \<or> blank_entry (registered w ! i)"
    "devs w = devs w0" "next_id w = next_id w0"
proof -
  have "core_inv w i \<and> i < length (registered w) \<and> rc_key (registered w ! i) = k \<and>
    (entry_ok w (registered w ! i) \<or> blank_entry (registered w ! i)) \<and> devs w = devs w0 \<and>
    next_id w = next_id w0"
  proof (cases "find_registered k w0")
    case (Some j)
    with assms find_registered_Some[OF Some] show ?thesis
      by (auto simp: find_or_create_def server_inv_iff)
  next
    case None
    let ?b = "\<lparr> rc_key = k, rc_devices = (None, None), rc_handles = (None, None) \<rparr>"
    from None assms(2) have i: "i = length (registered w0)"
      and w: "w = w0\<lparr>registered := registered w0 @ [?b]\<rparr>"
      by (auto simp: find_or_create_def)
    have new: "k \<notin> set (map rc_key (registered w0))"
      using None by (auto simp: find_registered_def find_index_None)
    have ok: "entry_ok w e = entry_ok w0 e" for e
      by (rule entry_ok_cong) (simp add: w)
    have none: "entry_ids ?b = {}" by (simp add: entry_ids_def)
    have lt: "j < length (registered w) \<Longrightarrow> d \<in> entry_ids (registered w ! j) \<Longrightarrow>
        j < length (registered w0) \<and> d \<in> entry_ids (registered w0 ! j)" for j d
      by (auto simp: w nth_append none less_Suc_eq split: if_splits)
    have core: "core_inv w0 (length (registered w0))" using assms(1) by (simp add: server_inv_def)
    have "core_inv w i"
      unfolding core_inv_def
    proof (intro conjI allI impI)
      show "distinct (map rc_key (registered w))" using core new by (simp add: w core_inv_def)
      show "j = l" if "j < length (registered w) \<and> l < length (registered w) \<and>
          d \<in> entry_ids (registered w ! j) \<and> d \<in> entry_ids (registered w ! l)" for j l d
        using core lt[of j d] lt[of l d] that unfolding core_inv_def by blast
      show "devs w d \<noteq> None \<longleftrightarrow> (\<exists>e \<in> set (registered w). d \<in> entry_ids e)" for d
        using core none by (simp add: w core_inv_def)
      show "d < next_id w" if "devs w d \<noteq> None" for d
        using core that by (simp add: w core_inv_def)
      show "entry_ok w (registered w ! j)" if "j < length (registered w)" "j \<noteq> i" for j
        using core that i by (auto simp: ok) (auto simp: w nth_append core_inv_def)
    qed
    then show ?thesis by (simp add: w i blank_entry_def)
  qed
  then show "core_inv w i" "i < length (registered w)" "rc_key (registered w ! i) = k"
    "entry_ok w (registered w ! i) \<or> blank_entry (registered w ! i)"
    "devs w = devs w0" "next_id w = next_id w0" by blast+
qed

lemma one_token_match:
  assumes "entry_ok w e \<or> blank_entry e"
  shows "\<not> (token_is w t (fst (rc_devices e)) \<and> token_is w t (snd (rc_devices e)))"
  using assms by (cases "rc_devices e")
    (auto simp: blank_entry_def token_is_def entry_ok_def tokens_differ_def split: option.splits)

lemma my_device_index_facts:
  assumes "my_device_index b w t e = Ok m" "entry_ok w e \<or> blank_entry e"
  shows "m = 0 \<or> m = 1" "\<not> token_is w t (slot (other_index m) (rc_devices e))"
proof -
  show "m = 0 \<or> m = 1" using assms(1) by (auto simp: my_device_index_def split: if_splits)
  have diff: "\<not> (token_is w t (fst (rc_devices e)) \<and> token_is w t (snd (rc_devices e)))"
    using assms(2) by (rule one_token_match)
  show "\<not> token_is w t (slot (other_index m) (rc_devices e))"
    using assms(1) diff
    by (auto simp: my_device_index_def slot_def other_index_def split: if_splits)
qed

text \<open>The registration as a whole.\<close>

lemma device_close_frame:
  assumes "device_close x w = Ok w'"
  shows "\<exists>f. w' = w\<lparr>ws_alive := f\<rparr>"
  using assms by (auto simp: device_close_def with_dev_def close_connection_def
      split: option.splits if_splits)

lemma register_finish:
  assumes core: "core_inv w i" and i: "i < length (registered w)" and m: "m = 0 \<or> m = 1"
    and d: "d = next_id w" and e: "e = registered w ! i"
    and reg: "registered w' = (registered w)[i := e']" "rc_key e' = rc_key e"
    and dev': "rc_devices e' = set_slot m (Some d) (rc_devices e)"
    and nxt: "next_id w' = Suc d"
    and same: "\<And>a. a \<notin> entry_ids e \<Longrightarrow> a \<noteq> d \<Longrightarrow> devs w' a = devs w a"
    and old: "\<And>a. slot m (rc_devices e) = Some a \<Longrightarrow> devs w' a = None"
    and new: "devs w' d \<noteq> None"
    and oth: "\<And>a. slot (other_index m) (rc_devices e) = Some a \<Longrightarrow> devs w' a \<noteq> None"
    and ok: "entry_ok w' e'"
    and diff: "\<And>a. slot m (rc_devices e) = Some a \<Longrightarrow> slot (other_index m) (rc_devices e) \<noteq> Some a"
  shows "server_inv w'"
proof -
  have own: "a \<in> entry_ids e \<Longrightarrow> devs w a \<noteq> None" for a
    using core i e by (auto simp: core_inv_def)
  have bound: "devs w a \<noteq> None \<Longrightarrow> a < d" for a
    using core d by (simp add: core_inv_def)
  have ids: "entry_ids e = set_option (slot m (rc_devices e)) \<union>
      set_option (slot (other_index m) (rc_devices e))"
    using m by (auto simp: entry_ids_def slot_def other_index_def)
  have ids': "entry_ids e' = insert d (set_option (slot (other_index m) (rc_devices e)))"
    using m by (auto simp: entry_ids_def dev' slot_def set_slot_def other_index_def)
  have dd: "d \<notin> entry_ids e" using own bound by blast
  have alive: "devs w' a \<noteq> None \<longleftrightarrow> a \<in> entry_ids e' \<or> (a \<notin> entry_ids e \<and> devs w a \<noteq> None)" for a
  proof (cases "a \<in> entry_ids e \<or> a = d")
    case True
    then consider "a = d" | "slot m (rc_devices e) = Some a" "a \<noteq> d"
      | "slot (other_index m) (rc_devices e) = Some a" by (auto simp: ids)
    then show ?thesis
      using new old oth diff dd by cases (auto simp: ids ids')
  qed (use same in \<open>auto simp: ids ids'\<close>)
  have "core_inv w' i"
    using core i reg(1) reg(2)[unfolded e]
  proof (rule core_inv_replace)
    show "\<And>a. a \<in> entry_ids e' \<Longrightarrow> a \<in> entry_ids (registered w ! i) \<or> devs w a = None"
      using bound[of d] by (auto simp: ids ids' e[symmetric])
    show "\<And>a. devs w' a \<noteq> None \<longleftrightarrow> a \<in> entry_ids e' \<or>
        (a \<notin> entry_ids (registered w ! i) \<and> devs w a \<noteq> None)"
      using alive by (simp add: e)
    show "\<And>a. devs w' a \<noteq> None \<Longrightarrow> a < next_id w'"
      using alive own bound nxt by (auto simp: ids ids' less_Suc_eq)
  qed (use same ids' e in auto)
  with ok i reg show ?thesis by (simp add: server_inv_iff)
qed

lemma upd_dev_frame:
  "registered (upd_dev d f w) = registered w" "next_id (upd_dev d f w) = next_id w"
  by (simp_all add: upd_dev_def)

lemma introduced_frame:
  "registered (introduced x d w) = registered w" "next_id (introduced x d w) = next_id w"
  "a \<noteq> x \<Longrightarrow> a \<noteq> d \<Longrightarrow> devs (introduced x d w) a = devs w a"
  "map_option token (devs (introduced x d w) a) = map_option token (devs w a)"
  "handle_ok (introduced x d w) k o' h = handle_ok w k o' h"
  by (auto simp: upd_dev_def handle_ok_def option.map_comp comp_def split: option.splits)

lemma handle_ok_new:
  "devs w d = Some x \<Longrightarrow> handle_ok w (key r) (Some d)
     (Some \<lparr> hconn = connection x, hkey = key r, htoken = token x, hid = d \<rparr>)"
  by (simp add: handle_ok_def)

lemma entry_ok_slots:
  assumes "m = 0 \<or> m = 1"
  shows "entry_ok w (e\<lparr>rc_devices := set_slot m (Some d) ds, rc_handles := set_slot m (Some h) hs\<rparr>)
    \<longleftrightarrow> handle_ok w (rc_key e) (Some d) (Some h) \<and>
      handle_ok w (rc_key e) (slot (other_index m) ds) (slot (other_index m) hs) \<and>
      (case slot (other_index m) ds of None \<Rightarrow> single_ok w d
        | Some x \<Rightarrow> pair_ok w x d \<and> pair_served w x d \<and> tokens_differ w x d)"
  using assms
  by (auto simp: entry_ok_def set_slot_def slot_def other_index_def tokens_differ_def
      pair_ok_sym[of w d] pair_served_sym[of w d] split: option.splits prod.splits)

lemma handle_ok_cong: "(\<And>d. o' = Some d \<Longrightarrow> devs w' d = devs w d) \<Longrightarrow>
    handle_ok w' k o' h = handle_ok w k o' h"
  by (cases o') (simp_all add: handle_ok_def)

lemma entry_ok_handles:
  "entry_ok w e \<or> blank_entry e \<Longrightarrow> handle_ok w (rc_key e) (slot n (rc_devices e)) (slot n (rc_handles e))"
  by (auto simp: entry_ok_def blank_entry_def slot_def handle_ok_def)

lemma register_inv:
  assumes inv: "server_inv w0" and run: "do_register b c r w0 = Ok w'"
  shows "server_inv w'"
proof -
  obtain i w where iw: "find_or_create (key r) w0 = (i, w)" by fastforce
  note fc = find_or_create_core[OF inv iw]
  let ?e = "registered w ! i" let ?d = "next_id w" let ?t = "reconnect_token r"
  let ?h = "\<lparr> hconn = c, hkey = key r, htoken = ?t, hid = ?d \<rparr>"
  from run iw obtain m where m: "my_device_index b w ?t ?e = Ok m"
    by (auto simp: do_register_def Let_def res_simps)
  note mi = my_device_index_facts[OF m fc(4)]
  let ?old = "slot m (rc_devices ?e)" let ?oth = "slot (other_index m) (rc_devices ?e)"
  let ?e' = "?e\<lparr> rc_devices := set_slot m (Some ?d) (rc_devices ?e),
    rc_handles := set_slot m (Some ?h) (rc_handles ?e) \<rparr>"
  from run iw m obtain w2 w4 where
    w2: "(case ?old of None \<Rightarrow> Ok | Some x \<Rightarrow> device_close x) (create_device c ?t w) = Ok w2"
    and w4: "(case ?oth of None \<Rightarrow> Ok | Some x \<Rightarrow> block
       [assert_stmt b (\<lambda>w. \<not> token_is w ?t (Some x)), set_partner b ?d x, set_partner b x ?d])
       (store_device i m ?d ?h w2) = Ok w4"
    and w': "w' = destroy_device ?old w4"
    by (auto simp: do_register_def Let_def rbind_Ok_iff[of "_ :: server res"])
  let ?w3 = "store_device i m ?d ?h w2"
  have "\<exists>f. w2 = (create_device c ?t w)\<lparr>ws_alive := f\<rparr>"
    using w2 by (cases ?old) (auto dest: device_close_frame intro: exI[of _ "ws_alive w2"])
  then have w3: "devs ?w3 = (devs w)(?d := Some (make_device c ?t))" "next_id ?w3 = Suc ?d"
    "registered ?w3 = (registered w)[i := ?e']"
    by (auto simp: store_device_def create_device_def)
  have own: "devs w a \<noteq> None \<and> a \<noteq> ?d" if "?old = Some a \<or> ?oth = Some a" for a
  proof -
    from that mi(1) have "a \<in> entry_ids ?e" by (auto simp: entry_ids_def slot_def other_index_def split: if_splits)
    then have "devs w a \<noteq> None" using fc(1,2) by (auto simp: core_inv_def)
    moreover from this have "a < ?d" using fc(1) unfolding core_inv_def by blast
    ultimately show ?thesis by simp
  qed
  have diff: "?old = Some a \<Longrightarrow> ?oth \<noteq> Some a" for a
    using fc(4) mi(1) by (cases "rc_devices ?e")
      (auto simp: entry_ok_def blank_entry_def pair_ok_def slot_def other_index_def)
  have step: "registered w4 = (registered w)[i := ?e'] \<and> next_id w4 = Suc ?d \<and> devs w4 ?d \<noteq> None \<and>
      (\<forall>a. a \<noteq> ?d \<and> ?oth \<noteq> Some a \<longrightarrow> devs w4 a = devs w a) \<and>
      (\<forall>a. ?oth = Some a \<longrightarrow> devs w4 a \<noteq> None) \<and> entry_ok w4 ?e'"
  proof (cases ?oth)
    case None
    with w4 have e: "w4 = ?w3" by simp
    have "single_ok w4 ?d" by (simp add: e single_ok_def w3 make_device_def)
    moreover have "handle_ok w4 (rc_key ?e) (Some ?d) (Some ?h)"
      by (simp add: e handle_ok_def w3 make_device_def fc(3))
    moreover have "handle_ok w4 (rc_key ?e) None (slot (other_index m) (rc_handles ?e))"
      using entry_ok_handles[OF fc(4), of "other_index m"] None by (simp add: handle_ok_def)
    ultimately have "entry_ok w4 ?e'"
      using None by (simp add: entry_ok_slots[OF mi(1)])
    with None show ?thesis by (simp add: e w3)
  next
    case (Some x)
    from own[of x] Some obtain y where y: "devs w x = Some y" and xd: "x \<noteq> ?d" by auto
    from Some w4 have ip: "pair_ok w4 x ?d \<and> pair_served w4 x ?d \<and> evolves {x, ?d} (introduced x ?d ?w3) w4"
      using y xd w3 by (intro introduce_pair[where c = c and t = ?t]) auto
    then have ev: "evolves {x, ?d} (introduced x ?d ?w3) w4" by simp
    note map = evolves_map[OF ev] introduced_frame(4,5)
    have "tokens_differ w4 x ?d"
      using mi(2) Some y xd by (simp add: tokens_differ_def map w3 token_is_def make_device_def)
    moreover have "handle_ok w4 (rc_key ?e) (Some ?d) (Some ?h)"
      by (simp only: map) (simp add: handle_ok_def w3 make_device_def fc(3))
    moreover have "handle_ok w4 (rc_key ?e) (Some x) (slot (other_index m) (rc_handles ?e))"
      using entry_ok_handles[OF fc(4), of "other_index m"] Some y xd
      by (simp only: map) (simp add: handle_ok_def w3)
    ultimately have "entry_ok w4 ?e'"
      using ip Some by (simp add: entry_ok_slots[OF mi(1)])
    moreover have "devs w4 a = devs w a" if "a \<noteq> ?d" "x \<noteq> a" for a
      using ev that introduced_frame(3)[of a x ?d ?w3] by (simp add: evolves_def w3)
    moreover have "devs w4 x \<noteq> None" "devs w4 ?d \<noteq> None"
      using ip by (auto simp: pair_ok_def split: option.splits)
    ultimately show ?thesis
      using Some evolves_frame[OF ev] by (simp add: introduced_frame w3)
  qed
  have keep: "devs w' a = devs w4 a" if "a = ?d \<or> ?oth = Some a" for a
    using that own diff by (auto simp: w' destroy_device_frame)
  have "entry_ok w' ?e'"
  proof (subst entry_ok_cong)
    show "devs w' a = devs w4 a" if "a \<in> entry_ids ?e'" for a
      using that mi(1) by (intro keep) (auto simp: entry_ids_def set_slot_def slot_def other_index_def)
  qed (use step in simp)
  then show ?thesis
    using fc(1,2) mi(1) step keep diff own
    by (intro register_finish[where i = i and w = w and m = m and e' = ?e' and d = ?d and e = ?e])
      (auto simp: w' destroy_device_frame entry_ids_def slot_def other_index_def split: if_splits)
qed

section \<open>Reachable states\<close>

lemma server_inv_cong:
  "registered w' = registered w \<Longrightarrow> devs w' = devs w \<Longrightarrow> next_id w' = next_id w \<Longrightarrow>
   server_inv w' = server_inv w"
  using entry_ok_cong[of _ w' w] by (simp add: server_inv_def core_inv_def)

lemma message_visitor_inv:
  "server_inv w \<Longrightarrow> message_visitor b c m w = Ok w' \<Longrightarrow> server_inv w'"
  by (auto simp: message_visitor_def split: message.splits if_splits
      intro: emit_to_devices_inv register_inv)

lemma server_step_inv:
  assumes "server_inv w" "server_step b w e = Ok w'"
  shows "server_inv w'"
proof (cases e)
  case Connected
  have "server_inv (on_connection w) = server_inv w"
    by (rule server_inv_cong) (simp_all add: on_connection_def)
  with Connected assms show ?thesis by auto
next
  case (Received c m)
  with assms show ?thesis
    by (auto simp: res_simps run_next_def split: if_splits intro: message_visitor_inv)
next
  case (Unparsable c)
  have "server_inv (w\<lparr>reading := (reading w)(c := False)\<rparr>) = server_inv w"
    by (rule server_inv_cong) simp_all
  with Unparsable assms show ?thesis by auto
next
  case (Read_failed c)
  with assms show ?thesis
    using server_inv_cong[of "w\<lparr>reading := (reading w)(c := False)\<rparr>" w]
    by (auto split: if_splits intro: emit_on_closed_inv)
qed

end
