(* ===== verification/Signaling_Server.thy ===== *)
theory Signaling_Server
  imports Registration
begin

text \<open>
  What the signaling server guarantees in every reachable state, how it relays and
  caches messages, and what goes wrong when a device comes back while its former
  connection is still registered. The definitions are those of \<open>Device\<close> and
  \<open>Registration\<close>; a state is reachable if some sequence of connections, messages
  and read failures leads to it from the empty server.
\<close>

interpretation sig: state_machine "server_step b" server_inv
  by unfold_locales (rule server_step_inv)

lemma reachable_server_inv:
  "reachable (server_step b) initial_server w \<Longrightarrow> server_inv w"
  using sig.reachable_inv server_inv_initial by blast

lemma server_inv_partner:
  assumes "server_inv w" "devs w a = Some x" "partner x = Some p"
  shows "pair_ok w a p \<and> pair_served w a p"
proof -
  from server_inv_owner[OF assms(1)] assms(2) obtain i where i: "i < length (registered w)"
    and ai: "a \<in> entry_ids (registered w ! i)" by auto
  from server_inv_entry[OF assms(1) i] ai assms(2,3) show ?thesis
    by (cases "rc_devices (registered w ! i)")
      (auto simp: entry_ok_def entry_ids_def single_ok_def pair_ok_def pair_served_sym[of w _ a]
        split: option.splits)
qed

text \<open>A run used for the witnesses: two devices register under one key, both want to
  negotiate, and the server asks the first for an offer.\<close>

definition demo_trace :: "event list" where
  "demo_trace =
    [Connected, Connected,
     Received 0 (Registration \<lparr> key = ''room'', reconnect_token = ''a'' \<rparr>),
     Received 1 (Registration \<lparr> key = ''room'', reconnect_token = ''b'' \<rparr>),
     Received 0 Want_to_negotiate, Received 1 Want_to_negotiate]"

lemma demo_run:
  obtains w x y where "reachable (server_step Debug) initial_server w"
    "devs w 0 = Some x" "partner x = Some 1" "devs w 1 = Some y"
    "active_negotiating x" "wants_to_negotiate y" "sent w = [(0, Create_offer)]"
proof -
  have "case run_events (server_step Debug) initial_server demo_trace of
      Ok w \<Rightarrow> (case (devs w 0, devs w 1) of
        (Some x, Some y) \<Rightarrow> partner x = Some 1 \<and> active_negotiating x \<and>
          wants_to_negotiate y \<and> sent w = [(0, Create_offer)]
      | _ \<Rightarrow> False)
    | _ \<Rightarrow> False"
    by code_simp
  then show ?thesis
    by (auto split: res.splits option.splits intro: that run_events_reachable)
qed

text \<open>C4. Partners always point at each other, and never does the server have both
  of them negotiating: at most one side of a call is asked to create an offer at a
  time. Holds in every reachable state of the signaling server, whatever the
  clients send and in whatever order, in both builds.\<close>

theorem never_both_negotiating:
  assumes "reachable (server_step b) initial_server w"
    and "devs w a = Some x" "partner x = Some p"
  shows "\<exists>y. devs w p = Some y \<and> partner y = Some a \<and>
    \<not> (active_negotiating x \<and> active_negotiating y)"
  using server_inv_partner[OF reachable_server_inv[OF assms(1)] assms(2,3)] assms(2)
  by (auto elim!: pair_okE)

lemma never_both_negotiating_witness:
  "\<exists>(w :: server) x y. devs w 0 = Some x \<and> active_negotiating x \<and> devs w 1 = Some y \<and>
     \<not> active_negotiating y"
proof -
  obtain w x y where "reachable (server_step Debug) initial_server w"
    "devs w 0 = Some x" "partner x = Some 1" "active_negotiating x"
    by (rule demo_run)
  with never_both_negotiating[of Debug w 0 x 1] show ?thesis by blast
qed

text \<open>C5. No wish is forgotten: in every reachable state, if one of two partners
  wants to negotiate, then one of them is negotiating.\<close>

theorem wish_is_served:
  assumes "reachable (server_step b) initial_server w"
    and "devs w a = Some x" "partner x = Some p" "devs w p = Some y"
    and "wants_to_negotiate x \<or> wants_to_negotiate y"
  shows "active_negotiating x \<or> active_negotiating y"
  using server_inv_partner[OF reachable_server_inv[OF assms(1)] assms(2,3)] assms(2-)
  by (auto simp: pair_served_def)

lemma wish_is_served_witness:
  "\<exists>(w :: server) x y. devs w 0 = Some x \<and> devs w 1 = Some y \<and> wants_to_negotiate y \<and>
     (active_negotiating x \<or> active_negotiating y)"
proof -
  obtain w x y where "reachable (server_step Debug) initial_server w"
    "devs w 0 = Some x" "partner x = Some 1" "devs w 1 = Some y" "wants_to_negotiate y"
    by (rule demo_run)
  with wish_is_served[of Debug w 0 x 1 y] show ?thesis by blast
qed

text \<open>C33. Every registered connection has a device, no two share a key, and the two
  devices under a key have different tokens.\<close>

theorem registered_wellformed:
  assumes "reachable (server_step b) initial_server w"
  shows "distinct (map rc_key (registered w)) \<and>
    list_all (\<lambda>e. rc_devices e \<noteq> (None, None) \<and>
      (\<forall>p q. rc_devices e = (Some p, Some q) \<longrightarrow>
        map_option token (devs w p) \<noteq> map_option token (devs w q))) (registered w)"
proof -
  have inv: "server_inv w" using assms by (rule reachable_server_inv)
  then have "\<forall>e \<in> set (registered w). entry_ok w e"
    by (metis in_set_conv_nth server_inv_entry)
  moreover from inv have "distinct (map rc_key (registered w))"
    by (simp add: server_inv_def core_inv_def)
  ultimately show ?thesis
    by (auto simp: list_all_iff entry_ok_def tokens_differ_def)
qed

lemma registered_wellformed_witness:
  "\<exists>w. reachable (server_step Debug) initial_server w \<and> devs w 0 \<noteq> None \<and>
     distinct (map rc_key (registered w))"
proof -
  obtain w x y where "reachable (server_step Debug) initial_server w" "devs w 0 = Some x"
    by (rule demo_run)
  with registered_wellformed[of Debug w] show ?thesis by blast
qed

lemma find_registered_unique:
  assumes "server_inv w" "i < length (registered w)"
  shows "find_registered (rc_key (registered w ! i)) w = Some i"
proof (cases "find_registered (rc_key (registered w ! i)) w")
  case None
  with assms(2) show ?thesis by (auto simp: find_registered_def find_index_None)
next
  case (Some j)
  note j = find_registered_Some[OF Some]
  have "distinct (map rc_key (registered w))"
    using assms(1) by (simp add: server_inv_def core_inv_def)
  with j assms(2) have "j = i" by (auto simp: distinct_conv_nth)
  with Some show ?thesis by simp
qed

lemma stored_handle_entry:
  assumes inv: "server_inv w" and h: "h \<in> set (stored_handles w)"
  obtains i m where "i < length (registered w)" "m = 0 \<or> m = 1"
    "slot m (rc_devices (registered w ! i)) = Some (hid h)" "rc_key (registered w ! i) = hkey h"
    "find_registered (hkey h) w = Some i"
    "remove_index b w (htoken h) (registered w ! i) = Ok m"
proof -
  from h obtain e where e: "e \<in> set (registered w)"
    "fst (rc_handles e) = Some h \<or> snd (rc_handles e) = Some h"
    by (auto simp: stored_handles_def split: option.splits)
  then obtain i where i: "i < length (registered w)" "e = registered w ! i"
    by (auto simp: in_set_conv_nth)
  from server_inv_entry[OF inv i(1)] i have ok: "entry_ok w e" by simp
  define m :: nat where "m = (if snd (rc_handles e) = Some h then 1 else 0)"
  have m: "m = 0 \<or> m = 1" "slot m (rc_handles e) = Some h"
    using e(2) by (auto simp: m_def slot_def)
  have "handle_ok w (rc_key e) (slot m (rc_devices e)) (Some h)"
    using entry_ok_handles[OF disjI1[OF ok], of m] m(2) by simp
  then obtain d x where
    d: "slot m (rc_devices e) = Some d" "devs w d = Some x"
    "h = \<lparr> hconn = connection x, hkey = rc_key e, htoken = token x, hid = d \<rparr>"
    by (cases "slot m (rc_devices e)"; cases "devs w (the (slot m (rc_devices e)))")
      (auto simp: handle_ok_def)
  have "token_is w (htoken h) (slot m (rc_devices e))" using d by (simp add: token_is_def)
  with one_token_match[OF disjI1[OF ok], of "htoken h"] m(1)
  have "remove_index b w (htoken h) e = Ok m" by (auto simp: remove_index_def slot_def)
  show thesis
  proof (rule that[of i m])
    from d(3) have k: "hid h = d" "hkey h = rc_key e" by simp_all
    show "slot m (rc_devices (registered w ! i)) = Some (hid h)" using d(1) k i by simp
    show "rc_key (registered w ! i) = hkey h" using k i by simp
    show "find_registered (hkey h) w = Some i"
      using find_registered_unique[OF inv i(1)] k i by simp
    show "remove_index b w (htoken h) (registered w ! i) = Ok m"
      using \<open>remove_index b w (htoken h) e = Ok m\<close> i by simp
  qed (use i m in simp_all)
qed

lemma drop_slot_devs:
  "devs (drop_slot i m w) d =
    (if slot m (rc_devices (registered w ! i)) = Some d then None
     else case slot (other_index m) (rc_devices (registered w ! i)) of
       None \<Rightarrow> devs w d | Some x \<Rightarrow> devs (reset_partner x w) d)"
  by (auto simp: drop_slot_def Let_def destroy_device_frame split: option.splits)

text \<open>Closing is safe: in every reachable state, the close handler the server
  stored for a device finds its entry and its slot, so neither the assertions of
  \<open>on_device_closed\<close> fire nor is \<open>end()\<close> dereferenced, and afterwards that device is
  gone while every device of another entry is untouched.\<close>

theorem close_handler_safe:
  assumes "reachable (server_step b) initial_server w" "h \<in> set (stored_handles w)"
  shows "\<exists>w'. on_device_closed b (hkey h) (htoken h) w = Ok w' \<and> devs w' (hid h) = None \<and>
    (\<forall>e d. e \<in> set (registered w) \<and> rc_key e \<noteq> hkey h \<and> d \<in> entry_ids e \<longrightarrow>
       devs w' d = devs w d)"
proof -
  have inv: "server_inv w" using assms(1) by (rule reachable_server_inv)
  from stored_handle_entry[OF inv assms(2), of b] obtain i m where im:
    "i < length (registered w)" "m = 0 \<or> m = 1"
    "slot m (rc_devices (registered w ! i)) = Some (hid h)" "rc_key (registered w ! i) = hkey h"
    "find_registered (hkey h) w = Some i"
    "remove_index b w (htoken h) (registered w ! i) = Ok m" .
  have "devs (drop_slot i m w) d = devs w d"
    if "e \<in> set (registered w)" "rc_key e \<noteq> hkey h" "d \<in> entry_ids e" for e d
  proof -
    from that(1) obtain j where j: "j < length (registered w)" "e = registered w ! j"
      by (auto simp: in_set_conv_nth)
    with that im have "j \<noteq> i" by auto
    with inv that j im(1) have "d \<notin> entry_ids (registered w ! i)"
      unfolding server_inv_def core_inv_def by blast
    with im(2) show ?thesis
      by (auto simp: drop_slot_devs reset_partner_frame entry_ids_def slot_def other_index_def
          split: option.splits)
  qed
  moreover have "on_device_closed b (hkey h) (htoken h) w = Ok (drop_slot i m w)"
    using im by (simp add: on_device_closed_def)
  moreover have "devs (drop_slot i m w) (hid h) = None"
    using im by (simp add: drop_slot_devs)
  ultimately show ?thesis by blast
qed

lemma close_handler_safe_witness:
  "\<exists>(w :: server) w'. devs w 0 \<noteq> None \<and> on_device_closed Debug ''room'' ''a'' w = Ok w' \<and>
     devs w' 0 = None"
proof -
  let ?h = "\<lparr> hconn = 0, hkey = ''room'', htoken = ''a'', hid = 0 \<rparr>"
  have "case run_events (server_step Debug) initial_server demo_trace of
      Ok w \<Rightarrow> ?h \<in> set (stored_handles w) \<and> devs w 0 \<noteq> None | _ \<Rightarrow> False"
    by code_simp
  then obtain w where "reachable (server_step Debug) initial_server w"
    "?h \<in> set (stored_handles w)" "devs w 0 \<noteq> None"
    by (auto split: res.splits intro: run_events_reachable)
  with close_handler_safe[of Debug w ?h] show ?thesis by auto
qed


section \<open>Relaying and caching\<close>

text \<open>While a device has a partner, offers and candidates it sends are delivered
  to that partner's connection, once each and in the order sent, and nothing else
  is sent or changed.\<close>

theorem relay_in_order:
  assumes "devs w a = Some x" "partner x = Some p" "devs w p = Some y" "ws_alive w (connection y)"
    and "list_all (\<lambda>m. (\<exists>f. m = Offer f) \<or> (\<exists>c. m = Ice_candidate c)) ms"
  shows "foreach ms (device_receive b a) w =
    Ok (w\<lparr>sent := sent w @ map (Pair (connection y)) ms\<rparr>)"
  using assms
proof (induction ms arbitrary: w)
  case Nil
  then show ?case by simp
next
  case (Cons m ms)
  let ?v = "w\<lparr>sent := sent w @ [(connection y, m)]\<rparr>"
  from Cons.prems have "device_receive b a m w = Ok ?v"
    by (auto simp: on_offer_def on_ice_candidate_def send_offer_def send_ice_candidate_def
        send_on_def conn_send_def with_dev_def lock_partner_def)
  moreover from Cons.prems have "foreach ms (device_receive b a) ?v =
      Ok (?v\<lparr>sent := sent ?v @ map (Pair (connection y)) ms\<rparr>)"
    by (intro Cons.IH) auto
  ultimately show ?case by simp
qed

lemma relay_in_order_witness:
  "\<exists>w :: hub. foreach [Offer \<lparr>offer_sdp = ''v=0''\<rparr>] (device_receive Release 0) w =
     Ok (w\<lparr>sent := sent w @ [(7, Offer \<lparr>offer_sdp = ''v=0''\<rparr>)]\<rparr>)"
proof -
  let ?w = "\<lparr> devs = (\<lambda>_. None)(0 := Some ((make_device 5 ''a'')\<lparr>partner := Some 1\<rparr>),
     1 := Some (make_device 7 ''b'')), ws_alive = (\<lambda>_. True), sent = [] \<rparr> :: hub"
  have "foreach [Offer \<lparr>offer_sdp = ''v=0''\<rparr>] (device_receive Release 0) ?w =
     Ok (?w\<lparr>sent := sent ?w @ map (Pair (connection (make_device 7 ''b''))) [Offer \<lparr>offer_sdp = ''v=0''\<rparr>]\<rparr>)"
    by (rule relay_in_order[where x = "(make_device 5 ''a'')\<lparr>partner := Some 1\<rparr>" and p = 1])
      (simp_all add: make_device_def)
  then have "foreach [Offer \<lparr>offer_sdp = ''v=0''\<rparr>] (device_receive Release 0) ?w =
     Ok (?w\<lparr>sent := sent ?w @ [(7, Offer \<lparr>offer_sdp = ''v=0''\<rparr>)]\<rparr>)"
    by (simp add: make_device_def)
  then show ?thesis by blast
qed

text \<open>Candidates sent by a device that is alone pile up in its cache.\<close>

lemma lone_candidates:
  assumes "devs w a = Some x" "partner x = None"
  shows "foreach cs (on_ice_candidate a) w =
    Ok (upd_dev a (\<lambda>x. x\<lparr>candidates_cache := candidates_cache x @ cs\<rparr>) w)"
  using assms
proof (induction cs arbitrary: w x)
  case Nil
  then show ?case by (simp add: upd_dev_def map_option_case fun_upd_idem)
next
  case (Cons c cs)
  let ?x = "x\<lparr>candidates_cache := candidates_cache x @ [c]\<rparr>"
  let ?v = "w\<lparr>devs := (devs w)(a := Some ?x)\<rparr>"
  from Cons.prems have "on_ice_candidate a c w = Ok ?v"
    by (simp add: on_ice_candidate_def with_dev_def lock_partner_def upd_dev_def)
  moreover have "foreach cs (on_ice_candidate a) ?v =
      Ok (upd_dev a (\<lambda>x. x\<lparr>candidates_cache := candidates_cache x @ cs\<rparr>) ?v)"
    using Cons.prems by (intro Cons.IH[of ?v ?x]) auto
  ultimately show ?case using Cons.prems by (simp add: upd_dev_def)
qed

lemma send_candidates_all:
  assumes "devs w p = Some y" "ws_alive w (connection y)"
  shows "foreach cs (send_ice_candidate p) w =
    Ok (w\<lparr>sent := sent w @ map (\<lambda>c. (connection y, Ice_candidate c)) cs\<rparr>)"
  using assms
  by (induction cs arbitrary: w)
    (simp_all add: send_ice_candidate_def send_on_def with_dev_def conn_send_def)

text \<open>What \<open>set_partner\<close> does with the caches.\<close>

lemma set_partner_replays:
  assumes "devs w a = Some x" "devs w p = Some y" "a \<noteq> p"
    and "answer_cache x = None" "\<not> active_negotiating x" "\<not> active_negotiating y"
    and "ws_alive w (connection x)" "ws_alive w (connection y)"
  shows "set_partner b a p w = Ok (w\<lparr>
    devs := (devs w)(a := Some (x\<lparr>partner := Some p, candidates_cache := [], offer_cache := None,
      answer_cache := None, active_negotiating := wants_to_negotiate x,
      wants_to_negotiate := False\<rparr>)),
    sent := sent w @ map (\<lambda>c. (connection y, Ice_candidate c)) (candidates_cache x) @
      map (\<lambda>f. (connection y, Offer f)) (case offer_cache x of None \<Rightarrow> [] | Some f \<Rightarrow> [f]) @
      (if wants_to_negotiate x then [(connection x, Create_offer)] else [])\<rparr>)"
proof -
  let ?w1 = "upd_dev a (\<lambda>x. x\<lparr>partner := Some p\<rparr>) w"
  let ?x = "x\<lparr>partner := Some p, candidates_cache := [], offer_cache := None, answer_cache := None\<rparr>"
  let ?l = "sent w @ map (\<lambda>c. (connection y, Ice_candidate c)) (candidates_cache x) @
        map (\<lambda>f. (connection y, Offer f)) (case offer_cache x of None \<Rightarrow> [] | Some f \<Rightarrow> [f])"
  let ?w2 = "w\<lparr>devs := (devs w)(a := Some ?x), sent := ?l\<rparr>"
  have a: "devs ?w1 a = Some (x\<lparr>partner := Some p\<rparr>)" "devs ?w1 p = Some y"
    using assms by (auto simp: upd_dev_def)
  have c: "send_cache b a ?w1 = Ok ?w2"
    using assms a send_candidates_all[of ?w1 p y "candidates_cache x"]
    by (cases "offer_cache x") (auto simp: send_cache_def with_dev_def lock_partner_def upd_dev_def
        send_offer_def send_on_def conn_send_def)
  have x2: "devs ?w2 a = Some ?x" "devs ?w2 p = Some y" using assms by auto
  have "set_partner b a p w = negotiate a ?w2"
    using assms c by (simp add: set_partner_def assert_stmt_def)
  also have "\<dots> = Ok (?w2\<lparr>devs := (devs w)(a := Some (?x\<lparr>active_negotiating := wants_to_negotiate x,
      wants_to_negotiate := False\<rparr>)),
      sent := ?l @ (if wants_to_negotiate x then [(connection x, Create_offer)] else [])\<rparr>)"
  proof (cases "wants_to_negotiate x")
    case True
    with assms show ?thesis
      by (simp add: negotiate_def with_dev_def lock_partner_def conn_send_def upd_dev_def)
  next
    case False
    with assms have "?x\<lparr>active_negotiating := wants_to_negotiate x, wants_to_negotiate := False\<rparr> = ?x"
      by (cases x) simp
    with False x2 show ?thesis by (simp add: negotiate_def with_dev_def)
  qed
  finally show ?thesis by simp
qed

definition candidate_in :: "message \<Rightarrow> ice_candidate list" where
  "candidate_in m = (case m of Ice_candidate c \<Rightarrow> [c] | _ \<Rightarrow> [])"

definition candidates_of :: "message list \<Rightarrow> ice_candidate list" where
  "candidates_of ms = concat (map candidate_in ms)"

definition newer_offer :: "offer option \<Rightarrow> message \<Rightarrow> offer option" where
  "newer_offer f m = (case m of Offer f' \<Rightarrow> Some f' | _ \<Rightarrow> f)"

definition last_offer :: "offer option \<Rightarrow> message list \<Rightarrow> offer option" where
  "last_offer = foldl newer_offer"

text \<open>Nothing is sent for what a device receives while it is alone.\<close>

lemma lone_device:
  assumes "foreach ms (device_receive b a) w = Ok v" "devs w a = Some x" "partner x = None"
    and "\<forall>m \<in> set ms. (\<exists>f. m = Offer f) \<or> (\<exists>c. m = Ice_candidate c) \<or> m = Want_to_negotiate"
  shows "v = w\<lparr>devs := (devs w)(a := Some (x\<lparr>candidates_cache := candidates_cache x @ candidates_of ms,
      offer_cache := last_offer (offer_cache x) ms,
      wants_to_negotiate := wants_to_negotiate x \<or> Want_to_negotiate \<in> set ms\<rparr>))\<rparr>"
  using assms
proof (induction ms arbitrary: w x)
  case Nil
  then show ?case
    by (simp add: candidates_of_def last_offer_def fun_upd_idem)
next
  case (Cons m ms)
  let ?x = "x\<lparr>candidates_cache := candidates_cache x @ candidate_in m,
      offer_cache := newer_offer (offer_cache x) m,
      wants_to_negotiate := wants_to_negotiate x \<or> m = Want_to_negotiate\<rparr>"
  from Cons.prems(1) obtain u where u: "device_receive b a m w = Ok u" "foreach ms (device_receive b a) u = Ok v"
    by (auto simp: res_simps)
  have w: "u = w\<lparr>devs := (devs w)(a := Some ?x)\<rparr>"
    using u(1) Cons.prems(2-4)
    by (auto simp: on_offer_def on_ice_candidate_def on_want_to_negotiate_def with_dev_def lock_partner_def
        upd_dev_def candidate_in_def newer_offer_def split: if_splits)
  have "devs u a = Some ?x" "partner ?x = None" using Cons.prems(3) by (simp_all add: w)
  from Cons.IH[OF u(2) this] Cons.prems(4) show ?case
    by (simp add: w candidates_of_def last_offer_def disj_assoc eq_commute[of m] cong: if_cong)
qed

text \<open>C15. What a client sends while it is alone. Its candidates, offers and wishes to
  negotiate are kept and nothing is sent for them; when a partner arrives, all the
  candidates reach it in the order they came, followed by the last offer, and a wish
  is taken up by asking the client for an offer; the caches are then empty. So a
  second offer replaces the first, which is lost (a Debug build asserts at it, so
  there the messages were received only if there was one). This is for a device with
  empty caches, of which no answer arrives (a kept answer asserts in a Debug build
  when it is handed on), and neither side negotiating.\<close>

theorem cache_replayed:
  assumes "devs w a = Some x" "partner x = None" "candidates_cache x = []" "offer_cache x = None"
    and "answer_cache x = None" "\<not> active_negotiating x"
    and "\<forall>m \<in> set ms. (\<exists>f. m = Offer f) \<or> (\<exists>c. m = Ice_candidate c) \<or> m = Want_to_negotiate"
    and "foreach ms (device_receive b a) w = Ok v"
    and "devs w p = Some y" "a \<noteq> p" "\<not> active_negotiating y"
    and "ws_alive w (connection x)" "ws_alive w (connection y)"
    and "wish = (wants_to_negotiate x \<or> Want_to_negotiate \<in> set ms)"
  shows "sent v = sent w \<and> set_partner b a p v = Ok (w\<lparr>
    devs := (devs w)(a := Some (x\<lparr>partner := Some p, active_negotiating := wish, wants_to_negotiate := False\<rparr>)),
    sent := sent w @ map (\<lambda>c. (connection y, Ice_candidate c)) (candidates_of ms) @
      map (\<lambda>f. (connection y, Offer f)) (case last_offer None ms of None \<Rightarrow> [] | Some f \<Rightarrow> [f]) @
      (if wish then [(connection x, Create_offer)] else [])\<rparr>)"
proof -
  let ?x = "x\<lparr>candidates_cache := candidates_of ms, offer_cache := last_offer None ms,
      wants_to_negotiate := wish\<rparr>"
  have v: "v = w\<lparr>devs := (devs w)(a := Some ?x)\<rparr>"
    using lone_device[OF assms(8,1,2,7)] assms(3,4,14) by simp
  have "x\<lparr>candidates_cache := [], offer_cache := None, answer_cache := None\<rparr> = x"
    using assms(3-5) by (cases x) simp
  then have clear: "x\<lparr>partner := Some p, active_negotiating := wish, wants_to_negotiate := False\<rparr> =
      ?x\<lparr>partner := Some p, candidates_cache := [], offer_cache := None, answer_cache := None,
        active_negotiating := wish, wants_to_negotiate := False\<rparr>"
    by (cases x) simp
  show ?thesis
    unfolding clear
    by (subst set_partner_replays[where x = ?x and y = y])
      (use assms(5,6,9-13) in \<open>simp_all add: v\<close>)
qed

lemma cache_replayed_witness:
  "\<exists>v w' :: hub. foreach [Offer \<lparr>offer_sdp = ''o''\<rparr>, Want_to_negotiate, Offer \<lparr>offer_sdp = ''p''\<rparr>]
      (device_receive Release 0)
      \<lparr> devs = (\<lambda>_. None)(0 := Some (make_device 5 ''a''), 1 := Some (make_device 7 ''b'')),
        ws_alive = (\<lambda>_. True), sent = [] \<rparr> = Ok v \<and> set_partner Release 0 1 v = Ok w' \<and>
    sent w' = [(7, Offer \<lparr>offer_sdp = ''p''\<rparr>), (5, Create_offer)]"
proof -
  let ?w = "\<lparr> devs = (\<lambda>_. None)(0 := Some (make_device 5 ''a''), 1 := Some (make_device 7 ''b'')),
    ws_alive = (\<lambda>_. True), sent = [] \<rparr> :: hub"
  let ?ms = "[Offer \<lparr>offer_sdp = ''o''\<rparr>, Want_to_negotiate, Offer \<lparr>offer_sdp = ''p''\<rparr>]"
  have "\<exists>v. foreach ?ms (device_receive Release 0) ?w = Ok v"
    by (simp add: on_offer_def on_want_to_negotiate_def with_dev_def lock_partner_def upd_dev_def make_device_def)
  then obtain v where v: "foreach ?ms (device_receive Release 0) ?w = Ok v" by blast
  from cache_replayed[of ?w 0 "make_device 5 ''a''" ?ms Release v 1 "make_device 7 ''b''" True] v show ?thesis
    by (simp add: make_device_def candidates_of_def last_offer_def candidate_in_def newer_offer_def)
qed


section \<open>Coming back\<close>

text \<open>Nothing a device does opens or closes a websocket.\<close>

lemma negotiate_ws: "negotiate d w = Ok w' \<Longrightarrow> ws_alive w' = ws_alive w"
  by (auto simp: negotiate_def with_dev_def conn_send_def upd_dev_def
      split: option.splits if_splits prod.splits)

lemma send_on_ws: "send_on d m w = Ok w' \<Longrightarrow> ws_alive w' = ws_alive w"
  by (auto dest: send_on_log)

lemma send_answer_ws:
  assumes "send_answer b d a w = Ok w'"
  shows "ws_alive w' = ws_alive w"
proof -
  let ?r = "with_dev d (\<lambda>x w. if active_negotiating x then Ok w else case lock_partner w x of
     None \<Rightarrow> if b = Debug then Assert_failed else Ok w | Some (p, y) \<Rightarrow> negotiate p w)"
  from assms obtain v u where v: "send_on d (Answer a) w = Ok v"
    and u: "negotiate d (upd_dev d (\<lambda>x. x\<lparr>active_negotiating := False\<rparr>) v) = Ok u"
    and r: "?r u = Ok w'"
    by (auto simp: send_answer_def res_simps)
  obtain x where "devs u d = Some x" using r by (auto simp: with_dev_def split: option.splits)
  with r have "w' = u \<or> (\<exists>p. negotiate p u = Ok w')"
    by (cases "lock_partner u x") (auto simp: with_dev_def split: if_splits)
  then have "ws_alive w' = ws_alive u" by (auto dest: negotiate_ws)
  then show ?thesis using negotiate_ws[OF u] send_on_ws[OF v] by (simp add: upd_dev_def)
qed

lemma send_cache_ws:
  assumes "send_cache b d w = Ok w'"
  shows "ws_alive w' = ws_alive w"
proof -
  from assms obtain x where x: "devs w d = Some x"
    by (auto simp: send_cache_def with_dev_def split: option.splits)
  show ?thesis
  proof (cases "lock_partner w x")
    case None
    with assms x show ?thesis by (auto simp: send_cache_def with_dev_def split: if_splits)
  next
    case (Some py)
    obtain p y where py: "py = (p, y)" by fastforce
    with assms x Some obtain w1 w2 w3 where
      1: "foreach (candidates_cache x) (send_ice_candidate p) w = Ok w1"
      and 2: "(case offer_cache x of None \<Rightarrow> Ok | Some f \<Rightarrow> send_offer p f)
        (upd_dev d (\<lambda>x. x\<lparr>candidates_cache := []\<rparr>) w1) = Ok w2"
      and 3: "(case answer_cache x of None \<Rightarrow> Ok | Some f \<Rightarrow> send_answer b p f)
        (upd_dev d (\<lambda>x. x\<lparr>offer_cache := None\<rparr>) w2) = Ok w3"
      and 4: "upd_dev d (\<lambda>x. x\<lparr>answer_cache := None\<rparr>) w3 = w'"
      by (simp add: send_cache_def with_dev_def rbind_Ok_iff) blast
    have "ws_alive w1 = ws_alive w" using send_candidates_log[OF 1] by auto
    moreover have "ws_alive w2 = ws_alive w1"
      using 2 by (cases "offer_cache x") (auto simp: upd_dev_def send_offer_def dest!: send_on_ws)
    moreover have "ws_alive w3 = ws_alive w2"
      using 3 by (cases "answer_cache x") (auto simp: upd_dev_def dest!: send_answer_ws)
    ultimately show ?thesis using 4 by (auto simp: upd_dev_def)
  qed
qed

lemma set_partner_ws: "set_partner b d p w = Ok w' \<Longrightarrow> ws_alive w' = ws_alive w"
  by (auto simp: set_partner_def res_simps upd_dev_def dest!: send_cache_ws negotiate_ws)

lemma do_register_found:
  assumes "find_registered (key r) w = Some i"
    and "my_device_index b w (reconnect_token r) (registered w ! i) = Ok m"
    and "do_register b c r w = Ok v"
  obtains w2 w4 where
    "(case slot m (rc_devices (registered w ! i)) of None \<Rightarrow> Ok | Some x \<Rightarrow> device_close x)
       (create_device c (reconnect_token r) w) = Ok w2"
    "(case slot (other_index m) (rc_devices (registered w ! i)) of None \<Rightarrow> Ok | Some x \<Rightarrow> block
       [assert_stmt b (\<lambda>w. \<not> token_is w (reconnect_token r) (Some x)), set_partner b (next_id w) x,
        set_partner b x (next_id w)])
       (store_device i m (next_id w) \<lparr> hconn = c, hkey = key r, htoken = reconnect_token r,
          hid = next_id w \<rparr> w2) = Ok w4"
    "v = destroy_device (slot m (rc_devices (registered w ! i))) w4"
  using assms
  by (auto simp: do_register_def find_or_create_def Let_def rbind_Ok_iff[of "_ :: server res"])

text \<open>A connection that registers a second time with the key and token it already
  has does not survive it: the handler closes the former device, that is the very
  connection the message came from, and \<open>run\<close> then reads from its moved-away
  websocket pointer. No state follows this message.\<close>

theorem register_twice_undefined:
  assumes inv: "server_inv w" and rd: "reading w c"
    and dev: "find_registered (key r) w = Some i"
      "my_device_index b w (reconnect_token r) (registered w ! i) = Ok m"
      "slot m (rc_devices (registered w ! i)) = Some d" "devs w d = Some x" "connection x = c"
  shows "server_step b w (Received c (Registration r)) \<noteq> Ok w'"
proof
  assume "server_step b w (Received c (Registration r)) = Ok w'"
  with rd obtain v where v: "do_register b c r w = Ok v" and alive: "ws_alive v c"
    by (auto simp: message_visitor_def res_simps run_next_def split: if_splits)
  let ?e = "registered w ! i" let ?d = "next_id w"
  let ?h = "\<lparr> hconn = c, hkey = key r, htoken = reconnect_token r, hid = ?d \<rparr>"
  from do_register_found[OF dev(1,2) v] obtain w2 w4 where
    w2: "device_close d (create_device c (reconnect_token r) w) = Ok w2"
    and w4: "(case slot (other_index m) (rc_devices ?e) of None \<Rightarrow> Ok | Some x \<Rightarrow> block
       [assert_stmt b (\<lambda>w. \<not> token_is w (reconnect_token r) (Some x)), set_partner b ?d x,
        set_partner b x ?d]) (store_device i m ?d ?h w2) = Ok w4"
    and v4: "v = destroy_device (Some d) w4"
    unfolding dev(3) option.case by blast
  have "d \<noteq> ?d" using inv dev(4) unfolding server_inv_def core_inv_def by blast
  with w2 dev(4,5) have "\<not> ws_alive w2 c"
    by (auto simp: device_close_def with_dev_def create_device_def close_connection_def split: if_splits)
  moreover have "ws_alive w4 = ws_alive w2"
    using w4 by (cases "slot (other_index m) (rc_devices ?e)")
      (auto simp: store_device_def res_simps dest!: set_partner_ws)
  ultimately show False using alive v4 by (simp add: destroy_device_def)
qed

lemma register_twice_undefined_witness:
  "\<exists>w :: server. devs w 0 \<noteq> None \<and> reading w 0 \<and> (\<forall>w'. server_step Release w
     (Received 0 (Registration \<lparr> key = ''room'', reconnect_token = ''a'' \<rparr>)) \<noteq> Ok w')"
proof -
  let ?r = "\<lparr> key = ''room'', reconnect_token = ''a'' \<rparr>"
  have "case run_events (server_step Release) initial_server [Connected, Received 0 (Registration ?r)] of
      Ok w \<Rightarrow> reading w 0 \<and> devs w 0 = Some (make_device 0 ''a'') \<and>
        find_registered ''room'' w = Some 0 \<and>
        my_device_index Release w ''a'' (registered w ! 0) = Ok 0 \<and>
        slot 0 (rc_devices (registered w ! 0)) = Some 0
    | _ \<Rightarrow> False"
    by code_simp
  then obtain w where w: "reachable (server_step Release) initial_server w" "reading w 0"
      "devs w 0 = Some (make_device 0 ''a'')" "find_registered ''room'' w = Some 0"
      "my_device_index Release w ''a'' (registered w ! 0) = Ok 0"
      "slot 0 (rc_devices (registered w ! 0)) = Some 0"
    by (blast dest: res_caseD intro: run_events_reachable)
  from register_twice_undefined[where b = Release and r = ?r, OF reachable_server_inv[OF w(1)] w(2)] w
  have "\<forall>w'. server_step Release w (Received 0 (Registration ?r)) \<noteq> Ok w'"
    by (simp add: make_device_def)
  with w(2,3) show ?thesis by blast
qed

text \<open>Two peers talk; the first was asked for an offer and sent it; then the second
  comes back on a new connection while its old one is still registered.\<close>

definition stall_trace :: "event list" where
  "stall_trace =
    [Connected, Connected,
     Received 0 (Registration \<lparr> key = ''room'', reconnect_token = ''a'' \<rparr>),
     Received 1 (Registration \<lparr> key = ''room'', reconnect_token = ''b'' \<rparr>),
     Received 0 Want_to_negotiate, Received 0 (Offer \<lparr>offer_sdp = ''v=0''\<rparr>),
     Connected,
     Received 2 (Registration \<lparr> key = ''room'', reconnect_token = ''b'' \<rparr>)]"

definition stalled :: "server \<Rightarrow> bool" where
  "stalled w \<longleftrightarrow> reading w 0 \<and> reading w 2 \<and> ws_alive w 0 \<and> ws_alive w 2 \<and> next_id w = 3 \<and>
     devs w 1 = None \<and> (case (devs w 0, devs w 2) of
       (Some x, Some y) \<Rightarrow> connection x = 0 \<and> partner x = Some 2 \<and> active_negotiating x \<and>
         connection y = 2 \<and> partner y = Some 0 \<and> \<not> active_negotiating y
     | _ \<Rightarrow> False)"

lemmas server_eval =
  initial_server_def on_connection_def run_next_def message_visitor_def
  do_register_def find_or_create_def find_registered_def my_device_index_def token_is_def
  create_device_def device_close_def close_connection_def store_device_def destroy_device_def
  slot_def set_slot_def other_index_def with_dev_def upd_dev_def lock_partner_def is_active_def
  conn_send_def send_on_def negotiate_def send_cache_def set_partner_def make_device_def
  assert_stmt_def emit_to_devices_def subscribers_def on_want_to_negotiate_def Let_def
  on_offer_def send_offer_def

lemma stall_run:
  "\<exists>w. run_events (server_step b) initial_server stall_trace = Ok w \<and> stalled w \<and>
     sent w = [(0, Create_offer), (1, Offer \<lparr>offer_sdp = ''v=0''\<rparr>)]"
  by (simp add: stall_trace_def server_eval upt_rec[of 0] upt_rec[of "Suc 0"] upt_rec[of 2] stalled_def)

lemma stalled_want:
  assumes "stalled w" "c = 0 \<or> c = 2"
  shows "\<exists>w'. server_step b w (Received c Want_to_negotiate) = Ok w' \<and> stalled w' \<and> sent w' = sent w"
proof -
  from assms(1) obtain x y where xy: "devs w 0 = Some x" "devs w 2 = Some y" "devs w 1 = None"
    "connection x = 0" "partner x = Some 2" "active_negotiating x" "connection y = 2"
    "partner y = Some 0" "\<not> active_negotiating y" "next_id w = 3"
    and c: "reading w c" "ws_alive w c"
    using assms(2) by (auto simp: stalled_def split: option.splits)
  have sub: "subscribers w c = [c]"
    using xy assms(2) by (auto simp: subscribers_def eval_nat_numeral)
  let ?w = "upd_dev c (\<lambda>x. x\<lparr>wants_to_negotiate := True\<rparr>) w"
  have "on_want_to_negotiate c w = Ok ?w"
    using xy assms(2) by (auto simp: on_want_to_negotiate_def with_dev_def upd_dev_def
        lock_partner_def negotiate_def)
  with sub xy assms(2) c have "server_step b w (Received c Want_to_negotiate) = Ok ?w"
    by (auto simp: message_visitor_def emit_to_devices_def run_next_def upd_dev_def)
  moreover have "stalled ?w" "sent ?w = sent w"
    using assms xy by (auto simp: stalled_def upd_dev_def)
  ultimately show ?thesis by blast
qed

text \<open>Coming back without closing stalls the call for good: after this trace the
  returning peer has been sent nothing, and however often either peer asks to
  negotiate again, the server never sends another message.\<close>

theorem reconnect_stalls:
  "\<exists>w. run_events (server_step b) initial_server stall_trace = Ok w \<and>
     sent w = [(0, Create_offer), (1, Offer \<lparr>offer_sdp = ''v=0''\<rparr>)] \<and>
     (\<forall>peers. \<exists>w'. run_events (server_step b) w
        (map (\<lambda>first. Received (if first then 0 else 2) Want_to_negotiate) peers) = Ok w' \<and>
        sent w' = sent w)"
proof -
  obtain w where w: "run_events (server_step b) initial_server stall_trace = Ok w" "stalled w"
      "sent w = [(0, Create_offer), (1, Offer \<lparr>offer_sdp = ''v=0''\<rparr>)]"
    using stall_run by blast
  have "\<exists>v'. run_events (server_step b) v
      (map (\<lambda>first. Received (if first then 0 else 2) Want_to_negotiate) peers) = Ok v' \<and> sent v' = sent v"
    if "stalled v" for peers v
    using that
  proof (induction peers arbitrary: v)
    case (Cons first peers)
    from stalled_want[OF Cons.prems, of "if first then 0 else 2" b] Cons.IH show ?case
      by fastforce
  qed simp
  with w show ?thesis by blast
qed

text \<open>A third device with a token of its own under a key that is taken twice: a
  Debug build stops, a Release build throws the second device out and pairs the
  newcomer with the first.\<close>

theorem third_device:
  assumes "find_registered (key r) w = Some i" "rc_devices (registered w ! i) = (Some p, Some q)"
    and "\<not> token_is w (reconnect_token r) (Some p)" "\<not> token_is w (reconnect_token r) (Some q)"
    and "server_inv w" "do_register Release c r w = Ok w'"
  shows "do_register Debug c r w = Assert_failed \<and>
      rc_devices (registered w' ! i) = (Some p, Some (next_id w)) \<and> devs w' q = None \<and>
      pair_ok w' p (next_id w)"
proof -
  from assms(2-4) have m: "my_device_index Release w (reconnect_token r) (registered w ! i) = Ok 1"
    "my_device_index Debug w (reconnect_token r) (registered w ! i) = Assert_failed"
    by (simp_all add: my_device_index_def)
  from m(2) assms(1) have "do_register Debug c r w = Assert_failed"
    by (simp add: do_register_def find_or_create_def)
  moreover
  from do_register_found[OF assms(1) m(1) assms(6)] assms(2) obtain w2 w4 where
    w2: "device_close q (create_device c (reconnect_token r) w) = Ok w2"
    and w4: "block [assert_stmt Release (\<lambda>w. \<not> token_is w (reconnect_token r) (Some p)),
        set_partner Release (next_id w) p, set_partner Release p (next_id w)]
       (store_device i 1 (next_id w) \<lparr> hconn = c, hkey = key r, htoken = reconnect_token r,
          hid = next_id w \<rparr> w2) = Ok w4"
    and w': "w' = destroy_device (Some q) w4"
    by (auto simp: slot_def other_index_def)
  let ?w3 = "store_device i 1 (next_id w) \<lparr> hconn = c, hkey = key r, htoken = reconnect_token r,
          hid = next_id w \<rparr> w2"
  note i = find_registered_Some(1)[OF assms(1)]
  have "pair_ok w p q" using server_inv_entry[OF assms(5) i] assms(2) by (simp add: entry_ok_def)
  then obtain x y where xy: "devs w p = Some x" "devs w q = Some y" "p \<noteq> q"
    by (rule pair_okE)
  with assms(5) have lt: "p < next_id w" "q < next_id w"
    unfolding server_inv_def core_inv_def by blast+
  from device_close_frame[OF w2] have w3: "registered ?w3 = (registered w)[i := (registered w ! i)
      \<lparr> rc_devices := (Some p, Some (next_id w)), rc_handles := set_slot 1 (Some \<lparr> hconn = c,
        hkey = key r, htoken = reconnect_token r, hid = next_id w \<rparr>) (rc_handles (registered w ! i)) \<rparr>]"
    "devs ?w3 = (devs w)(next_id w := Some (make_device c (reconnect_token r)))"
    using assms(2) by (auto simp: store_device_def create_device_def set_slot_def)
  have ip: "pair_ok w4 p (next_id w) \<and> pair_served w4 p (next_id w) \<and>
      evolves {p, next_id w} (introduced p (next_id w) ?w3) w4"
    using w4 xy lt w3 by (intro introduce_pair[where c = c]) auto
  then have "registered w4 = registered ?w3"
    using evolves_frame[of "{p, next_id w}" "introduced p (next_id w) ?w3" w4]
    by (simp add: introduced_frame)
  moreover have "pair_ok w' p (next_id w)"
    using ip xy lt by (auto simp: w' pair_ok_def destroy_device_frame split: option.splits)
  ultimately show ?thesis using i w3 by (simp add: w' destroy_device_frame)
qed

lemma third_device_witness:
  "\<exists>(w :: server) w'. do_register Release 2 \<lparr> key = ''room'', reconnect_token = ''c'' \<rparr> w = Ok w' \<and>
     do_register Debug 2 \<lparr> key = ''room'', reconnect_token = ''c'' \<rparr> w = Assert_failed \<and>
     devs w 1 \<noteq> None \<and> devs w' 1 = None"
proof -
  let ?r = "\<lparr> key = ''room'', reconnect_token = ''c'' \<rparr>"
  have "\<exists>w. run_events (server_step Release) initial_server [Connected, Connected, Connected,
      Received 0 (Registration \<lparr> key = ''room'', reconnect_token = ''a'' \<rparr>),
      Received 1 (Registration \<lparr> key = ''room'', reconnect_token = ''b'' \<rparr>)] = Ok w \<and>
      find_registered ''room'' w = Some 0 \<and> rc_devices (registered w ! 0) = (Some 0, Some 1) \<and>
      \<not> token_is w ''c'' (Some 0) \<and> \<not> token_is w ''c'' (Some 1) \<and> devs w 1 \<noteq> None \<and>
      (case do_register Release 2 ?r w of Ok v \<Rightarrow> True | _ \<Rightarrow> False)"
    by (simp add: server_eval)
  then obtain w where w: "reachable (server_step Release) initial_server w"
      "find_registered ''room'' w = Some 0" "rc_devices (registered w ! 0) = (Some 0, Some 1)"
      "\<not> token_is w ''c'' (Some 0)" "\<not> token_is w ''c'' (Some 1)" "devs w 1 \<noteq> None"
      "case do_register Release 2 ?r w of Ok v \<Rightarrow> True | _ \<Rightarrow> False"
    by (blast intro: run_events_reachable)
  from w(7) obtain w' where w': "do_register Release 2 ?r w = Ok w'"
    by (auto split: res.splits)
  from third_device[where r = ?r and w = w, OF _ w(3) _ _ reachable_server_inv[OF w(1)] w'] w w'
  show ?thesis by auto
qed

text \<open>A text that does not parse turns its connection into a ghost: from then on
  no message and no read failure on it has any effect, so \<open>on_closed\<close> never comes and
  the devices registered through it stay registered.\<close>

theorem unparsable_leaves_ghost:
  "\<exists>v. run_events (server_step b) w [Unparsable c] = Ok v \<and> registered v = registered w \<and>
     devs v = devs w \<and>
     (\<forall>es. run_events (server_step b) v
        (map (\<lambda>e. case e of None \<Rightarrow> Read_failed c | Some m \<Rightarrow> Received c m) es) = Ok v)"
proof -
  have "run_events (server_step b) v
      (map (\<lambda>e. case e of None \<Rightarrow> Read_failed c | Some m \<Rightarrow> Received c m) es) = Ok v"
    if "\<not> reading v c" for v es
    using that by (induction es) (auto split: option.splits)
  then show ?thesis by simp
qed

end
