(* ===== verification/Websocket.thy ===== *)
theory Websocket
  imports Prelude
begin

text \<open>
  The websocket connection (src/fubble/websocket/connection\_impl.cpp): the send
  queue and the one outstanding read. The stream (Boost.Beast) is not part of the
  repository: \<open>written\<close> lists the writes handed to it, in order, and its completion
  handlers are the events \<open>Write_done\<close> and \<open>Read_done\<close>. Futures are numbered;
  \<open>completed\<close> lists those that got a value (\<open>True\<close>) or an exception.

  The contract of the queue, that what goes to the wire and what still waits is
  always what was sent and in that order, is the locale \<open>fifo_sender\<close>.
\<close>

section \<open>The contract of a sender\<close>

locale fifo_sender =
  fixes send :: "'m \<Rightarrow> 's \<Rightarrow> 's" and ack :: "'s \<Rightarrow> 's"
    and wire :: "'s \<Rightarrow> 'm list" and waiting :: "'s \<Rightarrow> 'm list"
    and outstanding :: "'s \<Rightarrow> bool" and ok :: "'s \<Rightarrow> bool"
  assumes ok_send: "ok s \<Longrightarrow> ok (send m s)"
    and ok_ack: "ok s \<Longrightarrow> outstanding s \<Longrightarrow> ok (ack s)"
    and order_send: "ok s \<Longrightarrow> wire (send m s) @ waiting (send m s) = wire s @ waiting s @ [m]"
    and order_ack: "ok s \<Longrightarrow> outstanding s \<Longrightarrow> wire (ack s) @ waiting (ack s) = wire s @ waiting s"
    and busy: "ok s \<Longrightarrow> \<not> outstanding s \<Longrightarrow> waiting s = []"
    and progress: "ok s \<Longrightarrow> outstanding s \<Longrightarrow>
      length (waiting (ack s)) = length (waiting s) - 1 \<and>
      (outstanding (ack s) \<longleftrightarrow> waiting s \<noteq> [])"
begin

fun perform :: "'m option list \<Rightarrow> 's \<Rightarrow> 's" where
  "perform [] s = s"
| "perform (Some m # es) s = perform es (send m s)"
| "perform (None # es) s = perform es (if outstanding s then ack s else s)"

lemma perform_ok: "ok s \<Longrightarrow> ok (perform es s)"
  by (induction es s rule: perform.induct) (auto simp: ok_send ok_ack)

lemma perform_order:
  "ok s \<Longrightarrow> wire (perform es s) @ waiting (perform es s) =
    wire s @ waiting s @ List.map_filter id es"
proof (induction es s rule: perform.induct)
  case (2 m es s)
  then show ?case using order_send[of s m] ok_send[of s m] by (simp add: List.map_filter_simps)
next
  case (3 es s)
  then show ?case using order_ack[of s] ok_ack[of s] by (simp add: List.map_filter_simps)
qed (simp add: List.map_filter_simps)

lemma drain:
  "ok s \<Longrightarrow> length (waiting s) < n \<Longrightarrow>
   waiting (perform (replicate n None) s) = [] \<and> \<not> outstanding (perform (replicate n None) s)"
proof (induction n arbitrary: s)
  case (Suc n)
  show ?case
  proof (cases "outstanding s")
    case False
    have "perform (replicate m None) s = s" for m by (induction m) (simp_all add: False)
    with Suc.prems(1) False show ?thesis by (simp add: busy)
  next
    case True
    note p = progress[OF Suc.prems(1) True]
    show ?thesis
    proof (cases "waiting s = []")
      case False
      with Suc.prems p have "length (waiting (ack s)) < n" by (cases "waiting s") auto
      with Suc.IH[OF ok_ack[OF Suc.prems(1) True]] True show ?thesis by simp
    next
      case True': True
      with p have "\<not> outstanding (ack s)" "waiting (ack s) = []" by auto
      then have "perform (replicate m None) (ack s) = ack s" for m
        by (induction m) simp_all
      with True \<open>\<not> outstanding (ack s)\<close> \<open>waiting (ack s) = []\<close> show ?thesis by simp
    qed
  qed
qed simp

end


section \<open>The connection\<close>

record connection_impl =
  send_queue :: "(nat \<times> string) list"
  sending :: bool
  is_reading :: bool
  read_promise :: "nat option"
  read_buffer :: string
  next_future :: nat
  written :: "string list"
  completed :: "(nat \<times> bool) list"
  read_results :: "(nat \<times> string option) list"

definition fresh_connection :: connection_impl where
  "fresh_connection = \<lparr>send_queue = [], sending = False, is_reading = False, read_promise = None,
     read_buffer = [], next_future = 0, written = [], completed = [], read_results = []\<rparr>"

text \<open>\<open>front()\<close> of an empty queue is undefined.\<close>

definition send_next_from_queue :: "connection_impl \<Rightarrow> connection_impl res" where
  "send_next_from_queue s = (case send_queue s of
     [] \<Rightarrow> Undefined
   | item # _ \<Rightarrow> Ok (s\<lparr>sending := True, written := written s @ [snd item]\<rparr>))"

definition send :: "string \<Rightarrow> connection_impl \<Rightarrow> connection_impl res" where
  "send m s =
     (let s1 = s\<lparr>send_queue := send_queue s @ [(next_future s, m)], next_future := Suc (next_future s)\<rparr>
      in if \<not> sending s1 then send_next_from_queue s1 else Ok s1)"

definition on_send :: "build \<Rightarrow> bool \<Rightarrow> connection_impl \<Rightarrow> connection_impl res" where
  "on_send b error s = (case send_queue s of
     [] \<Rightarrow> Undefined
   | item # rest \<Rightarrow>
       if error then Ok (s\<lparr>completed := completed s @ [(fst item, False)]\<rparr>)
       else let s1 = s\<lparr>completed := completed s @ [(fst item, True)], send_queue := rest\<rparr>
            in if rest = [] then
                 if b = Debug \<and> \<not> sending s1 then Assert_failed else Ok (s1\<lparr>sending := False\<rparr>)
               else send_next_from_queue s1)"

definition read :: "build \<Rightarrow> 'z connection_impl_scheme \<Rightarrow> 'z connection_impl_scheme res" where
  "read b s =
     (if b = Debug \<and> (is_reading s \<or> read_promise s \<noteq> None) then Assert_failed
      else Ok (s\<lparr>is_reading := True, read_promise := Some (next_future s),
        next_future := Suc (next_future s)\<rparr>))"

text \<open>Fulfilling the promise runs the continuation \<open>k\<close> attached to the read before
  the next statement of \<open>on_read\<close>: after an error \<open>reading\<close> is reset first, after
  a message only afterwards.\<close>

definition on_read ::
    "bool \<Rightarrow> (string option \<Rightarrow> 'z connection_impl_scheme \<Rightarrow> 'z connection_impl_scheme res) \<Rightarrow>
     'z connection_impl_scheme \<Rightarrow> 'z connection_impl_scheme res" where
  "on_read error k s = (case read_promise s of
     None \<Rightarrow> Undefined
   | Some p \<Rightarrow>
       let s1 = s\<lparr>read_promise := None\<rparr> in
       if error then
         k None (s1\<lparr>is_reading := False, read_results := read_results s1 @ [(p, None)]\<rparr>)
       else
         let m = read_buffer s1 in
         rbind (k (Some m) (s1\<lparr>read_buffer := [], read_results := read_results s1 @ [(p, Some m)]\<rparr>))
           (\<lambda>s2. Ok (s2\<lparr>is_reading := False\<rparr>)))"

text \<open>The destructor breaks a read that is still outstanding.\<close>

definition destroy :: "'z connection_impl_scheme \<Rightarrow> 'z connection_impl_scheme res" where
  "destroy s = (if \<not> is_reading s then Ok s
     else case read_promise s of
       None \<Rightarrow> Undefined
     | Some p \<Rightarrow> Ok (s\<lparr>read_results := read_results s @ [(p, None)]\<rparr>))"


section \<open>Sending\<close>

text \<open>The queue invariant: a write is outstanding exactly if the queue is not empty,
  and it is the write of the front.\<close>

definition queue_inv :: "connection_impl \<Rightarrow> bool" where
  "queue_inv s \<longleftrightarrow> (sending s \<longleftrightarrow> send_queue s \<noteq> []) \<and>
     (send_queue s \<noteq> [] \<longrightarrow> written s \<noteq> [] \<and> last (written s) = snd (hd (send_queue s)))"

definition unsent :: "connection_impl \<Rightarrow> string list" where
  "unsent s = map snd (tl (send_queue s))"

definition send_total :: "string \<Rightarrow> connection_impl \<Rightarrow> connection_impl" where
  "send_total m s = (case send m s of Ok t \<Rightarrow> t | _ \<Rightarrow> s)"

definition ack_total :: "connection_impl \<Rightarrow> connection_impl" where
  "ack_total s = (case on_send Debug False s of Ok t \<Rightarrow> t | _ \<Rightarrow> s)"

lemmas total_defs = send_total_def ack_total_def

lemma send_Ok: "\<exists>t. send m s = Ok t"
  by (auto simp: send_def send_next_from_queue_def Let_def split: list.splits)

lemma on_send_Ok: "queue_inv s \<Longrightarrow> sending s \<Longrightarrow> \<exists>t. on_send b e s = Ok t"
  by (cases "send_queue s"; cases "tl (send_queue s)")
    (auto simp: on_send_def send_next_from_queue_def Let_def queue_inv_def)

lemma send_cases:
  "send m s = Ok (if sending s
     then s\<lparr>send_queue := send_queue s @ [(next_future s, m)], next_future := Suc (next_future s)\<rparr>
     else s\<lparr>send_queue := send_queue s @ [(next_future s, m)], next_future := Suc (next_future s),
       sending := True, written := written s @ [snd (hd (send_queue s @ [(next_future s, m)]))]\<rparr>)"
  by (cases "send_queue s") (auto simp: send_def send_next_from_queue_def Let_def)

interpretation ws: fifo_sender send_total ack_total written unsent sending queue_inv
proof
  fix s m assume inv: "queue_inv s"
  show "queue_inv (send_total m s)"
    using inv by (auto simp: send_cases total_defs queue_inv_def)
  show "written (send_total m s) @ unsent (send_total m s) = written s @ unsent s @ [m]"
    using inv by (cases "send_queue s") (auto simp: send_cases total_defs queue_inv_def unsent_def)
  show "\<not> sending s \<Longrightarrow> unsent s = []"
    using inv by (simp add: queue_inv_def unsent_def)
  assume snd: "sending s"
  then obtain i rest where q: "send_queue s = i # rest"
    using inv by (auto simp: queue_inv_def neq_Nil_conv)
  show "queue_inv (ack_total s)"
    "written (ack_total s) @ unsent (ack_total s) = written s @ unsent s"
    "length (unsent (ack_total s)) = length (unsent s) - 1 \<and>
      (sending (ack_total s) \<longleftrightarrow> unsent s \<noteq> [])"
    using inv snd q by (cases rest; auto simp: total_defs on_send_def send_next_from_queue_def Let_def
        queue_inv_def unsent_def)+
qed

datatype ws_event = Send string | Write_done bool

fun ws_step :: "build \<Rightarrow> connection_impl \<Rightarrow> ws_event \<Rightarrow> connection_impl res" where
  "ws_step b s (Send m) = send m s"
| "ws_step b s (Write_done error) = (if sending s then on_send b error s else Ok s)"

definition sends :: "ws_event list \<Rightarrow> string list" where
  "sends es = concat (map (\<lambda>e. case e of Send m \<Rightarrow> [m] | Write_done _ \<Rightarrow> []) es)"

text \<open>Sends and successful completions as the operations of the contract.\<close>

lemma ws_run_perform:
  assumes "queue_inv s" "list_all (\<lambda>e. e \<noteq> Write_done True) es"
  shows "run_events (ws_step b) s es =
    Ok (ws.perform (map (\<lambda>e. case e of Send m \<Rightarrow> Some m | Write_done _ \<Rightarrow> None) es) s)"
  using assms
proof (induction es arbitrary: s)
  case Nil
  then show ?case by simp
next
  case (Cons e es)
  show ?case
  proof (cases e)
    case (Send m)
    from send_Ok[of m s] obtain t where t: "send m s = Ok t" by blast
    then have e: "send_total m s = t" by (simp add: send_total_def)
    with ws.ok_send[OF Cons.prems(1), of m] have "queue_inv t" by simp
    with Cons t e Send show ?thesis by simp
  next
    case (Write_done err)
    with Cons.prems have err: "\<not> err" by auto
    show ?thesis
    proof (cases "sending s")
      case True
      from on_send_Ok[OF Cons.prems(1) True, of Debug False] obtain t where
        t: "on_send Debug False s = Ok t" by blast
      then have "on_send b False s = Ok t"
        using True by (auto simp: on_send_def Let_def split: list.splits if_splits)
      moreover from t have e: "ack_total s = t" by (simp add: ack_total_def)
      moreover from ws.ok_ack[OF Cons.prems(1) True] e have "queue_inv t" by simp
      ultimately show ?thesis using Cons Write_done True err by simp
    next
      case False
      with Cons Write_done show ?thesis by simp
    qed
  qed
qed

lemma sends_perform:
  "List.map_filter id (map (\<lambda>e. case e of Send m \<Rightarrow> Some m | Write_done _ \<Rightarrow> None) es) = sends es"
  by (induction es) (auto simp: sends_def List.map_filter_simps split: ws_event.splits)

text \<open>The writes that were handed to the stream and those that have completed.\<close>

definition one_write :: "connection_impl \<Rightarrow> bool" where
  "one_write s \<longleftrightarrow> length (written s) = length (completed s) + (if sending s then 1 else 0)"

lemma one_write_step:
  assumes "ws_step b s e = Ok t" "queue_inv s" "one_write s" "e \<noteq> Write_done True"
  shows "queue_inv t \<and> one_write t"
proof (cases e)
  case (Send m)
  with assms(1) have "t = send_total m s" by (simp add: send_total_def)
  with ws.ok_send[OF assms(2)] have "queue_inv t" by simp
  moreover have "one_write t" using assms(1,3) Send by (auto simp: send_cases one_write_def split: if_splits)
  ultimately show ?thesis ..
next
  case (Write_done err)
  with assms(4) have e: "e = Write_done False" by simp
  show ?thesis
  proof (cases "sending s")
    case True
    from e True assms(1) have t: "on_send b False s = Ok t" by simp
    with True have "on_send Debug False s = Ok t"
      by (auto simp: on_send_def Let_def split: list.splits if_splits)
    then have "t = ack_total s" by (simp add: ack_total_def)
    with ws.ok_ack[OF assms(2) True] have "queue_inv t" by simp
    moreover have "one_write t"
      using t True assms(3) by (auto simp: on_send_def send_next_from_queue_def Let_def one_write_def
          split: list.splits if_splits)
    ultimately show ?thesis ..
  next
    case False
    with e assms show ?thesis by simp
  qed
qed

lemma one_write_run:
  "run_events (ws_step b) s es = Ok t \<Longrightarrow> queue_inv s \<Longrightarrow> one_write s \<Longrightarrow>
   list_all (\<lambda>e. e \<noteq> Write_done True) es \<Longrightarrow> one_write t"
  by (induction es arbitrary: s) (auto simp: res_simps simp del: ws_step.simps dest: one_write_step)

text \<open>C19. First in, first out: as long as no write fails, the messages handed to the
  stream followed by those waiting are the messages sent, in the order sent and
  once each; never more than one write is outstanding, and exactly one while the
  connection is sending; an idle connection has written everything. (A write that
  fails jams the queue: \<open>failed_write_jams\<close>.)\<close>

theorem send_fifo:
  assumes "list_all (\<lambda>e. e \<noteq> Write_done True) es"
  shows "\<exists>s. run_events (ws_step b) fresh_connection es = Ok s \<and>
    written s @ unsent s = sends es \<and> (sending s \<or> written s = sends es) \<and>
    length (written s) = length (completed s) + (if sending s then 1 else 0)"
proof -
  have inv: "queue_inv fresh_connection" by (simp add: queue_inv_def fresh_connection_def)
  let ?es = "map (\<lambda>e. case e of Send m \<Rightarrow> Some m | Write_done _ \<Rightarrow> None) es"
  let ?s = "ws.perform ?es fresh_connection"
  have "written ?s @ unsent ?s = sends es"
    using ws.perform_order[OF inv, of ?es] sends_perform[of es]
    by (simp add: fresh_connection_def unsent_def)
  moreover from this ws.busy[OF ws.perform_ok[OF inv, of ?es]]
  have "sending ?s \<or> written ?s = sends es"
    by (cases "sending ?s") (simp_all del: map_map)
  moreover have "one_write fresh_connection" by (simp add: one_write_def fresh_connection_def)
  from one_write_run[OF ws_run_perform[OF inv assms, of b] inv this assms]
  have "length (written ?s) = length (completed ?s) + (if sending ?s then 1 else 0)"
    by (simp add: one_write_def del: map_map)
  ultimately show ?thesis using ws_run_perform[OF inv assms] by simp
qed

lemma send_fifo_witness:
  "\<exists>s. run_events (ws_step Release) fresh_connection
     [Send ''a'', Send ''b'', Write_done False, Send ''c'', Write_done False] = Ok s \<and>
    written s @ unsent s = [''a'', ''b'', ''c''] \<and> length (written s) \<le> Suc (length (completed s))"
  using send_fifo[of "[Send ''a'', Send ''b'', Write_done False, Send ''c'', Write_done False]" Release]
  by (auto simp: sends_def split: if_splits)

text \<open>A failed write jams the queue: \<open>sending\<close> stays set and the failed item stays in
  front, so nothing sent afterwards is ever written and no further future completes.\<close>

theorem failed_write_jams:
  assumes "queue_inv s" "sending s" "run_events (ws_step b) s [Write_done True] = Ok t"
  shows "\<exists>u. run_events (ws_step b) t (map Send ms) = Ok u \<and> written u = written s \<and>
    completed u = completed s @ [(fst (hd (send_queue s)), False)] \<and>
    unsent u = unsent s @ ms"
proof -
  from assms(1,2) obtain i rest where q: "send_queue s = i # rest"
    by (auto simp: queue_inv_def neq_Nil_conv)
  with assms(2,3) have t: "t = s\<lparr>completed := completed s @ [(fst i, False)]\<rparr>"
    by (auto simp: on_send_def)
  have "\<exists>u. run_events (ws_step b) t (map Send ms) = Ok u \<and> written u = written t \<and>
      completed u = completed t \<and> unsent u = unsent t @ ms" if "sending t" "send_queue t \<noteq> []" for t
    using that
  proof (induction ms arbitrary: t)
    case (Cons m ms)
    let ?v = "t\<lparr>send_queue := send_queue t @ [(next_future t, m)], next_future := Suc (next_future t)\<rparr>"
    from Cons.prems have "send m t = Ok ?v" by (simp add: send_cases)
    moreover from Cons.prems Cons.IH[of ?v] obtain u where
      "run_events (ws_step b) ?v (map Send ms) = Ok u" "written u = written ?v"
      "completed u = completed ?v" "unsent u = unsent ?v @ ms" by auto
    ultimately show ?case using Cons.prems by (simp add: unsent_def)
  qed simp
  from this[of t] t assms(2) q show ?thesis by (simp add: unsent_def)
qed

lemma failed_write_jams_witness:
  "\<exists>s u. sending s \<and> run_events (ws_step Release) s [Send ''b''] = Ok u \<and> written u = [''a'']"
proof -
  let ?s = "fresh_connection\<lparr>send_queue := [(0, ''a'')], sending := True, written := [''a'']\<rparr>"
  let ?t = "?s\<lparr>completed := [(0, False)]\<rparr>"
  have "run_events (ws_step Release) ?s [Write_done True] = Ok ?t"
    by (simp add: on_send_def fresh_connection_def)
  from failed_write_jams[of ?s, OF _ _ this, of "[''b'']"]
  obtain u where "run_events (ws_step Release) ?t [Send ''b''] = Ok u" "written u = [''a'']"
    by (auto simp: queue_inv_def)
  moreover have "sending ?t" by simp
  ultimately show ?thesis by blast
qed


section \<open>Reading\<close>

text \<open>The next read may not be started from the continuation of the previous one:
  a message is delivered before \<open>reading\<close> is reset, so a Debug build asserts and a
  Release build loses the new read's flag; started afterwards it is accepted in both.\<close>

theorem read_in_continuation:
  assumes "read_promise s = Some p" "is_reading s"
  shows "on_read False (\<lambda>_. read Debug) s = Assert_failed \<and>
    (\<exists>t. on_read False (\<lambda>_. read Release) s = Ok t \<and> read_promise t \<noteq> None \<and> \<not> is_reading t) \<and>
    (\<exists>t u. on_read False (\<lambda>_. Ok) s = Ok t \<and> read b t = Ok u \<and> is_reading u)"
  using assms by (auto simp: on_read_def read_def Let_def)

lemma read_in_continuation_witness:
  "on_read False (\<lambda>_. read Debug)
     (fresh_connection\<lparr>read_promise := Some 0, is_reading := True, read_buffer := ''hi''\<rparr>) = Assert_failed"
  using read_in_continuation[of "fresh_connection\<lparr>read_promise := Some 0, is_reading := True,
    read_buffer := ''hi''\<rparr>" 0 Debug] by simp

end
