(* ===== verification/Timer.thy ===== *)
theory Timer
  imports Prelude
begin

text \<open>
  The timers of src/fubble/utils/timer.cpp. A callback is run by the function \<open>run\<close>
  given to the expiry, which may itself use the timer (callbacks in this program
  do). \<open>pending\<close> is the asynchronous wait that will complete without an error: a
  wait that was cancelled completes with \<open>operation_aborted\<close> and its handler returns
  at once, so it needs no state. Calling an empty \<open>std::function\<close> throws.
\<close>

section \<open>One-shot timer\<close>

record 'cb one_shot =
  callback :: "'cb option"
  pending :: bool

definition one_shot_start :: "build \<Rightarrow> 'cb \<Rightarrow> 'cb one_shot \<Rightarrow> 'cb one_shot res" where
  "one_shot_start b cb t =
     (if b = Debug \<and> callback t \<noteq> None then Assert_failed
      else Ok (t\<lparr>callback := Some cb, pending := True\<rparr>))"

definition one_shot_stop :: "'cb one_shot \<Rightarrow> 'cb one_shot" where
  "one_shot_stop t = t\<lparr>pending := False\<rparr>"

text \<open>\<open>on_timeout\<close> with no error.\<close>

definition one_shot_timeout ::
    "build \<Rightarrow> ('cb \<Rightarrow> 'cb one_shot \<Rightarrow> 'cb one_shot res) \<Rightarrow> 'cb one_shot \<Rightarrow> 'cb one_shot res" where
  "one_shot_timeout b run t =
     (case callback t of
       None \<Rightarrow> if b = Debug then Assert_failed else Throw Runtime_error
     | Some cb \<Rightarrow> rbind (run cb (t\<lparr>pending := False\<rparr>)) (\<lambda>t. Ok (t\<lparr>callback := None\<rparr>)))"

text \<open>A timer restarted from its own callback forgets the new callback: in a Debug
  build the restart itself asserts, in a Release build the wait is pending but the
  callback is empty, so its expiry throws instead of calling anything.\<close>

theorem one_shot_restart_in_callback:
  assumes "callback t = Some cb"
  shows "one_shot_timeout Debug (\<lambda>_. one_shot_start Debug cb') t = Assert_failed \<and>
    (\<exists>t'. one_shot_timeout Release (\<lambda>_. one_shot_start Release cb') t = Ok t' \<and> pending t' \<and>
      one_shot_timeout Release run t' = Throw Runtime_error)"
  using assms by (simp add: one_shot_timeout_def one_shot_start_def)

lemma one_shot_restart_in_callback_witness:
  "one_shot_timeout Debug (\<lambda>_. one_shot_start Debug 1) \<lparr>callback = Some (0 :: nat), pending = True\<rparr> =
     Assert_failed"
  using one_shot_restart_in_callback[of "\<lparr>callback = Some 0, pending = True\<rparr>" "0 :: nat" 1] by simp

lemma one_shot_runs_once:
  assumes "one_shot_start b cb t = Ok t1" "run cb (t1\<lparr>pending := False\<rparr>) = Ok t2"
  shows "one_shot_timeout b run t1 = Ok (t2\<lparr>callback := None\<rparr>)"
  using assms by (auto simp: one_shot_start_def one_shot_timeout_def split: if_splits)


section \<open>Interval timer\<close>

text \<open>\<open>posted\<close> counts the immediate timeouts queued by \<open>start_immediately\<close>; \<open>alive\<close> is
  the check that a callback did not destroy the timer.\<close>

record 'cb interval =
  icallback :: "'cb option"
  started :: bool
  waiting :: bool
  posted :: nat
  alive :: bool

definition fresh_interval :: "'cb interval" where
  "fresh_interval = \<lparr>icallback = None, started = False, waiting = False, posted = 0, alive = True\<rparr>"

definition start_timer :: "'cb interval \<Rightarrow> 'cb interval" where
  "start_timer t = t\<lparr>waiting := True\<rparr>"

definition interval_start :: "build \<Rightarrow> 'cb \<Rightarrow> 'cb interval \<Rightarrow> 'cb interval res" where
  "interval_start b cb t =
     (if b = Debug \<and> (icallback t \<noteq> None \<or> started t) then Assert_failed
      else Ok (start_timer (t\<lparr>icallback := Some cb, started := True\<rparr>)))"

definition start_immediately :: "build \<Rightarrow> 'cb \<Rightarrow> 'cb interval \<Rightarrow> 'cb interval res" where
  "start_immediately b cb t =
     (if b = Debug \<and> (icallback t \<noteq> None \<or> started t) then Assert_failed
      else Ok (t\<lparr>icallback := Some cb, started := True, posted := Suc (posted t)\<rparr>))"

definition interval_stop :: "build \<Rightarrow> 'cb interval \<Rightarrow> 'cb interval res" where
  "interval_stop b t =
     (if b = Debug \<and> \<not> started t then Assert_failed
      else Ok (t\<lparr>icallback := None, waiting := False, started := False\<rparr>))"

definition interval_timeout ::
    "build \<Rightarrow> ('cb \<Rightarrow> 'cb interval \<Rightarrow> 'cb interval res) \<Rightarrow> 'cb interval \<Rightarrow> 'cb interval res" where
  "interval_timeout b run t =
     (case icallback t of
       None \<Rightarrow> if b = Debug then Assert_failed else Throw Runtime_error
     | Some cb \<Rightarrow> rbind (run cb t) (\<lambda>t.
         if \<not> alive t then Ok t
         else if \<not> started t then Ok t
         else Ok (start_timer t)))"

text \<open>The two handlers that lead to \<open>on_timeout\<close>: the expired wait and the posted
  task. Both check that the timer is alive, neither that it is still started.\<close>

definition wait_expired ::
    "build \<Rightarrow> ('cb \<Rightarrow> 'cb interval \<Rightarrow> 'cb interval res) \<Rightarrow> 'cb interval \<Rightarrow> 'cb interval res" where
  "wait_expired b run t =
     (if \<not> waiting t then Ok t
      else if \<not> alive t then Ok (t\<lparr>waiting := False\<rparr>)
      else interval_timeout b run (t\<lparr>waiting := False\<rparr>))"

definition run_posted ::
    "build \<Rightarrow> ('cb \<Rightarrow> 'cb interval \<Rightarrow> 'cb interval res) \<Rightarrow> 'cb interval \<Rightarrow> 'cb interval res" where
  "run_posted b run t =
     (if posted t = 0 then Ok t
      else if \<not> alive t then Ok (t\<lparr>posted := posted t - 1\<rparr>)
      else interval_timeout b run (t\<lparr>posted := posted t - 1\<rparr>))"

datatype interval_event = Start | Start_now | Stop | Expired | Posted

fun interval_step ::
    "build \<Rightarrow> ('cb \<Rightarrow> 'cb interval \<Rightarrow> 'cb interval res) \<Rightarrow> 'cb \<Rightarrow>
     'cb interval \<Rightarrow> interval_event \<Rightarrow> 'cb interval res" where
  "interval_step b run cb t Start = interval_start b cb t"
| "interval_step b run cb t Start_now = start_immediately b cb t"
| "interval_step b run cb t Stop = interval_stop b t"
| "interval_step b run cb t Expired = wait_expired b run t"
| "interval_step b run cb t Posted = run_posted b run t"

text \<open>A started timer has a callback, and it has a wait or a posted task ahead; a
  timer that is not started waits for nothing.\<close>

definition interval_inv :: "'cb interval \<Rightarrow> bool" where
  "interval_inv t \<longleftrightarrow> (started t \<longleftrightarrow> icallback t \<noteq> None) \<and> (waiting t \<longrightarrow> started t) \<and>
     (started t \<longrightarrow> waiting t \<or> 0 < posted t)"

text \<open>What a callback may do to the timer: nothing, or stop it.\<close>

definition tame_callback :: "('cb \<Rightarrow> 'cb interval \<Rightarrow> 'cb interval res) \<Rightarrow> bool" where
  "tame_callback run \<longleftrightarrow> (\<forall>cb t. run cb t = Ok t \<or>
     run cb t = Ok (t\<lparr>icallback := None, waiting := False, started := False\<rparr>))"

lemma interval_timeout_inv:
  assumes "tame_callback run" "started t \<longleftrightarrow> icallback t \<noteq> None" "waiting t \<longrightarrow> started t"
    "alive t" "interval_timeout b run t = Ok t'"
  shows "interval_inv t'"
proof -
  from assms(5) obtain cb u where u: "icallback t = Some cb" "run cb t = Ok u"
    and t': "t' = (if \<not> alive u then u else if \<not> started u then u else start_timer u)"
    by (auto simp: interval_timeout_def res_simps split: option.splits if_splits)
  from assms(1) u have "u = t \<or> u = t\<lparr>icallback := None, waiting := False, started := False\<rparr>"
    by (auto simp: tame_callback_def dest!: spec[of _ cb] spec[of _ t])
  with assms(2-4) t' u(1) show ?thesis
    by (auto simp: interval_inv_def start_timer_def)
qed

lemma interval_step_inv:
  assumes "tame_callback run" "interval_inv t" "alive t" "interval_step b run cb t e = Ok t'"
  shows "interval_inv t'"
proof (cases e)
  case Expired
  show ?thesis
  proof (cases "waiting t")
    case True
    with assms Expired have h: "interval_timeout b run (t\<lparr>waiting := False\<rparr>) = Ok t'"
      by (simp add: wait_expired_def)
    show ?thesis
      by (rule interval_timeout_inv[OF assms(1) _ _ _ h]) (use assms(2,3) in \<open>auto simp: interval_inv_def\<close>)
  qed (use assms Expired in \<open>auto simp: wait_expired_def\<close>)
next
  case Posted
  show ?thesis
  proof (cases "posted t = 0")
    case False
    with assms Posted have h: "interval_timeout b run (t\<lparr>posted := posted t - 1\<rparr>) = Ok t'"
      by (simp add: run_posted_def)
    show ?thesis
      by (rule interval_timeout_inv[OF assms(1) _ _ _ h]) (use assms(2,3) in \<open>auto simp: interval_inv_def\<close>)
  qed (use assms Posted in \<open>auto simp: run_posted_def\<close>)
qed (use assms in \<open>auto simp: interval_inv_def interval_start_def start_immediately_def
      interval_stop_def start_timer_def split: if_splits\<close>)

text \<open>A stop between \<open>start_immediately\<close> and the posted timeout is not honoured: the
  posted task still calls \<open>on_timeout\<close>, which asserts in a Debug build and calls an
  empty function, that is throws, in a Release build.\<close>

theorem stop_before_posted:
  "run_events (interval_step Debug run cb) fresh_interval [Start_now, Stop, Posted] = Assert_failed \<and>
   run_events (interval_step Release run cb) fresh_interval [Start_now, Stop, Posted] =
     Throw Runtime_error"
  by (simp add: start_immediately_def interval_stop_def run_posted_def interval_timeout_def
      fresh_interval_def)

text \<open>Once started, the timer keeps ticking until it is stopped: after any number of
  expiries whose callback leaves it alone it is still started and waiting.\<close>

theorem interval_keeps_ticking:
  assumes "icallback t = Some cb" "started t" "alive t" "waiting t" "\<And>t. run cb t = Ok t"
  shows "run_events (interval_step b run cb) t (replicate n Expired) = Ok t"
proof (induction n)
  case (Suc n)
  have "t\<lparr>waiting := False\<rparr>\<lparr>waiting := True\<rparr> = t" using assms(4) by (cases t) simp
  with assms have "wait_expired b run t = Ok t"
    by (simp add: wait_expired_def interval_timeout_def start_timer_def)
  with Suc show ?case by simp
qed simp

lemma interval_keeps_ticking_witness:
  "run_events (interval_step Debug (\<lambda>_ t. Ok t) 7)
     \<lparr>icallback = Some (7 :: nat), started = True, waiting = True, posted = 0, alive = True\<rparr>
     (replicate 5 Expired) =
   Ok \<lparr>icallback = Some 7, started = True, waiting = True, posted = 0, alive = True\<rparr>"
  by (rule interval_keeps_ticking) simp_all

end
