(* ===== verification/Signaling_Client.thy ===== *)
theory Signaling_Client
  imports Json_Message Timer
begin

text \<open>
  The client side of signaling (src/fubble/signaling/client/client.cpp and
  connection.cpp): \<open>client_impl\<close>, which owns one connection, and
  \<open>reconnecting_client\<close>, which owns a \<open>client_impl\<close>, caches what is sent while there
  is none and replaces it after a timeout.

  The state is that of the \<open>reconnecting_client\<close>; its \<open>delegate\<close> is the current
  \<open>client_impl\<close>. Signals emitted to the application, messages written to the wire
  and attempts to connect are appended to \<open>log\<close> in the order they happen. The
  outcome of a connection attempt, the end of a connection's \<open>run\<close>, incoming
  messages and the timer are events.
\<close>

section \<open>State\<close>

record connect_information =
  secure :: bool
  host :: string
  service :: string
  target :: string

record client_impl =
  has_connection :: bool
  connector :: bool
  connecting :: bool
  running :: bool
  information :: connect_information

datatype happening =
    Connecting connect_information
  | Wire message
  | Closing
  | Sig_registered
  | Sig_create_offer
  | Sig_offer offer
  | Sig_answer answer
  | Sig_ice_candidate ice_candidate

record reconnecting_client =
  delegate :: "client_impl option"
  signal_connections :: nat
  timer :: "unit one_shot"
  factory_information :: connect_information
  rc_information :: connect_information
  rc_token :: string
  reg_key :: string
  is_registered :: bool
  shall_reconnect :: bool
  wants_to_negotiate_cache :: bool
  cached_answer :: "answer option"
  cached_offer :: "offer option"
  cached_candidates :: "ice_candidate list"
  log :: "happening list"

definition fresh_client :: "connect_information \<Rightarrow> reconnecting_client" where
  "fresh_client i = \<lparr>delegate = None, signal_connections = 0,
     timer = \<lparr>callback = None, pending = False\<rparr>, factory_information = i,
     rc_information = \<lparr>secure = False, host = [], service = [], target = []\<rparr>,
     rc_token = [], reg_key = [], is_registered = False, shall_reconnect = True,
     wants_to_negotiate_cache = False, cached_answer = None, cached_offer = None,
     cached_candidates = [], log = []\<rparr>"

definition emit :: "happening \<Rightarrow> reconnecting_client \<Rightarrow> reconnecting_client" where
  "emit x s = s\<lparr>log := log s @ [x]\<rparr>"


section \<open>The client with one connection\<close>

text \<open>\<open>factory_impl::create\<close>.\<close>

definition create_impl :: "connect_information \<Rightarrow> client_impl" where
  "create_impl i = \<lparr>has_connection = False, connector = False, connecting = False, running = False,
     information = i\<rparr>"

text \<open>\<open>json_message::serialize\<close> asserts on a registration with an empty field.\<close>

definition serialize_asserts :: "build \<Rightarrow> message \<Rightarrow> bool" where
  "serialize_asserts b m = (case m of
     Registration r \<Rightarrow> b = Debug \<and> (key r = [] \<or> reconnect_token r = []) | _ \<Rightarrow> False)"

definition connection_send :: "build \<Rightarrow> message \<Rightarrow> reconnecting_client \<Rightarrow> reconnecting_client res" where
  "connection_send b m s = (if serialize_asserts b m then Assert_failed else Ok (emit (Wire m) s))"

text \<open>\<open>send_offer\<close>, \<open>send_answer\<close>, \<open>send_ice_candidate\<close>, \<open>send_want_to_negotiate\<close>.\<close>

definition impl_send :: "build \<Rightarrow> message \<Rightarrow> reconnecting_client \<Rightarrow> reconnecting_client res" where
  "impl_send b m s = (case delegate s of
     None \<Rightarrow> Undefined
   | Some d \<Rightarrow>
       if \<not> has_connection d then if b = Debug then Assert_failed else Undefined
       else connection_send b m s)"

definition impl_connect :: "build \<Rightarrow> reconnecting_client \<Rightarrow> reconnecting_client res" where
  "impl_connect b s = (case delegate s of
     None \<Rightarrow> Undefined
   | Some d \<Rightarrow>
       if b = Debug \<and> (has_connection d \<or> connector d) then Assert_failed
       else Ok (emit (Connecting (information d))
         (s\<lparr>delegate := Some (d\<lparr>connector := True, connecting := True\<rparr>)\<rparr>)))"

definition impl_close :: "client_impl \<Rightarrow> reconnecting_client \<Rightarrow> reconnecting_client" where
  "impl_close d s = (if \<not> has_connection d then s else emit Closing s)"


section \<open>The reconnecting client\<close>

definition is_connected :: "reconnecting_client \<Rightarrow> bool" where
  "is_connected s \<longleftrightarrow> delegate s \<noteq> None"

definition set_connect_information ::
    "connect_information \<Rightarrow> reconnecting_client \<Rightarrow> reconnecting_client" where
  "set_connect_information i s = (let s1 = s\<lparr>rc_information := i\<rparr> in
     case delegate s1 of None \<Rightarrow> s1 | Some d \<Rightarrow> s1\<lparr>delegate := Some (d\<lparr>information := i\<rparr>)\<rparr>)"

definition reconnect :: "build \<Rightarrow> reconnecting_client \<Rightarrow> reconnecting_client res" where
  "reconnect b s =
     (if \<not> shall_reconnect s then Ok s
      else let s1 = s\<lparr>delegate := Some (create_impl (factory_information s))\<rparr>
        in if b = Debug \<and> signal_connections s1 \<noteq> 0 then Assert_failed
           else impl_connect b (s1\<lparr>signal_connections := signal_connections s1 + 7\<rparr>))"

definition rc_connect :: "build \<Rightarrow> string \<Rightarrow> string \<Rightarrow> reconnecting_client \<Rightarrow> reconnecting_client res" where
  "rc_connect b t k s =
     (if b = Debug \<and> (delegate s \<noteq> None \<or> reg_key s \<noteq> []) then Assert_failed
      else reconnect b (s\<lparr>rc_token := t, reg_key := k\<rparr>))"

definition rc_close :: "build \<Rightarrow> reconnecting_client \<Rightarrow> reconnecting_client res" where
  "rc_close b s = (case delegate s of
     None \<Rightarrow> if b = Debug then Assert_failed else Ok s
   | Some d \<Rightarrow>
       if b = Debug \<and> \<not> shall_reconnect s then Assert_failed
       else Ok (impl_close d (s\<lparr>shall_reconnect := False\<rparr>)))"

definition rc_send_offer :: "build \<Rightarrow> offer \<Rightarrow> reconnecting_client \<Rightarrow> reconnecting_client res" where
  "rc_send_offer b x s =
     (if is_connected s then impl_send b (Offer x) s
      else if b = Debug \<and> cached_offer s \<noteq> None then Assert_failed
      else Ok (s\<lparr>cached_offer := Some x\<rparr>))"

definition rc_send_answer :: "build \<Rightarrow> answer \<Rightarrow> reconnecting_client \<Rightarrow> reconnecting_client res" where
  "rc_send_answer b x s =
     (if is_connected s then impl_send b (Answer x) s
      else if b = Debug \<and> cached_answer s \<noteq> None then Assert_failed
      else Ok (s\<lparr>cached_answer := Some x\<rparr>))"

definition rc_send_ice_candidate ::
    "build \<Rightarrow> ice_candidate \<Rightarrow> reconnecting_client \<Rightarrow> reconnecting_client res" where
  "rc_send_ice_candidate b x s =
     (if is_connected s then impl_send b (Ice_candidate x) s
      else Ok (s\<lparr>cached_candidates := cached_candidates s @ [x]\<rparr>))"

definition rc_send_want_to_negotiate ::
    "build \<Rightarrow> reconnecting_client \<Rightarrow> reconnecting_client res" where
  "rc_send_want_to_negotiate b s =
     (if is_connected s then impl_send b Want_to_negotiate s
      else if b = Debug \<and> wants_to_negotiate_cache s then Assert_failed
      else Ok (s\<lparr>wants_to_negotiate_cache := True\<rparr>))"

definition rc_send_cache :: "build \<Rightarrow> reconnecting_client \<Rightarrow> reconnecting_client res" where
  "rc_send_cache b s = block
     [foreach (cached_candidates s) (rc_send_ice_candidate b),
      \<lambda>s. Ok (s\<lparr>cached_candidates := []\<rparr>),
      \<lambda>s. case cached_offer s of None \<Rightarrow> Ok s | Some x \<Rightarrow> rc_send_offer b x s,
      \<lambda>s. Ok (s\<lparr>cached_offer := None\<rparr>),
      \<lambda>s. case cached_answer s of None \<Rightarrow> Ok s | Some x \<Rightarrow> rc_send_answer b x s,
      \<lambda>s. Ok (s\<lparr>cached_answer := None\<rparr>),
      \<lambda>s. if wants_to_negotiate_cache s then rc_send_want_to_negotiate b s else Ok s,
      \<lambda>s. Ok (s\<lparr>wants_to_negotiate_cache := False\<rparr>)] s"

definition got_registered :: "build \<Rightarrow> reconnecting_client \<Rightarrow> reconnecting_client res" where
  "got_registered b s = rc_send_cache b
     (if \<not> is_registered s then emit Sig_registered (s\<lparr>is_registered := True\<rparr>) else s)"

definition reconnect_after_timeout :: "build \<Rightarrow> reconnecting_client \<Rightarrow> reconnecting_client res" where
  "reconnect_after_timeout b s =
     (if \<not> shall_reconnect s then Ok s
      else rbind (one_shot_start b () (timer s)) (\<lambda>t.
        Ok (s\<lparr>delegate := None, signal_connections := 0, timer := t\<rparr>)))"


section \<open>What happens to it\<close>

datatype attempt = Attempt_ok | Attempt_system_error | Attempt_other_error

datatype run_result = Run_stopped | Run_aborted | Run_system_error | Run_other_error

text \<open>\<open>client_impl::connected\<close>. A failed attempt emits \<open>on_error\<close>, which \<open>got_error\<close>
  takes note of and nothing more.\<close>

definition connected :: "build \<Rightarrow> attempt \<Rightarrow> client_impl \<Rightarrow> reconnecting_client \<Rightarrow> reconnecting_client res" where
  "connected b a d s = (let s0 = s\<lparr>delegate := Some (d\<lparr>connecting := False\<rparr>)\<rparr> in
     case a of
       Attempt_ok \<Rightarrow>
         if b = Debug \<and> has_connection d then Assert_failed
         else block
           [\<lambda>s. Ok (s\<lparr>delegate := Some (d\<lparr>connecting := False, has_connection := True\<rparr>)\<rparr>),
            \<lambda>s. connection_send b (Registration \<lparr>key = reg_key s, reconnect_token = rc_token s\<rparr>) s,
            got_registered b,
            \<lambda>s. Ok (s\<lparr>delegate := map_option (\<lambda>d. d\<lparr>running := True\<rparr>) (delegate s)\<rparr>)] s0
     | Attempt_system_error \<Rightarrow> Ok s0
     | Attempt_other_error \<Rightarrow> if b = Debug then Assert_failed else Ok s0)"

definition run_done :: "build \<Rightarrow> run_result \<Rightarrow> client_impl \<Rightarrow> reconnecting_client \<Rightarrow> reconnecting_client res" where
  "run_done b r d s =
     (if b = Debug \<and> r = Run_other_error then Assert_failed
      else reconnect_after_timeout b (s\<lparr>delegate := Some (d\<lparr>running := False\<rparr>)\<rparr>))"

definition incoming :: "build \<Rightarrow> message \<Rightarrow> reconnecting_client \<Rightarrow> reconnecting_client res" where
  "incoming b m s = (case m of
     Offer x \<Rightarrow> Ok (emit (Sig_offer x) s)
   | Answer x \<Rightarrow> Ok (emit (Sig_answer x) s)
   | Ice_candidate x \<Rightarrow> Ok (emit (Sig_ice_candidate x) s)
   | Create_offer \<Rightarrow> Ok (emit Sig_create_offer s)
   | Want_to_negotiate \<Rightarrow> if b = Debug then Assert_failed else Ok s
   | Registration r \<Rightarrow> if b = Debug then Assert_failed else Ok s)"

text \<open>The timer's callback is \<open>reconnect\<close>; it does not touch the timer.\<close>

definition timer_expired :: "build \<Rightarrow> reconnecting_client \<Rightarrow> reconnecting_client res" where
  "timer_expired b s =
     rbind (one_shot_timeout b (\<lambda>_. Ok) (timer s)) (\<lambda>t. reconnect b (s\<lparr>timer := t\<rparr>))"

datatype client_event =
    Connect string string
  | Close
  | Send_offer offer
  | Send_answer answer
  | Send_ice_candidate ice_candidate
  | Send_want_to_negotiate
  | Attempt attempt
  | Incoming message
  | Run_done run_result
  | Timer_expired

text \<open>Events of a connection need one, those of an attempt or a timer a pending one.\<close>

fun client_step :: "build \<Rightarrow> reconnecting_client \<Rightarrow> client_event \<Rightarrow> reconnecting_client res" where
  "client_step b s (Connect t k) = rc_connect b t k s"
| "client_step b s Close = rc_close b s"
| "client_step b s (Send_offer x) = rc_send_offer b x s"
| "client_step b s (Send_answer x) = rc_send_answer b x s"
| "client_step b s (Send_ice_candidate x) = rc_send_ice_candidate b x s"
| "client_step b s Send_want_to_negotiate = rc_send_want_to_negotiate b s"
| "client_step b s (Attempt a) = (case delegate s of None \<Rightarrow> Ok s
     | Some d \<Rightarrow> if connecting d then connected b a d s else Ok s)"
| "client_step b s (Incoming m) = (case delegate s of None \<Rightarrow> Ok s
     | Some d \<Rightarrow> if running d then incoming b m s else Ok s)"
| "client_step b s (Run_done r) = (case delegate s of None \<Rightarrow> Ok s
     | Some d \<Rightarrow> if running d then run_done b r d s else Ok s)"
| "client_step b s Timer_expired = (if pending (timer s) then timer_expired b s else Ok s)"



section \<open>What the client guarantees\<close>

lemma impl_send_connected:
  "delegate s = Some d \<Longrightarrow> has_connection d \<Longrightarrow> \<not> serialize_asserts b m \<Longrightarrow>
   impl_send b m s = Ok (emit (Wire m) s)"
  by (simp add: impl_send_def connection_send_def)

lemma no_serialize_assert [simp]:
  "\<not> serialize_asserts b (Offer x)" "\<not> serialize_asserts b (Answer y)"
  "\<not> serialize_asserts b (Ice_candidate z)" "\<not> serialize_asserts b Want_to_negotiate"
  by (simp_all add: serialize_asserts_def)

lemma emit_fields [simp]:
  "delegate (emit x s) = delegate s" "is_registered (emit x s) = is_registered s"
  "cached_candidates (emit x s) = cached_candidates s" "cached_offer (emit x s) = cached_offer s"
  "cached_answer (emit x s) = cached_answer s" "log (emit x s) = log s @ [x]"
  "wants_to_negotiate_cache (emit x s) = wants_to_negotiate_cache s"
  "shall_reconnect (emit x s) = shall_reconnect s" "timer (emit x s) = timer s"
  by (simp_all add: emit_def)

lemma send_candidates_connected:
  assumes "delegate s = Some d" "has_connection d"
  shows "foreach cs (rc_send_ice_candidate b) s =
    Ok (s\<lparr>log := log s @ map (\<lambda>c. Wire (Ice_candidate c)) cs\<rparr>)"
  using assms
  by (induction cs arbitrary: s)
    (simp_all add: rc_send_ice_candidate_def is_connected_def impl_send_connected emit_def)

text \<open>What the caches hold, in the order \<open>send_cache\<close> sends it.\<close>

definition cached_messages :: "reconnecting_client \<Rightarrow> message list" where
  "cached_messages s = map Ice_candidate (cached_candidates s) @
     (case cached_offer s of None \<Rightarrow> [] | Some x \<Rightarrow> [Offer x]) @
     (case cached_answer s of None \<Rightarrow> [] | Some x \<Rightarrow> [Answer x]) @
     (if wants_to_negotiate_cache s then [Want_to_negotiate] else [])"

lemma rc_send_cache_connected:
  assumes "delegate s = Some d" "has_connection d"
  shows "rc_send_cache b s = Ok (s\<lparr>cached_candidates := [], cached_offer := None,
    cached_answer := None, wants_to_negotiate_cache := False,
    log := log s @ map Wire (cached_messages s)\<rparr>)"
  using assms
  by (cases "cached_offer s"; cases "cached_answer s")
    (simp_all add: rc_send_cache_def send_candidates_connected rc_send_offer_def
      rc_send_answer_def rc_send_want_to_negotiate_def is_connected_def impl_send_connected
      emit_def cached_messages_def comp_def)

text \<open>Nothing sent while disconnected is lost: when a connection attempt succeeds the
  client registers first, announces the registration to the application (the first
  time only), and then sends everything cached, candidates in order, then the offer,
  the answer and the wish to negotiate; afterwards the caches are empty.\<close>

theorem reconnect_flushes_cache:
  assumes "delegate s = Some d" "connecting d" "\<not> has_connection d" "reg_key s \<noteq> []" "rc_token s \<noteq> []"
  shows "\<exists>t. client_step b s (Attempt Attempt_ok) = Ok t \<and> cached_messages t = [] \<and>
    is_registered t \<and>
    log t = log s @ [Wire (Registration \<lparr>key = reg_key s, reconnect_token = rc_token s\<rparr>)] @
      (if is_registered s then [] else [Sig_registered]) @ map Wire (cached_messages s)"
proof -
  let ?r = "\<lparr>key = reg_key s, reconnect_token = rc_token s\<rparr>"
  let ?s1 = "emit (Wire (Registration ?r))
    (s\<lparr>delegate := Some (d\<lparr>connecting := False, has_connection := True\<rparr>)\<rparr>)"
  let ?s2 = "if \<not> is_registered ?s1 then emit Sig_registered (?s1\<lparr>is_registered := True\<rparr>) else ?s1"
  have reg: "\<not> serialize_asserts b (Registration ?r)"
    using assms by (simp add: serialize_asserts_def)
  have d: "delegate ?s2 = Some (d\<lparr>connecting := False, has_connection := True\<rparr>)"
    "has_connection (d\<lparr>connecting := False, has_connection := True\<rparr>)" by (simp_all add: emit_def)
  have c: "cached_messages ?s2 = cached_messages s" by (simp add: cached_messages_def emit_def)
  have "client_step b s (Attempt Attempt_ok) = rbind (rc_send_cache b ?s2)
      (\<lambda>s. Ok (s\<lparr>delegate := map_option (\<lambda>d. d\<lparr>running := True\<rparr>) (delegate s)\<rparr>))"
    using assms reg by (simp add: connected_def Let_def connection_send_def got_registered_def emit_def)
  also have "\<dots> = Ok (?s2\<lparr>cached_candidates := [], cached_offer := None, cached_answer := None,
      wants_to_negotiate_cache := False, log := log ?s2 @ map Wire (cached_messages s),
      delegate := Some (d\<lparr>connecting := False, has_connection := True, running := True\<rparr>)\<rparr>)"
    using rc_send_cache_connected[OF d, of b] c d(1) by simp
  finally show ?thesis by (simp add: cached_messages_def emit_def)
qed

lemma reconnect_flushes_cache_witness:
  "\<exists>t. client_step Debug ((fresh_client (information (create_impl \<lparr>secure = True, host = ''h'',
      service = ''s'', target = ''t''\<rparr>)))
      \<lparr>delegate := Some ((create_impl \<lparr>secure = True, host = ''h'', service = ''s'', target = ''t''\<rparr>)
        \<lparr>connector := True, connecting := True\<rparr>), reg_key := ''k'', rc_token := ''t'',
       wants_to_negotiate_cache := True\<rparr>) (Attempt Attempt_ok) = Ok t \<and>
    log t = [Wire (Registration \<lparr>key = ''k'', reconnect_token = ''t''\<rparr>), Sig_registered,
      Wire Want_to_negotiate]"
  using reconnect_flushes_cache[of "(fresh_client (information (create_impl \<lparr>secure = True,
      host = ''h'', service = ''s'', target = ''t''\<rparr>)))
      \<lparr>delegate := Some ((create_impl \<lparr>secure = True, host = ''h'', service = ''s'', target = ''t''\<rparr>)
        \<lparr>connector := True, connecting := True\<rparr>), reg_key := ''k'', rc_token := ''t'',
       wants_to_negotiate_cache := True\<rparr>" _ Debug]
  by (auto simp: fresh_client_def create_impl_def cached_messages_def)

text \<open>A client whose attempt failed: the delegate is there, but not connected, and the
  timer does not run.\<close>

definition abandoned :: "reconnecting_client \<Rightarrow> bool" where
  "abandoned s \<longleftrightarrow> \<not> pending (timer s) \<and> (case delegate s of None \<Rightarrow> False
     | Some d \<Rightarrow> \<not> connecting d \<and> \<not> has_connection d \<and> \<not> running d)"

definition network_event :: "client_event \<Rightarrow> bool" where
  "network_event e \<longleftrightarrow> (case e of Attempt _ \<Rightarrow> True | Incoming _ \<Rightarrow> True | Run_done _ \<Rightarrow> True
     | Timer_expired \<Rightarrow> True | _ \<Rightarrow> False)"

text \<open>A failed connection attempt is final: after it no event of the network or the
  timer changes anything any more, so the client never connects again, and the next
  thing the application sends asserts or goes through a null pointer.\<close>

theorem failed_attempt_is_final:
  assumes "delegate s = Some d" "connecting d" "\<not> has_connection d" "\<not> running d" "\<not> pending (timer s)"
  shows "\<exists>t. client_step b s (Attempt Attempt_system_error) = Ok t \<and>
    (\<forall>es. run_events (client_step b) t (filter network_event es) = Ok t) \<and>
    client_step b t (Send_offer x) = (if b = Debug then Assert_failed else Undefined)"
proof -
  have stuck: "run_events (client_step b) t (filter network_event es) = Ok t" if "abandoned t" for t es
    using that
    by (induction es) (auto simp: abandoned_def network_event_def split: client_event.splits option.splits)
  let ?t = "s\<lparr>delegate := Some (d\<lparr>connecting := False\<rparr>)\<rparr>"
  have "client_step b s (Attempt Attempt_system_error) = Ok ?t"
    using assms by (simp add: connected_def Let_def)
  moreover have "abandoned ?t" using assms by (simp add: abandoned_def)
  moreover have "client_step b ?t (Send_offer x) = (if b = Debug then Assert_failed else Undefined)"
    using assms by (simp add: rc_send_offer_def is_connected_def impl_send_def)
  ultimately show ?thesis using stuck by blast
qed

lemma failed_attempt_is_final_witness:
  "\<exists>s t. run_events (client_step Release) (fresh_client \<lparr>secure = True, host = ''h'', service = ''s'',
      target = ''t''\<rparr>) [Connect ''token'' ''key''] = Ok s \<and>
    client_step Release s (Attempt Attempt_system_error) = Ok t \<and>
    run_events (client_step Release) t [Timer_expired, Timer_expired] = Ok t"
proof -
  let ?i = "\<lparr>secure = True, host = ''h'', service = ''s'', target = ''t''\<rparr>"
  obtain s where s: "run_events (client_step Release) (fresh_client ?i) [Connect ''token'' ''key''] = Ok s"
    "delegate s = Some ((create_impl ?i)\<lparr>connector := True, connecting := True\<rparr>)" "\<not> pending (timer s)"
    by (simp add: fresh_client_def rc_connect_def reconnect_def impl_connect_def create_impl_def emit_def)
  from failed_attempt_is_final[OF s(2) _ _ _ s(3), of Release "\<lparr>offer_sdp = []\<rparr>"]
  obtain t where t: "client_step Release s (Attempt Attempt_system_error) = Ok t"
    "\<forall>es. run_events (client_step Release) t (filter network_event es) = Ok t"
    by (auto simp: create_impl_def)
  from t(2)[rule_format, of "[Timer_expired, Timer_expired]"]
  have "run_events (client_step Release) t [Timer_expired, Timer_expired] = Ok t"
    by (simp add: network_event_def)
  with s t(1) show ?thesis by blast
qed


section \<open>Registration is announced once, closing is final\<close>

definition noteworthy :: "happening \<Rightarrow> bool" where
  "noteworthy x \<longleftrightarrow> (case x of Sig_registered \<Rightarrow> True | Connecting _ \<Rightarrow> True | _ \<Rightarrow> False)"

text \<open>\<open>quiet s t\<close>: sending and caching neither connect nor announce anything.\<close>

definition quiet :: "reconnecting_client \<Rightarrow> reconnecting_client \<Rightarrow> bool" where
  "quiet s t \<longleftrightarrow> delegate t = delegate s \<and> timer t = timer s \<and> is_registered t = is_registered s \<and>
     shall_reconnect t = shall_reconnect s \<and>
     filter noteworthy (log t) = filter noteworthy (log s)"

lemma quiet_refl [simp]: "quiet s s"
  by (simp add: quiet_def)

lemma quiet_trans: "quiet s t \<Longrightarrow> quiet t u \<Longrightarrow> quiet s u"
  by (simp add: quiet_def)

lemma impl_send_quiet: "impl_send b m s = Ok t \<Longrightarrow> quiet s t"
  by (auto simp: impl_send_def connection_send_def quiet_def noteworthy_def split: option.splits if_splits)

lemma rc_send_quiet:
  "rc_send_offer b x s = Ok t \<Longrightarrow> quiet s t"
  "rc_send_answer b y s = Ok t \<Longrightarrow> quiet s t"
  "rc_send_ice_candidate b z s = Ok t \<Longrightarrow> quiet s t"
  "rc_send_want_to_negotiate b s = Ok t \<Longrightarrow> quiet s t"
  by (auto simp: rc_send_offer_def rc_send_answer_def rc_send_ice_candidate_def
      rc_send_want_to_negotiate_def split: if_splits dest: impl_send_quiet) (auto simp: quiet_def)

lemma rc_send_cache_quiet:
  assumes "rc_send_cache b s = Ok t"
  shows "quiet s t"
proof -
  from assms obtain u1 u2 u3 u4 where
    1: "foreach (cached_candidates s) (rc_send_ice_candidate b) s = Ok u1"
    and 2: "(case cached_offer u1 of None \<Rightarrow> Ok (u1\<lparr>cached_candidates := []\<rparr>)
      | Some x \<Rightarrow> rc_send_offer b x (u1\<lparr>cached_candidates := []\<rparr>)) = Ok u2"
    and 3: "(case cached_answer u2 of None \<Rightarrow> Ok (u2\<lparr>cached_offer := None\<rparr>)
      | Some x \<Rightarrow> rc_send_answer b x (u2\<lparr>cached_offer := None\<rparr>)) = Ok u3"
    and 4: "(if wants_to_negotiate_cache u3 then rc_send_want_to_negotiate b (u3\<lparr>cached_answer := None\<rparr>)
      else Ok (u3\<lparr>cached_answer := None\<rparr>)) = Ok u4"
    and 5: "u4\<lparr>wants_to_negotiate_cache := False\<rparr> = t"
    by (simp add: rc_send_cache_def rbind_Ok_iff) blast
  have "quiet s u1"
    using 1 quiet_refl by (rule foreach_invariant) (blast intro: quiet_trans rc_send_quiet)
  then have "quiet s (u1\<lparr>cached_candidates := []\<rparr>)" by (simp add: quiet_def)
  with 2 have "quiet s u2" by (auto split: option.splits intro: quiet_trans rc_send_quiet)
  then have "quiet s (u2\<lparr>cached_offer := None\<rparr>)" by (simp add: quiet_def)
  with 3 have "quiet s u3" by (auto split: option.splits intro: quiet_trans rc_send_quiet)
  then have "quiet s (u3\<lparr>cached_answer := None\<rparr>)" by (simp add: quiet_def)
  with 4 have "quiet s u4" by (auto split: if_splits intro: quiet_trans rc_send_quiet)
  with 5 show ?thesis by (auto simp: quiet_def)
qed

definition announcements :: "reconnecting_client \<Rightarrow> nat" where
  "announcements s = length (filter (\<lambda>x. x = Sig_registered) (log s))"

fun is_attempt :: "happening \<Rightarrow> bool" where
  "is_attempt (Connecting i) = True"
| "is_attempt _ = False"

definition attempts :: "reconnecting_client \<Rightarrow> nat" where
  "attempts s = length (filter is_attempt (log s))"

lemma noteworthy_filters:
  "filter (\<lambda>x. x = Sig_registered) l = filter (\<lambda>x. x = Sig_registered) (filter noteworthy l)"
  "filter is_attempt l = filter is_attempt (filter noteworthy l)"
proof (induction l)
  case (Cons x l)
  { case 1 from Cons(1) show ?case by (cases x) (simp_all add: noteworthy_def del: filter_filter) }
  { case 2 from Cons(2) show ?case by (cases x) (simp_all add: noteworthy_def del: filter_filter) }
qed simp_all

lemma quiet_counts: "quiet s t \<Longrightarrow> announcements t = announcements s \<and> attempts t = attempts s"
  by (simp add: quiet_def announcements_def attempts_def noteworthy_filters[of "log s"]
      noteworthy_filters[of "log t"] del: filter_filter)

text \<open>The client's invariant: the application was told exactly once, or not yet.\<close>

definition client_inv :: "reconnecting_client \<Rightarrow> bool" where
  "client_inv s \<longleftrightarrow> announcements s = (if is_registered s then 1 else 0)"

text \<open>What every step but a (re)connect keeps: the invariant, the intention to
  reconnect and the number of attempts.\<close>

definition keeps :: "reconnecting_client \<Rightarrow> reconnecting_client \<Rightarrow> bool" where
  "keeps s t \<longleftrightarrow> (client_inv s \<longrightarrow> client_inv t) \<and> shall_reconnect t = shall_reconnect s \<and>
     attempts t = attempts s"

lemma keeps_trans: "keeps s t \<Longrightarrow> keeps t u \<Longrightarrow> keeps s u"
  by (simp add: keeps_def)

lemma quiet_keeps: "quiet s t \<Longrightarrow> keeps s t"
  using quiet_counts[of s t] by (simp add: client_inv_def quiet_def keeps_def)

lemma keeps_log:
  "log t = log s \<Longrightarrow> is_registered t = is_registered s \<Longrightarrow> shall_reconnect t = shall_reconnect s \<Longrightarrow>
   keeps s t"
  by (simp add: keeps_def client_inv_def announcements_def attempts_def)

lemma announced_emit: "\<not> noteworthy x \<Longrightarrow> keeps s (emit x s)"
  by (cases x) (auto simp: keeps_def client_inv_def announcements_def attempts_def noteworthy_def)

lemma got_registered_keeps:
  assumes "got_registered b s = Ok t"
  shows "keeps s t"
proof -
  let ?n = "if \<not> is_registered s then emit Sig_registered (s\<lparr>is_registered := True\<rparr>) else s"
  have "keeps s ?n"
    by (auto simp: keeps_def client_inv_def announcements_def attempts_def emit_def)
  moreover from assms have "keeps ?n t"
    unfolding got_registered_def by (intro quiet_keeps rc_send_cache_quiet)
  ultimately show ?thesis by (rule keeps_trans)
qed

lemma connected_keeps:
  assumes "delegate s = Some d" "connected b a d s = Ok t"
  shows "keeps s t"
proof (cases a)
  case Attempt_ok
  let ?s1 = "s\<lparr>delegate := Some (d\<lparr>connecting := False, has_connection := True\<rparr>)\<rparr>"
  from assms(2) Attempt_ok obtain u v where
    u: "connection_send b (Registration \<lparr>key = reg_key s, reconnect_token = rc_token s\<rparr>) ?s1 = Ok u"
    and v: "got_registered b u = Ok v"
    and t: "t = v\<lparr>delegate := map_option (\<lambda>d. d\<lparr>running := True\<rparr>) (delegate v)\<rparr>"
    by (auto simp: connected_def Let_def res_simps split: if_splits)
  have "keeps s ?s1" by (rule keeps_log) simp_all
  moreover from u have "keeps ?s1 u"
    by (auto simp: connection_send_def noteworthy_def split: if_splits intro!: announced_emit)
  moreover note got_registered_keeps[OF v]
  moreover have "keeps v t" by (rule keeps_log) (simp_all add: t)
  ultimately show ?thesis by (blast intro: keeps_trans)
qed (use assms in \<open>auto simp: connected_def Let_def split: if_splits intro!: keeps_log\<close>)

lemma incoming_keeps: "incoming b m s = Ok t \<Longrightarrow> keeps s t"
  by (cases m) (auto simp: incoming_def noteworthy_def split: if_splits intro!: announced_emit keeps_log)

lemma run_done_keeps: "run_done b r d s = Ok t \<Longrightarrow> keeps s t"
  by (auto simp: run_done_def reconnect_after_timeout_def res_simps split: if_splits intro!: keeps_log)

lemma reconnect_facts:
  assumes "reconnect b s = Ok t"
  shows "client_inv s \<longrightarrow> client_inv t" "shall_reconnect t = shall_reconnect s"
    "\<not> shall_reconnect s \<Longrightarrow> t = s"
  using assms by (auto simp: reconnect_def Let_def impl_connect_def announcements_def emit_def
      create_impl_def client_inv_def split: if_splits)

text \<open>A step as a whole: the invariant always, and once the client shall not
  reconnect that stays so and no further attempt is made.\<close>

definition goes_on :: "reconnecting_client \<Rightarrow> reconnecting_client \<Rightarrow> bool" where
  "goes_on s t \<longleftrightarrow> (client_inv s \<longrightarrow> client_inv t) \<and>
     (\<not> shall_reconnect s \<longrightarrow> \<not> shall_reconnect t \<and> attempts t = attempts s)"

lemma keeps_goes_on: "keeps s t \<Longrightarrow> goes_on s t"
  by (simp add: keeps_def goes_on_def)

lemma goes_on_refl [simp]: "goes_on s s"
  by (simp add: goes_on_def)

lemma reconnect_goes_on:
  assumes "keeps s u" "reconnect b u = Ok t"
  shows "goes_on s t"
  using assms reconnect_facts[OF assms(2)] by (auto simp: keeps_def goes_on_def)

lemma client_step_goes_on:
  assumes "client_step b s e = Ok t"
  shows "goes_on s t"
proof (cases e)
  case (Connect k l)
  with assms show ?thesis
    by (auto simp: rc_connect_def split: if_splits elim!: reconnect_goes_on[rotated] intro!: keeps_log)
next
  case Close
  with assms show ?thesis
    by (auto simp: rc_close_def impl_close_def goes_on_def client_inv_def announcements_def
        attempts_def emit_def split: option.splits if_splits)
next
  case Timer_expired
  show ?thesis
  proof (cases "pending (timer s)")
    case True
    with assms Timer_expired obtain x where "reconnect b (s\<lparr>timer := x\<rparr>) = Ok t"
      by (auto simp: timer_expired_def res_simps)
    then show ?thesis by (rule reconnect_goes_on[rotated]) (rule keeps_log, simp_all)
  qed (use assms Timer_expired in \<open>auto simp: goes_on_def\<close>)
next
  case (Attempt a)
  with assms show ?thesis
    by (auto split: option.splits if_splits intro: keeps_goes_on connected_keeps)
next
  case (Incoming m)
  with assms show ?thesis
    by (auto split: option.splits if_splits intro: keeps_goes_on incoming_keeps)
next
  case (Run_done r)
  with assms show ?thesis
    by (auto split: option.splits if_splits intro: keeps_goes_on run_done_keeps)
qed (use assms in \<open>auto intro: keeps_goes_on quiet_keeps rc_send_quiet\<close>)

interpretation rc: state_machine "client_step b" client_inv
  using client_step_goes_on by unfold_locales (auto simp: goes_on_def)

text \<open>The application hears of its registration at most once, however often the
  client reconnects.\<close>

theorem registered_announced_once:
  assumes "run_events (client_step b) (fresh_client i) es = Ok s"
  shows "announcements s \<le> 1 \<and> (announcements s = 1 \<longleftrightarrow> is_registered s)"
proof -
  have "client_inv (fresh_client i)"
    by (simp add: client_inv_def fresh_client_def announcements_def)
  with assms have "client_inv s" using rc.run_inv by blast
  then show ?thesis by (simp add: client_inv_def)
qed

definition demo_information :: connect_information where
  "demo_information = \<lparr>secure = True, host = ''h'', service = ''s'', target = ''t''\<rparr>"

lemma registered_announced_once_witness:
  "\<exists>s. run_events (client_step Debug) (fresh_client demo_information)
      [Connect ''token'' ''key'', Attempt Attempt_ok, Run_done Run_system_error, Timer_expired,
       Attempt Attempt_ok] = Ok s \<and> attempts s = 2 \<and> announcements s \<le> 1"
proof -
  have "case run_events (client_step Debug) (fresh_client demo_information)
      [Connect ''token'' ''key'', Attempt Attempt_ok, Run_done Run_system_error, Timer_expired,
       Attempt Attempt_ok] of Ok s \<Rightarrow> length (log s) = 5 \<and> is_registered s | _ \<Rightarrow> False"
    by code_simp
  then obtain s where s: "run_events (client_step Debug) (fresh_client demo_information)
      [Connect ''token'' ''key'', Attempt Attempt_ok, Run_done Run_system_error, Timer_expired,
       Attempt Attempt_ok] = Ok s" by (blast dest: res_caseD)
  moreover from registered_announced_once[OF s] have "announcements s \<le> 1" by simp
  moreover have "attempts s = 2" using s
    by (auto simp: rc_connect_def reconnect_def Let_def impl_connect_def create_impl_def
        fresh_client_def connected_def connection_send_def serialize_asserts_def got_registered_def
        rc_send_cache_def run_done_def reconnect_after_timeout_def timer_expired_def emit_def
        one_shot_start_def one_shot_timeout_def attempts_def)
  ultimately show ?thesis by blast
qed

text \<open>Closing a connected client is final: whatever follows, it never attempts to
  connect again.\<close>

theorem close_is_final:
  assumes "delegate s \<noteq> None" "client_step b s Close = Ok t" "run_events (client_step b) t es = Ok u"
  shows "attempts u = attempts s"
proof -
  have "\<not> shall_reconnect t \<and> attempts t = attempts s"
    using assms(1,2) by (auto simp: rc_close_def impl_close_def attempts_def emit_def split: if_splits)
  moreover have "\<not> shall_reconnect u \<and> attempts u = attempts t" if "\<not> shall_reconnect t"
      "run_events (client_step b) t es = Ok u" for t
    using that
  proof (induction es arbitrary: t)
    case (Cons e es)
    from Cons.prems(2) obtain v where v: "client_step b t e = Ok v" "run_events (client_step b) v es = Ok u"
      by (auto simp: res_simps)
    from client_step_goes_on[OF v(1)] Cons.prems(1)
    have "\<not> shall_reconnect v" "attempts v = attempts t" by (auto simp: goes_on_def)
    with Cons.IH[OF _ v(2)] show ?case by simp
  qed simp
  ultimately show ?thesis using assms(3) by metis
qed

lemma close_is_final_witness:
  "\<exists>t. client_step Release ((fresh_client demo_information)
      \<lparr>delegate := Some (create_impl demo_information)\<rparr>) Close = Ok t \<and>
    (\<forall>es u. run_events (client_step Release) t es = Ok u \<longrightarrow> attempts u = 0)"
proof -
  let ?s = "(fresh_client demo_information)\<lparr>delegate := Some (create_impl demo_information)\<rparr>"
  have "client_step Release ?s Close = Ok (?s\<lparr>shall_reconnect := False\<rparr>)"
    by (simp add: rc_close_def impl_close_def create_impl_def)
  moreover have "attempts ?s = 0" by (simp add: attempts_def fresh_client_def)
  ultimately show ?thesis using close_is_final[of ?s Release] by auto
qed

text \<open>Closing while the client waits to reconnect is not honoured: there is no
  delegate then, a Debug build asserts, and a Release build returns a ready future
  without taking the intention to reconnect back, so the timer connects again.\<close>

theorem close_during_backoff:
  assumes "delegate s = None" "shall_reconnect s" "timer s = \<lparr>callback = Some (), pending = True\<rparr>"
  shows "client_step Debug s Close = Assert_failed \<and>
    (\<exists>t. run_events (client_step Release) s [Close, Timer_expired] = Ok t \<and>
      attempts t = Suc (attempts s))"
  using assms
  by (simp add: rc_close_def timer_expired_def one_shot_timeout_def reconnect_def Let_def
      impl_connect_def create_impl_def attempts_def)

lemma close_during_backoff_witness:
  "client_step Debug ((fresh_client demo_information)\<lparr>timer := \<lparr>callback = Some (), pending = True\<rparr>\<rparr>)
     Close = Assert_failed"
  using close_during_backoff[of "(fresh_client demo_information)
    \<lparr>timer := \<lparr>callback = Some (), pending = True\<rparr>\<rparr>"] by (simp add: fresh_client_def)

end
