(* ===== verification/Stateful.thy ===== *)
theory Stateful
  imports Prelude
begin

text \<open>
  Programs whose state survives an exception.

  Where the program catches what a handler throws, everything the handler did
  before is kept. Such code is a \<open>prog\<close>: it maps the state to the state it leaves
  and to its outcome, whatever the outcome is. \<open>keeps P m\<close> says that \<open>m\<close> leaves
  \<open>P\<close> true on every way out; its rules are in the collection \<open>keeps\<close>.
\<close>

named_theorems keeps \<open>programs that keep an invariant\<close>
named_theorems prog_simps \<open>computation rules of programs\<close>

type_synonym ('s, 'a) prog = "'s \<Rightarrow> 's \<times> 'a res"

definition ret :: "'a \<Rightarrow> ('s, 'a) prog" where
  "ret a = (\<lambda>s. (s, Ok a))"

definition lift_res :: "'a res \<Rightarrow> ('s, 'a) prog" where
  "lift_res r = (\<lambda>s. (s, r))"

definition sbind :: "('s, 'a) prog \<Rightarrow> ('a \<Rightarrow> ('s, 'b) prog) \<Rightarrow> ('s, 'b) prog" where
  "sbind m f = (\<lambda>s. case m s of (t, r) \<Rightarrow>
     (case r of Ok a \<Rightarrow> f a t | Throw e \<Rightarrow> (t, Throw e)
      | Assert_failed \<Rightarrow> (t, Assert_failed) | Undefined \<Rightarrow> (t, Undefined)))"

definition sthen :: "('s, unit) prog \<Rightarrow> ('s, 'b) prog \<Rightarrow> ('s, 'b) prog" where
  "sthen m n = sbind m (\<lambda>u. n)"

definition update :: "('s \<Rightarrow> 's) \<Rightarrow> ('s, unit) prog" where
  "update f = (\<lambda>s. (f s, Ok ()))"

definition gets :: "('s \<Rightarrow> 'a) \<Rightarrow> ('s, 'a) prog" where
  "gets f = (\<lambda>s. (s, Ok (f s)))"

definition sassert :: "build \<Rightarrow> bool \<Rightarrow> ('s, unit) prog" where
  "sassert b c = lift_res (boost_assert b c)"

fun for_each :: "'a list \<Rightarrow> ('a \<Rightarrow> ('s, unit) prog) \<Rightarrow> ('s, unit) prog" where
  "for_each [] f = ret ()"
| "for_each (x # xs) f = sthen (f x) (for_each xs f)"

text \<open>A try block with a handler for every exception.\<close>

definition try_catch :: "('s, unit) prog \<Rightarrow> (exn \<Rightarrow> ('s, unit) prog) \<Rightarrow> ('s, unit) prog" where
  "try_catch m h = (\<lambda>s. case m s of (t, r) \<Rightarrow>
     (case r of Ok a \<Rightarrow> (t, Ok a) | Throw e \<Rightarrow> h e t
      | Assert_failed \<Rightarrow> (t, Assert_failed) | Undefined \<Rightarrow> (t, Undefined)))"

lemmas prog_defs = ret_def lift_res_def sbind_def sthen_def update_def gets_def
  sassert_def try_catch_def

text \<open>The same as rewrite rules that fire on a program with its state only.\<close>

lemma prog_eval:
  "ret a s = (s, Ok a)" "lift_res r s = (s, r)" "update f s = (f s, Ok ())" "gets g s = (s, Ok (g s))"
  "sthen m n s = sbind m (\<lambda>u. n) s"
  "sbind q k s = (case q s of (t, r) \<Rightarrow>
     (case r of Ok a \<Rightarrow> k a t | Throw e \<Rightarrow> (t, Throw e)
      | Assert_failed \<Rightarrow> (t, Assert_failed) | Undefined \<Rightarrow> (t, Undefined)))"
  "try_catch m h s = (case m s of (t, r) \<Rightarrow>
     (case r of Ok a \<Rightarrow> (t, Ok ()) | Throw e \<Rightarrow> h e t
      | Assert_failed \<Rightarrow> (t, Assert_failed) | Undefined \<Rightarrow> (t, Undefined)))"
  by (simp_all add: prog_defs)

lemma sbind_ret [simp]: "sbind (ret a) f = f a"
  by (simp add: sbind_def ret_def)

lemma sbind_lift_Ok [simp]: "sbind (lift_res (Ok a)) f = f a"
  by (simp add: sbind_def lift_res_def)

lemma sthen_ret [simp]: "sthen (ret ()) m = m"
  by (simp add: sthen_def)

lemma sbind_gets [simp]: "sbind (gets f) g s = g (f s) s"
  by (simp add: sbind_def gets_def)

lemma sthen_update [simp]: "sthen (update f) m s = m (f s)"
  by (simp add: sthen_def sbind_def update_def)

lemma sbind_Pair: "m s = (t, Ok a) \<Longrightarrow> sbind m f s = f a t"
  by (simp add: sbind_def)

lemma sthen_Pair: "m s = (t, Ok ()) \<Longrightarrow> sthen m n s = n t"
  by (simp add: sthen_def sbind_def)

lemma sthen_Throw: "m s = (t, Throw e) \<Longrightarrow> sthen m n s = (t, Throw e)"
  by (simp add: sthen_def sbind_def)

lemma sassert_Release [simp]: "sassert Release c = ret ()"
  by (simp add: sassert_def lift_res_def ret_def)

lemma sassert_True [simp]: "sassert b True = ret ()"
  by (simp add: sassert_def lift_res_def ret_def)


section \<open>Invariants\<close>

definition keeps_on :: "('s \<Rightarrow> bool) \<Rightarrow> ('s, 'a) prog \<Rightarrow> bool" where
  "keeps_on P m \<longleftrightarrow> (\<forall>s. P s \<longrightarrow> P (fst (m s)))"

lemma keeps_onD: "keeps_on P m \<Longrightarrow> P s \<Longrightarrow> m s = (t, r) \<Longrightarrow> P t"
  unfolding keeps_on_def by (metis fst_conv)

lemma keeps_ret [keeps]: "keeps_on P (ret a)"
  by (simp add: keeps_on_def ret_def)

lemma keeps_lift [keeps]: "keeps_on P (lift_res r)"
  by (simp add: keeps_on_def lift_res_def)

lemma keeps_gets [keeps]: "keeps_on P (gets f)"
  by (simp add: keeps_on_def gets_def)

lemma keeps_sassert [keeps]: "keeps_on P (sassert b c)"
  by (simp add: keeps_on_def sassert_def lift_res_def)

lemma keeps_update: "(\<And>s. P s \<Longrightarrow> P (f s)) \<Longrightarrow> keeps_on P (update f)"
  by (simp add: keeps_on_def update_def)

lemma keeps_sbind [keeps]:
  "keeps_on P m \<Longrightarrow> (\<And>a. keeps_on P (f a)) \<Longrightarrow> keeps_on P (sbind m f)"
  unfolding keeps_on_def sbind_def
  by (auto split: prod.split res.split)

lemma keeps_sthen [keeps]: "keeps_on P m \<Longrightarrow> keeps_on P n \<Longrightarrow> keeps_on P (sthen m n)"
  unfolding sthen_def by (rule keeps_sbind)

lemma keeps_for_each [keeps]:
  "(\<And>x. keeps_on P (f x)) \<Longrightarrow> keeps_on P (for_each xs f)"
  by (induction xs) (auto intro: keeps)

lemma keeps_if [keeps]:
  "keeps_on P m \<Longrightarrow> keeps_on P n \<Longrightarrow> keeps_on P (if c then m else n)"
  by simp

lemma keeps_try [keeps]:
  "keeps_on P m \<Longrightarrow> (\<And>e. keeps_on P (h e)) \<Longrightarrow> keeps_on P (try_catch m h)"
  unfolding keeps_on_def try_catch_def
  by (auto split: prod.split res.split)

lemma keeps_option [keeps]:
  "keeps_on P m \<Longrightarrow> (\<And>x. keeps_on P (f x)) \<Longrightarrow>
   keeps_on P (case v of None \<Rightarrow> m | Some x \<Rightarrow> f x)"
  by (cases v) auto

text \<open>A fact the state established so far may be used by what follows.\<close>

definition establishes :: "('s \<Rightarrow> bool) \<Rightarrow> ('s, 'a) prog \<Rightarrow> ('s \<Rightarrow> 'a \<Rightarrow> bool) \<Rightarrow> bool" where
  "establishes P m Q \<longleftrightarrow>
     (\<forall>s. P s \<longrightarrow> P (fst (m s)) \<and> (\<forall>a. snd (m s) = Ok a \<longrightarrow> Q (fst (m s)) a))"

lemma keeps_establish:
  assumes "establishes P m Q"
    and "\<And>a. keeps_on (\<lambda>s. P s \<and> Q s a) (f a)"
  shows "keeps_on P (sbind m f)"
  unfolding keeps_on_def
proof (intro allI impI)
  fix s assume "P s"
  obtain t r where m: "m s = (t, r)" by (cases "m s")
  with assms(1) \<open>P s\<close> have "P t" "\<And>a. r = Ok a \<Longrightarrow> Q t a"
    unfolding establishes_def by (metis fst_conv, metis fst_conv snd_conv)
  with assms(2) show "P (fst (sbind m f s))"
    unfolding keeps_on_def sbind_def m by (cases r) auto
qed


section \<open>Exceptions\<close>

named_theorems throws \<open>programs that throw only certain exceptions\<close>

definition throws_in :: "exn set \<Rightarrow> ('s, 'a) prog \<Rightarrow> bool" where
  "throws_in E m \<longleftrightarrow> (\<forall>s e. snd (m s) = Throw e \<longrightarrow> e \<in> E)"

lemma throws_inD: "throws_in E m \<Longrightarrow> m s = (t, Throw e) \<Longrightarrow> e \<in> E"
  unfolding throws_in_def by (metis snd_conv)

lemma throws_ret [throws]: "throws_in E (ret a)"
  by (simp add: throws_in_def ret_def)

lemma throws_lift: "(\<And>e. r = Throw e \<Longrightarrow> e \<in> E) \<Longrightarrow> throws_in E (lift_res r)"
  by (simp add: throws_in_def lift_res_def)

lemma throws_lift_simps [throws]: "throws_in E (lift_res (Ok a))" "throws_in E (lift_res Undefined)"
  by (simp_all add: throws_in_def lift_res_def)

lemma throws_gets [throws]: "throws_in E (gets f)"
  by (simp add: throws_in_def gets_def)

lemma throws_update [throws]: "throws_in E (update f)"
  by (simp add: throws_in_def update_def)

lemma throws_sassert [throws]: "throws_in E (sassert b c)"
  by (simp add: throws_in_def sassert_def lift_res_def boost_assert_def)

lemma throws_sbind [throws]:
  "throws_in E m \<Longrightarrow> (\<And>a. throws_in E (f a)) \<Longrightarrow> throws_in E (sbind m f)"
  unfolding throws_in_def sbind_def by (auto split: prod.split res.split) (metis snd_conv)+

lemma throws_sthen [throws]: "throws_in E m \<Longrightarrow> throws_in E n \<Longrightarrow> throws_in E (sthen m n)"
  unfolding sthen_def by (rule throws_sbind)

lemma throws_for_each [throws]:
  "(\<And>x. throws_in E (f x)) \<Longrightarrow> throws_in E (for_each xs f)"
  by (induction xs) (auto intro: throws)

lemma throws_if [throws]:
  "throws_in E m \<Longrightarrow> throws_in E n \<Longrightarrow> throws_in E (if c then m else n)"
  by simp

lemma throws_option [throws]:
  "throws_in E m \<Longrightarrow> (\<And>x. throws_in E (f x)) \<Longrightarrow>
   throws_in E (case v of None \<Rightarrow> m | Some x \<Rightarrow> f x)"
  by (cases v) auto

lemma throws_prod [throws]: "(\<And>x y. throws_in E (f x y)) \<Longrightarrow> throws_in E (case p of (x, y) \<Rightarrow> f x y)"
  by (cases p) auto

lemma keeps_prod [keeps]: "(\<And>x y. keeps_on P (f x y)) \<Longrightarrow> keeps_on P (case p of (x, y) \<Rightarrow> f x y)"
  by (cases p) auto

text \<open>A handler whose exceptions end in a future: what it did before stays.\<close>

definition handled :: "('s, 'a) prog \<Rightarrow> 's \<Rightarrow> 's res" where
  "handled m s = (case m s of (t, r) \<Rightarrow>
     (case r of Ok a \<Rightarrow> Ok t | Throw e \<Rightarrow> Ok t | Assert_failed \<Rightarrow> Assert_failed | Undefined \<Rightarrow> Undefined))"

lemma handled_keeps: "keeps_on P m \<Longrightarrow> P s \<Longrightarrow> handled m s = Ok t \<Longrightarrow> P t"
  by (auto simp: handled_def split: prod.splits res.splits dest: keeps_onD)

end
