(* ===== verification/Matrix_Room.thy ===== *)
theory Matrix_Room
  imports Stateful Json_Message
begin

text \<open>
  The users and one room of the matrix client (user.cpp, users.cpp,
  room\_participant.cpp, room\_states.cpp, chat.cpp, events.cpp and room.cpp in
  src/fubble/matrix).

  A \<open>user&\<close> is the user's id: the users are never removed and their ids are
  unique, which is an invariant proved here. What a signal reports is appended
  to \<open>reports\<close>. \<open>json_doc\<close> extends the JSON library by the operations that the sync
  answer is read with; \<open>const_at\<close> is the index operator of a const document, which
  must not be applied to a missing key.
\<close>

section \<open>The JSON documents of the protocol\<close>

record ('t, 'j) json_doc = "('t, 'j) json_ops" +
  const_at :: "'j \<Rightarrow> string \<Rightarrow> 'j res"
  has_key :: "'j \<Rightarrow> string \<Rightarrow> bool"
  json_items :: "'j \<Rightarrow> (string \<times> 'j) list"
  json_elems :: "'j \<Rightarrow> 'j list"
  json_to_int64 :: "'j \<Rightarrow> int res"
  json_of_bool :: "bool \<Rightarrow> 'j"
  json_array :: "'j list \<Rightarrow> 'j"
  json_to_bool :: "'j \<Rightarrow> bool res"

fun plain_const_at :: "json \<Rightarrow> string \<Rightarrow> json res" where
  "plain_const_at (JObject kvs) k = (case map_of kvs k of Some v \<Rightarrow> Ok v | None \<Rightarrow> Undefined)"
| "plain_const_at _ k = Throw Json_error"

fun plain_has :: "json \<Rightarrow> string \<Rightarrow> bool" where
  "plain_has (JObject kvs) k = (map_of kvs k \<noteq> None)"
| "plain_has _ k = False"

fun plain_items :: "json \<Rightarrow> (string \<times> json) list" where
  "plain_items (JObject kvs) = kvs"
| "plain_items _ = []"

fun plain_elems :: "json \<Rightarrow> json list" where
  "plain_elems (JArray xs) = xs"
| "plain_elems (JObject kvs) = map snd kvs"
| "plain_elems JNull = []"
| "plain_elems j = [j]"

fun plain_int64 :: "json \<Rightarrow> int res" where
  "plain_int64 (JInt i) = Ok i"
| "plain_int64 (JBool b) = Ok (if b then 1 else 0)"
| "plain_int64 _ = Throw Json_error"

fun plain_bool :: "json \<Rightarrow> bool res" where
  "plain_bool (JBool b) = Ok b"
| "plain_bool _ = Throw Json_error"

definition plain_doc :: "(json, json) json_doc" where
  "plain_doc = \<lparr> json_parse = Ok, json_dump = Ok, json_at = plain_at,
     json_eq = (\<lambda>j s. j = JString s), json_to_string = plain_to_string,
     json_to_int = plain_to_int, json_of_string = JString,
     json_of_int = (\<lambda>i. JInt (sint i)), json_object = JObject,
     const_at = plain_const_at, has_key = plain_has, json_items = plain_items,
     json_elems = plain_elems, json_to_int64 = plain_int64,
     json_of_bool = JBool, json_array = JArray, json_to_bool = plain_bool \<rparr>"

definition field :: "('t, 'j) json_doc \<Rightarrow> 'j \<Rightarrow> string \<Rightarrow> ('s, 'j) prog" where
  "field J j k = lift_res (const_at J j k)"

definition str_field :: "('t, 'j) json_doc \<Rightarrow> 'j \<Rightarrow> string \<Rightarrow> ('s, string) prog" where
  "str_field J j k = sbind (field J j k) (\<lambda>v. lift_res (json_to_string J v))"

definition int_field :: "('t, 'j) json_doc \<Rightarrow> 'j \<Rightarrow> string \<Rightarrow> ('s, int) prog" where
  "int_field J j k = sbind (field J j k) (\<lambda>v. lift_res (json_to_int64 J v))"

text \<open>The same on a document that is not const.\<close>

definition mut_field :: "('t, 'j) json_doc \<Rightarrow> 'j \<Rightarrow> string \<Rightarrow> ('s, 'j) prog" where
  "mut_field J j k = lift_res (json_at J j k)"

definition mut_str_field :: "('t, 'j) json_doc \<Rightarrow> 'j \<Rightarrow> string \<Rightarrow> ('s, string) prog" where
  "mut_str_field J j k = sbind (mut_field J j k) (\<lambda>v. lift_res (json_to_string J v))"

lemma keeps_fields [keeps]:
  "keeps_on P (field J j k)" "keeps_on P (str_field J j k)" "keeps_on P (int_field J j k)"
  "keeps_on P (mut_field J j k)" "keeps_on P (mut_str_field J j k)"
  by (simp_all add: field_def str_field_def int_field_def mut_field_def mut_str_field_def keeps)


section \<open>Data\<close>

datatype presence = Online | Unavailable | Offline

record user =
  user_id :: string
  user_presence :: presence
  display_name :: string

datatype join_state = Joined | Left | Invited

record room_participant =
  participant_user :: string
  join_state_timestamp :: int
  participant_join_state :: join_state

record 'j custom =
  custom_key :: string
  custom_type :: string
  custom_data :: 'j

record 'j custom_container =
  stored :: "'j custom"
  stored_timestamp :: int

record chat_message =
  chat_user :: string
  chat_timestamp :: int
  chat_body :: string

datatype 'j event_content =
    Custom_state 'j
  | Room_message string string

record 'j room_event =
  event_type :: string
  event_id :: string
  event_room_id :: "string option"
  origin_server_ts :: int
  event_sender :: string
  event_content :: "'j event_content"

datatype 'j event =
    Room_event "'j room_event"
  | Room_state_event "'j room_event" (state_key: string)

datatype 'j report =
    On_update string
  | On_join_state_changed string
  | On_custom "'j custom"
  | On_chat chat_message
  | On_member string
  | On_name_changed string
  | On_joined string
  | On_leave string

record 'j room =
  room_id :: string
  members :: "room_participant list"
  room_name :: "string option"
  messages :: "chat_message list"
  customs :: "'j custom_container list"

record 'j store =
  users :: "user list"
  reports :: "'j report list"

record 'j room_ctx = "'j store" +
  cur :: "'j room"

definition emit :: "'j report \<Rightarrow> ('j, 'a) store_scheme \<Rightarrow> ('j, 'a) store_scheme" where
  "emit n s = s\<lparr> reports := reports s @ [n] \<rparr>"

text \<open>What a reference to a user reads and writes.\<close>

fun map_first :: "('a \<Rightarrow> bool) \<Rightarrow> ('a \<Rightarrow> 'a) \<Rightarrow> 'a list \<Rightarrow> 'a list" where
  "map_first p f [] = []"
| "map_first p f (x # xs) = (if p x then f x # xs else x # map_first p f xs)"

definition fresh_user :: "string \<Rightarrow> user" where
  "fresh_user i = \<lparr> user_id = i, user_presence = Offline, display_name = [] \<rparr>"

definition find_user :: "string \<Rightarrow> ('j, 'a) store_scheme \<Rightarrow> user option" where
  "find_user i s = find_first (\<lambda>u. user_id u = i) (users s)"

definition update_user :: "string \<Rightarrow> (user \<Rightarrow> user) \<Rightarrow> ('j, 'a) store_scheme \<Rightarrow> ('j, 'a) store_scheme" where
  "update_user i f s = s\<lparr> users := map_first (\<lambda>u. user_id u = i) f (users s) \<rparr>"

lemma map_map_first:
  "(\<And>x. g (f x) = g x) \<Longrightarrow> map g (map_first p f xs) = map g xs"
  by (induction xs) auto


section \<open>Users\<close>

definition user_set_presence :: "string \<Rightarrow> presence \<Rightarrow> (('j, 'a) store_scheme, unit) prog" where
  "user_set_presence i p =
     sbind (gets (find_user i)) (\<lambda>u.
       if map_option user_presence u = Some p then ret ()
       else sthen (update (update_user i (\<lambda>u. u\<lparr> user_presence := p \<rparr>)))
         (update (emit (On_update i))))"

definition set_presence_from_string ::
  "build \<Rightarrow> string \<Rightarrow> string \<Rightarrow> (('j, 'a) store_scheme, unit) prog" where
  "set_presence_from_string b i p =
     (if p = ''online'' then user_set_presence i Online
      else if p = ''offline'' then user_set_presence i Offline
      else if p = ''unavailable'' then user_set_presence i Unavailable
      else sassert b False)"

definition user_set_display_name :: "string \<Rightarrow> string \<Rightarrow> (('j, 'a) store_scheme, unit) prog" where
  "user_set_display_name i n =
     sbind (gets (find_user i)) (\<lambda>u.
       if map_option display_name u = Some n then ret ()
       else sthen (update (update_user i (\<lambda>u. u\<lparr> display_name := n \<rparr>)))
         (update (emit (On_update i))))"

definition on_m_presence ::
  "build \<Rightarrow> ('t, 'j) json_doc \<Rightarrow> string \<Rightarrow> 'j \<Rightarrow> (('j, 'a) store_scheme, unit) prog" where
  "on_m_presence b J i ev =
     sbind (field J ev ''content'') (\<lambda>content.
     sbind (str_field J content ''presence'') (\<lambda>p.
     sthen (set_presence_from_string b i p)
       (if has_key J content ''displayname''
        then sbind (str_field J content ''displayname'') (user_set_display_name i)
        else ret ())))"

definition get_or_add_user :: "string \<Rightarrow> (('j, 'a) store_scheme, string) prog" where
  "get_or_add_user i =
     sbind (gets (find_user i)) (\<lambda>found.
       case found of Some u \<Rightarrow> ret (user_id u)
       | None \<Rightarrow> sthen (update (\<lambda>s. s\<lparr> users := users s @ [fresh_user i] \<rparr>)) (ret i))"

definition get_by_id :: "build \<Rightarrow> string \<Rightarrow> (('j, 'a) store_scheme, string) prog" where
  "get_by_id b i =
     sbind (gets (find_user i)) (\<lambda>found.
       case found of Some u \<Rightarrow> ret (user_id u)
       | None \<Rightarrow> sthen (sassert b False) (lift_res Undefined))"

definition users_on_sync ::
  "build \<Rightarrow> ('t, 'j) json_doc \<Rightarrow> 'j \<Rightarrow> (('j, 'a) store_scheme, unit) prog" where
  "users_on_sync b J content =
     sbind (field J content ''presence'') (\<lambda>presence.
     sbind (field J presence ''events'') (\<lambda>events.
     for_each (json_elems J events) (\<lambda>ev.
       sbind (str_field J ev ''type'') (\<lambda>ty.
       if ty \<noteq> ''m.presence'' then ret ()
       else sbind (str_field J ev ''sender'') (\<lambda>i.
         sbind (get_or_add_user i) (\<lambda>u. on_m_presence b J u ev))))))"


section \<open>Room participants\<close>

definition find_member :: "string \<Rightarrow> 'j room \<Rightarrow> room_participant option" where
  "find_member i r = find_first (\<lambda>m. participant_user m = i) (members r)"

definition set_join_state :: "join_state \<Rightarrow> int \<Rightarrow> room_participant \<Rightarrow> room_participant \<times> bool" where
  "set_join_state new ts m =
     (if participant_join_state m = new then (m, False)
      else if ts < join_state_timestamp m then (m, False)
      else (m\<lparr> join_state_timestamp := ts, participant_join_state := new \<rparr>, True))"

definition update_cur :: "('j room \<Rightarrow> 'j room) \<Rightarrow> ('j room_ctx, unit) prog" where
  "update_cur f = update (\<lambda>s. s\<lparr> cur := f (cur s) \<rparr>)"

definition update_member :: "string \<Rightarrow> join_state \<Rightarrow> int \<Rightarrow> ('j room_ctx, unit) prog" where
  "update_member i new ts =
     sbind (gets (\<lambda>s. find_member i (cur s))) (\<lambda>found.
       case found of None \<Rightarrow> ret ()
       | Some m \<Rightarrow> sthen (update_cur (\<lambda>r. r\<lparr> members :=
             map_first (\<lambda>m. participant_user m = i) (\<lambda>m. fst (set_join_state new ts m)) (members r) \<rparr>))
           (if snd (set_join_state new ts m) then update (emit (On_join_state_changed i))
            else ret ()))"


section \<open>Custom room state\<close>

definition same_slot :: "string \<Rightarrow> string \<Rightarrow> 'j custom_container \<Rightarrow> bool" where
  "same_slot ty k c \<longleftrightarrow> custom_type (stored c) = ty \<and> custom_key (stored c) = k"

definition add_or_set :: "'j custom_container \<Rightarrow> 'j custom_container list \<Rightarrow> 'j custom_container list \<times> bool" where
  "add_or_set c cs =
     (let p = same_slot (custom_type (stored c)) (custom_key (stored c)) in
      case find_first p cs of
        None \<Rightarrow> (cs @ [c], True)
      | Some old \<Rightarrow> if stored_timestamp old < stored_timestamp c
          then (map_first p (\<lambda>x. c) cs, True) else (cs, False))"

definition states_sync_event :: "'j room_event \<Rightarrow> string \<Rightarrow> ('j room_ctx, bool) prog" where
  "states_sync_event ev k =
     (case event_content ev of
        Room_message ty body \<Rightarrow> ret False
      | Custom_state d \<Rightarrow>
          (let new = \<lparr> custom_key = k, custom_type = event_type ev, custom_data = d \<rparr>;
               c = \<lparr> stored = new, stored_timestamp = origin_server_ts ev \<rparr> in
           sbind (gets (\<lambda>s. add_or_set c (customs (cur s)))) (\<lambda>(cs, told).
           sthen (update_cur (\<lambda>r. r\<lparr> customs := cs \<rparr>))
             (sthen (if told then update (emit (On_custom new)) else ret ()) (ret True)))))"

definition get_all_custom :: "'j room \<Rightarrow> 'j custom list" where
  "get_all_custom r = map stored (customs r)"


section \<open>Parsing events\<close>

definition starts_with_m :: "string \<Rightarrow> bool" where
  "starts_with_m ty \<longleftrightarrow> take 2 ty = ''m.''"

text \<open>The fields every room event has; its content is filled in by the caller.\<close>

definition parse_room_event ::
  "('t, 'j) json_doc \<Rightarrow> 'j \<Rightarrow> (('j, 'a) store_scheme, 'j event_content \<Rightarrow> 'j room_event) prog" where
  "parse_room_event J ev =
     sbind (int_field J ev ''origin_server_ts'') (\<lambda>ts.
     sbind (str_field J ev ''sender'') (\<lambda>i.
     sbind (get_or_add_user i) (\<lambda>u.
     sbind (if has_key J ev ''room_id''
            then sbind (str_field J ev ''room_id'') (\<lambda>r. ret (Some r)) else ret None) (\<lambda>rid.
     sbind (str_field J ev ''event_id'') (\<lambda>eid.
     sbind (str_field J ev ''type'') (\<lambda>ty.
     ret (\<lambda>c. \<lparr> event_type = ty, event_id = eid, event_room_id = rid, origin_server_ts = ts,
                event_sender = u, event_content = c \<rparr>)))))))"

definition parse_room_message ::
  "('t, 'j) json_doc \<Rightarrow> 'j \<Rightarrow> (('j, 'a) store_scheme, 'j event option) prog" where
  "parse_room_message J ev =
     sbind (parse_room_event J ev) (\<lambda>mk.
     sbind (field J ev ''content'') (\<lambda>content.
     sbind (mut_str_field J content ''msgtype'') (\<lambda>ty.
     if ty \<noteq> ''m.text'' then ret None
     else sbind (mut_str_field J content ''body'') (\<lambda>body.
       ret (Some (Room_event (mk (Room_message ty body))))))))"

definition parse_state_event ::
  "('t, 'j) json_doc \<Rightarrow> 'j \<Rightarrow> (('j, 'a) store_scheme, 'j event option) prog" where
  "parse_state_event J ev =
     sbind (parse_room_event J ev) (\<lambda>mk.
     sbind (str_field J ev ''state_key'') (\<lambda>k.
     sbind (str_field J ev ''type'') (\<lambda>ty.
     if starts_with_m ty then ret None
     else sbind (field J ev ''content'') (\<lambda>content.
       ret (Some (Room_state_event (mk (Custom_state content)) k))))))"

definition parse_event ::
  "('t, 'j) json_doc \<Rightarrow> 'j \<Rightarrow> (('j, 'a) store_scheme, 'j event option) prog" where
  "parse_event J ev =
     sbind (str_field J ev ''type'') (\<lambda>ty.
     if ty = ''m.room.message'' then parse_room_message J ev
     else if has_key J ev ''state_key'' then parse_state_event J ev
     else ret None)"


section \<open>Chat\<close>

definition chat_on_message :: "('t, 'j) json_doc \<Rightarrow> 'j \<Rightarrow> ('j room_ctx, unit) prog" where
  "chat_on_message J ev =
     sbind (field J ev ''content'') (\<lambda>content.
     sbind (mut_str_field J content ''body'') (\<lambda>body.
     sbind (int_field J ev ''origin_server_ts'') (\<lambda>ts.
     sbind (str_field J ev ''sender'') (\<lambda>i.
     sbind (get_or_add_user i) (\<lambda>u.
     let m = \<lparr> chat_user = u, chat_timestamp = ts, chat_body = body \<rparr> in
     sthen (update_cur (\<lambda>r. r\<lparr> messages := messages r @ [m] \<rparr>)) (update (emit (On_chat m))))))))"

definition chat_sync_event :: "('t, 'j) json_doc \<Rightarrow> string \<Rightarrow> 'j \<Rightarrow> ('j room_ctx, bool) prog" where
  "chat_sync_event J ty ev =
     (if ty = ''m.room.message'' then sthen (chat_on_message J ev) (ret True) else ret False)"


section \<open>The room\<close>

definition fresh_room :: "string \<Rightarrow> 'j room" where
  "fresh_room i = \<lparr> room_id = i, members = [], room_name = None, messages = [], customs = [] \<rparr>"

definition parse_membership :: "build \<Rightarrow> string \<Rightarrow> join_state res" where
  "parse_membership b m =
     (if m = ''leave'' then Ok Left
      else if m = ''join'' then Ok Joined
      else if m = ''invite'' then Ok Invited
      else rbind (boost_assert b False) (\<lambda>u. Ok Joined))"

definition on_event_m_room_member ::
  "build \<Rightarrow> ('t, 'j) json_doc \<Rightarrow> 'j \<Rightarrow> ('j room_ctx, unit) prog" where
  "on_event_m_room_member b J ev =
     sbind (str_field J ev ''state_key'') (\<lambda>i.
     sbind (int_field J ev ''origin_server_ts'') (\<lambda>ts.
     sbind (field J ev ''content'') (\<lambda>content.
     sbind (str_field J content ''membership'') (\<lambda>ms.
     sbind (if has_key J content ''displayname''
            then sbind (str_field J content ''displayname'') (\<lambda>n. ret (Some n)) else ret None) (\<lambda>name.
     sbind (lift_res (parse_membership b ms)) (\<lambda>js.
     sbind (get_or_add_user i) (\<lambda>u.
     sthen (case name of Some n \<Rightarrow> user_set_display_name u n | None \<Rightarrow> ret ())
     (sbind (gets (\<lambda>s. find_member i (cur s))) (\<lambda>got.
       case got of
         Some m \<Rightarrow> update_member i js ts
       | None \<Rightarrow> sthen (update_cur (\<lambda>r. r\<lparr> members := members r @
             [\<lparr> participant_user = u, join_state_timestamp = ts, participant_join_state = js \<rparr>] \<rparr>))
           (update (emit (On_member u))))))))))))"

definition on_event_m_room_name :: "('t, 'j) json_doc \<Rightarrow> 'j \<Rightarrow> ('j room_ctx, unit) prog" where
  "on_event_m_room_name J ev =
     sbind (field J ev ''content'') (\<lambda>content.
     sbind (str_field J content ''name'') (\<lambda>n.
     sthen (update_cur (\<lambda>r. r\<lparr> room_name := Some n \<rparr>)) (update (emit (On_name_changed n)))))"

definition on_event :: "build \<Rightarrow> ('t, 'j) json_doc \<Rightarrow> 'j \<Rightarrow> ('j room_ctx, unit) prog" where
  "on_event b J ev =
     sbind (parse_event J ev) (\<lambda>parsed.
     sthen (case parsed of
              Some p \<Rightarrow> (case p of Room_state_event e k \<Rightarrow> sbind (states_sync_event e k) (\<lambda>handled. ret ())
                        | Room_event e \<Rightarrow> ret ())
            | None \<Rightarrow> ret ())
     (sbind (str_field J ev ''type'') (\<lambda>ty.
      sbind (chat_sync_event J ty ev) (\<lambda>handled.
      if handled then ret ()
      else if ty = ''m.room.member'' then on_event_m_room_member b J ev
      else if ty = ''m.room.name'' then on_event_m_room_name J ev
      else ret ()))))"

definition on_events :: "build \<Rightarrow> ('t, 'j) json_doc \<Rightarrow> 'j \<Rightarrow> ('j room_ctx, unit) prog" where
  "on_events b J evs = for_each (json_elems J evs) (on_event b J)"

definition room_sync :: "build \<Rightarrow> ('t, 'j) json_doc \<Rightarrow> 'j \<Rightarrow> ('j room_ctx, unit) prog" where
  "room_sync b J content =
     sbind (field J content ''rooms'') (\<lambda>rooms.
     sbind (field J rooms ''join'') (\<lambda>joined.
     sbind (gets (\<lambda>s. room_id (cur s))) (\<lambda>i.
     sthen (sassert b (has_key J joined i))
     (if \<not> has_key J joined i then ret ()
      else sbind (field J joined i) (\<lambda>our.
        sbind (mut_field J our ''timeline'') (\<lambda>tl. sbind (mut_field J tl ''events'') (\<lambda>tevs.
        sthen (on_events b J tevs)
          (sbind (mut_field J our ''state'') (\<lambda>st. sbind (mut_field J st ''events'') (\<lambda>sevs.
            on_events b J sevs)))))))))) "


section \<open>Users are never lost and never doubled\<close>

definition known :: "('j, 'a) store_scheme \<Rightarrow> string set" where
  "known s = user_id ` set (users s)"

definition users_inv :: "('j, 'a) store_scheme \<Rightarrow> bool" where
  "users_inv s \<longleftrightarrow> distinct (map user_id (users s))"

lemma find_user_Some: "find_user i s = Some u \<Longrightarrow> user_id u = i \<and> i \<in> known s"
  by (auto simp: find_user_def known_def dest!: find_first_Some)

lemma find_user_None: "find_user i s = None \<longleftrightarrow> i \<notin> known s"
  by (auto simp: find_user_def known_def find_first_None)

lemma known_emit [simp]: "known (emit n s) = known s"
  by (simp add: known_def emit_def)

lemma users_inv_emit [simp]: "users_inv (emit n s) = users_inv s"
  by (simp add: users_inv_def emit_def)

lemma ids_update_user:
  assumes "\<And>u. user_id (f u) = user_id u"
  shows "map user_id (users (update_user i f s)) = map user_id (users s)"
  using assms by (simp add: update_user_def map_map_first)

lemma known_update_user:
  assumes "\<And>u. user_id (f u) = user_id u"
  shows "known (update_user i f s) = known s"
  using ids_update_user[OF assms, of i s] unfolding known_def
  by (metis list.set_map)

lemma known_add: "known (s\<lparr> users := users s @ [fresh_user i] \<rparr>) = insert i (known s)"
  by (auto simp: known_def fresh_user_def)

lemma users_inv_add:
  "users_inv s \<Longrightarrow> i \<notin> known s \<Longrightarrow> users_inv (s\<lparr> users := users s @ [fresh_user i] \<rparr>)"
  by (auto simp: users_inv_def known_def fresh_user_def)

text \<open>What the users' operations may do to a state: report, change a user in
  place, and add a user under a new id. An invariant that allows these three is
  kept by all of them, and by the event parser.\<close>

locale user_store =
  fixes P :: "('j, 'a) store_scheme \<Rightarrow> bool"
  assumes P_emit: "P s \<Longrightarrow> P (emit n s)"
    and P_change: "P s \<Longrightarrow> (\<And>u. user_id (f u) = user_id u) \<Longrightarrow> P (update_user i f s)"
    and P_add: "P s \<Longrightarrow> i \<notin> known s \<Longrightarrow> P (s\<lparr> users := users s @ [fresh_user i] \<rparr>)"
begin

lemma keeps_emit: "keeps_on P (update (emit n))"
  by (auto intro: keeps_update P_emit)

lemma keeps_set_presence: "keeps_on P (user_set_presence i p)"
  unfolding user_set_presence_def
  by (auto intro!: keeps keeps_update P_emit P_change)

lemma keeps_set_display_name: "keeps_on P (user_set_display_name i n)"
  unfolding user_set_display_name_def
  by (auto intro!: keeps keeps_update P_emit P_change)

lemma keeps_get_or_add_user: "keeps_on P (get_or_add_user i)"
  unfolding keeps_on_def get_or_add_user_def
  by (auto simp: sbind_def gets_def ret_def sthen_def update_def find_user_None
      intro: P_add split: option.split)

lemma keeps_on_m_presence: "keeps_on P (on_m_presence b J i ev)"
  unfolding on_m_presence_def set_presence_from_string_def
  by (intro keeps keeps_set_presence keeps_set_display_name)

lemma keeps_users_on_sync: "keeps_on P (users_on_sync b J content)"
  unfolding users_on_sync_def
  by (intro keeps keeps_get_or_add_user keeps_on_m_presence)

lemma keeps_parse_room_event: "keeps_on P (parse_room_event J ev)"
  unfolding parse_room_event_def
  by (intro keeps keeps_get_or_add_user)

lemma keeps_parse_event: "keeps_on P (parse_event J ev)"
  unfolding parse_event_def parse_room_message_def parse_state_event_def
  by (intro keeps keeps_parse_room_event)

end

text \<open>Looking a user up makes its id known, and returns it.\<close>

lemma get_or_add_user_result:
  "\<exists>t. get_or_add_user i s = (t, Ok i) \<and> i \<in> known t"
  by (auto simp: get_or_add_user_def sbind_def gets_def ret_def sthen_def update_def known_add
      dest: find_user_Some split: option.split)


section \<open>The references a room holds\<close>

definition slot_of :: "'j custom_container \<Rightarrow> string \<times> string" where
  "slot_of c = (custom_type (stored c), custom_key (stored c))"

definition room_inv :: "string set \<Rightarrow> 'j room \<Rightarrow> bool" where
  "room_inv I r \<longleftrightarrow>
     distinct (map participant_user (members r)) \<and> participant_user ` set (members r) \<subseteq> I \<and>
     chat_user ` set (messages r) \<subseteq> I \<and> distinct (map slot_of (customs r))"

text \<open>\<open>U\<close> stands for the users somebody else holds references to.\<close>

definition ctx_inv :: "string \<Rightarrow> string set \<Rightarrow> 'j room_ctx \<Rightarrow> bool" where
  "ctx_inv i U s \<longleftrightarrow> users_inv s \<and> U \<subseteq> known s \<and> room_inv (known s) (cur s) \<and> room_id (cur s) = i"

lemma room_inv_mono: "room_inv I r \<Longrightarrow> I \<subseteq> I' \<Longrightarrow> room_inv I' r"
  by (auto simp: room_inv_def)

lemma room_inv_fresh: "room_inv I (fresh_room i)"
  by (simp add: room_inv_def fresh_room_def)

lemma cur_simps [simp]:
  "cur (emit n s) = cur s" "cur (update_user i f s) = cur s"
  by (simp_all add: emit_def update_user_def)

interpretation room_users: user_store "ctx_inv i U" for i U
proof
  fix s :: "'j room_ctx" and n j and f :: "user \<Rightarrow> user"
  assume inv: "ctx_inv i U s"
  show "ctx_inv i U (emit n s)"
    using inv by (simp add: ctx_inv_def)
  show "ctx_inv i U (update_user j f s)" if "\<And>u. user_id (f u) = user_id u"
    using inv that by (simp add: ctx_inv_def known_update_user users_inv_def ids_update_user)
  show "ctx_inv i U (s\<lparr> users := users s @ [fresh_user j] \<rparr>)" if "j \<notin> known s"
    using inv that users_inv_add[of s j]
    by (auto simp: ctx_inv_def known_add elim!: room_inv_mono)
qed

lemma keeps_with_user:
  fixes f :: "string \<Rightarrow> ('j room_ctx, 'b) prog"
  assumes "keeps_on (ctx_inv r (insert i U)) (f i)"
  shows "keeps_on (ctx_inv r U) (sbind (get_or_add_user i) f)"
  unfolding keeps_on_def
proof (intro allI impI)
  fix s :: "'j room_ctx" assume s: "ctx_inv r U s"
  obtain t where t: "get_or_add_user i s = (t, Ok i)" "i \<in> known t"
    using get_or_add_user_result by blast
  have "ctx_inv r U t"
    by (rule keeps_onD[OF room_users.keeps_get_or_add_user s t(1)])
  with t(2) have "ctx_inv r (insert i U) t" by (simp add: ctx_inv_def)
  with assms have "ctx_inv r (insert i U) (fst (f i t))"
    unfolding keeps_on_def by blast
  then show "ctx_inv r U (fst (sbind (get_or_add_user i) f s))"
    using t by (simp add: sbind_def ctx_inv_def)
qed

lemma keeps_update_cur:
  assumes "\<And>I c. U \<subseteq> I \<Longrightarrow> room_inv I c \<Longrightarrow> room_inv I (f c) \<and> room_id (f c) = room_id c"
  shows "keeps_on (ctx_inv i U) (update_cur f)"
  unfolding update_cur_def
  by (rule keeps_update) (use assms in \<open>auto simp: ctx_inv_def users_inv_def known_def\<close>)

lemma keeps_gets_bind:
  "(\<And>s. P s \<Longrightarrow> P (fst (f (g s) s))) \<Longrightarrow> keeps_on P (sbind (gets g) f)"
  by (simp add: keeps_on_def sbind_def gets_def)

lemma slots_map_first:
  "(\<And>x. x \<in> set cs \<Longrightarrow> p x \<Longrightarrow> slot_of x = slot_of c) \<Longrightarrow>
   map slot_of (map_first p (\<lambda>x. c) cs) = map slot_of cs"
  by (induction cs) auto

lemma same_slot_slot_of: "same_slot ty k c \<longleftrightarrow> slot_of c = (ty, k)"
  by (simp add: same_slot_def slot_of_def)

lemma add_or_set_distinct:
  assumes "distinct (map slot_of cs)"
  shows "distinct (map slot_of (fst (add_or_set c cs)))"
proof -
  let ?p = "same_slot (custom_type (stored c)) (custom_key (stored c))"
  have "map slot_of (map_first ?p (\<lambda>x. c) cs) = map slot_of cs"
    by (rule slots_map_first) (simp add: same_slot_slot_of slot_of_def)
  moreover have "slot_of c \<notin> slot_of ` set cs" if "find_first ?p cs = None"
    using that by (auto simp: find_first_None same_slot_slot_of slot_of_def)
  ultimately show ?thesis
    using assms by (auto simp: add_or_set_def Let_def split: option.split)
qed

lemma keeps_states_sync_event: "keeps_on (ctx_inv i U) (states_sync_event e k)"
proof (cases "event_content e")
  case (Room_message ty body)
  then show ?thesis by (simp add: states_sync_event_def keeps)
next
  case (Custom_state d)
  let ?new = "\<lparr> custom_key = k, custom_type = event_type e, custom_data = d \<rparr>"
  let ?c = "\<lparr> stored = ?new, stored_timestamp = origin_server_ts e \<rparr>"
  have "ctx_inv i U (fst (states_sync_event e k s))" if "ctx_inv i U s" for s
  proof -
    obtain cs told where c: "add_or_set ?c (customs (cur s)) = (cs, told)"
      by (cases "add_or_set ?c (customs (cur s))")
    let ?t = "s\<lparr> cur := cur s\<lparr> customs := cs \<rparr> \<rparr>"
    from that c have t: "ctx_inv i U ?t"
      using add_or_set_distinct[of "customs (cur s)" ?c]
      by (simp add: ctx_inv_def room_inv_def users_inv_def known_def)
    have "fst (states_sync_event e k s) = (if told then emit (On_custom ?new) ?t else ?t)"
      by (simp add: states_sync_event_def Custom_state Let_def c update_cur_def prog_defs)
    with t show ?thesis by (simp add: room_users.P_emit)
  qed
  then show ?thesis by (simp add: keeps_on_def)
qed

lemma keeps_chat_sync_event: "keeps_on (ctx_inv r U) (chat_sync_event J ty ev)"
proof -
  have add: "keeps_on (ctx_inv r (insert i U))
     (sthen (update_cur (\<lambda>r. r\<lparr> messages := messages r @ [\<lparr> chat_user = i, chat_timestamp = ts, chat_body = bd \<rparr>] \<rparr>))
       (update (emit n)))" for i ts bd n
    by (intro keeps keeps_update_cur room_users.keeps_emit) (auto simp: room_inv_def)
  show ?thesis
    unfolding chat_sync_event_def chat_on_message_def Let_def
    by (intro keeps keeps_with_user add)
qed

lemma set_join_state_user [simp]:
  "participant_user (fst (set_join_state new ts m)) = participant_user m"
  by (simp add: set_join_state_def)

lemma set_map_map_first:
  "(\<And>x. g (f x) = g x) \<Longrightarrow> g ` set (map_first p f xs) = g ` set xs"
  by (metis list.set_map map_map_first)

lemma keeps_update_member: "keeps_on (ctx_inv r U) (update_member i new ts)"
  unfolding update_member_def
  by (intro keeps keeps_update_cur room_users.keeps_emit)
    (auto simp: room_inv_def map_map_first set_map_map_first)

lemma ctx_inv_add_member:
  assumes "ctx_inv r (insert i U) s" "find_member i (cur s) = None"
  shows "ctx_inv r (insert i U) (s\<lparr> cur := cur s\<lparr> members := members (cur s) @
     [\<lparr> participant_user = i, join_state_timestamp = ts, participant_join_state = js \<rparr>] \<rparr> \<rparr>)"
  using assms
  by (auto simp: ctx_inv_def room_inv_def users_inv_def known_def find_member_def find_first_None)

lemma keeps_m_room_member: "keeps_on (ctx_inv r U) (on_event_m_room_member b J ev)"
proof -
  have add: "keeps_on (ctx_inv r (insert i U)) (sbind (gets (\<lambda>s. find_member i (cur s))) (\<lambda>got.
       case got of
         Some m \<Rightarrow> update_member i js ts
       | None \<Rightarrow> sthen (update_cur (\<lambda>r. r\<lparr> members := members r @
             [\<lparr> participant_user = i, join_state_timestamp = ts, participant_join_state = js \<rparr>] \<rparr>))
           (update (emit (On_member i)))))" for i js ts
  proof (rule keeps_gets_bind)
    fix s assume s: "ctx_inv r (insert i U) s"
    show "ctx_inv r (insert i U) (fst ((case find_member i (cur s) of
         Some m \<Rightarrow> update_member i js ts
       | None \<Rightarrow> sthen (update_cur (\<lambda>r. r\<lparr> members := members r @
             [\<lparr> participant_user = i, join_state_timestamp = ts, participant_join_state = js \<rparr>] \<rparr>))
           (update (emit (On_member i)))) s))"
      using s ctx_inv_add_member[OF s] keeps_update_member[of r "insert i U" i js ts]
      by (cases "find_member i (cur s)")
        (auto simp: update_cur_def keeps_on_def prog_defs intro: room_users.P_emit)
  qed
  show ?thesis
    unfolding on_event_m_room_member_def
    by (intro keeps keeps_with_user add room_users.keeps_set_display_name)
qed

lemma keeps_m_room_name: "keeps_on (ctx_inv r U) (on_event_m_room_name J ev)"
  unfolding on_event_m_room_name_def
  by (intro keeps keeps_update_cur room_users.keeps_emit) (auto simp: room_inv_def)

lemma keeps_parsed_case:
  "(\<And>e k. keeps_on P (f e k)) \<Longrightarrow> (\<And>e. keeps_on P (g e)) \<Longrightarrow>
   keeps_on P (case p of Room_state_event e k \<Rightarrow> f e k | Room_event e \<Rightarrow> g e)"
  by (cases p) auto

lemma keeps_on_event: "keeps_on (ctx_inv r U) (on_event b J ev)"
  unfolding on_event_def
  by (intro keeps room_users.keeps_parse_event keeps_parsed_case keeps_states_sync_event
      keeps_chat_sync_event keeps_m_room_member keeps_m_room_name)

lemma keeps_room_sync: "keeps_on (ctx_inv r U) (room_sync b J content)"
  unfolding room_sync_def on_events_def
  by (intro keeps keeps_on_event)


section \<open>Custom state: the newest event wins, whatever the order\<close>

definition custom_state :: "string \<Rightarrow> string \<Rightarrow> 'j room \<Rightarrow> 'j custom_container option" where
  "custom_state ty k r = find_first (same_slot ty k) (customs r)"

definition run_states :: "('j room_event \<times> string) list \<Rightarrow> ('j room_ctx, unit) prog" where
  "run_states evs = for_each evs (\<lambda>(e, k). sbind (states_sync_event e k) (\<lambda>handled. ret ()))"

fun container_of :: "'j room_event \<times> string \<Rightarrow> 'j custom_container option" where
  "container_of (e, k) = (case event_content e of
     Custom_state d \<Rightarrow> Some \<lparr> stored = \<lparr> custom_key = k, custom_type = event_type e, custom_data = d \<rparr>,
       stored_timestamp = origin_server_ts e \<rparr>
   | Room_message ty body \<Rightarrow> None)"

lemma same_slot_find:
  "find_first (same_slot ty k) (fst (add_or_set c cs)) =
    (if slot_of c \<noteq> (ty, k) then find_first (same_slot ty k) cs
     else case find_first (same_slot ty k) cs of None \<Rightarrow> Some c
       | Some old \<Rightarrow> if stored_timestamp old < stored_timestamp c then Some c else Some old)"
proof -
  let ?p = "same_slot (custom_type (stored c)) (custom_key (stored c))"
  have other: "find_first (same_slot ty k) (map_first ?p (\<lambda>x. c) cs) = find_first (same_slot ty k) cs"
    if "slot_of c \<noteq> (ty, k)"
    using that by (induction cs) (auto simp: same_slot_slot_of slot_of_def)
  have here: "find_first ?p (map_first ?p (\<lambda>x. c) cs) = Some c" if "find_first ?p cs \<noteq> None"
    using that by (induction cs) (auto simp: same_slot_def)
  have app: "find_first q (cs @ [c]) = (case find_first q cs of None \<Rightarrow> if q c then Some c else None | Some x \<Rightarrow> Some x)" for q
    by (induction cs) auto
  show ?thesis
  proof (cases "slot_of c = (ty, k)")
    case True
    then have "custom_type (stored c) = ty" "custom_key (stored c) = k" by (auto simp: slot_of_def)
    with here True show ?thesis
      by (auto simp: add_or_set_def Let_def app same_slot_slot_of split: option.split)
  next
    case False
    then show ?thesis
      by (auto simp: add_or_set_def Let_def other app same_slot_slot_of split: option.split)
  qed
qed

definition containers :: "('j room_event \<times> string) list \<Rightarrow> 'j custom_container list" where
  "containers evs = concat (map (\<lambda>ev. case container_of ev of Some c \<Rightarrow> [c] | None \<Rightarrow> []) evs)"

definition put :: "'j custom_container \<Rightarrow> 'j custom_container list \<Rightarrow> 'j custom_container list" where
  "put c cs = fst (add_or_set c cs)"

lemma states_sync_event_result:
  "\<exists>t r. states_sync_event e k s = (t, Ok r) \<and>
     customs (cur t) = (case container_of (e, k) of Some c \<Rightarrow> put c (customs (cur s)) | None \<Rightarrow> customs (cur s))"
proof (cases "event_content e")
  case (Room_message ty body)
  then show ?thesis by (auto simp: states_sync_event_def ret_def)
next
  case (Custom_state d)
  let ?c = "\<lparr> stored = \<lparr> custom_key = k, custom_type = event_type e, custom_data = d \<rparr>,
    stored_timestamp = origin_server_ts e \<rparr>"
  obtain cs told where "add_or_set ?c (customs (cur s)) = (cs, told)"
    by (cases "add_or_set ?c (customs (cur s))")
  then show ?thesis
    by (cases told)
      (auto simp: states_sync_event_def Custom_state Let_def update_cur_def prog_defs put_def)
qed

lemma run_states_result:
  "\<exists>t. run_states evs s = (t, Ok ()) \<and>
     customs (cur t) = foldl (\<lambda>cs c. put c cs) (customs (cur s)) (containers evs)"
proof (induction evs arbitrary: s)
  case Nil
  show ?case by (simp add: run_states_def ret_def containers_def)
next
  case (Cons ev evs)
  obtain e k where ev: "ev = (e, k)" by (cases ev)
  obtain t r where t: "states_sync_event e k s = (t, Ok r)"
    "customs (cur t) = (case container_of (e, k) of Some c \<Rightarrow> put c (customs (cur s)) | None \<Rightarrow> customs (cur s))"
    using states_sync_event_result by blast
  obtain t' where t': "run_states evs t = (t', Ok ())"
    "customs (cur t') = foldl (\<lambda>cs c. put c cs) (customs (cur t)) (containers evs)"
    using Cons.IH by blast
  have "run_states (ev # evs) s = run_states evs t"
    unfolding run_states_def ev for_each.simps prod.case
    by (rule sthen_Pair) (simp add: sbind_def t(1) ret_def)
  with t' t(2) show ?case
    by (auto simp: ev containers_def split: option.splits)
qed

text \<open>The entry kept for a slot is one of the events of the slot, and no event of
  the slot is newer.\<close>

lemma fold_put:
  "case find_first (same_slot ty k) (foldl (\<lambda>cs c. put c cs) [] cs) of
     None \<Rightarrow> \<forall>x \<in> set cs. slot_of x \<noteq> (ty, k)
   | Some c \<Rightarrow> c \<in> set cs \<and> slot_of c = (ty, k) \<and>
       (\<forall>x \<in> set cs. slot_of x = (ty, k) \<longrightarrow> stored_timestamp x \<le> stored_timestamp c)"
proof (induction cs rule: rev_induct)
  case Nil
  show ?case by simp
next
  case (snoc c cs)
  then show ?case
    by (auto simp: put_def same_slot_find split: option.splits)
qed

lemma custom_state_newest:
  assumes "customs (cur s) = []" "run_states evs s = (t, r)"
  shows "case custom_state ty k (cur t) of
     None \<Rightarrow> \<forall>x \<in> set (containers evs). slot_of x \<noteq> (ty, k)
   | Some c \<Rightarrow> c \<in> set (containers evs) \<and> slot_of c = (ty, k) \<and>
       (\<forall>x \<in> set (containers evs). slot_of x = (ty, k) \<longrightarrow> stored_timestamp x \<le> stored_timestamp c)"
  using assms run_states_result[of evs s] fold_put[of "containers evs" ty k]
  by (auto simp: custom_state_def)

lemma set_containers: "set evs = set evs' \<Longrightarrow> set (containers evs) = set (containers evs')"
  by (auto simp: containers_def)

text \<open>The entry kept is the first that was received of the newest events of its slot.\<close>

definition newest :: "(string \<times> string) \<Rightarrow> 'j custom_container list \<Rightarrow> 'j custom_container \<Rightarrow> bool" where
  "newest sl cs c \<longleftrightarrow> slot_of c = sl \<and> (\<forall>x \<in> set cs. slot_of x = sl \<longrightarrow> stored_timestamp x \<le> stored_timestamp c)"

definition first_at :: "'j custom_container \<Rightarrow> 'j custom_container list \<Rightarrow> 'j custom_container option" where
  "first_at c cs = find_first (\<lambda>x. slot_of x = slot_of c \<and> stored_timestamp x = stored_timestamp c) cs"

lemma find_first_cong: "(\<And>x. x \<in> set xs \<Longrightarrow> p x = q x) \<Longrightarrow> find_first p xs = find_first q xs"
  by (induction xs) auto

lemma find_first_append:
  "find_first p (xs @ ys) = (case find_first p xs of Some x \<Rightarrow> Some x | None \<Rightarrow> find_first p ys)"
  by (induction xs) auto

lemma find_first_sound: "find_first p xs = Some x \<Longrightarrow> x \<in> set xs \<and> p x"
  by (induction xs) (auto split: if_splits)

lemma find_first_nothing: "find_first p xs = None \<longleftrightarrow> (\<forall>x \<in> set xs. \<not> p x)"
  by (induction xs) auto

lemma fold_put_first:
  "find_first (same_slot ty k) (foldl (\<lambda>cs c. put c cs) [] cs) = find_first (newest (ty, k) cs) cs"
proof (induction cs rule: rev_induct)
  case Nil
  show ?case by simp
next
  case (snoc c cs)
  let ?old = "find_first (same_slot ty k) (foldl (\<lambda>cs c. put c cs) [] cs)"
  have kept: ?case if "slot_of c = (ty, k) \<longrightarrow> (\<exists>x. ?old = Some x \<and> stored_timestamp c \<le> stored_timestamp x)"
  proof -
    have "newest (ty, k) (cs @ [c]) x = newest (ty, k) cs x" if "x \<in> set cs" for x
    proof (cases "slot_of c = (ty, k)")
      case True
      with \<open>slot_of c = (ty, k) \<longrightarrow> _\<close> snoc obtain y where "find_first (newest (ty, k) cs) cs = Some y"
        "stored_timestamp c \<le> stored_timestamp y" by auto
      with find_first_sound[OF this(1)] show ?thesis by (fastforce simp: newest_def)
    qed (auto simp: newest_def)
    then have cong: "find_first (newest (ty, k) (cs @ [c])) cs = find_first (newest (ty, k) cs) cs"
      by (rule find_first_cong)
    show ?thesis
    proof (cases "slot_of c = (ty, k)")
      case True
      with that snoc obtain y where "?old = Some y" "find_first (newest (ty, k) cs) cs = Some y"
        "\<not> stored_timestamp y < stored_timestamp c" by auto
      with True cong show ?thesis by (simp add: put_def same_slot_find find_first_append)
    next
      case False
      then have "\<not> newest (ty, k) (cs @ [c]) c" by (simp add: newest_def)
      with False cong snoc show ?thesis
        by (simp add: put_def same_slot_find find_first_append split: option.split)
    qed
  qed
  show ?case
  proof (cases "slot_of c = (ty, k) \<longrightarrow> (\<exists>x. ?old = Some x \<and> stored_timestamp c \<le> stored_timestamp x)")
    case True
    then show ?thesis by (rule kept)
  next
    case False
    have older: "stored_timestamp x < stored_timestamp c" if "x \<in> set cs" "slot_of x = (ty, k)" for x
      using fold_put[of cs ty k] False that by (fastforce split: option.splits)
    then have "\<not> newest (ty, k) (cs @ [c]) x" if "x \<in> set cs" for x
      using False that by (fastforce simp: newest_def)
    then have "find_first (newest (ty, k) (cs @ [c])) cs = None"
      by (simp add: find_first_nothing)
    moreover have "newest (ty, k) (cs @ [c]) c" using False older by (auto simp: newest_def less_imp_le)
    ultimately show ?thesis
      using False by (auto simp: put_def same_slot_find find_first_append split: option.splits)
  qed
qed

text \<open>C22. Custom state. After any events of a room, from none, the entry of a type and
  a key is the first received of those with the newest server time. So two clients
  that receive the same events, in whatever order and with whatever repetitions, end
  with the same entries, provided that of two events of a slot with the same server
  time, which is in milliseconds, both received the same one first (in particular if
  there are no two such events). Events of the same millisecond that arrive in
  different orders leave the clients with different entries.\<close>
theorem custom_state_converges:
  assumes "customs (cur s) = []" "customs (cur s') = []"
    and "run_states evs s = (t, r)" "run_states evs' s' = (t', r')" "set evs = set evs'"
    and "\<forall>c \<in> set (containers evs). first_at c (containers evs) = first_at c (containers evs')"
  shows "custom_state ty k (cur t) = find_first (newest (ty, k) (containers evs)) (containers evs) \<and>
    custom_state ty k (cur t') = custom_state ty k (cur t)"
proof -
  let ?cs = "containers evs" and ?cs' = "containers evs'"
  have same: "set ?cs = set ?cs'" by (rule set_containers[OF assms(5)])
  then have n: "newest (ty, k) ?cs' = newest (ty, k) ?cs" by (auto simp: newest_def fun_eq_iff)
  have t: "custom_state ty k (cur t) = find_first (newest (ty, k) ?cs) ?cs"
    "custom_state ty k (cur t') = find_first (newest (ty, k) ?cs) ?cs'"
    using assms(1-4) run_states_result[of evs s] run_states_result[of evs' s']
    by (auto simp: custom_state_def fold_put_first n)
  have "find_first (newest (ty, k) ?cs) ?cs' = find_first (newest (ty, k) ?cs) ?cs"
  proof (cases "find_first (newest (ty, k) ?cs) ?cs")
    case None
    then have "find_first (newest (ty, k) ?cs) ?cs' = None" unfolding find_first_nothing same .
    with None show ?thesis by simp
  next
    case (Some c)
    from find_first_sound[OF this] have c: "c \<in> set ?cs" "newest (ty, k) ?cs c" by simp_all
    then have sl: "slot_of c = (ty, k)"
      and most: "\<And>x. x \<in> set ?cs \<Longrightarrow> slot_of x = (ty, k) \<Longrightarrow> stored_timestamp x \<le> stored_timestamp c"
      by (simp_all add: newest_def)
    have "newest (ty, k) ?cs x \<longleftrightarrow> slot_of x = slot_of c \<and> stored_timestamp x = stored_timestamp c"
      if x: "x \<in> set ?cs" for x
    proof
      assume new: "newest (ty, k) ?cs x"
      then have "slot_of x = (ty, k)" "stored_timestamp c \<le> stored_timestamp x"
        using c(1) sl by (simp_all add: newest_def)
      with most[OF x] sl show "slot_of x = slot_of c \<and> stored_timestamp x = stored_timestamp c" by simp
    next
      assume "slot_of x = slot_of c \<and> stored_timestamp x = stored_timestamp c"
      with sl most show "newest (ty, k) ?cs x" by (simp add: newest_def)
    qed
    then have "find_first (newest (ty, k) ?cs) xs = first_at c xs" if "set xs = set ?cs" for xs
      unfolding first_at_def using that by (intro find_first_cong) auto
    from this[OF refl] this[OF same[symmetric]] c(1) assms(6) show ?thesis by simp
  qed
  with t show ?thesis by simp
qed

definition sample_event :: "string \<Rightarrow> int \<Rightarrow> int \<Rightarrow> json room_event" where
  "sample_event ty v ts = \<lparr> event_type = ty, event_id = ''e'', event_room_id = None,
     origin_server_ts = ts, event_sender = ''u'', event_content = Custom_state (JInt v) \<rparr>"

definition empty_ctx :: "json room_ctx" where
  "empty_ctx = \<lparr> users = [], reports = [], cur = fresh_room ''r'' \<rparr>"

lemma custom_state_converges_witness:
  "custom_state ''audio'' ''k'' (cur (fst (run_states
      [(sample_event ''audio'' 2 9, ''k''), (sample_event ''audio'' 1 5, ''k''), (sample_event ''audio'' 3 9, ''k'')] empty_ctx)))
   = custom_state ''audio'' ''k'' (cur (fst (run_states
      [(sample_event ''audio'' 1 5, ''k''), (sample_event ''audio'' 2 9, ''k''), (sample_event ''audio'' 3 9, ''k'')] empty_ctx)))"
  by (rule custom_state_converges[OF _ _ prod.collapse[symmetric] prod.collapse[symmetric], THEN conjunct2])
    (auto simp: empty_ctx_def fresh_room_def containers_def sample_event_def first_at_def slot_of_def)

text \<open>Two clients that receive two events of one millisecond in different orders.\<close>

lemma tie_diverges:
  "custom_state ''audio'' ''k'' (cur (fst (run_states
      [(sample_event ''audio'' 1 5, ''k''), (sample_event ''audio'' 2 5, ''k'')] empty_ctx)))
   \<noteq> custom_state ''audio'' ''k'' (cur (fst (run_states
      [(sample_event ''audio'' 2 5, ''k''), (sample_event ''audio'' 1 5, ''k'')] empty_ctx)))"
  by code_simp


section \<open>Membership\<close>

definition join_changes :: "(join_state \<times> int) list \<Rightarrow> room_participant \<Rightarrow> room_participant" where
  "join_changes cs m = foldl (\<lambda>m (new, ts). fst (set_join_state new ts m)) m cs"

lemma join_time_monotone: "join_state_timestamp m \<le> join_state_timestamp (join_changes cs m)"
proof (induction cs arbitrary: m)
  case Nil
  show ?case by (simp add: join_changes_def)
next
  case (Cons c cs)
  obtain new ts where c: "c = (new, ts)" by (cases c)
  have "join_state_timestamp m \<le> join_state_timestamp (fst (set_join_state new ts m))"
    by (simp add: set_join_state_def)
  also have "\<dots> \<le> join_state_timestamp (join_changes cs (fst (set_join_state new ts m)))"
    by (rule Cons.IH)
  finally show ?case by (simp add: join_changes_def c)
qed

text \<open>A participant's state is not the newest event's: an event that confirms
  the present state does not record its time, so an older contradicting event that
  arrives afterwards (the state list of a sync comes after its timeline) is
  applied. In the order of their times the same events leave the newest state.\<close>
theorem member_state_regresses:
  assumes "join_state_timestamp m \<le> t2" "t2 < t3" "participant_join_state m = new" "old \<noteq> new"
  shows "participant_join_state (join_changes [(new, t3), (old, t2)] m) = old \<and>
    participant_join_state (join_changes [(old, t2), (new, t3)] m) = new"
  using assms by (simp_all add: join_changes_def set_join_state_def)

lemma member_state_regresses_witness:
  "participant_join_state (join_changes [(Joined, 3), (Left, 2)]
     \<lparr> participant_user = ''u'', join_state_timestamp = 1, participant_join_state = Joined \<rparr>) = Left"
  by (rule member_state_regresses[THEN conjunct1]) simp_all

text \<open>A membership the code does not know (the protocol has \<open>ban\<close> and
  \<open>knock\<close> besides the three it tests) stops a Debug build; a Release build records
  the user as a participant who joined.\<close>
theorem unknown_membership_joins:
  assumes "const_at J ev ''state_key'' = Ok jk" "json_to_string J jk = Ok i"
    and "const_at J ev ''origin_server_ts'' = Ok jt" "json_to_int64 J jt = Ok ts"
    and "const_at J ev ''content'' = Ok c" "const_at J c ''membership'' = Ok jm"
    and "json_to_string J jm = Ok ms" "\<not> has_key J c ''displayname''"
    and "ms \<notin> {''join'', ''leave'', ''invite''}" "find_member i (cur s) = None"
  shows "snd (on_event_m_room_member Debug J ev s) = Assert_failed \<and>
    (\<exists>t. on_event_m_room_member Release J ev s = (t, Ok ()) \<and>
       map_option participant_join_state (find_member i (cur t)) = Some Joined)"
proof -
  obtain t where t: "get_or_add_user i s = (t, Ok i)" using get_or_add_user_result by blast
  then have "cur t = cur s"
    by (auto simp: get_or_add_user_def prog_defs split: option.splits)
  with assms t show ?thesis
    by (simp add: on_event_m_room_member_def str_field_def field_def int_field_def parse_membership_def
        boost_assert_def prog_defs update_cur_def find_member_def emit_def find_first_append)
qed

definition ban_event :: json where
  "ban_event = JObject [(''type'', JString ''m.room.member''), (''state_key'', JString ''u''),
     (''origin_server_ts'', JInt 7), (''content'', JObject [(''membership'', JString ''ban'')])]"

lemma unknown_membership_joins_witness:
  "\<exists>t. on_event_m_room_member Release plain_doc ban_event empty_ctx = (t, Ok ()) \<and>
     map_option participant_join_state (find_member ''u'' (cur t)) = Some Joined"
  by (rule unknown_membership_joins[where jk = "JString ''u''" and jt = "JInt 7" and ts = 7
        and c = "JObject [(''membership'', JString ''ban'')]" and jm = "JString ''ban''" and ms = "''ban''",
        THEN conjunct2])
    (simp_all add: plain_doc_def ban_event_def empty_ctx_def fresh_room_def find_member_def)

end
