(* ===== verification/Matrix_Client.thy ===== *)
theory Matrix_Client
  imports Matrix_Room
begin

text \<open>
  The matrix client's rooms, requests and sync loop, and the synchronizer that
  restarts the loop after an error (rooms.cpp, client.cpp, error.cpp and
  client\_synchronizer.cpp in src/fubble/matrix).

  Requests go to \<open>requests\<close>; the answer of the HTTP layer comes back as an event
  that carries what its future holds, a status with a JSON body or an exception.
  The promise of \<open>sync_till_stop\<close> runs its continuation when it is completed (the
  executor is inline), so the continuation is an argument of the code that
  completes it. \<open>stop_on\<close> is the application's slot on \<open>on_sync\<close>: it tells for
  which answers the application calls \<open>stop_sync\<close>.
\<close>

section \<open>Data\<close>

datatype 'j request =
    Get string
  | Post string 'j
  | Put string 'j

type_synonym 'j answer = "(nat \<times> 'j) res"

record 'j client = "'j store" +
  client_user_id :: string
  rooms :: "'j room list"
  sync_next_batch :: "string option"
  transaction_id_counter :: "32 word"
  sync_till_stop_active :: bool
  sync_till_stop_promise :: bool
  sync_till_stop_timeout :: int
  http_sync_action :: "string option"
  requests :: "'j request list"

fun dec :: "nat \<Rightarrow> string" where
  "dec n = (if n < 10 then [char_of (48 + n)] else dec (n div 10) @ [char_of (48 + n mod 10)])"

declare dec.simps [simp del]

definition show_int :: "int \<Rightarrow> string" where
  "show_int i = (if i < 0 then ''-'' @ dec (nat (- i)) else dec (nat i))"

definition send :: "'j request \<Rightarrow> ('j, 'a) client_scheme \<Rightarrow> ('j, 'a) client_scheme" where
  "send r s = s\<lparr> requests := requests s @ [r] \<rparr>"

definition check_matrix_response :: "nat \<Rightarrow> unit res" where
  "check_matrix_response code = (if code = 200 then Ok () else Throw Response_error)"


section \<open>Requests of a room\<close>

definition invite_by_user_id ::
  "build \<Rightarrow> ('t, 'j) json_doc \<Rightarrow> string \<Rightarrow> string \<Rightarrow> (('j, 'a) client_scheme, unit) prog" where
  "invite_by_user_id b J rid uid =
     sthen (sassert b (uid \<noteq> []))
       (update (send (Post (''rooms/'' @ rid @ ''/invite'')
          (json_object J [(''user_id'', json_of_string J uid)]))))"

definition kick ::
  "build \<Rightarrow> ('t, 'j) json_doc \<Rightarrow> string \<Rightarrow> string \<Rightarrow> (('j, 'a) client_scheme, unit) prog" where
  "kick b J rid uid =
     sthen (sassert b (uid \<noteq> []))
       (update (send (Post (''rooms/'' @ rid @ ''/kick'')
          (json_object J [(''user_id'', json_of_string J uid)]))))"

definition set_custom ::
  "build \<Rightarrow> ('t, 'j) json_doc \<Rightarrow> string \<Rightarrow> 'j custom \<Rightarrow> (('j, 'a) client_scheme, unit) prog" where
  "set_custom b J rid c =
     sthen (sassert b (custom_type c \<noteq> []))
       (update (send (Put (''rooms/'' @ rid @ ''/state/'' @ custom_type c @ ''/'' @ custom_key c)
          (custom_data c))))"

definition create_transaction_id :: "(('j, 'a) client_scheme, string) prog" where
  "create_transaction_id =
     sbind (gets transaction_id_counter) (\<lambda>n.
       if n = 2 ^ 31 - 1 then lift_res Undefined
       else sthen (update (\<lambda>s. s\<lparr> transaction_id_counter := n + 1 \<rparr>)) (ret (show_int (sint (n + 1)))))"

definition chat_send ::
  "build \<Rightarrow> ('t, 'j) json_doc \<Rightarrow> string \<Rightarrow> string \<Rightarrow> (('j, 'a) client_scheme, unit) prog" where
  "chat_send b J rid body =
     sthen (sassert b (body \<noteq> []))
       (sbind create_transaction_id (\<lambda>t.
         update (send (Put (''rooms/'' @ rid @ ''/send/m.room.message/'' @ t)
           (json_object J [(''msgtype'', json_of_string J ''m.text''), (''body'', json_of_string J body)])))))"


section \<open>Rooms\<close>

definition find_room_by_id :: "string \<Rightarrow> ('j, 'a) client_scheme \<Rightarrow> nat option" where
  "find_room_by_id i s = find_index (\<lambda>r. room_id r = i) (rooms s)"

definition get_room_by_id :: "string \<Rightarrow> ('j, 'a) client_scheme \<Rightarrow> 'j room option" where
  "get_room_by_id i s = find_first (\<lambda>r. room_id r = i) (rooms s)"

text \<open>A room's code works on the shared users and the room at its position.\<close>

definition in_room :: "nat \<Rightarrow> ('j room_ctx, 'b) prog \<Rightarrow> (('j, 'a) client_scheme, 'b) prog" where
  "in_room n m s = (case m \<lparr> users = users s, reports = reports s, cur = rooms s ! n \<rparr> of
     (c, r) \<Rightarrow> (s\<lparr> users := users c, reports := reports c, rooms := (rooms s)[n := cur c] \<rparr>, r))"

definition on_room_created :: "build \<Rightarrow> 'j room \<Rightarrow> (('j, 'a) client_scheme, nat) prog" where
  "on_room_created b r =
     sbind (gets (get_room_by_id (room_id r))) (\<lambda>found.
     sthen (sassert b (found = None))
       (sthen (update (\<lambda>s. s\<lparr> rooms := rooms s @ [r] \<rparr>))
         (sthen (update (emit (On_joined (room_id r))))
           (gets (\<lambda>s. length (rooms s) - 1)))))"

text \<open>\<open>factory::create_room\<close>, with the assertion of the room's constructor.\<close>

definition make_room :: "build \<Rightarrow> string \<Rightarrow> (('j, 'a) client_scheme, 'j room) prog" where
  "make_room b i = sthen (sassert b (i \<noteq> [])) (ret (fresh_room i))"

definition do_create_room :: "build \<Rightarrow> string \<Rightarrow> (('j, 'a) client_scheme, nat) prog" where
  "do_create_room b i =
     sbind (gets (find_room_by_id i)) (\<lambda>found.
       case found of Some n \<Rightarrow> ret n
       | None \<Rightarrow> sbind (make_room b i) (on_room_created b))"

definition rooms_on_sync ::
  "build \<Rightarrow> ('t, 'j) json_doc \<Rightarrow> 'j \<Rightarrow> (('j, 'a) client_scheme, unit) prog" where
  "rooms_on_sync b J content =
     sbind (field J content ''rooms'') (\<lambda>rs.
     sbind (field J rs ''join'') (\<lambda>joins.
     sthen (for_each (json_items J joins) (\<lambda>(i, j).
       sbind (gets (find_room_by_id i)) (\<lambda>found.
       sbind (case found of Some n \<Rightarrow> ret n | None \<Rightarrow> do_create_room b i) (\<lambda>n.
       in_room n (room_sync b J content)))))
     (sbind (field J rs ''leave'') (\<lambda>leave.
      for_each (json_items J leave) (\<lambda>(i, j).
       sbind (gets (find_room_by_id i)) (\<lambda>found.
       sthen (sassert b (found \<noteq> None))
         (case found of None \<Rightarrow> ret ()
          | Some n \<Rightarrow> sthen (update (\<lambda>s. s\<lparr> rooms := erase_at n (rooms s) \<rparr>))
              (update (emit (On_leave i))))))))))"

definition create_room ::
  "('t, 'j) json_doc \<Rightarrow> string option \<Rightarrow> (('j, 'a) client_scheme, unit) prog" where
  "create_room J name =
     (let str = json_of_string J;
          power_levels = json_object J [(''events'',
            json_object J [(''io.fubble.audio_state'', json_of_int J 0)])];
          history_visibility = json_object J
            [(''type'', str ''m.room.history_visibility''),
             (''content'', json_object J [(''history_visibility'', str ''joined'')])];
          content = json_object J
            ([(''power_level_content_override'', power_levels), (''preset'', str ''private_chat'')] @
             (case name of Some n \<Rightarrow> [(''name'', str n)] | None \<Rightarrow> []) @
             [(''creation_content'', json_object J [(''m.federate'', json_of_bool J False)]),
              (''initial_state'', json_array J [history_visibility])])
      in update (send (Post ''createRoom'' content)))"

definition create_room_done ::
  "build \<Rightarrow> ('t, 'j) json_doc \<Rightarrow> 'j answer \<Rightarrow> (('j, 'a) client_scheme, nat) prog" where
  "create_room_done b J r =
     sbind (lift_res r) (\<lambda>(code, j).
     sbind (lift_res (check_matrix_response code)) (\<lambda>u.
     sbind (mut_str_field J j ''room_id'') (do_create_room b)))"

definition leave_room_by_id ::
  "('t, 'j) json_doc \<Rightarrow> string \<Rightarrow> (('j, 'a) client_scheme, unit) prog" where
  "leave_room_by_id J i = update (send (Post (''rooms/'' @ i @ ''/leave'') (json_object J [])))"

definition join_room_by_id ::
  "('t, 'j) json_doc \<Rightarrow> string \<Rightarrow> (('j, 'a) client_scheme, unit) prog" where
  "join_room_by_id J i = update (send (Post (''rooms/'' @ i @ ''/join'') (json_object J [])))"

definition join_room_done ::
  "build \<Rightarrow> ('t, 'j) json_doc \<Rightarrow> 'j answer \<Rightarrow> (('j, 'a) client_scheme, nat) prog" where
  "join_room_done b J r =
     sbind (lift_res r) (\<lambda>(code, j).
     sbind (lift_res (check_matrix_response code)) (\<lambda>u.
     sbind (mut_str_field J j ''room_id'') (\<lambda>i.
     sbind (make_room b i) (on_room_created b))))"


section \<open>The client\<close>

definition fresh_client :: "string \<Rightarrow> 'j client" where
  "fresh_client i = \<lparr> users = [], reports = [], client_user_id = i, rooms = [], sync_next_batch = None,
     transaction_id_counter = 0, sync_till_stop_active = False, sync_till_stop_promise = False,
     sync_till_stop_timeout = 0, http_sync_action = None, requests = [] \<rparr>"

fun show_presence :: "presence \<Rightarrow> string" where
  "show_presence Online = ''online''"
| "show_presence Offline = ''offline''"
| "show_presence Unavailable = ''unavailable''"

definition set_display_name ::
  "('t, 'j) json_doc \<Rightarrow> string \<Rightarrow> (('j, 'a) client_scheme, unit) prog" where
  "set_display_name J n =
     sbind (gets client_user_id) (\<lambda>i.
     update (send (Put (''profile/'' @ i @ ''/displayname'')
       (json_object J [(''displayname'', json_of_string J n)]))))"

definition set_presence ::
  "('t, 'j) json_doc \<Rightarrow> presence \<Rightarrow> (('j, 'a) client_scheme, unit) prog" where
  "set_presence J p =
     sbind (gets client_user_id) (\<lambda>i.
     update (send (Put (''presence/'' @ i @ ''/status'')
       (json_object J [(''presence'', json_of_string J (show_presence p))]))))"

definition make_sync_target :: "int \<Rightarrow> ('j, 'a) client_scheme \<Rightarrow> string" where
  "make_sync_target timeout s = ''sync?timeout='' @ show_int timeout @
     (case sync_next_batch s of Some n \<Rightarrow> ''&since='' @ n | None \<Rightarrow> [])"

definition stop_sync :: "(('j, 'a) client_scheme, unit) prog" where
  "stop_sync =
     sbind (gets sync_till_stop_active) (\<lambda>active.
     if \<not> active then ret ()
     else update (\<lambda>s. s\<lparr> sync_till_stop_active := False \<rparr>))"

definition on_synced ::
  "build \<Rightarrow> ('t, 'j) json_doc \<Rightarrow> ('j \<Rightarrow> bool) \<Rightarrow> 'j \<Rightarrow> (('j, 'a) client_scheme, unit) prog" where
  "on_synced b J stop_on content =
     sbind (str_field J content ''next_batch'') (\<lambda>n.
     sthen (update (\<lambda>s. s\<lparr> sync_next_batch := Some n \<rparr>))
     (sthen (users_on_sync b J content)
     (sthen (rooms_on_sync b J content)
       (if stop_on content then stop_sync else ret ()))))"

definition sync :: "int \<Rightarrow> (('j, 'a) client_scheme, unit) prog" where
  "sync timeout =
     sbind (gets (make_sync_target timeout)) (\<lambda>target. update (send (Get target)))"

definition sync_done ::
  "build \<Rightarrow> ('t, 'j) json_doc \<Rightarrow> ('j \<Rightarrow> bool) \<Rightarrow> 'j answer \<Rightarrow> (('j, 'a) client_scheme, unit) prog" where
  "sync_done b J stop_on r =
     sbind (lift_res r) (\<lambda>(code, j).
     sbind (lift_res (check_matrix_response code)) (\<lambda>u. on_synced b J stop_on j))"

definition do_sync :: "build \<Rightarrow> (('j, 'a) client_scheme, unit) prog" where
  "do_sync b =
     sbind (gets (\<lambda>s. make_sync_target (sync_till_stop_timeout s) s)) (\<lambda>target.
     sbind (gets http_sync_action) (\<lambda>pending.
     sthen (sassert b (pending = None))
       (update (\<lambda>s. send (Get target) (s\<lparr> http_sync_action := Some target \<rparr>)))))"

definition sync_till_stop :: "build \<Rightarrow> int \<Rightarrow> (('j, 'a) client_scheme, unit) prog" where
  "sync_till_stop b timeout =
     sbind (gets (\<lambda>s. http_sync_action s = None)) (\<lambda>p. sthen (sassert b p)
     (sbind (gets sync_till_stop_promise) (\<lambda>q. sthen (sassert b (\<not> q))
     (sbind (gets sync_till_stop_active) (\<lambda>a. sthen (sassert b (\<not> a))
     (sthen (update (\<lambda>s. s\<lparr> sync_till_stop_active := True, sync_till_stop_timeout := timeout,
         sync_till_stop_promise := True \<rparr>))
       (do_sync b)))))))"

text \<open>\<open>done\<close> is the continuation of the promise: it is told nothing for a value and
  the exception otherwise.\<close>

definition on_sync_till_stop ::
  "build \<Rightarrow> ('t, 'j) json_doc \<Rightarrow> ('j \<Rightarrow> bool) \<Rightarrow> (exn option \<Rightarrow> (('j, 'a) client_scheme, unit) prog) \<Rightarrow>
   'j answer \<Rightarrow> (('j, 'a) client_scheme, unit) prog" where
  "on_sync_till_stop b J stop_on finished r =
     sbind (gets sync_till_stop_active) (\<lambda>active.
     if \<not> active then
       sbind (gets sync_till_stop_promise) (\<lambda>promise.
       if \<not> promise then lift_res Undefined
       else sthen (update (\<lambda>s. s\<lparr> sync_till_stop_promise := False \<rparr>)) (finished None))
     else try_catch
       (sbind (lift_res r) (\<lambda>(code, j).
        sthen (update (\<lambda>s. s\<lparr> http_sync_action := None \<rparr>))
        (sbind (lift_res (check_matrix_response code)) (\<lambda>u.
         sthen (on_synced b J stop_on j) (do_sync b)))))
       (\<lambda>e. sbind (gets sync_till_stop_promise) (\<lambda>promise.
         if \<not> promise then lift_res Undefined
         else sthen (finished (Some e))
           (update (\<lambda>s. s\<lparr> sync_till_stop_promise := False, sync_till_stop_active := False,
              http_sync_action := None \<rparr>)))))"


section \<open>The synchronizer\<close>

record 'j synchronizer = "'j client" +
  attached :: bool
  timer_waiting :: bool

definition default_sync_timeout :: int where
  "default_sync_timeout = 30000"

definition start_sync :: "build \<Rightarrow> ('j synchronizer, unit) prog" where
  "start_sync b = sbind (gets attached) (\<lambda>a.
     if \<not> a then lift_res Undefined else sync_till_stop b default_sync_timeout)"

definition set_client :: "build \<Rightarrow> ('j synchronizer, unit) prog" where
  "set_client b = sbind (gets attached) (\<lambda>a.
     sthen (sassert b (\<not> a))
     (sthen (update (\<lambda>s. s\<lparr> attached := True \<rparr>)) (start_sync b)))"

definition on_stopped :: "build \<Rightarrow> exn option \<Rightarrow> ('j synchronizer, unit) prog" where
  "on_stopped b r =
     (if r = None then update (\<lambda>s. s\<lparr> attached := False \<rparr>)
      else if r = Some Operation_aborted then
        sthen (update (\<lambda>s. s\<lparr> attached := False \<rparr>)) (sassert b False)
      else sbind (gets timer_waiting) (\<lambda>w.
        sthen (sassert b (\<not> w)) (update (\<lambda>s. s\<lparr> timer_waiting := True \<rparr>))))"

definition timer_expired :: "build \<Rightarrow> ('j synchronizer, unit) prog" where
  "timer_expired b = sthen (update (\<lambda>s. s\<lparr> timer_waiting := False \<rparr>)) (start_sync b)"


section \<open>The machine\<close>

text \<open>Its events are what the client is told: the application sets and stops it,
  answers arrive for the requests that are out, the timer expires. An answer to a
  sync that is not out, an expiry of a timer that does not run and a second
  \<open>set\<close> while a client is attached are no events.\<close>

datatype 'j sync_event =
    Set_client
  | Stop_sync
  | Sync_answer "'j answer"
  | Timer_expired
  | Create_answer "'j answer"
  | Join_answer "'j answer"

definition fresh_sync :: "string \<Rightarrow> 'j synchronizer" where
  "fresh_sync i = client.extend (fresh_client i) \<lparr> attached = False, timer_waiting = False \<rparr>"

fun sync_step ::
  "build \<Rightarrow> ('t, 'j) json_doc \<Rightarrow> ('j \<Rightarrow> bool) \<Rightarrow> 'j synchronizer \<Rightarrow> 'j sync_event \<Rightarrow> 'j synchronizer res" where
  "sync_step b J stop_on s Set_client = (if attached s then Ok s else handled (set_client b) s)"
| "sync_step b J stop_on s Stop_sync = handled stop_sync s"
| "sync_step b J stop_on s (Sync_answer r) =
     (if http_sync_action s = None \<or> \<not> sync_till_stop_promise s then Ok s
      else handled (on_sync_till_stop b J stop_on (on_stopped b) r) s)"
| "sync_step b J stop_on s Timer_expired =
     (if \<not> timer_waiting s then Ok s else handled (timer_expired b) s)"
| "sync_step b J stop_on s (Create_answer r) = handled (create_room_done b J r) s"
| "sync_step b J stop_on s (Join_answer r) = handled (join_room_done b J r) s"


section \<open>What a sync may change\<close>

locale client_store = user_store P
  for P :: "('j, 'a) client_scheme \<Rightarrow> bool" +
  fixes b :: build and J :: "('t, 'j) json_doc"
  assumes P_room: "P s \<Longrightarrow> n < length (rooms s) \<Longrightarrow> P (fst (in_room n (room_sync b J content) s))"
    and P_new: "P s \<Longrightarrow> (b = Debug \<Longrightarrow> get_room_by_id i s = None) \<Longrightarrow>
      P (s\<lparr> rooms := rooms s @ [fresh_room i] \<rparr>)"
    and P_erase: "P s \<Longrightarrow> P (s\<lparr> rooms := erase_at n (rooms s) \<rparr>)"
begin

lemma keeps_on_room_created: "keeps_on P (on_room_created b (fresh_room i))"
  using P_emit P_new[of _ i]
  by (auto simp: keeps_on_def on_room_created_def prog_defs boost_assert_def fresh_room_def)

lemma keeps_make_room: "keeps_on P (sbind (make_room b i) (on_room_created b))"
  using keeps_on_room_created[of i]
  by (auto simp: make_room_def prog_defs boost_assert_def keeps_on_def)

lemma keeps_do_create_room: "keeps_on P (do_create_room b i)"
  unfolding do_create_room_def by (intro keeps keeps_make_room)

lemma keeps_create_room_done: "keeps_on P (create_room_done b J r)"
  unfolding create_room_done_def by (intro keeps keeps_do_create_room)

lemma keeps_join_room_done: "keeps_on P (join_room_done b J r)"
  unfolding join_room_done_def by (intro keeps keeps_make_room)

lemma do_create_room_position:
  "do_create_room c i s = (t, Ok n) \<Longrightarrow> n < length (rooms (t :: ('j, 'a) client_scheme))"
  by (auto simp: do_create_room_def make_room_def on_room_created_def find_room_by_id_def emit_def
      prog_defs boost_assert_def dest: find_index_Some split: option.splits if_splits prod.splits res.splits)

lemma keeps_join_entry:
  "keeps_on P (sbind (gets (find_room_by_id i)) (\<lambda>found.
     sbind (case found of Some n \<Rightarrow> ret n | None \<Rightarrow> do_create_room b i) (\<lambda>n.
     in_room n (room_sync b J content))))"
proof (rule keeps_gets_bind)
  fix s assume s: "P s"
  show "P (fst (sbind (case find_room_by_id i s of Some n \<Rightarrow> ret n | None \<Rightarrow> do_create_room b i)
      (\<lambda>n. in_room n (room_sync b J content)) s))"
  proof (cases "find_room_by_id i s")
    case (Some n)
    then have "n < length (rooms s)"
      by (auto simp: find_room_by_id_def dest: find_index_Some)
    with Some s show ?thesis by (simp add: P_room)
  next
    case None
    obtain t r where t: "do_create_room b i s = (t, r)" by (cases "do_create_room b i s")
    have "P t" by (rule keeps_onD[OF keeps_do_create_room s t])
    with t None show ?thesis
      by (cases r) (auto simp: sbind_def intro!: P_room dest: do_create_room_position)
  qed
qed

lemma keeps_rooms_on_sync: "keeps_on P (rooms_on_sync b J content)"
proof -
  have leave: "keeps_on P (sbind (gets (find_room_by_id i)) (\<lambda>found.
       sthen (sassert b (found \<noteq> None))
         (case found of None \<Rightarrow> ret ()
          | Some n \<Rightarrow> sthen (update (\<lambda>s. s\<lparr> rooms := erase_at n (rooms s) \<rparr>))
              (update (emit (On_leave i))))))" for i
    by (intro keeps keeps_emit keeps_update P_erase)
  show ?thesis
    unfolding rooms_on_sync_def
    by (intro keeps keeps_join_entry leave)
qed

lemma keeps_sync_slots:
  "keeps_on P (sthen (users_on_sync b J content) (rooms_on_sync b J content))"
  by (intro keeps keeps_users_on_sync keeps_rooms_on_sync)

end


section \<open>References across rooms\<close>

text \<open>Two rooms never share an id in a build with assertions; the room that
  \<open>join_room_by_id\<close> adds is looked up by an assertion only.\<close>

definition client_inv :: "build \<Rightarrow> ('j, 'a) client_scheme \<Rightarrow> bool" where
  "client_inv b s \<longleftrightarrow> users_inv s \<and> (\<forall>r \<in> set (rooms s). room_inv (known s) r) \<and>
     (b = Debug \<longrightarrow> distinct (map room_id (rooms s)))"

lemma in_room_keeps:
  assumes "client_inv b s" "n < length (rooms s)"
    and "\<And>i U. keeps_on (ctx_inv i U) m"
  shows "client_inv b (fst (in_room n m s))"
proof -
  let ?c0 = "\<lparr> users = users s, reports = reports s, cur = rooms s ! n \<rparr>"
  obtain c r where c: "m ?c0 = (c, r)" by (cases "m ?c0")
  have known0: "known ?c0 = known s" by (simp add: known_def)
  from assms(1,2) have "ctx_inv (room_id (rooms s ! n)) (known s) ?c0"
    by (auto simp: ctx_inv_def client_inv_def users_inv_def known0 intro: nth_mem)
  from keeps_onD[OF assms(3) this c]
  have c': "users_inv c" "known s \<subseteq> known c" "room_inv (known c) (cur c)"
    "room_id (cur c) = room_id (rooms s ! n)"
    by (auto simp: ctx_inv_def)
  let ?t = "s\<lparr> users := users c, reports := reports c, rooms := (rooms s)[n := cur c] \<rparr>"
  have known: "known ?t = known c" by (simp add: known_def)
  have "map room_id ((rooms s)[n := cur c]) = map room_id (rooms s)"
    using assms(2) c'(4) by (simp add: map_update list_update_same_conv)
  moreover have "room_inv (known c) r" if "r \<in> set ((rooms s)[n := cur c])" for r
  proof -
    from that consider "r = cur c" | "r \<in> set (rooms s)"
      using set_update_subset_insert[of "rooms s" n "cur c"] by blast
    then show ?thesis
      using assms(1) c'(2,3) by cases (auto simp: client_inv_def elim: room_inv_mono)
  qed
  ultimately have "client_inv b ?t"
    using assms(1) c'(1) by (auto simp: client_inv_def known users_inv_def)
  then show ?thesis by (simp add: in_room_def c)
qed

lemma client_inv_cong:
  "users t = users s \<Longrightarrow> rooms t = rooms s \<Longrightarrow> client_inv b t = client_inv b s"
  by (simp add: client_inv_def users_inv_def known_def)

interpretation refs: client_store "client_inv b :: ('j, 'a) client_scheme \<Rightarrow> bool" b
  "J :: ('t, 'j) json_doc" for b J
proof
  fix s :: "('j, 'a) client_scheme" and n j and f :: "user \<Rightarrow> user"
  assume inv: "client_inv b s"
  show "client_inv b (emit n s)"
    using inv by (simp add: client_inv_def emit_def users_inv_def known_def)
  show "client_inv b (update_user j f s)" if "\<And>u. user_id (f u) = user_id u"
  proof -
    have "rooms (update_user j f s) = rooms s" by (simp add: update_user_def)
    with inv that show ?thesis
      by (simp add: client_inv_def known_update_user users_inv_def ids_update_user)
  qed
  show "client_inv b (s\<lparr> users := users s @ [fresh_user j] \<rparr>)" if "j \<notin> known s"
    using inv that users_inv_add[of s j]
    by (auto simp: client_inv_def known_add elim!: room_inv_mono)
next
  fix s :: "('j, 'a) client_scheme" and n content
  assume "client_inv b s" "n < length (rooms s)"
  then show "client_inv b (fst (in_room n (room_sync b J content) s))"
    by (rule in_room_keeps) (rule keeps_room_sync)
next
  fix s :: "('j, 'a) client_scheme" and i
  assume "client_inv b s" "b = Debug \<Longrightarrow> get_room_by_id i s = None"
  then show "client_inv b (s\<lparr> rooms := rooms s @ [fresh_room i] \<rparr>)"
    by (auto simp: client_inv_def users_inv_def known_def room_inv_fresh get_room_by_id_def
        find_first_None fresh_room_def room_inv_def)
next
  fix s :: "('j, 'a) client_scheme" and n
  assume "client_inv b s"
  then show "client_inv b (s\<lparr> rooms := erase_at n (rooms s) \<rparr>)"
    using set_erase_at[of n "rooms s"]
    by (auto simp: client_inv_def users_inv_def known_def map_erase_at distinct_erase_at)
qed

lemma keeps_field_update:
  "(\<And>s. users (f s) = users s \<and> rooms (f s) = rooms s) \<Longrightarrow> keeps_on (client_inv b) (update f)"
  by (rule keeps_update) (use client_inv_cong in blast)

lemma keeps_on_synced: "keeps_on (client_inv b) (on_synced b J stop_on c)"
  unfolding on_synced_def stop_sync_def
  by (intro keeps keeps_field_update refs.keeps_users_on_sync refs.keeps_rooms_on_sync) simp_all

lemma keeps_do_sync: "keeps_on (client_inv b) (do_sync b)"
  unfolding do_sync_def send_def by (intro keeps keeps_field_update) simp

lemma keeps_start_sync: "keeps_on (client_inv b) (start_sync b)"
  unfolding start_sync_def sync_till_stop_def
  by (intro keeps keeps_field_update keeps_do_sync) simp_all

lemma keeps_on_stopped: "keeps_on (client_inv b) (on_stopped b r)"
  unfolding on_stopped_def by (intro keeps keeps_field_update) simp_all

lemma keeps_sync_answer:
  "keeps_on (client_inv b) (on_sync_till_stop b J stop_on (on_stopped b) r)"
  unfolding on_sync_till_stop_def
  by (intro keeps keeps_field_update keeps_on_stopped keeps_on_synced keeps_do_sync) simp_all

lemma keeps_stop_sync: "keeps_on (client_inv b) stop_sync"
  unfolding stop_sync_def by (intro keeps keeps_field_update) simp

lemma keeps_set_client: "keeps_on (client_inv b) (set_client b)"
  unfolding set_client_def by (intro keeps keeps_field_update keeps_start_sync) simp

lemma keeps_timer_expired: "keeps_on (client_inv b) (timer_expired b)"
  unfolding timer_expired_def by (intro keeps keeps_field_update keeps_start_sync) simp

interpretation refm: state_machine "sync_step b J stop_on" "client_inv b" for b J stop_on
proof
  fix s t e
  assume "client_inv b s" "sync_step b J stop_on s e = Ok t"
  then show "client_inv b t"
    by (cases e) (auto split: if_splits dest: handled_keeps[rotated 2, OF _ keeps_set_client]
        handled_keeps[rotated 2, OF _ keeps_stop_sync] handled_keeps[rotated 2, OF _ keeps_sync_answer]
        handled_keeps[rotated 2, OF _ keeps_timer_expired]
        handled_keeps[rotated 2, OF _ refs.keeps_create_room_done]
        handled_keeps[rotated 2, OF _ refs.keeps_join_room_done])
qed

lemma client_inv_fresh: "client_inv b (fresh_sync i)"
  by (simp add: client_inv_def fresh_sync_def fresh_client_def users_inv_def client.defs)

text \<open>C20. Whatever the server answers, in whatever order and however malformed, and
  wherever an answer's handling is cut short by an exception: a user exists once,
  a participant occurs once in a room, every participant and every chat message
  refers to a user that exists, and a type and key of custom state has one entry.
  In a build with assertions a room exists once, too.\<close>
theorem sync_keeps_references:
  assumes "run_events (sync_step b J stop_on) (fresh_sync i) es = Ok s"
  shows "distinct (map user_id (users s)) \<and>
    (\<forall>r \<in> set (rooms s). distinct (map participant_user (members r)) \<and>
       (\<forall>m \<in> set (members r). \<exists>u \<in> set (users s). user_id u = participant_user m) \<and>
       (\<forall>c \<in> set (messages r). \<exists>u \<in> set (users s). user_id u = chat_user c) \<and>
       distinct (map slot_of (customs r))) \<and>
    (b = Debug \<longrightarrow> distinct (map room_id (rooms s)))"
proof -
  have "client_inv b s"
    by (rule refm.run_inv[OF client_inv_fresh assms])
  then show ?thesis
    by (fastforce simp: client_inv_def users_inv_def room_inv_def known_def)
qed

definition sample_sync :: "json list \<Rightarrow> json" where
  "sample_sync evs = JObject [(''next_batch'', JString ''n1''),
     (''presence'', JObject [(''events'', JArray [])]),
     (''rooms'', JObject [(''join'', JObject [(''r'', JObject [(''timeline'',
        JObject [(''events'', JArray evs)])])]), (''leave'', JObject [])])]"

lemmas sync_eval = sync_step.simps handled_def set_client_def start_sync_def sync_till_stop_def do_sync_def
  on_sync_till_stop_def on_stopped_def timer_expired_def stop_sync_def on_synced_def sassert_def
  prog_eval make_sync_target_def send_def fresh_sync_def fresh_client_def client.defs
  check_matrix_response_def boost_assert_def rooms_on_sync_def users_on_sync_def
  find_room_by_id_def do_create_room_def make_room_def on_room_created_def get_room_by_id_def
  emit_def in_room_def room_sync_def on_events_def field_def str_field_def int_field_def
  mut_field_def mut_str_field_def fresh_room_def plain_doc_def

lemma sync_keeps_references_witness:
  "\<exists>s. run_events (sync_step Debug plain_doc (\<lambda>c. False)) (fresh_sync ''me'')
       [Set_client, Sync_answer (Ok (200, sample_sync []))] = Ok s \<and>
     map room_id (rooms s) = [''r''] \<and> distinct (map room_id (rooms s))"
proof -
  have "\<exists>s. run_events (sync_step Debug plain_doc (\<lambda>c. False)) (fresh_sync ''me'')
       [Set_client, Sync_answer (Ok (200, sample_sync []))] = Ok s \<and> map room_id (rooms s) = [''r'']"
    by (rule res_caseD) (simp add: sync_eval sample_sync_def)
  then show ?thesis
  proof (elim exE conjE)
    fix s assume s: "run_events (sync_step Debug plain_doc (\<lambda>c. False)) (fresh_sync ''me'')
       [Set_client, Sync_answer (Ok (200, sample_sync []))] = Ok s" "map room_id (rooms s) = [''r'']"
    have "distinct (map room_id (rooms s))"
      using sync_keeps_references[OF s(1)] by simp
    with s show ?thesis by (intro exI[of _ s] conjI)
  qed
qed

text \<open>Joining a room that a sync has brought already (the answer to a join and
  the sync race) stops a Debug build; a Release build holds the room twice, hands
  out the new and empty copy, and keeps synchronising the old one.\<close>
theorem join_after_sync_duplicates:
  assumes "find_room_by_id i s = Some n" "i \<noteq> []"
    and "json_at J j ''room_id'' = Ok v" "json_to_string J v = Ok i"
  shows "snd (join_room_done Debug J (Ok (200, j)) s) = Assert_failed \<and>
    (\<exists>t. join_room_done Release J (Ok (200, j)) s = (t, Ok (length (rooms s))) \<and>
       rooms t = rooms s @ [fresh_room i] \<and> find_room_by_id i t = Some n)"
proof -
  have app: "find_index p (xs @ ys) = Some n" if "find_index p xs = Some n" for p xs ys and n :: nat
    using that by (induction xs arbitrary: n) (auto split: if_splits)
  have "find_first (\<lambda>r. room_id r = i) (rooms s) \<noteq> None"
    using assms(1) by (auto simp: find_room_by_id_def find_index_first)
  with assms show ?thesis
    by (auto simp: join_room_done_def check_matrix_response_def mut_str_field_def mut_field_def
        make_room_def on_room_created_def get_room_by_id_def find_room_by_id_def emit_def prog_defs
        boost_assert_def fresh_room_def intro!: app)
qed

lemma join_after_sync_duplicates_witness:
  "snd (join_room_done Debug plain_doc (Ok (200, JObject [(''room_id'', JString ''r'')]))
     ((fresh_client ''me'')\<lparr> rooms := [fresh_room ''r''] \<rparr>)) = Assert_failed"
  by (rule join_after_sync_duplicates[where i = "''r''" and n = 0 and v = "JString ''r''", THEN conjunct1])
    (simp_all add: find_room_by_id_def fresh_client_def fresh_room_def plain_doc_def)


section \<open>The sync loop\<close>

definition loop_frame ::
  "bool \<times> bool \<times> bool \<times> string option \<times> bool \<Rightarrow> 'j synchronizer \<Rightarrow> bool" where
  "loop_frame v s \<longleftrightarrow> (attached s, timer_waiting s, sync_till_stop_promise s, http_sync_action s,
     sync_till_stop_active s) = v"

interpretation frame: client_store "loop_frame v :: 'j synchronizer \<Rightarrow> bool" b "J :: ('t, 'j) json_doc" for v b J
  by unfold_locales (auto simp: loop_frame_def emit_def update_user_def in_room_def split: prod.split)

text \<open>Handling an answer touches nothing of the loop but the flag, and the flag
  only if the application stops it.\<close>

lemma on_synced_frame:
  assumes "loop_frame (a, w, p, h, act) s" "on_synced b J stop_on c s = (t, r)"
  shows "\<exists>act'. loop_frame (a, w, p, h, act') t \<and> (\<not> stop_on c \<longrightarrow> act' = act) \<and>
     (r = Ok () \<longrightarrow> stop_on c \<longrightarrow> \<not> act')"
proof (cases "str_field J c ''next_batch'' s")
  case (Pair s1 r1)
  have s1: "s1 = s" using Pair by (auto simp: str_field_def field_def prog_defs split: res.splits)
  show ?thesis
  proof (cases r1)
    case (Ok n)
    let ?s = "s\<lparr> sync_next_batch := Some n \<rparr>"
    obtain u q where u: "sthen (users_on_sync b J c) (rooms_on_sync b J c) ?s = (u, q)"
      by (cases "sthen (users_on_sync b J c) (rooms_on_sync b J c) ?s")
    have "loop_frame (a, w, p, h, act) ?s" using assms(1) by (simp add: loop_frame_def)
    then have fu: "loop_frame (a, w, p, h, act) u"
      by (rule keeps_onD[OF frame.keeps_sync_slots _ u])
    have "on_synced b J stop_on c s = sthen (sthen (users_on_sync b J c) (rooms_on_sync b J c))
        (if stop_on c then stop_sync else ret ()) ?s"
      using Pair Ok s1
      by (simp add: on_synced_def sbind_def sthen_def update_def split: prod.split res.split)
    with assms(2) u have t: "sthen (\<lambda>s. (u, q)) (if stop_on c then stop_sync else ret ()) ?s = (t, r)"
      by (simp add: sthen_def sbind_def)
    show ?thesis
      using t fu
      by (cases q) (auto simp: sthen_def sbind_def ret_def stop_sync_def gets_def update_def loop_frame_def
          split: if_splits)
  qed (use assms Pair s1 in \<open>auto simp: on_synced_def sbind_def\<close>)
qed

text \<open>The JSON library's own exceptions are not the one of a cancelled request.\<close>

definition json_exceptions :: "('t, 'j) json_doc \<Rightarrow> bool" where
  "json_exceptions J \<longleftrightarrow> (\<forall>j k. const_at J j k \<noteq> Throw Operation_aborted \<and>
     json_at J j k \<noteq> Throw Operation_aborted \<and> json_to_string J j \<noteq> Throw Operation_aborted \<and>
     json_to_int64 J j \<noteq> Throw Operation_aborted)"

lemma plain_json_exceptions: "json_exceptions plain_doc"
proof -
  have "plain_const_at j k \<noteq> Throw Operation_aborted" "plain_at j k \<noteq> Throw Operation_aborted"
    "plain_to_string j \<noteq> Throw Operation_aborted" "plain_int64 j \<noteq> Throw Operation_aborted" for j k
    by (cases j; simp split: option.split)+
  then show ?thesis by (simp add: json_exceptions_def plain_doc_def)
qed

abbreviation others :: "exn set" where
  "others \<equiv> - {Operation_aborted}"

lemma throws_fields:
  assumes "json_exceptions J"
  shows "throws_in others (field J j k)" "throws_in others (str_field J j k)"
    "throws_in others (int_field J j k)" "throws_in others (mut_field J j k)"
    "throws_in others (mut_str_field J j k)"
proof -
  from assms have l: "throws_in others (lift_res (const_at J j k))"
    "throws_in others (lift_res (json_at J j k))"
    "throws_in others (lift_res (json_to_string J v))" "throws_in others (lift_res (json_to_int64 J v))" for v
    by (auto simp: json_exceptions_def intro!: throws_lift)
  show "throws_in others (field J j k)" "throws_in others (str_field J j k)"
    "throws_in others (int_field J j k)" "throws_in others (mut_field J j k)"
    "throws_in others (mut_str_field J j k)"
    unfolding field_def str_field_def int_field_def mut_field_def mut_str_field_def
    by (intro throws l)+
qed

lemma throws_in_room: "throws_in E m \<Longrightarrow> throws_in E (in_room n m)"
  by (auto simp: throws_in_def in_room_def split: prod.splits) (metis snd_conv)

lemma throws_parsed_case:
  "(\<And>e k. throws_in E (f e k)) \<Longrightarrow> (\<And>e. throws_in E (g e)) \<Longrightarrow>
   throws_in E (case p of Room_state_event e k \<Rightarrow> f e k | Room_event e \<Rightarrow> g e)"
  by (cases p) auto

lemma throws_membership: "throws_in E (lift_res (parse_membership b m))"
  by (rule throws_lift) (auto simp: parse_membership_def boost_assert_def split: if_splits)

lemma throws_states_sync_event: "throws_in E (states_sync_event e k)"
  by (cases "event_content e")
    (auto simp: states_sync_event_def Let_def update_cur_def intro!: throws)

lemma throws_let: "throws_in E (f x) \<Longrightarrow> throws_in E (let y = x in f y)"
  by simp

lemma throws_room_sync:
  assumes "json_exceptions J"
  shows "throws_in others (room_sync b J content)"
proof -
  note f = throws_fields[OF assms]
  have parse: "throws_in others (parse_event J ev)" for ev
    unfolding parse_event_def parse_room_message_def parse_state_event_def parse_room_event_def
      get_or_add_user_def
    by (intro throws f)
  have chat: "throws_in others (chat_sync_event J ty ev)" for ty ev
    unfolding chat_sync_event_def chat_on_message_def get_or_add_user_def update_cur_def
    by (intro throws throws_let f)
  have member: "throws_in others (on_event_m_room_member b J ev)" for ev
    unfolding on_event_m_room_member_def get_or_add_user_def update_cur_def update_member_def
      user_set_display_name_def
    by (intro throws f throws_membership)
  have name: "throws_in others (on_event_m_room_name J ev)" for ev
    unfolding on_event_m_room_name_def update_cur_def by (intro throws f)
  show ?thesis
    unfolding room_sync_def on_events_def on_event_def
    by (intro throws f parse chat member name throws_parsed_case throws_states_sync_event)
qed

lemma throws_on_synced:
  assumes "json_exceptions J"
  shows "throws_in others (on_synced b J stop_on content)"
proof -
  note f = throws_fields[OF assms]
  have users: "throws_in others (users_on_sync b J content)"
    unfolding users_on_sync_def get_or_add_user_def on_m_presence_def set_presence_from_string_def
      user_set_presence_def user_set_display_name_def
    by (intro throws f)
  have rooms: "throws_in others (rooms_on_sync b J content)"
    unfolding rooms_on_sync_def do_create_room_def make_room_def on_room_created_def
    by (intro throws f throws_in_room throws_room_sync[OF assms])
  show ?thesis
    unfolding on_synced_def stop_sync_def by (intro throws f users rooms)
qed

lemma throws_do_sync: "throws_in E (do_sync b)"
  unfolding do_sync_def by (intro throws)

text \<open>The ways an answer to the running loop can end.\<close>

lemma sync_answer_cases:
  assumes "loop_frame (True, False, True, Some x, True) s"
    and "on_sync_till_stop b J stop_on (on_stopped b) r s = (t, q)"
    and "q \<noteq> Assert_failed" "q \<noteq> Undefined"
  obtains
    (again) x' act where "loop_frame (True, False, True, Some x', act) t"
      "act \<or> (\<exists>c. stop_on c)"
  | (retry) "loop_frame (True, True, False, None, False) t"
  | (aborted) "loop_frame (False, False, False, None, False) t"
      "r = Throw Operation_aborted \<or> \<not> json_exceptions J"
proof -
  let ?body = "sbind (lift_res r) (\<lambda>(code, j).
        sthen (update (\<lambda>s. s\<lparr> http_sync_action := None \<rparr>))
        (sbind (lift_res (check_matrix_response code)) (\<lambda>u.
         sthen (on_synced b J stop_on j) (do_sync b))))"
  obtain u w where body: "?body s = (u, w)" by (cases "?body s")
  have act: "sync_till_stop_active s" using assms(1) by (simp add: loop_frame_def)
  have body_frame: "\<exists>h act'. loop_frame (True, False, True, h, act') u \<and> (w = Ok () \<longrightarrow> h \<noteq> None) \<and>
      (act' \<or> (\<exists>c. stop_on c))"
  proof (cases r)
    case (Ok cj)
    obtain code j where cj: "cj = (code, j)" by (cases cj)
    let ?s = "s\<lparr> http_sync_action := None \<rparr>"
    have fs: "loop_frame (True, False, True, None, True) ?s"
      using assms(1) by (simp add: loop_frame_def)
    show ?thesis
    proof (cases "code = 200")
      case True
      obtain v q' where v: "on_synced b J stop_on j ?s = (v, q')" by (cases "on_synced b J stop_on j ?s")
      from on_synced_frame[OF fs v] obtain act' where
        "loop_frame (True, False, True, None, act') v" "\<not> stop_on j \<longrightarrow> act'" by auto
      with body Ok cj True v show ?thesis
        by (cases q') (auto simp: check_matrix_response_def prog_eval do_sync_def sassert_def
            boost_assert_def loop_frame_def send_def split: if_splits)
    next
      case False
      with body Ok cj fs show ?thesis
        by (auto simp: check_matrix_response_def prog_eval)
    qed
  qed (use body assms(1) in \<open>auto simp: prog_eval\<close>)
  have result: "on_sync_till_stop b J stop_on (on_stopped b) r s = try_catch ?body
      (\<lambda>e. sbind (gets sync_till_stop_promise) (\<lambda>promise.
         if \<not> promise then lift_res Undefined
         else sthen (on_stopped b (Some e))
           (update (\<lambda>s. s\<lparr> sync_till_stop_promise := False, sync_till_stop_active := False,
              http_sync_action := None \<rparr>)))) s"
    using act by (simp add: on_sync_till_stop_def)
  have thrown: "e \<noteq> Operation_aborted" if "w = Throw e" "r \<noteq> Throw Operation_aborted" "json_exceptions J" for e
  proof -
    from that(2) have "throws_in others (lift_res r)" by (auto intro!: throws_lift)
    then have "throws_in others ?body"
      by (intro throws throws_on_synced that(3) throws_do_sync)
        (auto simp: check_matrix_response_def intro!: throws_lift split: if_splits)
    from throws_inD[OF this body[unfolded that(1)]] show ?thesis by simp
  qed
  show thesis
  proof (cases w)
    case (Ok v)
    with body_frame result body assms(2) show thesis
      by (auto simp: try_catch_def intro: again)
  next
    case (Throw e)
    obtain h act' where u: "loop_frame (True, False, True, h, act') u" using body_frame by blast
    show thesis
    proof (cases "e = Operation_aborted")
      case True
      with thrown[OF Throw] have "r = Throw Operation_aborted \<or> \<not> json_exceptions J" by blast
      moreover from True Throw u result body assms(2,3) have "loop_frame (False, False, False, None, False) t"
        by (auto simp: prog_eval on_stopped_def sassert_def boost_assert_def loop_frame_def split: if_splits)
      ultimately show thesis by (rule aborted[rotated])
    next
      case False
      with Throw u result body assms(2) have "loop_frame (True, True, False, None, False) t"
        by (auto simp: prog_eval on_stopped_def sassert_def boost_assert_def loop_frame_def)
      then show thesis by (rule retry)
    qed
  next
    case Assert_failed
    with result body assms(2,3) show thesis by (simp add: try_catch_def)
  next
    case Undefined
    with result body assms(2,4) show thesis by (simp add: try_catch_def)
  qed
qed

text \<open>The loop is idle, waits for an answer, or waits for the timer.\<close>

definition idle :: "'j synchronizer \<Rightarrow> bool" where
  "idle s \<longleftrightarrow> (\<exists>h. loop_frame (False, False, False, h, False) s)"

definition syncing :: "bool \<Rightarrow> 'j synchronizer \<Rightarrow> bool" where
  "syncing act s \<longleftrightarrow> (\<exists>x. loop_frame (True, False, True, Some x, act) s)"

definition backing_off :: "'j synchronizer \<Rightarrow> bool" where
  "backing_off s \<longleftrightarrow> loop_frame (True, True, False, None, False) s"

definition loop_inv :: "'j synchronizer \<Rightarrow> bool" where
  "loop_inv s \<longleftrightarrow> idle s \<or> syncing True s \<or> syncing False s \<or> backing_off s"

definition alive :: "'j synchronizer \<Rightarrow> bool" where
  "alive s \<longleftrightarrow> syncing True s \<or> backing_off s"

lemmas loop_defs = idle_def syncing_def backing_off_def loop_frame_def

lemma frame_room_events:
  "handled (create_room_done b J r) s = Ok t \<Longrightarrow> loop_frame v s \<Longrightarrow> loop_frame v t"
  "handled (join_room_done b J r) s = Ok t \<Longrightarrow> loop_frame v s \<Longrightarrow> loop_frame v t"
  by (rule handled_keeps[OF frame.keeps_create_room_done], assumption+)
    (rule handled_keeps[OF frame.keeps_join_room_done], assumption+)

lemma frame_predicates:
  assumes "\<And>v. loop_frame v s \<Longrightarrow> loop_frame v t"
  shows "(idle s \<longrightarrow> idle t) \<and> (syncing act s \<longrightarrow> syncing act t) \<and> (backing_off s \<longrightarrow> backing_off t)"
  using assms unfolding idle_def syncing_def backing_off_def by blast

lemma set_client_idle:
  assumes "idle s" "handled (set_client b) s = Ok t"
  shows "syncing True t"
  using assms
  by (auto simp: loop_defs set_client_def start_sync_def sync_till_stop_def do_sync_def send_def handled_def
      prog_eval sassert_def boost_assert_def split: if_splits)

lemma timer_backing_off: "backing_off s \<Longrightarrow> \<exists>t. handled (timer_expired b) s = Ok t \<and> syncing True t"
  by (simp add: loop_defs timer_expired_def start_sync_def sync_till_stop_def do_sync_def send_def handled_def
      prog_eval sassert_def boost_assert_def)

lemma stop_syncing: "syncing act s \<Longrightarrow> \<exists>t. handled stop_sync s = Ok t \<and> syncing False t"
  by (auto simp: loop_defs stop_sync_def handled_def prog_eval)

lemma stop_inactive: "\<not> sync_till_stop_active s \<Longrightarrow> handled stop_sync s = Ok s"
  by (simp add: stop_sync_def handled_def prog_eval)

lemma answer_stopped:
  "syncing False s \<Longrightarrow> \<exists>t. handled (on_sync_till_stop b J stop_on (on_stopped b) r) s = Ok t \<and> idle t"
  by (auto simp: loop_defs on_sync_till_stop_def on_stopped_def handled_def prog_eval)

lemma handled_Ok_cases:
  assumes "handled m s = Ok t"
  obtains q where "m s = (t, q)" "q \<noteq> Assert_failed" "q \<noteq> Undefined"
  using assms by (auto simp: handled_def split: prod.splits res.splits)

lemma answer_syncing:
  assumes "syncing True s" "handled (on_sync_till_stop b J stop_on (on_stopped b) r) s = Ok t"
  shows "syncing True t \<or> (syncing False t \<and> (\<exists>c. stop_on c)) \<or> backing_off t \<or>
    (idle t \<and> (r = Throw Operation_aborted \<or> \<not> json_exceptions J))"
proof -
  from assms(1) obtain x where x: "loop_frame (True, False, True, Some x, True) s"
    by (auto simp: syncing_def)
  from assms(2) obtain q where q: "on_sync_till_stop b J stop_on (on_stopped b) r s = (t, q)"
    "q \<noteq> Assert_failed" "q \<noteq> Undefined" by (rule handled_Ok_cases)
  show ?thesis
  proof (rule sync_answer_cases[OF x q])
    fix x' act assume "loop_frame (True, False, True, Some x', act) t" "act \<or> (\<exists>c. stop_on c)"
    then show ?thesis by (cases act) (auto simp: syncing_def)
  qed (auto simp: backing_off_def idle_def)
qed

lemma loop_fields:
  "idle s \<Longrightarrow> \<not> attached s \<and> \<not> timer_waiting s \<and> \<not> sync_till_stop_promise s \<and> \<not> sync_till_stop_active s"
  "syncing act s \<Longrightarrow> attached s \<and> \<not> timer_waiting s \<and> sync_till_stop_promise s \<and>
     http_sync_action s \<noteq> None \<and> sync_till_stop_active s = act"
  "backing_off s \<Longrightarrow> attached s \<and> timer_waiting s \<and> \<not> sync_till_stop_promise s \<and> \<not> sync_till_stop_active s"
  by (auto simp: loop_defs)

definition failed :: "'j answer \<Rightarrow> bool" where
  "failed r \<longleftrightarrow> (case r of Ok (code, j) \<Rightarrow> code \<noteq> 200 | Throw e \<Rightarrow> e \<noteq> Operation_aborted
     | Assert_failed \<Rightarrow> False | Undefined \<Rightarrow> False)"

fun benign :: "'j sync_event \<Rightarrow> bool" where
  "benign Set_client = False"
| "benign Stop_sync = True"
| "benign (Sync_answer r) = failed r"
| "benign Timer_expired = True"
| "benign (Create_answer r) = False"
| "benign (Join_answer r) = False"

lemma failed_answer:
  assumes "syncing True s" "failed r"
  shows "\<exists>t. handled (on_sync_till_stop b J stop_on (on_stopped b) r) s = Ok t"
  using assms
  by (auto simp: failed_def loop_defs on_sync_till_stop_def on_stopped_def handled_def prog_eval
      check_matrix_response_def sassert_def boost_assert_def split: res.splits prod.splits)

interpretation loop: total_machine "sync_step b (J :: ('t, 'j) json_doc) stop_on" loop_inv benign
  for b J stop_on
proof
  fix s t :: "'j synchronizer" and e
  assume inv: "loop_inv s" and step: "sync_step b J stop_on s e = Ok t"
  show "loop_inv t"
  proof (cases e)
    case Set_client
    with inv step set_client_idle[of s b t] show ?thesis
      by (auto simp: loop_inv_def dest: loop_fields split: if_splits)
  next
    case Stop_sync
    with inv step stop_syncing[of _ s] stop_inactive[of s] show ?thesis
      unfolding loop_inv_def
      by (metis loop_fields(1,3) sync_step.simps(2) res.inject(1))
  next
    case (Sync_answer r)
    with inv step answer_syncing[of s b J stop_on r t] answer_stopped[of s b J stop_on r] show ?thesis
      by (auto simp: loop_inv_def dest: loop_fields split: if_splits)
  next
    case Timer_expired
    with inv step timer_backing_off[of s b] show ?thesis
      by (auto simp: loop_inv_def dest: loop_fields split: if_splits)
  next
    case (Create_answer r)
    with step frame_predicates[OF frame_room_events(1)[of b J r s t]] inv show ?thesis
      by (auto simp: loop_inv_def)
  next
    case (Join_answer r)
    with step frame_predicates[OF frame_room_events(2)[of b J r s t]] inv show ?thesis
      by (auto simp: loop_inv_def)
  qed
next
  fix s :: "'j synchronizer" and e :: "'j sync_event"
  assume inv: "loop_inv s" and ok: "benign e"
  show "\<exists>t. sync_step b J stop_on s e = Ok t"
  proof (cases e)
    case Stop_sync
    then show ?thesis
      using inv stop_syncing[of _ s] stop_inactive[of s]
      by (auto simp: loop_inv_def dest: loop_fields)
  next
    case (Sync_answer r)
    with ok inv failed_answer[of s r b J stop_on] answer_stopped[of s b J stop_on r] show ?thesis
      by (auto simp: loop_inv_def dest: loop_fields)
  next
    case Timer_expired
    with inv timer_backing_off[of s b] show ?thesis
      by (auto simp: loop_inv_def dest: loop_fields)
  qed (use ok in simp_all)
qed

lemma fresh_idle: "idle (fresh_sync i)"
  by (simp add: loop_defs fresh_sync_def fresh_client_def client.defs)

lemma alive_step:
  assumes "alive s" "sync_step b J (\<lambda>c. False) s e = Ok t" "json_exceptions J"
    and "e \<noteq> Stop_sync" "e \<noteq> Sync_answer (Throw Operation_aborted)"
  shows "alive t"
proof (cases e)
  case Set_client
  with assms(1,2) show ?thesis by (auto simp: alive_def dest: loop_fields split: if_splits)
next
  case (Sync_answer r)
  with assms answer_syncing[of s b J "\<lambda>c. False" r t] show ?thesis
    by (auto simp: alive_def dest: loop_fields split: if_splits)
next
  case Timer_expired
  with assms(1,2) timer_backing_off[of s b] show ?thesis
    by (auto simp: alive_def dest: loop_fields split: if_splits)
next
  case (Create_answer r)
  with assms(2) frame_predicates[OF frame_room_events(1)[of b J r s t]] assms(1) show ?thesis
    by (auto simp: alive_def)
next
  case (Join_answer r)
  with assms(2) frame_predicates[OF frame_room_events(2)[of b J r s t]] assms(1) show ?thesis
    by (auto simp: alive_def)
qed (use assms in simp_all)

lemma alive_run:
  assumes "alive s" "run_events (sync_step b J (\<lambda>c. False)) s es = Ok t" "json_exceptions J"
    and "Stop_sync \<notin> set es" "Sync_answer (Throw Operation_aborted) \<notin> set es"
  shows "alive t"
  using assms
  by (induction es arbitrary: s) (auto simp: res_simps dest: alive_step)

lemma set_client_fresh: "\<exists>t. handled (set_client b) (fresh_sync i) = Ok t"
  by (simp add: sync_eval fresh_sync_def)

text \<open>Once a client is set and nobody stops it, the synchronizer never falls
  silent: after any run it has a sync out or waits for its timer. Failures, errors
  of the server and timer expiries never stop a build with assertions either.\<close>
theorem sync_survives_errors:
  fixes J :: "('a, 'b) json_doc"
  assumes "Stop_sync \<notin> set es" "Sync_answer (Throw Operation_aborted) \<notin> set es" "json_exceptions J"
  shows "(run_events (sync_step b J (\<lambda>c. False)) (fresh_sync i) (Set_client # es) = Ok s \<longrightarrow>
      attached s \<and> (timer_waiting s \<or> sync_till_stop_active s \<and> http_sync_action s \<noteq> None)) \<and>
    ((\<forall>e \<in> set es. benign e) \<longrightarrow>
      (\<exists>s. run_events (sync_step b J (\<lambda>c. False)) (fresh_sync i) (Set_client # es) = Ok s))"
proof -
  obtain t :: "'b synchronizer" where t: "handled (set_client b) (fresh_sync i) = Ok t"
    using set_client_fresh by blast
  have alive: "syncing True t" by (rule set_client_idle[OF fresh_idle t])
  have step: "sync_step b J (\<lambda>c. False) (fresh_sync i) Set_client = Ok t"
    using t by (simp add: fresh_sync_def client.defs)
  have "attached s \<and> (timer_waiting s \<or> sync_till_stop_active s \<and> http_sync_action s \<noteq> None)"
    if "run_events (sync_step b J (\<lambda>c. False)) t es = Ok s"
    using alive_run[OF _ that assms(3,1,2)] alive by (auto simp: alive_def dest: loop_fields)
  moreover have "\<exists>s. run_events (sync_step b J (\<lambda>c. False)) t es = Ok s" if "\<forall>e \<in> set es. benign e"
    using loop.run_ok[of t es b J "\<lambda>c. False"] that alive by (auto simp: loop_inv_def)
  ultimately show ?thesis using step by simp
qed

lemma sync_survives_errors_witness:
  "\<exists>s. run_events (sync_step Debug plain_doc (\<lambda>c. False)) (fresh_sync ''me'')
     [Set_client, Sync_answer (Throw System_error), Timer_expired, Sync_answer (Ok (500, JNull))] = Ok s"
  by (rule sync_survives_errors[where es = "[Sync_answer (Throw System_error), Timer_expired,
        Sync_answer (Ok (500, JNull))]", THEN conjunct2, THEN mp])
    (simp_all add: plain_json_exceptions failed_def)

text \<open>A stop from a slot of \<open>on_sync\<close> does not end the loop there: another request is
  sent first, and the stop takes effect with its answer.\<close>

lemma stop_in_slot_polls_again:
  assumes "syncing True s" "stop_on c" "on_synced b J stop_on c (s\<lparr> http_sync_action := None \<rparr>) = (u, Ok ())"
  shows "\<exists>t. sync_step b J stop_on s (Sync_answer (Ok (200, c))) = Ok t \<and> syncing False t \<and>
    requests t = requests u @ [Get (make_sync_target (sync_till_stop_timeout u) u)]"
proof -
  from assms(1) obtain x where x: "loop_frame (True, False, True, Some x, True) s"
    by (auto simp: syncing_def)
  then have "loop_frame (True, False, True, None, True) (s\<lparr> http_sync_action := None \<rparr>)"
    by (simp add: loop_frame_def)
  from on_synced_frame[OF this assms(3)] assms(2)
  have "loop_frame (True, False, True, None, False) u" by auto
  with x assms(3) show ?thesis
    by (auto simp: loop_defs on_sync_till_stop_def handled_def prog_eval check_matrix_response_def
        do_sync_def send_def sassert_def boost_assert_def)
qed

text \<open>A stop is not complete when it has completed: the answer that ends the loop
  leaves the request recorded, so the next \<open>set\<close> stops a Debug build; a Release
  build starts over.\<close>
theorem stop_leaves_request:
  assumes "syncing False s"
  shows "\<exists>t. sync_step b J stop_on s (Sync_answer r) = Ok t \<and> \<not> attached t \<and>
      http_sync_action t = http_sync_action s \<and> http_sync_action t \<noteq> None \<and>
      sync_step Debug J stop_on t Set_client = Assert_failed \<and>
      (\<exists>u. sync_step Release J stop_on t Set_client = Ok u \<and> syncing True u)"
  using assms
  by (auto simp: loop_defs on_sync_till_stop_def on_stopped_def handled_def prog_eval set_client_def
      start_sync_def sync_till_stop_def do_sync_def send_def sassert_def boost_assert_def)

definition sample_stopped :: "json synchronizer" where
  "sample_stopped = (fresh_sync ''me'')\<lparr> attached := True, sync_till_stop_promise := True,
     http_sync_action := Some ''sync?timeout=30000'' \<rparr>"

lemma sample_stopped_syncing: "syncing False sample_stopped"
  by (simp add: sample_stopped_def loop_defs fresh_sync_def fresh_client_def client.defs)

lemma stop_leaves_request_witness:
  "\<exists>t. sync_step Debug plain_doc (\<lambda>c. False) sample_stopped (Sync_answer (Throw Operation_aborted)) = Ok t \<and>
     sync_step Debug plain_doc (\<lambda>c. False) t Set_client = Assert_failed"
  using stop_leaves_request[OF sample_stopped_syncing, of Debug plain_doc "\<lambda>c. False" "Throw Operation_aborted"]
  by blast


section \<open>A batch that cannot be handled\<close>

interpretation batch: client_store "\<lambda>s :: 'j synchronizer. sync_next_batch s = n" b "J :: ('t, 'j) json_doc"
  for n b J
  by unfold_locales (auto simp: emit_def update_user_def in_room_def split: prod.split)

text \<open>One event of a sync that cannot be read loses the rest of its batch: the
  position is advanced before the events are handled, so the retry after the timer
  asks for what follows the batch; what was handled up to the event stays.\<close>
theorem failed_batch_is_skipped:
  assumes "syncing True s" "const_at J c ''next_batch'' = Ok v" "json_to_string J v = Ok n"
    and "sthen (users_on_sync b J c) (rooms_on_sync b J c)
      (s\<lparr> http_sync_action := None, sync_next_batch := Some n \<rparr>) = (u, Throw e)"
    and "e \<noteq> Operation_aborted"
  shows "\<exists>t t'. sync_step b J stop_on s (Sync_answer (Ok (200, c))) = Ok t \<and>
      users t = users u \<and> rooms t = rooms u \<and>
      sync_step b J stop_on t Timer_expired = Ok t' \<and> syncing True t' \<and> rooms t' = rooms u \<and>
      last (requests t') = Get (''sync?timeout='' @ show_int 30000 @ ''&since='' @ n)"
proof -
  let ?s = "s\<lparr> http_sync_action := None, sync_next_batch := Some n \<rparr>"
  from assms(1) obtain x where x: "loop_frame (True, False, True, Some x, True) s"
    by (auto simp: syncing_def)
  then have fs: "loop_frame (True, False, True, None, True) ?s" by (simp add: loop_frame_def)
  have fu: "loop_frame (True, False, True, None, True) u"
    by (rule keeps_onD[OF frame.keeps_sync_slots fs assms(4)])
  have nu: "sync_next_batch u = Some n"
    by (rule keeps_onD[OF batch.keeps_sync_slots _ assms(4)]) simp
  have synced: "on_synced b J stop_on c (s\<lparr> http_sync_action := None \<rparr>) = (u, Throw e)"
    using assms(2-4)
    by (simp add: on_synced_def str_field_def field_def prog_eval split: prod.splits res.splits)
  let ?t = "u\<lparr> timer_waiting := True, sync_till_stop_promise := False, sync_till_stop_active := False,
    http_sync_action := None \<rparr>"
  have t: "sync_step b J stop_on s (Sync_answer (Ok (200, c))) = Ok ?t"
    using x fu synced assms(5)
    by (simp add: loop_defs on_sync_till_stop_def on_stopped_def handled_def prog_eval
        check_matrix_response_def sassert_def boost_assert_def)
  show ?thesis
    using t fu nu
    by (simp add: loop_defs timer_expired_def start_sync_def sync_till_stop_def do_sync_def send_def
        handled_def prog_eval sassert_def boost_assert_def make_sync_target_def default_sync_timeout_def)
qed

definition redacted_message :: json where
  "redacted_message = JObject [(''type'', JString ''m.room.message''), (''origin_server_ts'', JInt 7),
     (''sender'', JString ''u''), (''event_id'', JString ''e1''), (''content'', JObject [])]"

definition text_message :: json where
  "text_message = JObject [(''type'', JString ''m.room.message''), (''origin_server_ts'', JInt 8),
     (''sender'', JString ''u''), (''event_id'', JString ''e2''),
     (''content'', JObject [(''msgtype'', JString ''m.text''), (''body'', JString ''hi'')])]"

definition sample_syncing :: "json synchronizer" where
  "sample_syncing = sample_stopped\<lparr> sync_till_stop_active := True \<rparr>"

lemmas room_eval = on_event_def parse_event_def parse_room_message_def parse_room_event_def
  get_or_add_user_def find_user_def chat_sync_event_def chat_on_message_def update_cur_def

lemma failed_batch_is_skipped_witness:
  "\<exists>t t'. sync_step Debug plain_doc (\<lambda>c. False) sample_syncing
       (Sync_answer (Ok (200, sample_sync [redacted_message, text_message]))) = Ok t \<and>
     sync_step Debug plain_doc (\<lambda>c. False) t Timer_expired = Ok t' \<and>
     map messages (rooms t') = [[]] \<and>
     last (requests t') = Get (''sync?timeout='' @ show_int 30000 @ ''&since=n1'')"
proof -
  let ?c = "sample_sync [redacted_message, text_message]"
  let ?s = "sample_syncing\<lparr> http_sync_action := None, sync_next_batch := Some ''n1'' \<rparr>"
  have c: "const_at plain_doc ?c ''next_batch'' = Ok (JString ''n1'')"
    "json_to_string plain_doc (JString ''n1'') = Ok ''n1''"
    by (simp_all add: sample_sync_def plain_doc_def)
  have u: "\<exists>u. sthen (users_on_sync Debug plain_doc ?c) (rooms_on_sync Debug plain_doc ?c) ?s
      = (u, Throw Json_error) \<and> map messages (rooms u) = [[]]"
    by (simp add: sync_eval room_eval sample_sync_def redacted_message_def sample_syncing_def sample_stopped_def)
  have s: "syncing True sample_syncing"
    by (simp add: sample_syncing_def sample_stopped_def loop_defs fresh_sync_def fresh_client_def client.defs)
  from u show ?thesis
  proof (elim exE conjE)
    fix u assume u: "sthen (users_on_sync Debug plain_doc ?c) (rooms_on_sync Debug plain_doc ?c) ?s
      = (u, Throw Json_error)" "map messages (rooms u) = [[]]"
    have "Json_error \<noteq> Operation_aborted" by simp
    from failed_batch_is_skipped[OF s c u(1) this, of "\<lambda>c. False"] show ?thesis
    proof (elim exE conjE)
      fix t t'
      assume "sync_step Debug plain_doc (\<lambda>c. False) sample_syncing (Sync_answer (Ok (200, ?c))) = Ok t"
        "sync_step Debug plain_doc (\<lambda>c. False) t Timer_expired = Ok t'" "rooms t' = rooms u"
        "last (requests t') = Get (''sync?timeout='' @ show_int 30000 @ ''&since='' @ ''n1'')"
      with u(2) show ?thesis by (intro exI[of _ t] exI[of _ t'] conjI) simp_all
    qed
  qed
qed

end
