(* ===== verification/Temporary_Rooms.thy ===== *)
theory Temporary_Rooms
  imports Matrix_Client "HOL-Library.AList" "HOL-Library.Multiset"
begin

text \<open>
  The temporary-room server: rooms that exist as long as somebody is in them
  (rooms/rooms.cpp, server/matrix\_rooms\_factory\_adapter.cpp, net/server.cpp,
  net/acceptor.cpp and net/client.cpp in src/fubble/temporary\_room).

  Rooms are kept by their normalised name. A request is a promise, numbered in the
  order of the requests; \<open>invites\<close> are the invitations whose answer is awaited and
  \<open>answered\<close> the promises that were completed, a \<open>None\<close> standing for the broken
  promise of a destroyed participant.
\<close>

section \<open>Names\<close>

definition is_space :: "char \<Rightarrow> bool" where
  "is_space c \<longleftrightarrow> c = CHR '' '' \<or> (9 \<le> (of_char c :: nat) \<and> (of_char c :: nat) \<le> 13)"

definition lower :: "char \<Rightarrow> char" where
  "lower c = (if 65 \<le> (of_char c :: nat) \<and> (of_char c :: nat) \<le> 90
     then char_of ((of_char c :: nat) + 32) else c)"

definition remove_whitespaces_and_lower_case :: "string \<Rightarrow> string" where
  "remove_whitespaces_and_lower_case s = map lower (filter (\<lambda>c. \<not> is_space c) s)"

lemma of_char_lower:
  "(of_char (lower c) :: nat) = (if 65 \<le> (of_char c :: nat) \<and> (of_char c :: nat) \<le> 90
     then of_char c + 32 else of_char c)"
  by (auto simp: lower_def of_char_of)

lemma lower_lower [simp]: "lower (lower c) = lower c"
  unfolding lower_def[of "lower c"] of_char_lower by auto

lemma is_space_lower [simp]: "is_space (lower c) = is_space c"
proof -
  have "(of_char (CHR '' '') :: nat) = 32" by simp
  then have "c = CHR '' '' \<longleftrightarrow> (of_char c :: nat) = 32" for c
    using of_char_eq_iff[of c "CHR '' ''"] by metis
  then show ?thesis
    unfolding is_space_def by (auto simp: of_char_lower split: if_splits)
qed

lemma normal_idem [simp]:
  "remove_whitespaces_and_lower_case (remove_whitespaces_and_lower_case s)
   = remove_whitespaces_and_lower_case s"
  by (simp add: remove_whitespaces_and_lower_case_def filter_map comp_def)


section \<open>Rooms\<close>

record hosted_room =
  hosted_id :: string
  hosted_name :: string

record waiting_participant =
  promise :: nat
  participant_user_id :: string

record room_adapter =
  adapter_room :: "hosted_room option"
  waiting_for_room :: "waiting_participant list"

record temporary_rooms =
  entries :: "(string \<times> room_adapter) list"
  next_promise :: nat
  created :: "string list"
  invites :: "(waiting_participant \<times> hosted_room) list"
  answered :: "(nat \<times> string res option) list"
  room_counts :: "nat list"

definition no_rooms :: temporary_rooms where
  "no_rooms = \<lparr> entries = [], next_promise = 0, created = [], invites = [], answered = [], room_counts = [] \<rparr>"

definition on_room_count_changed :: "temporary_rooms \<Rightarrow> temporary_rooms" where
  "on_room_count_changed s = s\<lparr> room_counts := room_counts s @ [length (entries s)] \<rparr>"

definition create :: "string \<Rightarrow> temporary_rooms \<Rightarrow> temporary_rooms" where
  "create name s = s\<lparr> created := created s @ [name] \<rparr>"

definition invite :: "waiting_participant \<Rightarrow> hosted_room \<Rightarrow> temporary_rooms \<Rightarrow> temporary_rooms" where
  "invite p r s = s\<lparr> invites := invites s @ [(p, r)] \<rparr>"

definition get_or_create_room_id :: "string \<Rightarrow> string \<Rightarrow> temporary_rooms \<Rightarrow> temporary_rooms" where
  "get_or_create_room_id name_fix user s =
     (let name = remove_whitespaces_and_lower_case name_fix;
          add = \<lparr> promise = next_promise s, participant_user_id = user \<rparr>;
          s = s\<lparr> next_promise := Suc (next_promise s) \<rparr> in
      case map_of (entries s) name of
        None \<Rightarrow> on_room_count_changed (create name (s\<lparr> entries := AList.update name
            \<lparr> adapter_room = None, waiting_for_room = [add] \<rparr> (entries s) \<rparr>))
      | Some a \<Rightarrow>
          (case adapter_room a of
             Some r \<Rightarrow> invite add r s
           | None \<Rightarrow> s\<lparr> entries := AList.update name
               (a\<lparr> waiting_for_room := waiting_for_room a @ [add] \<rparr>) (entries s) \<rparr>))"

definition on_room :: "build \<Rightarrow> hosted_room \<Rightarrow> temporary_rooms \<Rightarrow> temporary_rooms res" where
  "on_room b r s =
     (let name = hosted_name r in
      rbind (boost_assert b (name \<noteq> [])) (\<lambda>u.
      let a = (case map_of (entries s) name of Some a \<Rightarrow> a
               | None \<Rightarrow> \<lparr> adapter_room = None, waiting_for_room = [] \<rparr>);
          s = foldl (\<lambda>s p. invite p r s) s (waiting_for_room a) in
      Ok (s\<lparr> entries := AList.update name
        \<lparr> adapter_room = Some r, waiting_for_room = [] \<rparr> (entries s) \<rparr>)))"

text \<open>Erasing the entry destroys the participants that wait in it, and with them
  their promises.\<close>

definition on_empty :: "build \<Rightarrow> string \<Rightarrow> temporary_rooms \<Rightarrow> temporary_rooms res" where
  "on_empty b name s =
     (case map_of (entries s) name of
        None \<Rightarrow> rbind (boost_assert b False) (\<lambda>u. Ok s)
      | Some a \<Rightarrow> rbind (boost_assert b (waiting_for_room a = [])) (\<lambda>u.
          Ok (on_room_count_changed (s\<lparr> entries := AList.delete name (entries s),
            answered := answered s @ map (\<lambda>p. (promise p, None)) (waiting_for_room a) \<rparr>))))"

definition on_invited :: "nat \<Rightarrow> unit res \<Rightarrow> temporary_rooms \<Rightarrow> temporary_rooms" where
  "on_invited n result s =
     (if n < length (invites s) then
        (case invites s ! n of (p, r) \<Rightarrow> s\<lparr> invites := erase_at n (invites s),
          answered := answered s @ [(promise p, Some (rbind result (\<lambda>u. Ok (hosted_id r))))] \<rparr>)
      else s)"

datatype rooms_event =
    Request string string
  | Room hosted_room
  | Emptied string
  | Invited_answer nat "unit res"

fun rooms_step :: "build \<Rightarrow> temporary_rooms \<Rightarrow> rooms_event \<Rightarrow> temporary_rooms res" where
  "rooms_step b s (Request name user) = Ok (get_or_create_room_id name user s)"
| "rooms_step b s (Room r) = on_room b r s"
| "rooms_step b s (Emptied name) = on_empty b name s"
| "rooms_step b s (Invited_answer n result) = Ok (on_invited n result s)"


section \<open>The matrix room behind a hosted room\<close>

text \<open>\<open>tracked\<close> pairs each tracked participant with the state it has in the matrix
  room; \<open>empty_callback\<close> is the function the rooms install, by the name it captures.\<close>

record matrix_adapter =
  own_user_id :: string
  tracked :: "(string \<times> join_state) list"
  empty_callback :: "string option"
  emptied_calls :: "string list"
  kicked :: "string list"

definition is_empty :: "matrix_adapter \<Rightarrow> bool" where
  "is_empty a \<longleftrightarrow> length (filter (\<lambda>(i, js). js \<noteq> Left) (tracked a)) = 0"

definition check_and_call_participant_count_changed :: "matrix_adapter \<Rightarrow> matrix_adapter res" where
  "check_and_call_participant_count_changed a =
     (if is_empty a then
        (case empty_callback a of None \<Rightarrow> Throw Runtime_error
         | Some name \<Rightarrow> Ok (a\<lparr> emptied_calls := emptied_calls a @ [name] \<rparr>))
      else Ok a)"

definition adapter_on_join :: "string \<Rightarrow> join_state \<Rightarrow> matrix_adapter \<Rightarrow> matrix_adapter res" where
  "adapter_on_join i js a =
     (if i = own_user_id a then Ok a
      else check_and_call_participant_count_changed (a\<lparr> tracked := tracked a @ [(i, js)] \<rparr>))"

definition adapter_on_join_state_changed :: "string \<Rightarrow> join_state \<Rightarrow> matrix_adapter \<Rightarrow> matrix_adapter res" where
  "adapter_on_join_state_changed i js a =
     check_and_call_participant_count_changed
       (a\<lparr> tracked := map_first (\<lambda>(k, x). k = i) (\<lambda>(k, x). (k, js)) (tracked a) \<rparr>)"

definition adapter_on_update :: "string \<Rightarrow> presence \<Rightarrow> matrix_adapter \<Rightarrow> matrix_adapter" where
  "adapter_on_update i p a =
     (if p \<noteq> Offline then a else a\<lparr> kicked := kicked a @ [i] \<rparr>)"

definition adapter_room_name :: "build \<Rightarrow> 'j room \<Rightarrow> string res" where
  "adapter_room_name b r =
     (case room_name r of Some n \<Rightarrow> Ok n
      | None \<Rightarrow> rbind (boost_assert b False) (\<lambda>u. Undefined))"

text \<open>A matrix room that appears is handed on at once if it has a name, and
  otherwise with every change of its name.\<close>

definition on_room_joined :: "build \<Rightarrow> 'j room \<Rightarrow> temporary_rooms \<Rightarrow> temporary_rooms res" where
  "on_room_joined b r s =
     (case room_name r of None \<Rightarrow> Ok s
      | Some n \<Rightarrow> rbind (adapter_room_name b r) (\<lambda>n.
          on_room b \<lparr> hosted_id = room_id r, hosted_name = n \<rparr> s))"

definition name_changed :: "build \<Rightarrow> 'j room \<Rightarrow> temporary_rooms \<Rightarrow> temporary_rooms res" where
  "name_changed b r s = rbind (adapter_room_name b r) (\<lambda>n.
     on_room b \<lparr> hosted_id = room_id r, hosted_name = n \<rparr> s)"


section \<open>The HTTP front\<close>

text \<open>The requests of \<open>client::join\<close> and what the server makes of them.\<close>

definition join_request :: "('t, 'j) json_doc \<Rightarrow> string \<Rightarrow> string \<Rightarrow> 'j request" where
  "join_request J name user = Put ''join'' (json_object J
     [(''user_id'', json_of_string J user), (''room_name'', json_of_string J name)])"

definition join_done :: "('t, 'j) json_doc \<Rightarrow> 'j answer \<Rightarrow> string res" where
  "join_done J r = rbind r (\<lambda>(code, j).
     if code \<noteq> 200 then Throw Response_error
     else rbind (json_at J j ''room_id'') (json_to_string J))"

definition on_request :: "('t, 'j) json_doc \<Rightarrow> string \<Rightarrow> 'j \<Rightarrow> (string \<times> string) res" where
  "on_request J target request =
     (if target \<noteq> ''join'' \<and> target \<noteq> ''/join'' then Throw Runtime_error
      else rbind (const_at J request ''user_id'') (\<lambda>v. rbind (json_to_string J v) (\<lambda>user.
           rbind (const_at J request ''room_name'') (\<lambda>v. rbind (json_to_string J v) (\<lambda>name.
           Ok (name, user))))))"

definition join_response :: "('t, 'j) json_doc \<Rightarrow> string res \<Rightarrow> 'j res" where
  "join_response J r = rbind r (\<lambda>i. Ok (json_object J [(''room_id'', json_of_string J i)]))"

datatype phase = Reading | Handling | Writing | Finished

record 'j http_connection =
  phase :: phase
  calls :: "(string \<times> string) list"
  responses :: "(nat \<times> 'j) list"
  outcome :: "unit res list"

datatype io_error = No_error | End_of_stream | Other_error

definition start_connection :: "'j http_connection" where
  "start_connection = \<lparr> phase = Reading, calls = [], responses = [], outcome = [] \<rparr>"

fun check_error :: "io_error \<Rightarrow> 'j http_connection \<Rightarrow> 'j http_connection option" where
  "check_error No_error c = None"
| "check_error End_of_stream c = Some (c\<lparr> phase := Finished, outcome := outcome c @ [Ok ()] \<rparr>)"
| "check_error Other_error c = Some (c\<lparr> phase := Finished, outcome := outcome c @ [Throw System_error] \<rparr>)"

definition send_error :: "('t, 'j) json_doc \<Rightarrow> string \<Rightarrow> 'j http_connection \<Rightarrow> 'j http_connection" where
  "send_error J what c = c\<lparr> phase := Writing,
     responses := responses c @ [(500, json_object J [(''description'', json_of_string J what)])] \<rparr>"

text \<open>A request as it was read: its target and its body, absent if empty.\<close>

definition on_got_request ::
  "('t, 'j) json_doc \<Rightarrow> (exn \<Rightarrow> string) \<Rightarrow> string \<Rightarrow> 't option \<Rightarrow> 'j http_connection \<Rightarrow> 'j http_connection res" where
  "on_got_request J what target body c =
     (case rbind (case body of None \<Rightarrow> Throw Runtime_error | Some t \<Rightarrow> json_parse J t) (on_request J target) of
        Ok call \<Rightarrow> Ok (c\<lparr> phase := Handling, calls := calls c @ [call] \<rparr>)
      | Throw e \<Rightarrow> Ok (send_error J (what e) c)
      | Assert_failed \<Rightarrow> Assert_failed | Undefined \<Rightarrow> Undefined)"

definition on_got_response ::
  "('t, 'j) json_doc \<Rightarrow> (exn \<Rightarrow> string) \<Rightarrow> string res \<Rightarrow> 'j http_connection \<Rightarrow> 'j http_connection res" where
  "on_got_response J what r c =
     (case join_response J r of
        Ok j \<Rightarrow> Ok (c\<lparr> phase := Writing, responses := responses c @ [(200, j)] \<rparr>)
      | Throw e \<Rightarrow> Ok (send_error J (what e) c)
      | Assert_failed \<Rightarrow> Assert_failed | Undefined \<Rightarrow> Undefined)"

datatype 't connection_event =
    Read_done io_error string "'t option"
  | Response_ready "string res"
  | Write_done io_error

definition read_done ::
  "('t, 'j) json_doc \<Rightarrow> (exn \<Rightarrow> string) \<Rightarrow> io_error \<Rightarrow> string \<Rightarrow> 't option \<Rightarrow> 'j http_connection \<Rightarrow>
   'j http_connection res" where
  "read_done J what e target body c =
     (case check_error e c of Some c' \<Rightarrow> Ok c' | None \<Rightarrow> on_got_request J what target body c)"

definition write_done :: "io_error \<Rightarrow> 'j http_connection \<Rightarrow> 'j http_connection" where
  "write_done e c = (case check_error e c of Some c' \<Rightarrow> c' | None \<Rightarrow> c\<lparr> phase := Reading \<rparr>)"

fun connection_step ::
  "('t, 'j) json_doc \<Rightarrow> (exn \<Rightarrow> string) \<Rightarrow> 'j http_connection \<Rightarrow> 't connection_event \<Rightarrow> 'j http_connection res" where
  "connection_step J what c (Read_done e target body) =
     (if phase c \<noteq> Reading then Ok c else read_done J what e target body c)"
| "connection_step J what c (Response_ready r) =
     (if phase c \<noteq> Handling then Ok c else on_got_response J what r c)"
| "connection_step J what c (Write_done e) =
     (if phase c \<noteq> Writing then Ok c else Ok (write_done e c))"

text \<open>The acceptor in front of the connections. \<open>run_outcomes\<close> is what its promise
  was completed with, \<open>accepting\<close> tells that an accept is out.\<close>

record acceptor =
  listening :: bool
  run_promise :: bool
  accepting :: bool
  sessions :: nat
  run_outcomes :: "unit res list"

definition listen :: "acceptor \<Rightarrow> acceptor" where
  "listen a = (if listening a then a else a\<lparr> listening := True \<rparr>)"

definition accept_next :: "acceptor \<Rightarrow> acceptor" where
  "accept_next a = a\<lparr> accepting := True \<rparr>"

definition acceptor_run :: "build \<Rightarrow> acceptor \<Rightarrow> acceptor res" where
  "acceptor_run b a =
     (let a = listen a in
      rbind (boost_assert b (\<not> run_promise a)) (\<lambda>u. Ok (accept_next (a\<lparr> run_promise := True \<rparr>))))"

definition do_session :: "acceptor \<Rightarrow> acceptor" where
  "do_session a = a\<lparr> sessions := Suc (sessions a) \<rparr>"

definition accept_done :: "exn option \<Rightarrow> acceptor \<Rightarrow> acceptor res" where
  "accept_done e a =
     (case e of
        None \<Rightarrow> Ok (accept_next (do_session (a\<lparr> accepting := False \<rparr>)))
      | Some x \<Rightarrow>
          if \<not> run_promise a then Undefined
          else Ok (a\<lparr> accepting := False, run_promise := False, run_outcomes := run_outcomes a @
            [if x = Operation_aborted then Ok () else Throw x] \<rparr>))"

definition destroy_acceptor :: "acceptor \<Rightarrow> acceptor" where
  "destroy_acceptor a =
     (if \<not> run_promise a then a else a\<lparr> run_promise := False, run_outcomes := run_outcomes a @ [Ok ()] \<rparr>)"


section \<open>Every request is accounted for\<close>

definition waiting_ids :: "(string \<times> room_adapter) list \<Rightarrow> nat list" where
  "waiting_ids es = concat (map (\<lambda>(n, a). map promise (waiting_for_room a)) es)"

definition invited_ids :: "(waiting_participant \<times> hosted_room) list \<Rightarrow> nat multiset" where
  "invited_ids is = mset (map (\<lambda>i. promise (fst i)) is)"

definition answered_ids :: "(nat \<times> string res option) list \<Rightarrow> nat multiset" where
  "answered_ids as = mset (map fst as)"

definition all_promises :: "temporary_rooms \<Rightarrow> nat multiset" where
  "all_promises s = mset (waiting_ids (entries s)) + invited_ids (invites s) + answered_ids (answered s)"

text \<open>A room that exists has nobody waiting for it.\<close>

definition settled :: "(string \<times> room_adapter) list \<Rightarrow> bool" where
  "settled es \<longleftrightarrow> (\<forall>e \<in> set es. adapter_room (snd e) \<noteq> None \<longrightarrow> waiting_for_room (snd e) = [])"

definition rooms_inv :: "temporary_rooms \<Rightarrow> bool" where
  "rooms_inv s \<longleftrightarrow> distinct (map fst (entries s)) \<and>
     settled (entries s) \<and> all_promises s = mset [0 ..< next_promise s]"

lemma waiting_update_new:
  "map_of es n = None \<Longrightarrow>
   mset (waiting_ids (AList.update n a es)) = mset (waiting_ids es) + mset (map promise (waiting_for_room a))"
  by (induction es) (auto simp: waiting_ids_def split: if_splits)

lemma waiting_update_old:
  "map_of es n = Some a0 \<Longrightarrow>
   mset (waiting_ids (AList.update n a es)) + mset (map promise (waiting_for_room a0))
     = mset (waiting_ids es) + mset (map promise (waiting_for_room a))"
proof (induction es)
  case Nil
  then show ?case by simp
next
  case (Cons e es)
  then show ?case
    by (cases e) (auto simp: waiting_ids_def split: if_splits)
qed

lemma waiting_delete:
  "map_of es n = Some a \<Longrightarrow> distinct (map fst es) \<Longrightarrow>
   mset (waiting_ids (AList.delete n es)) + mset (map promise (waiting_for_room a)) = mset (waiting_ids es)"
proof (induction es)
  case Nil
  then show ?case by simp
next
  case (Cons e es)
  obtain k x where e: "e = (k, x)" by (cases e)
  show ?case
  proof (cases "k = n")
    case True
    with Cons.prems e have "n \<notin> fst ` set es" by auto
    then have "AList.delete n es = es" by (simp add: AList.delete_id)
    with True Cons.prems e show ?thesis by (simp add: waiting_ids_def AList.delete_eq)
  next
    case False
    with Cons e show ?thesis by (auto simp: waiting_ids_def AList.delete_eq)
  qed
qed

lemma settled_update:
  "settled es \<Longrightarrow> adapter_room a \<noteq> None \<longrightarrow> waiting_for_room a = [] \<Longrightarrow> settled (AList.update k a es)"
  unfolding settled_def by (induction es) auto

lemma settled_delete: "settled es \<Longrightarrow> settled (AList.delete k es)"
  by (auto simp: settled_def AList.delete_eq)

lemma ids_append [simp]:
  "invited_ids (is @ is') = invited_ids is + invited_ids is'"
  "answered_ids (as @ as') = answered_ids as + answered_ids as'"
  by (simp_all add: invited_ids_def answered_ids_def)

lemma ids_of_waiting [simp]:
  "invited_ids (map (\<lambda>p. (p, r)) ps) = mset (map promise ps)"
  "answered_ids (map (\<lambda>p. (promise p, None)) ps) = mset (map promise ps)"
  "invited_ids [(p, r)] = {#promise p#}" "answered_ids [(n, x)] = {#n#}"
  by (simp_all add: invited_ids_def answered_ids_def comp_def)

lemma mset_erase_at: "n < length xs \<Longrightarrow> mset (erase_at n xs) + {#xs ! n#} = mset xs"
  by (subst (3) erase_at_split[of n xs]) (simp_all add: erase_at_def)

lemma invited_erase:
  "n < length is \<Longrightarrow> invited_ids (erase_at n is) + {#promise (fst (is ! n))#} = invited_ids is"
  using mset_erase_at[of n "map (\<lambda>i. promise (fst i)) is"]
  by (simp add: invited_ids_def map_erase_at del: mset_map)

lemma fold_invite_simps [simp]:
  "entries (foldl (\<lambda>s p. invite p r s) s ps) = entries s"
  "next_promise (foldl (\<lambda>s p. invite p r s) s ps) = next_promise s"
  "answered (foldl (\<lambda>s p. invite p r s) s ps) = answered s"
  "created (foldl (\<lambda>s p. invite p r s) s ps) = created s"
  "invites (foldl (\<lambda>s p. invite p r s) s ps) = invites s @ map (\<lambda>p. (p, r)) ps"
  by (induction ps arbitrary: s) (auto simp: invite_def)

lemma rooms_invI:
  assumes "rooms_inv s" "distinct (map fst (entries t))" "settled (entries t)"
    and "all_promises t = all_promises s + mset [next_promise s ..< next_promise t]"
    and "next_promise s \<le> next_promise t"
  shows "rooms_inv t"
  using assms upt_add_eq_append[of 0 "next_promise s" "next_promise t - next_promise s"]
  by (simp add: rooms_inv_def del: mset_upt)

lemma request_inv:
  assumes inv: "rooms_inv s"
  shows "rooms_inv (get_or_create_room_id name user s)"
proof -
  let ?n = "remove_whitespaces_and_lower_case name"
  let ?add = "\<lparr> promise = next_promise s, participant_user_id = user \<rparr>"
  from inv have keys: "distinct (map fst (entries s))" and settled: "settled (entries s)"
    by (simp_all add: rooms_inv_def)
  show ?thesis
  proof (cases "map_of (entries s) ?n")
    case None
    let ?a = "\<lparr> adapter_room = None, waiting_for_room = [?add] \<rparr>"
    from None waiting_update_new[OF None, of ?a] keys settled show ?thesis
      by (intro rooms_invI[OF inv])
        (simp_all add: get_or_create_room_id_def Let_def create_def on_room_count_changed_def
          all_promises_def AList.distinct_update settled_update)
  next
    case some: (Some a)
    show ?thesis
    proof (cases "adapter_room a")
      case None
      let ?a = "a\<lparr> waiting_for_room := waiting_for_room a @ [?add] \<rparr>"
      from waiting_update_old[OF some, of ?a] some None keys settled show ?thesis
        by (intro rooms_invI[OF inv])
          (simp_all add: get_or_create_room_id_def Let_def all_promises_def AList.distinct_update settled_update)
    next
      case (Some r)
      with some keys settled show ?thesis
        by (intro rooms_invI[OF inv])
          (simp_all add: get_or_create_room_id_def Let_def all_promises_def invite_def)
    qed
  qed
qed

lemma on_room_inv:
  assumes inv: "rooms_inv s" and "on_room b r s = Ok t"
  shows "rooms_inv t"
proof -
  let ?n = "hosted_name r" and ?new = "\<lparr> adapter_room = Some r, waiting_for_room = [] \<rparr>"
  let ?ws = "case map_of (entries s) ?n of None \<Rightarrow> [] | Some a \<Rightarrow> waiting_for_room a"
  have t: "t = (foldl (\<lambda>s p. invite p r s) s ?ws)\<lparr> entries := AList.update ?n ?new (entries s) \<rparr>"
    using assms(2) by (auto simp: on_room_def Let_def res_simps split: option.splits)
  have w: "mset (waiting_ids (AList.update ?n ?new (entries s))) + mset (map promise ?ws)
      = mset (waiting_ids (entries s))"
    using waiting_update_new[of "entries s" ?n ?new] waiting_update_old[of "entries s" ?n _ ?new]
    by (auto split: option.split)
  from inv show ?thesis
    by (intro rooms_invI[OF inv])
      (simp_all add: t all_promises_def w[symmetric] ac_simps rooms_inv_def AList.distinct_update settled_update)
qed

lemma on_empty_inv:
  assumes inv: "rooms_inv s" and "on_empty b name s = Ok t"
  shows "rooms_inv t"
proof (cases "map_of (entries s) name")
  case None
  with assms show ?thesis by (auto simp: on_empty_def res_simps)
next
  case (Some a)
  have t: "t = on_room_count_changed (s\<lparr> entries := AList.delete name (entries s),
      answered := answered s @ map (\<lambda>p. (promise p, None)) (waiting_for_room a) \<rparr>)"
    using assms(2) Some by (auto simp: on_empty_def res_simps)
  from inv have keys: "distinct (map fst (entries s))" and settled: "settled (entries s)"
    by (simp_all add: rooms_inv_def)
  show ?thesis
    by (intro rooms_invI[OF inv])
      (simp_all add: t all_promises_def on_room_count_changed_def AList.distinct_delete keys settled
        settled_delete waiting_delete[OF Some keys, symmetric] ac_simps)
qed

lemma on_invited_inv:
  assumes inv: "rooms_inv s"
  shows "rooms_inv (on_invited n result s)"
proof (cases "n < length (invites s)")
  case True
  obtain p r where "invites s ! n = (p, r)" by (cases "invites s ! n")
  moreover from inv have "distinct (map fst (entries s))" "settled (entries s)"
    by (simp_all add: rooms_inv_def)
  ultimately show ?thesis
    using True by (intro rooms_invI[OF inv])
      (simp_all add: on_invited_def all_promises_def invited_erase[OF True, symmetric])
next
  case False
  with inv show ?thesis by (simp add: on_invited_def)
qed

interpretation temporary: state_machine "rooms_step b" rooms_inv for b
proof
  fix s e t
  assume "rooms_inv s" "rooms_step b s e = Ok t"
  then show "rooms_inv t"
    by (cases e) (auto intro: request_inv on_room_inv on_empty_inv on_invited_inv)
qed

lemma invite_simps:
  "entries (invite p r s) = entries s" "next_promise (invite p r s) = next_promise s"
  "answered (invite p r s) = answered s" "created (invite p r s) = created s"
  "invites (invite p r s) = invites s @ [(p, r)]"
  by (simp_all add: invite_def)

lemma no_broken_promise_step:
  "rooms_step Debug s e = Ok t \<Longrightarrow> None \<notin> snd ` set (answered s) \<Longrightarrow> None \<notin> snd ` set (answered t)"
  by (cases e) (auto simp: get_or_create_room_id_def Let_def create_def on_room_count_changed_def invite_simps
      on_room_def on_empty_def on_invited_def res_simps boost_assert_def split: option.splits if_splits prod.splits)

lemma no_broken_promise:
  "run_events (rooms_step Debug) s es = Ok t \<Longrightarrow> None \<notin> snd ` set (answered s) \<Longrightarrow>
   None \<notin> snd ` set (answered t)"
  by (induction es arbitrary: s) (auto simp: res_simps dest: no_broken_promise_step)

lemma no_rooms_inv: "rooms_inv no_rooms"
  by (simp add: rooms_inv_def no_rooms_def settled_def all_promises_def waiting_ids_def invited_ids_def
      answered_ids_def)

text \<open>Over any run every request is in exactly one place: it waits for its room,
  its invitation is out, or its promise is completed. With assertions on no promise
  is ever broken by the removal of a room.\<close>
theorem every_request_accounted:
  assumes "run_events (rooms_step b) no_rooms es = Ok s"
  shows "mset (waiting_ids (entries s) @ map (\<lambda>i. promise (fst i)) (invites s) @ map fst (answered s))
      = mset [0 ..< next_promise s] \<and>
    (b = Debug \<longrightarrow> None \<notin> snd ` set (answered s))"
proof -
  have "rooms_inv s" by (rule temporary.run_inv[OF no_rooms_inv assms])
  then have "mset (waiting_ids (entries s) @ map (\<lambda>i. promise (fst i)) (invites s) @ map fst (answered s))
      = mset [0 ..< next_promise s]"
    by (simp add: rooms_inv_def all_promises_def invited_ids_def answered_ids_def ac_simps)
  moreover have "None \<notin> snd ` set (answered s)" if "b = Debug"
    using no_broken_promise[of no_rooms es s] assms that by (simp add: no_rooms_def)
  ultimately show ?thesis by blast
qed

lemmas rooms_eval = get_or_create_room_id_def on_room_def on_empty_def on_invited_def create_def invite_def
  on_room_count_changed_def no_rooms_def erase_at_def boost_assert_def Let_def

lemma sample_names:
  "remove_whitespaces_and_lower_case ''My Room'' = ''myroom''"
  "remove_whitespaces_and_lower_case ''myroom'' = ''myroom''"
  "remove_whitespaces_and_lower_case ''MYROOM'' = ''myroom''"
  by code_simp+

lemma sample_rooms_run:
  "\<exists>s. run_events (rooms_step Debug) no_rooms
     [Request ''My Room'' ''u1'', Request ''myroom'' ''u2'',
      Room \<lparr> hosted_id = ''r'', hosted_name = ''myroom'' \<rparr>, Invited_answer 0 (Ok ())] = Ok s"
  by (rule res_caseD[where P = "\<lambda>s. True", simplified])
    (simp add: rooms_eval sample_names)

lemma every_request_accounted_witness:
  "\<exists>s. run_events (rooms_step Debug) no_rooms
     [Request ''My Room'' ''u1'', Request ''myroom'' ''u2'',
      Room \<lparr> hosted_id = ''r'', hosted_name = ''myroom'' \<rparr>, Invited_answer 0 (Ok ())] = Ok s \<and>
     None \<notin> snd ` set (answered s)"
  using sample_rooms_run every_request_accounted[of Debug] by blast


section \<open>Waiting for a room\<close>

definition waits :: "string \<Rightarrow> waiting_participant list \<Rightarrow> temporary_rooms \<Rightarrow> bool" where
  "waits n ps s \<longleftrightarrow> map_of (entries s) n = Some \<lparr> adapter_room = None, waiting_for_room = ps \<rparr>"

lemma map_of_update: "map_of (AList.update k v al) j = (if j = k then Some v else map_of al j)"
  by (simp add: AList.update_conv)

lemma request_waits:
  assumes "waits n ps s" "remove_whitespaces_and_lower_case name = n"
  shows "waits n (ps @ [\<lparr> promise = next_promise s, participant_user_id = user \<rparr>])
      (get_or_create_room_id name user s) \<and>
    created (get_or_create_room_id name user s) = created s \<and>
    invites (get_or_create_room_id name user s) = invites s"
  using assms by (simp add: waits_def get_or_create_room_id_def Let_def map_of_update)

text \<open>What the members of a group ask for, and the invitations that are sent over a
  run, by user and room in the order in which they are sent.\<close>

fun users_asking :: "string \<Rightarrow> rooms_event list \<Rightarrow> string list" where
  "users_asking n [] = []"
| "users_asking n (Request name user # es) =
     (if remove_whitespaces_and_lower_case name = n then user # users_asking n es else users_asking n es)"
| "users_asking n (e # es) = users_asking n es"

definition sent_by :: "temporary_rooms \<Rightarrow> temporary_rooms \<Rightarrow> (string \<times> hosted_room) list" where
  "sent_by s t = map (\<lambda>(p, x). (participant_user_id p, x)) (drop (length (invites s)) (invites t))"

fun invitations :: "build \<Rightarrow> temporary_rooms \<Rightarrow> rooms_event list \<Rightarrow> (string \<times> hosted_room) list" where
  "invitations b s [] = []"
| "invitations b s (e # es) =
     (case rooms_step b s e of Ok t \<Rightarrow> sent_by s t @ invitations b t es | _ \<Rightarrow> [])"

abbreviation to_room :: "string \<Rightarrow> (string \<times> hosted_room) list \<Rightarrow> (string \<times> hosted_room) list" where
  "to_room n xs \<equiv> filter (\<lambda>(u, x). hosted_name x = n) xs"

definition named :: "(string \<times> room_adapter) list \<Rightarrow> bool" where
  "named es \<longleftrightarrow> (\<forall>k a r. map_of es k = Some a \<longrightarrow> adapter_room a = Some r \<longrightarrow> hosted_name r = k)"

lemma named_update:
  "named es \<Longrightarrow> (\<And>r. adapter_room a = Some r \<Longrightarrow> hosted_name r = k) \<Longrightarrow> named (AList.update k a es)"
  by (auto simp: named_def map_of_update)

lemma named_delete: "named es \<Longrightarrow> named (AList.delete k es)"
  by (auto simp: named_def AList.delete_conv' split: if_splits)

lemma named_step:
  assumes "named (entries s)" "rooms_step b s e = Ok t"
  shows "named (entries t)"
proof (cases e)
  case (Request name user)
  with assms show ?thesis
    by (auto simp: get_or_create_room_id_def Let_def create_def on_room_count_changed_def invite_def
        intro!: named_update split: option.splits)
next
  case (Room r)
  with assms show ?thesis
    by (auto simp: on_room_def Let_def res_simps intro!: named_update split: option.splits)
next
  case (Emptied n)
  with assms show ?thesis
    by (auto simp: on_empty_def on_room_count_changed_def res_simps intro!: named_delete split: option.splits)
next
  case (Invited_answer k result)
  with assms show ?thesis by (auto simp: on_invited_def split: prod.splits)
qed

lemma named_run: "run_events (rooms_step b) s es = Ok t \<Longrightarrow> named (entries s) \<Longrightarrow> named (entries t)"
  by (induction es arbitrary: s) (auto simp: res_simps dest: named_step)

text \<open>Before its room has appeared a group is not known at all, or it waits.\<close>

definition gathering :: "string \<Rightarrow> nat \<Rightarrow> string list \<Rightarrow> temporary_rooms \<Rightarrow> bool" where
  "gathering n c us s \<longleftrightarrow>
     (us = [] \<and> map_of (entries s) n = None \<and> count_list (created s) n = c) \<or>
     (us \<noteq> [] \<and> (\<exists>ps. waits n ps s \<and> map participant_user_id ps = us) \<and> count_list (created s) n = Suc c)"

definition hosted :: "string \<Rightarrow> hosted_room \<Rightarrow> temporary_rooms \<Rightarrow> bool" where
  "hosted n r s \<longleftrightarrow> map_of (entries s) n = Some \<lparr> adapter_room = Some r, waiting_for_room = [] \<rparr>"

lemma sent_by_appended:
  "invites t = invites s @ xs \<Longrightarrow> sent_by s t = map (\<lambda>(p, x). (participant_user_id p, x)) xs"
  by (simp add: sent_by_def)

lemma sent_by_shrunk: "length (invites t) \<le> length (invites s) \<Longrightarrow> sent_by s t = []"
  by (simp add: sent_by_def)

lemma request_asks_other:
  assumes "named (entries s)" "remove_whitespaces_and_lower_case name \<noteq> n"
  shows "map_of (entries (get_or_create_room_id name user s)) n = map_of (entries s) n"
    and "count_list (created (get_or_create_room_id name user s)) n = count_list (created s) n"
    and "to_room n (sent_by s (get_or_create_room_id name user s)) = []"
proof -
  let ?t = "get_or_create_room_id name user s"
  show "map_of (entries ?t) n = map_of (entries s) n" "count_list (created ?t) n = count_list (created s) n"
    using assms(2) by (auto simp: get_or_create_room_id_def Let_def map_of_update create_def
        on_room_count_changed_def invite_def count_list_append split: option.splits)
  have "\<exists>xs. invites ?t = invites s @ xs \<and> (\<forall>x \<in> set xs. hosted_name (snd x) \<noteq> n)"
    using assms by (auto simp: get_or_create_room_id_def Let_def create_def on_room_count_changed_def
        invite_def named_def split: option.splits)
  then show "to_room n (sent_by s ?t) = []"
    by (fastforce simp: sent_by_appended filter_empty_conv)
qed

lemma other_event:
  assumes "named (entries s)" "rooms_step b s e = Ok t" "users_asking n [e] = []"
    and "\<forall>r. e = Room r \<longrightarrow> hosted_name r \<noteq> n" "e \<noteq> Emptied n"
  shows "map_of (entries t) n = map_of (entries s) n \<and>
    count_list (created t) n = count_list (created s) n \<and> to_room n (sent_by s t) = []"
proof (cases e)
  case (Request name user)
  with assms request_asks_other[of s name n user] show ?thesis by (auto split: if_splits)
next
  case (Room r)
  have "\<exists>xs. invites t = invites s @ xs \<and> (\<forall>x \<in> set xs. hosted_name (snd x) \<noteq> n)"
    using Room assms by (auto simp: on_room_def Let_def res_simps)
  then have "to_room n (sent_by s t) = []" by (fastforce simp: sent_by_appended filter_empty_conv)
  with Room assms show ?thesis by (auto simp: on_room_def Let_def map_of_update res_simps)
next
  case (Emptied m)
  with assms show ?thesis
    by (auto simp: on_empty_def on_room_count_changed_def AList.delete_conv' res_simps sent_by_shrunk
        split: option.splits)
next
  case (Invited_answer k result)
  with assms show ?thesis
    by (auto simp: on_invited_def sent_by_shrunk erase_at_def split: prod.splits)
qed

lemma users_asking_Cons: "users_asking n (e # es) = users_asking n [e] @ users_asking n es"
  by (cases e) auto

lemma users_asking_append [simp]: "users_asking n (es @ es') = users_asking n es @ users_asking n es'"
  by (induction n es rule: users_asking.induct) auto

lemma asking_request:
  "users_asking n [e] \<noteq> [] \<Longrightarrow>
   \<exists>name user. e = Request name user \<and> remove_whitespaces_and_lower_case name = n \<and> users_asking n [e] = [user]"
  by (cases e) (auto split: if_splits)

lemma gathering_step:
  assumes "named (entries s)" "gathering n c us s" "rooms_step b s e = Ok t"
    and "\<forall>r. e = Room r \<longrightarrow> hosted_name r \<noteq> n" "e \<noteq> Emptied n"
  shows "gathering n c (us @ users_asking n [e]) t \<and> to_room n (sent_by s t) = []"
proof (cases "users_asking n [e] = []")
  case True
  from other_event[OF assms(1,3) True assms(4,5)] assms(2) True show ?thesis
    by (auto simp: gathering_def waits_def)
next
  case False
  from asking_request[OF this] obtain name user where e: "e = Request name user"
    "remove_whitespaces_and_lower_case name = n" "users_asking n [e] = [user]" by blast
  from e(1) assms(3) have t: "t = get_or_create_room_id name user s" by simp
  have inv: "invites t = invites s \<and> gathering n c (us @ [user]) t"
  proof (cases "us = []")
    case True
    with assms(2) e(2) show ?thesis
      by (auto simp: gathering_def t get_or_create_room_id_def Let_def create_def on_room_count_changed_def
          waits_def map_of_update count_list_append)
  next
    case us: False
    with assms(2) obtain ps where "waits n ps s" "map participant_user_id ps = us"
      "count_list (created s) n = Suc c" by (auto simp: gathering_def)
    with request_waits[OF this(1) e(2), of user] us show ?thesis
      by (auto simp: gathering_def t)
  qed
  then show ?thesis by (simp add: e(3) sent_by_shrunk)
qed

lemma gathering_run:
  assumes "run_events (rooms_step b) s es = Ok t" "named (entries s)" "gathering n c us s"
    and "\<forall>r. Room r \<in> set es \<longrightarrow> hosted_name r \<noteq> n" "Emptied n \<notin> set es"
  shows "gathering n c (us @ users_asking n es) t \<and> to_room n (invitations b s es) = []"
  using assms
proof (induction es arbitrary: s us)
  case Nil
  then show ?case by simp
next
  case (Cons e es)
  from Cons.prems(1) obtain u where u: "rooms_step b s e = Ok u" "run_events (rooms_step b) u es = Ok t"
    by (auto simp: res_simps)
  from gathering_step[OF Cons.prems(2,3) u(1)] Cons.prems(4,5)
  have g: "gathering n c (us @ users_asking n [e]) u" "to_room n (sent_by s u) = []" by auto
  from Cons.IH[OF u(2) named_step[OF Cons.prems(2) u(1)] g(1)] Cons.prems(4,5) g(2) u(1) show ?case
    by (simp add: users_asking_Cons[of n e es])
qed

lemma room_appears:
  assumes "gathering n c us s" "on_room b r s = Ok t" "hosted_name r = n"
  shows "hosted n r t \<and> to_room n (sent_by s t) = map (\<lambda>u. (u, r)) us \<and>
    count_list (created t) n = c + (if us = [] then 0 else 1)"
proof -
  let ?ps = "case map_of (entries s) n of None \<Rightarrow> [] | Some a \<Rightarrow> waiting_for_room a"
  have t: "t = (foldl (\<lambda>s p. invite p r s) s ?ps)\<lparr> entries :=
      AList.update n \<lparr> adapter_room = Some r, waiting_for_room = [] \<rparr> (entries s) \<rparr>"
    using assms(2,3) by (auto simp: on_room_def Let_def res_simps split: option.splits)
  have us: "map participant_user_id ?ps = us"
    using assms(1) by (auto simp: gathering_def waits_def)
  have sent: "sent_by s t = map (\<lambda>u. (u, r)) us"
    unfolding us[symmetric] by (simp add: t sent_by_def comp_def)
  have "to_room n (map (\<lambda>u. (u, r)) us) = map (\<lambda>u. (u, r)) us"
    by (simp add: filter_map comp_def assms(3))
  moreover have "count_list (created s) n = c + (if us = [] then 0 else 1)"
    using assms(1) by (auto simp: gathering_def)
  moreover have "hosted n r t" "created t = created s" by (simp_all add: t hosted_def map_of_update)
  ultimately show ?thesis using sent by simp
qed

lemma hosted_step:
  assumes "named (entries s)" "hosted n r s" "rooms_step b s e = Ok t" "hosted_name r = n"
    and "\<forall>x. e = Room x \<longrightarrow> hosted_name x = n \<longrightarrow> x = r" "e \<noteq> Emptied n"
  shows "hosted n r t \<and> to_room n (sent_by s t) = map (\<lambda>u. (u, r)) (users_asking n [e]) \<and>
    count_list (created t) n = count_list (created s) n"
proof (cases "users_asking n [e] = []")
  case True
  show ?thesis
  proof (cases "e = Room r")
    case room: True
    have "t = s\<lparr> entries := AList.update n \<lparr> adapter_room = Some r, waiting_for_room = [] \<rparr> (entries s) \<rparr>"
      using room assms(2-4) by (simp add: hosted_def on_room_def Let_def res_simps)
    with True assms(2) show ?thesis
      by (simp add: hosted_def map_of_update sent_by_shrunk)
  next
    case False
    with other_event[OF assms(1,3) True] assms(2,5,6) True show ?thesis
      by (auto simp: hosted_def)
  qed
next
  case False
  from asking_request[OF this] obtain name user where "e = Request name user"
    "remove_whitespaces_and_lower_case name = n" "users_asking n [e] = [user]" by blast
  with assms(2-4) show ?thesis
    by (auto simp: hosted_def get_or_create_room_id_def Let_def invite_simps sent_by_def)
qed

lemma hosted_run:
  assumes "run_events (rooms_step b) s es = Ok t" "named (entries s)" "hosted n r s" "hosted_name r = n"
    and "\<forall>x. Room x \<in> set es \<longrightarrow> hosted_name x = n \<longrightarrow> x = r" "Emptied n \<notin> set es"
  shows "hosted n r t \<and> to_room n (invitations b s es) = map (\<lambda>u. (u, r)) (users_asking n es) \<and>
    count_list (created t) n = count_list (created s) n"
  using assms
proof (induction es arbitrary: s)
  case Nil
  then show ?case by simp
next
  case (Cons e es)
  from Cons.prems(1) obtain u where u: "rooms_step b s e = Ok u" "run_events (rooms_step b) u es = Ok t"
    by (auto simp: res_simps)
  from hosted_step[OF Cons.prems(2,3) u(1) Cons.prems(4)] Cons.prems(5,6)
  have h: "hosted n r u" "to_room n (sent_by s u) = map (\<lambda>u. (u, r)) (users_asking n [e])"
    "count_list (created u) n = count_list (created s) n" by auto
  from Cons.IH[OF u(2) named_step[OF Cons.prems(2) u(1)] h(1) Cons.prems(4)] Cons.prems(5,6) h u(1)
  show ?case by (simp add: users_asking_Cons[of n e es])
qed

lemma no_rooms_named: "named (entries no_rooms)"
  by (simp add: named_def no_rooms_def)

lemma invitations_append:
  "run_events (rooms_step b) s es = Ok t \<Longrightarrow>
   invitations b s (es @ es') = invitations b s es @ invitations b t es'"
  by (induction es arbitrary: s) (auto simp: res_simps)

text \<open>C11. At any moment at which the server has no room of a name, whatever happens
  next in whatever order: as long as the room is not reported empty and no second
  room takes its name, everybody who asks for the name, however it is spelled, is
  invited to the one room that appears under it, in the order in which they asked,
  those who came first when it appears and the others at once. At most one room is
  created for them: one if somebody asked before it appeared, and none otherwise.
  Requests, rooms and reports of other names, and the answers to the invitations,
  may come in between. (An invitation is sent; that it succeeds is up to the matrix
  server.)\<close>
theorem group_shares_room:
  assumes "run_events (rooms_step b) no_rooms past = Ok s" "map_of (entries s) n = None"
    and "run_events (rooms_step b) s (before @ Room r # after) = Ok t" "hosted_name r = n"
    and "\<forall>x. Room x \<in> set before \<longrightarrow> hosted_name x \<noteq> n"
    and "\<forall>x. Room x \<in> set after \<longrightarrow> hosted_name x = n \<longrightarrow> x = r"
    and "Emptied n \<notin> set before" "Emptied n \<notin> set after"
  shows "to_room n (invitations b s (before @ Room r # after)) =
      map (\<lambda>u. (u, r)) (users_asking n before @ users_asking n after) \<and>
    count_list (created t) n = count_list (created s) n + (if users_asking n before = [] then 0 else 1)"
proof -
  from assms(3) obtain s1 s2 where run: "run_events (rooms_step b) s before = Ok s1"
    "on_room b r s1 = Ok s2" "run_events (rooms_step b) s2 after = Ok t"
    by (auto simp: run_events_append res_simps)
  have named: "named (entries s)" by (rule named_run[OF assms(1) no_rooms_named])
  then have named2: "named (entries s2)"
    using named_step[of s1 b "Room r" s2] named_run[OF run(1)] run(2) by simp
  have "gathering n (count_list (created s) n) [] s" using assms(2) by (simp add: gathering_def)
  from gathering_run[OF run(1) named this assms(5,7)]
  have g: "gathering n (count_list (created s) n) (users_asking n before) s1"
    "to_room n (invitations b s before) = []" by simp_all
  from room_appears[OF g(1) run(2) assms(4)] hosted_run[OF run(3) named2 _ assms(4,6,8)] g(2) run(2)
  show ?thesis by (simp add: invitations_append[OF run(1)])
qed

lemma group_shares_room_witness:
  "\<exists>s t. run_events (rooms_step Debug) no_rooms [] = Ok s \<and>
     run_events (rooms_step Debug) s
       ([Request ''My Room'' ''u1'', Request ''myroom'' ''u2''] @
        Room \<lparr> hosted_id = ''r'', hosted_name = ''myroom'' \<rparr> #
        [Invited_answer 0 (Ok ()), Request ''MYROOM'' ''u3'']) = Ok t \<and>
     count_list (created t) ''myroom'' = 1 \<and>
     to_room ''myroom'' (invitations Debug s
       ([Request ''My Room'' ''u1'', Request ''myroom'' ''u2''] @
        Room \<lparr> hosted_id = ''r'', hosted_name = ''myroom'' \<rparr> #
        [Invited_answer 0 (Ok ()), Request ''MYROOM'' ''u3''])) =
       map (\<lambda>u. (u, \<lparr> hosted_id = ''r'', hosted_name = ''myroom'' \<rparr>)) [''u1'', ''u2'', ''u3'']"
proof -
  let ?r = "\<lparr> hosted_id = ''r'', hosted_name = ''myroom'' \<rparr>"
  let ?es = "[Request ''My Room'' ''u1'', Request ''myroom'' ''u2''] @ Room ?r #
    [Invited_answer 0 (Ok ()), Request ''MYROOM'' ''u3'']"
  have past: "run_events (rooms_step Debug) no_rooms [] = Ok no_rooms" by simp
  have "\<exists>t. run_events (rooms_step Debug) no_rooms ?es = Ok t"
    by (simp add: rooms_eval sample_names)
  then obtain t where t: "run_events (rooms_step Debug) no_rooms ?es = Ok t" by blast
  have "map_of (entries no_rooms) ''myroom'' = None" "created no_rooms = []" by (simp_all add: no_rooms_def)
  with group_shares_room[OF past _ t] t show ?thesis
    by (intro exI[of _ no_rooms] exI[of _ t]) (simp add: sample_names)
qed

text \<open>A room whose creation fails leaves no trace but a log line: as long as no
  room of the name appears (or is emptied), everybody who asked or asks for it
  waits, and no second attempt is made.\<close>
theorem failed_creation_strands:
  assumes "waits n ps s" "run_events (rooms_step b) s es = Ok t"
    and "\<forall>r. Room r \<in> set es \<longrightarrow> hosted_name r \<noteq> n" "Emptied n \<notin> set es"
  shows "\<exists>qs. waits n (ps @ qs) t \<and>
    length qs = length (filter (\<lambda>e. \<exists>name user. e = Request name user \<and>
      remove_whitespaces_and_lower_case name = n) es) \<and>
    count_list (created t) n = count_list (created s) n"
  using assms
proof (induction es arbitrary: s ps)
  case Nil
  then show ?case by simp
next
  case (Cons e es)
  from Cons.prems(2) obtain u where u: "rooms_step b s e = Ok u" "run_events (rooms_step b) u es = Ok t"
    by (auto simp: res_simps)
  have step: "\<exists>qs. waits n (ps @ qs) u \<and> count_list (created u) n = count_list (created s) n \<and>
      length qs = (if \<exists>name user. e = Request name user \<and> remove_whitespaces_and_lower_case name = n then 1 else 0)"
  proof (cases e)
    case (Request name user)
    show ?thesis
    proof (cases "remove_whitespaces_and_lower_case name = n")
      case True
      with request_waits[OF Cons.prems(1) True, of user] u(1) Request show ?thesis by auto
    next
      case False
      with u(1) Request Cons.prems(1) show ?thesis
        by (auto simp: waits_def get_or_create_room_id_def Let_def map_of_update create_def
            on_room_count_changed_def invite_def count_list_append split: option.splits)
    qed
  next
    case (Room r)
    with Cons.prems(1,3) u(1) show ?thesis
      by (auto simp: waits_def on_room_def Let_def map_of_update res_simps)
  next
    case (Emptied m)
    with Cons.prems(1,4) u(1) show ?thesis
      by (auto simp: waits_def on_empty_def on_room_count_changed_def AList.delete_conv' res_simps
          split: option.splits)
  next
    case (Invited_answer k result)
    with Cons.prems(1) u(1) show ?thesis
      by (auto simp: waits_def on_invited_def split: prod.splits)
  qed
  then obtain qs where qs: "waits n (ps @ qs) u" "count_list (created u) n = count_list (created s) n"
    "length qs = (if \<exists>name user. e = Request name user \<and> remove_whitespaces_and_lower_case name = n then 1 else 0)"
    by blast
  from Cons.IH[OF qs(1) u(2)] Cons.prems(3,4) obtain qs' where
    "waits n ((ps @ qs) @ qs') t" "count_list (created t) n = count_list (created u) n"
    "length qs' = length (filter (\<lambda>e. \<exists>name user. e = Request name user \<and>
      remove_whitespaces_and_lower_case name = n) es)"
    by auto
  with qs show ?case by (intro exI[of _ "qs @ qs'"]) auto
qed

lemma failed_creation_strands_witness:
  "\<exists>qs t. run_events (rooms_step Debug) (get_or_create_room_id ''myroom'' ''u1'' no_rooms)
      [Request ''My Room'' ''u2''] = Ok t \<and>
    waits ''myroom'' ([\<lparr> promise = 0, participant_user_id = ''u1'' \<rparr>] @ qs) t \<and> length qs = 1"
proof -
  let ?s = "get_or_create_room_id ''myroom'' ''u1'' no_rooms"
  have w: "waits ''myroom'' [\<lparr> promise = 0, participant_user_id = ''u1'' \<rparr>] ?s"
    by (simp add: waits_def rooms_eval sample_names)
  have r: "run_events (rooms_step Debug) ?s [Request ''My Room'' ''u2''] =
      Ok (get_or_create_room_id ''My Room'' ''u2'' ?s)" by simp
  from failed_creation_strands[OF w r] show ?thesis
    by (simp add: sample_names) (metis r)
qed

text \<open>A room whose members have left reports that it is empty again whenever a
  membership changes without filling it. If the name was asked for in between, the
  second report hits the new entry: it stops a Debug build, and in a Release build
  it breaks the promises of those who wait.\<close>
theorem stale_room_breaks_waiters:
  fixes a :: matrix_adapter
  assumes "tracked a = [(u, Joined)]" "empty_callback a = Some n"
    and "map_of (entries s) n = Some \<lparr> adapter_room = Some r, waiting_for_room = [] \<rparr>"
    and "distinct (map fst (entries s))" "remove_whitespaces_and_lower_case n = n"
  shows "(\<exists>a1 a2 a3. adapter_on_join_state_changed u Left a = Ok a1 \<and>
      adapter_on_join_state_changed u Invited a1 = Ok a2 \<and>
      adapter_on_join_state_changed u Left a2 = Ok a3 \<and>
      emptied_calls a3 = emptied_calls a @ [n, n]) \<and>
    run_events (rooms_step Debug) s [Emptied n, Request n v, Emptied n] = Assert_failed \<and>
    (\<exists>t. run_events (rooms_step Release) s [Emptied n, Request n v, Emptied n] = Ok t \<and>
      answered t = answered s @ [(next_promise s, None)] \<and> map_of (entries t) n = None)"
proof -
  have gone: "map_of (AList.delete n es) n = None" for es :: "(string \<times> room_adapter) list"
    by (simp add: AList.delete_conv')
  have "\<exists>a1 a2 a3. adapter_on_join_state_changed u Left a = Ok a1 \<and>
      adapter_on_join_state_changed u Invited a1 = Ok a2 \<and>
      adapter_on_join_state_changed u Left a2 = Ok a3 \<and> emptied_calls a3 = emptied_calls a @ [n, n]"
    using assms(1,2)
    by (simp add: adapter_on_join_state_changed_def check_and_call_participant_count_changed_def is_empty_def)
  moreover have "run_events (rooms_step Debug) s [Emptied n, Request n v, Emptied n] = Assert_failed"
    using assms(3-5) gone
    by (simp add: on_empty_def get_or_create_room_id_def Let_def create_def on_room_count_changed_def
        map_of_update boost_assert_def)
  moreover have "\<exists>t. run_events (rooms_step Release) s [Emptied n, Request n v, Emptied n] = Ok t \<and>
      answered t = answered s @ [(next_promise s, None)] \<and> map_of (entries t) n = None"
    using assms(3-5) gone
    by (simp add: on_empty_def get_or_create_room_id_def Let_def create_def on_room_count_changed_def
        map_of_update boost_assert_def)
  ultimately show ?thesis by blast
qed

lemma stale_room_breaks_waiters_witness:
  "run_events (rooms_step Debug) (no_rooms\<lparr> entries := [(''myroom'',
      \<lparr> adapter_room = Some \<lparr> hosted_id = ''r'', hosted_name = ''myroom'' \<rparr>, waiting_for_room = [] \<rparr>)] \<rparr>)
     [Emptied ''myroom'', Request ''myroom'' ''v'', Emptied ''myroom''] = Assert_failed"
  by (rule stale_room_breaks_waiters[where u = "''u''" and a = "\<lparr> own_user_id = ''me'',
        tracked = [(''u'', Joined)], empty_callback = Some ''myroom'', emptied_calls = [], kicked = [] \<rparr>",
        THEN conjunct2, THEN conjunct1])
    (simp_all add: sample_names)


section \<open>The HTTP front\<close>

text \<open>What \<open>client::join\<close> sends is what the server reads, and the server's answer is
  what it returns.\<close>

lemma join_request_understood:
  assumes "json_laws (json_ops.truncate J)"
    and "\<And>kvs k v. map_of kvs k = Some v \<Longrightarrow> const_at J (json_object J kvs) k = Ok v"
    and "join_request J name user = Put target j"
  shows "on_request J target j = Ok (name, user)"
  using assms(1,2,3)
  by (auto simp: join_request_def on_request_def json_laws_def json_ops.defs)

lemma join_response_understood:
  assumes "json_laws (json_ops.truncate J)" "join_response J (Ok i) = Ok j"
  shows "join_done J (Ok (200, j)) = Ok i"
  using assms by (auto simp: join_response_def join_done_def json_laws_def json_ops.defs)

text \<open>A connection tells once how it ended, and every request it read is answered
  before the next.\<close>

definition connection_inv :: "'j http_connection \<Rightarrow> bool" where
  "connection_inv c \<longleftrightarrow> length (outcome c) = (if phase c = Finished then 1 else 0)"

lemma check_error_inv:
  "check_error x c = Some c' \<Longrightarrow> outcome c = [] \<Longrightarrow> length (outcome c') = 1 \<and> phase c' = Finished"
  by (cases x) auto

interpretation connection: state_machine "connection_step J what" connection_inv for J what
proof
  fix c e c'
  assume "connection_inv c" "connection_step J what c e = Ok c'"
  then show "connection_inv c'"
    by (cases e) (auto simp: on_got_request_def on_got_response_def send_error_def connection_inv_def
        read_done_def write_done_def split: if_splits option.splits res.splits dest: check_error_inv)
qed

text \<open>While the acceptor runs an accept is out; it stops with its promise completed
  once.\<close>

lemma acceptor_runs_until_error:
  assumes "acceptor_run b a = Ok a1" "accept_done None a1 = Ok a2" "accept_done (Some e) a2 = Ok a3"
  shows "accepting a1 \<and> accepting a2 \<and> sessions a2 = Suc (sessions a) \<and> \<not> accepting a3 \<and> \<not> run_promise a3 \<and>
    run_outcomes a3 = run_outcomes a @ [if e = Operation_aborted then Ok () else Throw e] \<and>
    destroy_acceptor a3 = a3"
  using assms
  by (auto simp: acceptor_run_def listen_def accept_next_def accept_done_def do_session_def
      destroy_acceptor_def Let_def res_simps split: if_splits)

end
