(* ===== verification/Media_Control.thy ===== *)
theory Media_Control
  imports Matrix_Room
begin

text \<open>
  What is heard: muting, deafening, volumes, the microphone test and the exchange of
  these states between clients (audio\_tracks\_volume.cpp, loopback\_audio.cpp,
  own\_microphone\_tester.cpp and mute\_deaf\_communicator.cpp in src/fubble/client).

  The audio tracks are part of the room the volume code holds: a participant has its
  tracks, and \<open>observed\<close> tells whether the code listens to its \<open>on_audio_added\<close>.
  A volume (a double that is only stored and passed on) has a type of its own.
\<close>

section \<open>Volumes\<close>

record 'v audio_track =
  track_enabled :: bool
  track_volume :: 'v

record 'v audio_participant =
  audio_id :: string
  audios :: "'v audio_track list"
  observed :: bool

record 'v audio_room =
  own_id :: string
  audio_participants :: "'v audio_participant list"

record 'v audio_setting =
  setting_id :: string
  setting_muted :: bool
  setting_volume :: 'v

record 'v audio_volume =
  volume_room :: "'v audio_room option"
  muted_all_except_self :: bool
  muted_self :: bool
  deafned :: bool
  actually_muted :: bool
  settings :: "'v audio_setting list"
  own_track_enabled :: bool
  told_muted :: "bool list"
  told_deafed :: "bool list"

definition find_setting :: "string \<Rightarrow> ('v, 'a) audio_volume_scheme \<Rightarrow> 'v audio_setting option" where
  "find_setting i s = find_first (\<lambda>c. setting_id c = i) (settings s)"

definition get_volume :: "string \<Rightarrow> ('v :: one, 'a) audio_volume_scheme \<Rightarrow> 'v" where
  "get_volume i s = (case find_setting i s of None \<Rightarrow> 1 | Some c \<Rightarrow> setting_volume c)"

definition get_muted :: "string \<Rightarrow> ('v, 'a) audio_volume_scheme \<Rightarrow> bool" where
  "get_muted i s = (case find_setting i s of None \<Rightarrow> False | Some c \<Rightarrow> setting_muted c)"

text \<open>\<open>get_or_add_setting\<close> returns a reference; what the callers write through it
  is the function here.\<close>

definition change_setting ::
  "string \<Rightarrow> ('v :: one audio_setting \<Rightarrow> 'v audio_setting) \<Rightarrow> ('v, 'a) audio_volume_scheme \<Rightarrow>
   ('v, 'a) audio_volume_scheme" where
  "change_setting i f s =
     (case find_setting i s of
        Some c \<Rightarrow> s\<lparr> settings := map_first (\<lambda>c. setting_id c = i) f (settings s) \<rparr>
      | None \<Rightarrow> s\<lparr> settings := settings s @
          [f \<lparr> setting_id = i, setting_muted = False, setting_volume = 1 \<rparr>] \<rparr>)"

definition set_track :: "bool \<Rightarrow> 'v \<Rightarrow> 'v audio_track \<Rightarrow> 'v audio_track" where
  "set_track enabled volume t =
     (if enabled then t\<lparr> track_enabled := True, track_volume := volume \<rparr>
      else t\<lparr> track_enabled := False \<rparr>)"

definition audio_enabled :: "string \<Rightarrow> ('v, 'a) audio_volume_scheme \<Rightarrow> bool" where
  "audio_enabled i s \<longleftrightarrow> \<not> (muted_all_except_self s \<or> deafned s \<or> get_muted i s)"

definition update_audio ::
  "('v :: one, 'a) audio_volume_scheme \<Rightarrow> string \<Rightarrow> 'v audio_track \<Rightarrow> 'v audio_track" where
  "update_audio s i t =
     (case volume_room s of None \<Rightarrow> t
      | Some r \<Rightarrow> if i = own_id r then t else set_track (audio_enabled i s) (get_volume i s) t)"

definition update_tracks ::
  "('v :: one, 'a) audio_volume_scheme \<Rightarrow> 'v audio_participant \<Rightarrow> 'v audio_participant" where
  "update_tracks s p = p\<lparr> audios := map (update_audio s (audio_id p)) (audios p) \<rparr>"

definition update_all_participants ::
  "('v :: one, 'a) audio_volume_scheme \<Rightarrow> ('v, 'a) audio_volume_scheme" where
  "update_all_participants s =
     (case volume_room s of None \<Rightarrow> s
      | Some r \<Rightarrow> s\<lparr> volume_room := Some (r\<lparr> audio_participants :=
          map (update_tracks s) (audio_participants r) \<rparr>) \<rparr>)"

definition update_participant ::
  "build \<Rightarrow> string \<Rightarrow> ('v :: one, 'a) audio_volume_scheme \<Rightarrow> ('v, 'a) audio_volume_scheme res" where
  "update_participant b i s =
     (case volume_room s of None \<Rightarrow> Undefined
      | Some r \<Rightarrow>
          if find_first (\<lambda>p. audio_id p = i) (audio_participants r) = None
          then rbind (boost_assert b False) (\<lambda>u. Ok s)
          else Ok (s\<lparr> volume_room := Some (r\<lparr> audio_participants :=
            map_first (\<lambda>p. audio_id p = i) (update_tracks s) (audio_participants r) \<rparr>) \<rparr>))"

definition update_self_muted :: "('v, 'a) audio_volume_scheme \<Rightarrow> ('v, 'a) audio_volume_scheme" where
  "update_self_muted s =
     (let target = muted_self s \<or> deafned s in
      if actually_muted s = target then s
      else s\<lparr> actually_muted := target, own_track_enabled := \<not> target \<rparr>)"

definition on_participant :: "'v audio_participant \<Rightarrow> 'v audio_participant" where
  "on_participant p = p\<lparr> observed := True \<rparr>"

text \<open>The room is told when it changes; being told the same room again, which changes nothing, is left out.\<close>

definition volume_on_room ::
  "'v audio_room option \<Rightarrow> ('v :: one, 'a) audio_volume_scheme \<Rightarrow> ('v, 'a) audio_volume_scheme" where
  "volume_on_room r s =
     (case r of None \<Rightarrow> s\<lparr> volume_room := None \<rparr>
      | Some r \<Rightarrow> update_all_participants (s\<lparr> volume_room := Some (r\<lparr> audio_participants :=
          map on_participant (audio_participants r) \<rparr>) \<rparr>))"

definition mute_all_except_self ::
  "bool \<Rightarrow> ('v :: one, 'a) audio_volume_scheme \<Rightarrow> ('v, 'a) audio_volume_scheme" where
  "mute_all_except_self m s =
     (if muted_all_except_self s = m then s
      else update_all_participants (s\<lparr> muted_all_except_self := m \<rparr>))"

definition mute_self :: "bool \<Rightarrow> ('v, 'a) audio_volume_scheme \<Rightarrow> ('v, 'a) audio_volume_scheme" where
  "mute_self m s =
     (if m = muted_self s then s
      else let t = update_self_muted (s\<lparr> muted_self := m \<rparr>) in t\<lparr> told_muted := told_muted t @ [m] \<rparr>)"

definition deafen :: "bool \<Rightarrow> ('v :: one, 'a) audio_volume_scheme \<Rightarrow> ('v, 'a) audio_volume_scheme" where
  "deafen d s =
     (if deafned s = d then s
      else let t = update_self_muted (update_all_participants (s\<lparr> deafned := d \<rparr>))
           in t\<lparr> told_deafed := told_deafed t @ [d] \<rparr>)"

definition set_volume ::
  "build \<Rightarrow> string \<Rightarrow> 'v \<Rightarrow> ('v :: one, 'a) audio_volume_scheme \<Rightarrow> ('v, 'a) audio_volume_scheme res" where
  "set_volume b i v s = update_participant b i (change_setting i (\<lambda>c. c\<lparr> setting_volume := v \<rparr>) s)"

definition mute ::
  "build \<Rightarrow> string \<Rightarrow> bool \<Rightarrow> ('v :: one, 'a) audio_volume_scheme \<Rightarrow> ('v, 'a) audio_volume_scheme res" where
  "mute b i m s = update_participant b i (change_setting i (\<lambda>c. c\<lparr> setting_muted := m \<rparr>) s)"

definition fresh_volume :: "'v audio_volume" where
  "fresh_volume = \<lparr> volume_room = None, muted_all_except_self = False, muted_self = False, deafned = False,
     actually_muted = False, settings = [], own_track_enabled = True, told_muted = [], told_deafed = [] \<rparr>"

text \<open>What happens in the room besides: a participant joins, one gets a track. The
  listener of an observed participant treats the track; nobody does for the others.\<close>

definition participant_joins ::
  "string \<Rightarrow> ('v, 'a) audio_volume_scheme \<Rightarrow> ('v, 'a) audio_volume_scheme" where
  "participant_joins i s =
     (case volume_room s of None \<Rightarrow> s
      | Some r \<Rightarrow> s\<lparr> volume_room := Some (r\<lparr> audio_participants := audio_participants r @
          [\<lparr> audio_id = i, audios = [], observed = False \<rparr>] \<rparr>) \<rparr>)"

definition audio_added ::
  "string \<Rightarrow> 'v audio_track \<Rightarrow> ('v :: one, 'a) audio_volume_scheme \<Rightarrow> ('v, 'a) audio_volume_scheme" where
  "audio_added i t s =
     (case volume_room s of None \<Rightarrow> s
      | Some r \<Rightarrow> s\<lparr> volume_room := Some (r\<lparr> audio_participants :=
          map_first (\<lambda>p. audio_id p = i)
            (\<lambda>p. p\<lparr> audios := audios p @ [if observed p then update_audio s i t else t] \<rparr>)
            (audio_participants r) \<rparr>) \<rparr>)"

datatype 'v audio_event =
    Room_set "'v audio_room option"
  | Participant_joins string
  | Audio_added string "'v audio_track"
  | Mute_all bool
  | Mute_self bool
  | Deafen bool
  | Set_volume string 'v
  | Mute string bool

text \<open>A room lists a participant once; events that break this are none.\<close>

fun audio_event_ok :: "'v audio_volume \<Rightarrow> 'v audio_event \<Rightarrow> bool" where
  "audio_event_ok s (Room_set (Some r)) = distinct (map audio_id (audio_participants r))"
| "audio_event_ok s (Participant_joins i) =
     (case volume_room s of None \<Rightarrow> False | Some r \<Rightarrow> i \<notin> audio_id ` set (audio_participants r))"
| "audio_event_ok s e = True"

fun audio_action :: "build \<Rightarrow> ('v :: one) audio_volume \<Rightarrow> 'v audio_event \<Rightarrow> 'v audio_volume res" where
  "audio_action b s (Room_set r) = Ok (volume_on_room r s)"
| "audio_action b s (Participant_joins i) = Ok (participant_joins i s)"
| "audio_action b s (Audio_added i t) = Ok (audio_added i t s)"
| "audio_action b s (Mute_all m) = Ok (mute_all_except_self m s)"
| "audio_action b s (Mute_self m) = Ok (mute_self m s)"
| "audio_action b s (Deafen d) = Ok (deafen d s)"
| "audio_action b s (Set_volume i v) = set_volume b i v s"
| "audio_action b s (Mute i m) = mute b i m s"

definition audio_step :: "build \<Rightarrow> ('v :: one) audio_volume \<Rightarrow> 'v audio_event \<Rightarrow> 'v audio_volume res" where
  "audio_step b s e = (if audio_event_ok s e then audio_action b s e else Ok s)"


section \<open>What is heard follows the settings\<close>

definition track_ok :: "bool \<Rightarrow> 'v \<Rightarrow> 'v audio_track \<Rightarrow> bool" where
  "track_ok e v t \<longleftrightarrow> track_enabled t = e \<and> (e \<longrightarrow> track_volume t = v)"

definition participant_ok :: "('v :: one) audio_volume \<Rightarrow> 'v audio_room \<Rightarrow> 'v audio_participant \<Rightarrow> bool" where
  "participant_ok s r p \<longleftrightarrow> observed p \<longrightarrow> audio_id p \<noteq> own_id r \<longrightarrow>
     (\<forall>t \<in> set (audios p). track_ok (audio_enabled (audio_id p) s) (get_volume (audio_id p) s) t)"

definition audio_inv :: "('v :: one) audio_volume \<Rightarrow> bool" where
  "audio_inv s \<longleftrightarrow> actually_muted s = (muted_self s \<or> deafned s) \<and>
     own_track_enabled s = (\<not> actually_muted s) \<and>
     (\<forall>r. volume_room s = Some r \<longrightarrow> distinct (map audio_id (audio_participants r)) \<and>
        (\<forall>p \<in> set (audio_participants r). participant_ok s r p))"

lemma track_ok_set [simp]: "track_ok e v (set_track e v t)"
  by (simp add: track_ok_def set_track_def)

lemma participant_ok_update:
  "volume_room s = Some r0 \<Longrightarrow> own_id r0 = own_id r \<Longrightarrow> participant_ok s r (update_tracks s p)"
  by (auto simp: participant_ok_def update_tracks_def update_audio_def)

lemma update_tracks_id [simp]: "audio_id (update_tracks s p) = audio_id p"
  by (simp add: update_tracks_def)

lemma find_setting_change:
  assumes "\<And>c. setting_id (f c) = setting_id c"
  shows "find_setting j (change_setting i f s) =
    (if j = i then Some (f (case find_setting i s of Some c \<Rightarrow> c
        | None \<Rightarrow> \<lparr> setting_id = i, setting_muted = False, setting_volume = 1 \<rparr>))
     else find_setting j s)"
proof -
  have app: "find_first q (cs @ [c]) = (case find_first q cs of None \<Rightarrow> if q c then Some c else None | Some x \<Rightarrow> Some x)"
    for q and c :: "'a audio_setting" and cs by (induction cs) auto
  have here: "find_first (\<lambda>c. setting_id c = i) (map_first (\<lambda>c. setting_id c = i) f cs) =
      map_option f (find_first (\<lambda>c. setting_id c = i) cs)" for cs
    using assms by (induction cs) auto
  have there: "find_first (\<lambda>c. setting_id c = j) (map_first (\<lambda>c. setting_id c = i) f cs) =
      find_first (\<lambda>c. setting_id c = j) cs" if "j \<noteq> i" for cs
    using assms that by (induction cs) auto
  show ?thesis
    using assms by (cases "find_setting i s")
      (auto simp: find_setting_def change_setting_def app here there split: option.splits)
qed

lemma change_setting_simps [simp]:
  "volume_room (change_setting i f s) = volume_room s"
  "muted_self (change_setting i f s) = muted_self s" "deafned (change_setting i f s) = deafned s"
  "muted_all_except_self (change_setting i f s) = muted_all_except_self s"
  "actually_muted (change_setting i f s) = actually_muted s"
  "own_track_enabled (change_setting i f s) = own_track_enabled s"
  by (simp_all add: change_setting_def split: option.split)

text \<open>Re-evaluating everybody makes everybody agree with the settings, whatever was
  before.\<close>

definition own_ok :: "'v audio_volume \<Rightarrow> bool" where
  "own_ok s \<longleftrightarrow> actually_muted s = (muted_self s \<or> deafned s) \<and> own_track_enabled s = (\<not> actually_muted s)"

definition room_distinct :: "'v audio_volume \<Rightarrow> bool" where
  "room_distinct s \<longleftrightarrow> (\<forall>r. volume_room s = Some r \<longrightarrow> distinct (map audio_id (audio_participants r)))"

definition tracks_ok :: "('v :: one) audio_volume \<Rightarrow> bool" where
  "tracks_ok s \<longleftrightarrow> (\<forall>r. volume_room s = Some r \<longrightarrow> (\<forall>p \<in> set (audio_participants r). participant_ok s r p))"

lemma audio_inv_parts: "audio_inv s \<longleftrightarrow> own_ok s \<and> room_distinct s \<and> tracks_ok s"
  by (auto simp: audio_inv_def own_ok_def room_distinct_def tracks_ok_def)

lemma same_settings:
  assumes "settings t = settings s" "muted_all_except_self t = muted_all_except_self s" "deafned t = deafned s"
  shows "participant_ok t r p = participant_ok s r p"
  using assms by (simp add: participant_ok_def audio_enabled_def get_volume_def get_muted_def find_setting_def)

lemma update_all_simps [simp]:
  "settings (update_all_participants s) = settings s" "muted_self (update_all_participants s) = muted_self s"
  "deafned (update_all_participants s) = deafned s"
  "muted_all_except_self (update_all_participants s) = muted_all_except_self s"
  "actually_muted (update_all_participants s) = actually_muted s"
  "own_track_enabled (update_all_participants s) = own_track_enabled s"
  by (simp_all add: update_all_participants_def split: option.split)

lemma tracks_ok_update_all: "tracks_ok (update_all_participants s)"
proof (cases "volume_room s")
  case None
  then show ?thesis by (simp add: tracks_ok_def update_all_participants_def)
next
  case (Some r)
  let ?r = "r\<lparr> audio_participants := map (update_tracks s) (audio_participants r) \<rparr>"
  have room: "volume_room (update_all_participants s) = Some ?r"
    by (simp add: update_all_participants_def Some)
  have "participant_ok (update_all_participants s) ?r (update_tracks s p)" for p
    using participant_ok_update[OF Some, of ?r p] same_settings[of "update_all_participants s" s] by simp
  with room show ?thesis by (auto simp: tracks_ok_def)
qed

lemma room_distinct_update_all: "room_distinct s \<Longrightarrow> room_distinct (update_all_participants s)"
  by (auto simp: room_distinct_def update_all_participants_def comp_def split: option.split)

lemma own_ok_update_self: "own_ok (update_self_muted s)" if "own_track_enabled s = (\<not> actually_muted s)"
  using that by (simp add: own_ok_def update_self_muted_def Let_def)

lemma tracks_ok_cong:
  assumes "volume_room t = volume_room s" "settings t = settings s"
    and "muted_all_except_self t = muted_all_except_self s" "deafned t = deafned s"
  shows "tracks_ok t = tracks_ok s"
  using assms(1) same_settings[OF assms(2-4)] by (simp add: tracks_ok_def)

lemma room_distinct_cong: "volume_room t = volume_room s \<Longrightarrow> room_distinct t = room_distinct s"
  by (simp add: room_distinct_def)

lemma update_self_simps [simp]:
  "volume_room (update_self_muted s) = volume_room s" "settings (update_self_muted s) = settings s"
  "muted_all_except_self (update_self_muted s) = muted_all_except_self s"
  "deafned (update_self_muted s) = deafned s" "muted_self (update_self_muted s) = muted_self s"
  by (simp_all add: update_self_muted_def Let_def)

lemma deafen_inv:
  assumes "audio_inv s"
  shows "audio_inv (deafen d s)"
proof -
  let ?t = "update_self_muted (update_all_participants (s\<lparr> deafned := d \<rparr>))"
  have "own_ok ?t" using assms by (intro own_ok_update_self) (simp add: audio_inv_parts own_ok_def)
  moreover have "room_distinct ?t"
    using room_distinct_update_all[of "s\<lparr> deafned := d \<rparr>"] assms room_distinct_cong[of "s\<lparr> deafned := d \<rparr>" s]
      room_distinct_cong[of ?t "update_all_participants (s\<lparr> deafned := d \<rparr>)"]
    by (simp add: audio_inv_parts)
  moreover have "tracks_ok ?t"
    using tracks_ok_update_all[of "s\<lparr> deafned := d \<rparr>"]
      tracks_ok_cong[of ?t "update_all_participants (s\<lparr> deafned := d \<rparr>)"] by simp
  ultimately have "audio_inv (?t\<lparr> told_deafed := told_deafed ?t @ [d] \<rparr>)"
    using tracks_ok_cong[of "?t\<lparr> told_deafed := told_deafed ?t @ [d] \<rparr>" ?t]
    by (simp add: audio_inv_parts own_ok_def room_distinct_def)
  with assms show ?thesis by (simp add: deafen_def Let_def)
qed

lemma mute_self_inv:
  assumes "audio_inv s"
  shows "audio_inv (mute_self m s)"
proof -
  let ?t = "update_self_muted (s\<lparr> muted_self := m \<rparr>)"
  have "own_ok ?t" using assms by (intro own_ok_update_self) (simp add: audio_inv_parts own_ok_def)
  then have "audio_inv (?t\<lparr> told_muted := told_muted ?t @ [m] \<rparr>)"
    using assms tracks_ok_cong[of "?t\<lparr> told_muted := told_muted ?t @ [m] \<rparr>" s]
    by (simp add: audio_inv_parts own_ok_def room_distinct_def)
  with assms show ?thesis
    by (simp only: mute_self_def Let_def split: if_split) blast
qed

lemma mute_all_inv:
  assumes "audio_inv s"
  shows "audio_inv (mute_all_except_self m s)"
  using assms tracks_ok_update_all[of "s\<lparr> muted_all_except_self := m \<rparr>"]
    room_distinct_update_all[of "s\<lparr> muted_all_except_self := m \<rparr>"]
  by (simp add: mute_all_except_self_def audio_inv_parts own_ok_def room_distinct_def)

lemma volume_on_room_inv:
  assumes "audio_inv s" "\<And>x. r = Some x \<Longrightarrow> distinct (map audio_id (audio_participants x))"
  shows "audio_inv (volume_on_room r s)"
proof (cases r)
  case None
  with assms(1) show ?thesis
    by (simp add: volume_on_room_def audio_inv_parts own_ok_def room_distinct_def tracks_ok_def)
next
  case (Some x)
  let ?s = "s\<lparr> volume_room := Some (x\<lparr> audio_participants := map on_participant (audio_participants x) \<rparr>) \<rparr>"
  have "room_distinct ?s"
    using assms(2)[OF Some] by (simp add: room_distinct_def on_participant_def comp_def)
  with Some assms(1) tracks_ok_update_all[of ?s] room_distinct_update_all[of ?s] show ?thesis
    by (simp add: volume_on_room_def audio_inv_parts own_ok_def)
qed

lemma participants_of_update:
  assumes "distinct (map audio_id ps)" "p \<in> set (map_first (\<lambda>p. audio_id p = i) f ps)"
  shows "(p \<in> set ps \<and> audio_id p \<noteq> i) \<or> (\<exists>q \<in> set ps. audio_id q = i \<and> p = f q)"
  using assms by (induction ps) (auto split: if_splits simp: image_iff)

lemma other_settings:
  assumes "\<And>c. setting_id (f c) = setting_id c" "audio_id p \<noteq> i"
  shows "participant_ok (change_setting i f s) r p = participant_ok s r p"
proof -
  have "find_setting (audio_id p) (change_setting i f s) = find_setting (audio_id p) s"
    using assms(2) by (simp add: find_setting_change[of f, OF assms(1)])
  then show ?thesis by (simp add: participant_ok_def audio_enabled_def get_volume_def get_muted_def)
qed

lemma change_setting_inv:
  fixes s :: "('v :: one) audio_volume"
  assumes "audio_inv s" "\<And>c. setting_id (f c) = setting_id c"
    and "update_participant b i (change_setting i f s) = Ok t"
  shows "audio_inv t"
proof -
  let ?u = "change_setting i f s"
  from assms(3) obtain r where r: "volume_room s = Some r"
    by (auto simp: update_participant_def split: option.splits)
  from assms(1) r have dist: "distinct (map audio_id (audio_participants r))"
    and ok: "\<And>p. p \<in> set (audio_participants r) \<Longrightarrow> participant_ok s r p"
    by (auto simp: audio_inv_def)
  have own: "own_ok ?u" using assms(1) by (simp add: audio_inv_parts own_ok_def)
  show ?thesis
  proof (cases "find_first (\<lambda>p. audio_id p = i) (audio_participants r)")
    case None
    then have "audio_id p \<noteq> i" if "p \<in> set (audio_participants r)" for p
      using that by (auto simp: find_first_None)
    with ok other_settings[of f, OF assms(2)] have "tracks_ok ?u"
      using r by (simp add: tracks_ok_def)
    moreover have "t = ?u"
      using assms(3) r None by (auto simp: update_participant_def res_simps)
    ultimately show ?thesis
      using own dist r by (simp add: audio_inv_parts room_distinct_def)
  next
    case (Some q)
    let ?r = "r\<lparr> audio_participants := map_first (\<lambda>p. audio_id p = i) (update_tracks ?u) (audio_participants r) \<rparr>"
    have t: "t = ?u\<lparr> volume_room := Some ?r \<rparr>"
      using assms(3) r Some by (simp add: update_participant_def)
    have "participant_ok t ?r p" if "p \<in> set (audio_participants ?r)" for p
    proof -
      from participants_of_update[OF dist, of p i "update_tracks ?u"] that
      consider "p \<in> set (audio_participants r)" "audio_id p \<noteq> i"
        | q where "audio_id q = i" "p = update_tracks ?u q" by auto
      then have "participant_ok ?u ?r p"
      proof cases
        case 1
        with ok other_settings[of f p i s r, OF assms(2)] show ?thesis by (simp add: participant_ok_def)
      next
        case 2
        with participant_ok_update[of ?u r ?r q] r show ?thesis by simp
      qed
      then show ?thesis using same_settings[of t ?u ?r p] t by simp
    qed
    then have "tracks_ok t" by (simp add: tracks_ok_def t)
    moreover have "room_distinct t"
      using dist by (simp add: room_distinct_def t map_map_first)
    moreover have "own_ok t" using own by (simp add: own_ok_def t)
    ultimately show ?thesis by (simp add: audio_inv_parts)
  qed
qed

lemma participant_joins_inv:
  assumes "audio_inv s" "audio_event_ok s (Participant_joins i)"
  shows "audio_inv (participant_joins i s)"
proof (cases "volume_room s")
  case None
  with assms show ?thesis by (simp add: participant_joins_def)
next
  case (Some r)
  with assms show ?thesis
    by (auto simp: participant_joins_def audio_inv_def participant_ok_def audio_enabled_def get_volume_def
        get_muted_def find_setting_def)
qed

lemma audio_added_inv:
  assumes "audio_inv s"
  shows "audio_inv (audio_added i t s)"
proof (cases "volume_room s")
  case None
  with assms show ?thesis by (simp add: audio_added_def)
next
  case (Some r)
  let ?f = "\<lambda>p. p\<lparr> audios := audios p @ [if observed p then update_audio s i t else t] \<rparr>"
  let ?r = "r\<lparr> audio_participants := map_first (\<lambda>p. audio_id p = i) ?f (audio_participants r) \<rparr>"
  let ?s = "s\<lparr> volume_room := Some ?r \<rparr>"
  from assms Some have dist: "distinct (map audio_id (audio_participants r))"
    and ok: "\<And>p. p \<in> set (audio_participants r) \<Longrightarrow> participant_ok s r p"
    by (auto simp: audio_inv_def)
  have "participant_ok ?s ?r p" if "p \<in> set (audio_participants ?r)" for p
  proof -
    from participants_of_update[OF dist, of p i ?f] that
    consider "p \<in> set (audio_participants r)" | q where "q \<in> set (audio_participants r)" "audio_id q = i" "p = ?f q"
      by auto
    then have "participant_ok s ?r p"
    proof cases
      case 1
      with ok show ?thesis by (simp add: participant_ok_def)
    next
      case 2
      with ok[OF 2(1)] Some show ?thesis
        by (auto simp: participant_ok_def update_audio_def)
    qed
    then show ?thesis using same_settings[of ?s s ?r p] by simp
  qed
  then have "tracks_ok ?s" by (simp add: tracks_ok_def)
  moreover have "room_distinct ?s" using dist by (simp add: room_distinct_def map_map_first)
  ultimately show ?thesis
    using assms Some by (simp add: audio_added_def audio_inv_parts own_ok_def)
qed

interpretation audio: state_machine "audio_step b" audio_inv for b
proof
  fix s t :: "('v :: one) audio_volume" and e
  assume "audio_inv s" "audio_step b s e = Ok t"
  then show "audio_inv t"
    by (cases e) (auto simp: audio_step_def set_volume_def mute_def split: if_splits
        intro: volume_on_room_inv participant_joins_inv audio_added_inv mute_all_inv mute_self_inv deafen_inv
          change_setting_inv[rotated 2])
qed

text \<open>C10. Whatever is muted, unmuted, deafened and turned louder or softer, in whatever
  order and before or after a room is entered: a track of a participant the code
  listens to plays exactly if nothing silences it, at the volume set for its
  participant; the own track plays exactly if one is neither muted nor deafened.\<close>
theorem volumes_follow_settings:
  assumes "run_events (audio_step b) fresh_volume es = Ok s"
    and "volume_room s = Some r" "p \<in> set (audio_participants r)" "observed p" "audio_id p \<noteq> own_id r"
    and "t \<in> set (audios p)"
  shows "(track_enabled t \<longleftrightarrow> \<not> (muted_all_except_self s \<or> deafned s \<or> get_muted (audio_id p) s)) \<and>
    (track_enabled t \<longrightarrow> track_volume t = get_volume (audio_id p) s) \<and>
    (own_track_enabled s \<longleftrightarrow> \<not> (muted_self s \<or> deafned s))"
proof -
  have "audio_inv fresh_volume" by (simp add: audio_inv_def fresh_volume_def)
  then have "audio_inv s" by (rule audio.run_inv[OF _ assms(1)])
  with assms(2-6) show ?thesis
    by (auto simp: audio_inv_def participant_ok_def track_ok_def audio_enabled_def)
qed

definition sample_audio_room :: "nat audio_room" where
  "sample_audio_room = \<lparr> own_id = ''me'', audio_participants =
     [\<lparr> audio_id = ''u'', audios = [\<lparr> track_enabled = True, track_volume = 3 \<rparr>], observed = False \<rparr>] \<rparr>"

lemmas audio_eval = audio_step_def volume_on_room_def on_participant_def set_volume_def mute_def deafen_def
  mute_self_def mute_all_except_self_def update_all_participants_def update_tracks_def update_audio_def
  update_participant_def update_self_muted_def change_setting_def find_setting_def set_track_def
  audio_enabled_def get_muted_def get_volume_def fresh_volume_def participant_joins_def audio_added_def Let_def

lemma volumes_follow_settings_witness:
  "\<exists>s. run_events (audio_step Debug) (fresh_volume :: nat audio_volume)
       [Room_set (Some sample_audio_room), Set_volume ''u'' 7, Deafen True] = Ok s \<and>
     own_track_enabled s = (\<not> (muted_self s \<or> deafned s))"
proof -
  have "\<exists>s. run_events (audio_step Debug) (fresh_volume :: nat audio_volume)
       [Room_set (Some sample_audio_room), Set_volume ''u'' 7, Deafen True] = Ok s \<and>
     volume_room s = Some \<lparr> own_id = ''me'', audio_participants =
       [\<lparr> audio_id = ''u'', audios = [\<lparr> track_enabled = False, track_volume = 7 \<rparr>], observed = True \<rparr>] \<rparr>"
    by (simp add: audio_eval sample_audio_room_def)
  then show ?thesis
  proof (elim exE conjE)
    fix s assume s: "run_events (audio_step Debug) (fresh_volume :: nat audio_volume)
       [Room_set (Some sample_audio_room), Set_volume ''u'' 7, Deafen True] = Ok s"
      and r: "volume_room s = Some \<lparr> own_id = ''me'', audio_participants =
       [\<lparr> audio_id = ''u'', audios = [\<lparr> track_enabled = False, track_volume = 7 \<rparr>], observed = True \<rparr>] \<rparr>"
    have "own_track_enabled s = (\<not> (muted_self s \<or> deafned s))"
      using volumes_follow_settings[OF s r, of "\<lparr> audio_id = ''u'', audios =
          [\<lparr> track_enabled = False, track_volume = 7 \<rparr>], observed = True \<rparr>"
          "\<lparr> track_enabled = False, track_volume = 7 \<rparr>"] by simp
    with s show ?thesis by (intro exI[of _ s] conjI)
  qed
qed

text \<open>Nobody listens to a participant who joins the room after it was entered: a
  track it adds keeps playing for somebody who is deafened, until a setting changes
  again.\<close>
theorem late_participant_heard:
  assumes "volume_room s = Some r" "i \<notin> audio_id ` set (audio_participants r)" "deafned s" "track_enabled t"
  shows "\<exists>s' r' p. run_events (audio_step b) s [Participant_joins i, Audio_added i t] = Ok s' \<and> deafned s' \<and>
    volume_room s' = Some r' \<and> p \<in> set (audio_participants r') \<and> audio_id p = i \<and> t \<in> set (audios p) \<and>
    track_enabled t"
proof -
  have skip: "map_first (\<lambda>p. audio_id p = i) f (ps @ [q]) = ps @ [f q]"
    if "i \<notin> audio_id ` set ps" "audio_id q = i" for f q and ps :: "'a audio_participant list"
    using that by (induction ps) auto
  show ?thesis
    using assms by (auto simp: audio_step_def participant_joins_def audio_added_def skip)
qed

lemma late_participant_heard_witness:
  "\<exists>s' r' p. run_events (audio_step Debug) (fresh_volume\<lparr> volume_room := Some sample_audio_room, deafned := True \<rparr>)
      [Participant_joins ''v'', Audio_added ''v'' \<lparr> track_enabled = True, track_volume = 1 \<rparr>] = Ok s' \<and> deafned s' \<and>
    volume_room s' = Some r' \<and> p \<in> set (audio_participants r') \<and> audio_id p = ''v'' \<and>
    \<lparr> track_enabled = True, track_volume = 1 \<rparr> \<in> set (audios p) \<and>
    track_enabled \<lparr> track_enabled = True, track_volume = (1 :: nat) \<rparr>"
  by (rule late_participant_heard[where r = sample_audio_room]) (simp_all add: sample_audio_room_def)


section \<open>Loopback and the microphone test\<close>

text \<open>The delegate of \<open>loopback_audio_noop_if_disabled\<close>; its track, once the two
  connections have negotiated, is known by whether it plays.\<close>

record loopback_impl =
  enable_audio_loopback :: bool
  loopback_track :: "bool option"

record loopback =
  delegate :: "loopback_impl option"
  told_tracks :: nat

definition fresh_loopback_impl :: loopback_impl where
  "fresh_loopback_impl = \<lparr> enable_audio_loopback = False, loopback_track = None \<rparr>"

definition impl_enable_loopback :: "bool \<Rightarrow> loopback_impl \<Rightarrow> loopback_impl" where
  "impl_enable_loopback e l =
     (if enable_audio_loopback l = e then l
      else l\<lparr> enable_audio_loopback := e, loopback_track := map_option (\<lambda>t. e) (loopback_track l) \<rparr>)"

definition on_audio_track :: "build \<Rightarrow> loopback_impl \<Rightarrow> loopback_impl res" where
  "on_audio_track b l =
     rbind (boost_assert b (loopback_track l = None)) (\<lambda>u.
     Ok (l\<lparr> loopback_track := Some (enable_audio_loopback l) \<rparr>))"

definition get_enable_loopback :: "loopback \<Rightarrow> bool" where
  "get_enable_loopback l \<longleftrightarrow> delegate l \<noteq> None"

definition enable_loopback :: "build \<Rightarrow> bool \<Rightarrow> loopback \<Rightarrow> loopback res" where
  "enable_loopback b e l =
     (if get_enable_loopback l = e then Ok l
      else if \<not> e then rbind (boost_assert b (delegate l \<noteq> None)) (\<lambda>u. Ok (l\<lparr> delegate := None \<rparr>))
      else rbind (boost_assert b (delegate l = None)) (\<lambda>u.
        Ok (l\<lparr> delegate := Some (impl_enable_loopback e fresh_loopback_impl) \<rparr>)))"

definition get_track :: "loopback \<Rightarrow> bool option" where
  "get_track l = (case delegate l of None \<Rightarrow> None | Some d \<Rightarrow> loopback_track d)"

definition loopback_on_audio_track :: "build \<Rightarrow> loopback \<Rightarrow> loopback res" where
  "loopback_on_audio_track b l =
     (case delegate l of None \<Rightarrow> Ok l
      | Some d \<Rightarrow> rbind (on_audio_track b d) (\<lambda>d.
          Ok (l\<lparr> delegate := Some d, told_tracks := Suc (told_tracks l) \<rparr>)))"

text \<open>The two connections of the loopback negotiate by six calls, each made only if
  the one before succeeded.\<close>

datatype rtc_call =
    Create_offer_call
  | Set_local_offering
  | Set_remote_answering
  | Create_answer_call
  | Set_local_answering
  | Set_remote_offering

fun chain :: "('c \<Rightarrow> bool) \<Rightarrow> 'c list \<Rightarrow> 'c list" where
  "chain ok [] = []"
| "chain ok (c # cs) = c # (if ok c then chain ok cs else [])"

definition negotiation_needed :: "(rtc_call \<Rightarrow> bool) \<Rightarrow> rtc_call list" where
  "negotiation_needed ok = chain ok [Create_offer_call, Set_local_offering, Set_remote_answering,
     Create_answer_call, Set_local_answering, Set_remote_offering]"

record 'v microphone_tester = "'v audio_volume" +
  tester_loopback :: loopback
  did_deafen :: bool

definition tester_start :: "build \<Rightarrow> ('v :: one) microphone_tester \<Rightarrow> 'v microphone_tester res" where
  "tester_start b s =
     rbind (enable_loopback b True (tester_loopback s)) (\<lambda>l.
     let s = s\<lparr> tester_loopback := l \<rparr> in
     if deafned s then Ok s else Ok ((deafen True s)\<lparr> did_deafen := True \<rparr>))"

definition tester_stop :: "build \<Rightarrow> ('v :: one) microphone_tester \<Rightarrow> 'v microphone_tester res" where
  "tester_stop b s =
     rbind (enable_loopback b False (tester_loopback s)) (\<lambda>l.
     let s = s\<lparr> tester_loopback := l \<rparr> in
     if \<not> did_deafen s then Ok s else Ok ((deafen False s)\<lparr> did_deafen := False \<rparr>))"

lemma enable_loopback_total: "\<exists>l'. enable_loopback b e l = Ok l' \<and> get_enable_loopback l' = e"
  by (cases "delegate l") (auto simp: enable_loopback_def get_enable_loopback_def)

lemma deafen_simps [simp]:
  "deafned (deafen d s) = d" "muted_self (deafen d s) = muted_self s" "settings (deafen d s) = settings s"
  "muted_all_except_self (deafen d s) = muted_all_except_self s"
  by (simp_all add: deafen_def Let_def)

lemma deafen_tester [simp]:
  "tester_loopback (deafen d s) = tester_loopback s" "did_deafen (deafen d s) = did_deafen s"
  by (simp_all add: deafen_def Let_def update_self_muted_def update_all_participants_def split: option.split)

text \<open>A test, started once or more, leaves the deafening as it was before, and the
  loopback off.\<close>

lemma tester_start_result:
  "\<exists>t. tester_start b s = Ok t \<and> deafned t \<and> get_enable_loopback (tester_loopback t) \<and>
     did_deafen t = (did_deafen s \<or> \<not> deafned s) \<and> muted_self t = muted_self s"
proof -
  obtain l where "enable_loopback b True (tester_loopback s) = Ok l" "get_enable_loopback l"
    using enable_loopback_total by blast
  then show ?thesis by (auto simp: tester_start_def Let_def)
qed

lemma tester_restores:
  assumes "\<not> did_deafen s" "tester_start b s = Ok t" "tester_start b t = Ok u" "tester_stop b u = Ok v"
  shows "deafned v = deafned s \<and> \<not> get_enable_loopback (tester_loopback v) \<and> \<not> did_deafen v"
proof -
  from tester_start_result[of b s] assms(1,2) have t: "deafned t" "did_deafen t = (\<not> deafned s)" by auto
  from tester_start_result[of b t] assms(3) t have u: "deafned u" "did_deafen u = (\<not> deafned s)" by auto
  obtain l where "enable_loopback b False (tester_loopback u) = Ok l" "\<not> get_enable_loopback l"
    using enable_loopback_total by blast
  with u assms(4) show ?thesis by (auto simp: tester_stop_def Let_def split: if_splits)
qed


section \<open>Telling the others\<close>

text \<open>The state of the communicator; \<open>communicator_room\<close> is the own id in the room it
  is in, \<open>set_states\<close> are the custom states it asked the server to set.\<close>

record 'j communicator =
  communicator_room :: "string option"
  mutes_and_deafs :: "string \<Rightarrow> (bool \<times> bool) option"
  self_muted :: bool
  self_deafed :: bool
  set_states :: "'j custom list"
  told_mute_deaf :: "(string \<times> bool \<times> bool) list"

definition communicator_key :: string where
  "communicator_key = ''io.fubble.audio_state''"

definition is_muted :: "string \<Rightarrow> 'j communicator \<Rightarrow> bool" where
  "is_muted i s = (case mutes_and_deafs s i of None \<Rightarrow> False | Some (m, d) \<Rightarrow> m)"

definition is_deafed :: "string \<Rightarrow> 'j communicator \<Rightarrow> bool" where
  "is_deafed i s = (case mutes_and_deafs s i of None \<Rightarrow> False | Some (m, d) \<Rightarrow> d)"

definition send_state :: "('t, 'j) json_doc \<Rightarrow> string \<Rightarrow> 'j communicator \<Rightarrow> 'j communicator" where
  "send_state J own s = s\<lparr> set_states := set_states s @ [\<lparr> custom_key = own, custom_type = communicator_key,
     custom_data = json_object J [(''deafed'', json_of_bool J (self_deafed s)),
                                  (''muted'', json_of_bool J (self_muted s))] \<rparr>] \<rparr>"

definition on_self_deafed :: "('t, 'j) json_doc \<Rightarrow> bool \<Rightarrow> 'j communicator \<Rightarrow> 'j communicator" where
  "on_self_deafed J d s =
     (let s = s\<lparr> self_deafed := d \<rparr> in
      case communicator_room s of None \<Rightarrow> s | Some own \<Rightarrow> send_state J own s)"

definition on_self_muted :: "('t, 'j) json_doc \<Rightarrow> bool \<Rightarrow> 'j communicator \<Rightarrow> 'j communicator" where
  "on_self_muted J m s =
     (let s = s\<lparr> self_muted := m \<rparr> in
      case communicator_room s of None \<Rightarrow> s | Some own \<Rightarrow> send_state J own s)"

definition on_room_set ::
  "build \<Rightarrow> ('t, 'j) json_doc \<Rightarrow> string option \<Rightarrow> 'j communicator \<Rightarrow> 'j communicator res" where
  "on_room_set b J room s =
     rbind (boost_assert b (communicator_room s \<noteq> room)) (\<lambda>u.
     let s = s\<lparr> communicator_room := room \<rparr> in
     case room of
       None \<Rightarrow> Ok (s\<lparr> mutes_and_deafs := (\<lambda>i. None) \<rparr>)
     | Some own \<Rightarrow> Ok (if self_deafed s \<or> self_muted s then send_state J own s else s))"

definition take_flag ::
  "('t, 'j) json_doc \<Rightarrow> 'j \<Rightarrow> string \<Rightarrow> (bool \<Rightarrow> ('j communicator, unit) prog) \<Rightarrow> ('j communicator, unit) prog" where
  "take_flag J data k f =
     (if has_key J data k
      then sbind (field J data k) (\<lambda>v. sbind (lift_res (json_to_bool J v)) f) else ret ())"

definition change_mute_deaf ::
  "string \<Rightarrow> bool \<Rightarrow> bool \<Rightarrow> ('j communicator, unit) prog" where
  "change_mute_deaf i m d = update (\<lambda>s. s\<lparr> mutes_and_deafs := (mutes_and_deafs s)(i \<mapsto> (m, d)),
     told_mute_deaf := told_mute_deaf s @ [(i, m, d)] \<rparr>)"

definition communicator_on_custom ::
  "build \<Rightarrow> ('t, 'j) json_doc \<Rightarrow> 'j custom \<Rightarrow> ('j communicator, unit) prog" where
  "communicator_on_custom b J c =
     (if custom_type c \<noteq> communicator_key then ret ()
      else sthen (sassert b (custom_key c \<noteq> []))
        (let i = custom_key c in
         sthen (update (\<lambda>s. if mutes_and_deafs s i = None
             then s\<lparr> mutes_and_deafs := (mutes_and_deafs s)(i \<mapsto> (False, False)) \<rparr> else s))
         (sthen (take_flag J (custom_data c) ''deafed'' (\<lambda>d.
             sbind (gets (\<lambda>s. (is_muted i s, is_deafed i s))) (\<lambda>(m, old).
               if old \<noteq> d then change_mute_deaf i m d else ret ())))
           (take_flag J (custom_data c) ''muted'' (\<lambda>m.
             sbind (gets (\<lambda>s. (is_muted i s, is_deafed i s))) (\<lambda>(old, d).
               if old \<noteq> m then change_mute_deaf i m d else ret ()))))))"

definition did_set_state :: "build \<Rightarrow> unit res \<Rightarrow> 'j communicator \<Rightarrow> 'j communicator res" where
  "did_set_state b r s = (case r of Throw e \<Rightarrow> rbind (boost_assert b False) (\<lambda>u. Ok s) | _ \<Rightarrow> Ok s)"

text \<open>What the documentation of the JSON library promises of objects and booleans.\<close>

definition object_laws :: "('t, 'j) json_doc \<Rightarrow> bool" where
  "object_laws J \<longleftrightarrow>
     (\<forall>kvs k v. map_of kvs k = Some v \<longrightarrow> distinct (map fst kvs) \<longrightarrow>
        const_at J (json_object J kvs) k = Ok v \<and> has_key J (json_object J kvs) k) \<and>
     (\<forall>b. json_to_bool J (json_of_bool J b) = Ok b)"

lemma plain_object_laws: "object_laws plain_doc"
  by (simp add: object_laws_def plain_doc_def)

text \<open>What one client tells of itself is what every other client then knows of it,
  and it knows nothing else anew: telling and hearing are inverse.\<close>
theorem mute_state_understood:
  assumes "object_laws J" "own \<noteq> []"
  shows "\<exists>x d'. set_states (send_state J own c) = set_states c @ [x] \<and>
     communicator_on_custom b J x d = (d', Ok ()) \<and>
     is_muted own d' = self_muted c \<and> is_deafed own d' = self_deafed c \<and>
     (\<forall>j. j \<noteq> own \<longrightarrow> mutes_and_deafs d' j = mutes_and_deafs d j)"
proof -
  let ?kvs = "[(''deafed'', json_of_bool J (self_deafed c)), (''muted'', json_of_bool J (self_muted c))]"
  from assms(1) have J: "has_key J (json_object J ?kvs) ''deafed''" "has_key J (json_object J ?kvs) ''muted''"
    "const_at J (json_object J ?kvs) ''deafed'' = Ok (json_of_bool J (self_deafed c))"
    "const_at J (json_object J ?kvs) ''muted'' = Ok (json_of_bool J (self_muted c))"
    "json_to_bool J (json_of_bool J x) = Ok x" for x
    by (simp_all add: object_laws_def)
  show ?thesis
    using assms(2)
    by (cases "mutes_and_deafs d own")
      (auto simp: send_state_def communicator_on_custom_def take_flag_def change_mute_deaf_def field_def
        prog_eval Let_def J is_muted_def is_deafed_def)
qed

definition sample_communicator :: "json communicator" where
  "sample_communicator = \<lparr> communicator_room = Some ''me'', mutes_and_deafs = (\<lambda>i. None), self_muted = True,
     self_deafed = False, set_states = [], told_mute_deaf = [] \<rparr>"

lemma mute_state_understood_witness:
  "\<exists>x d'. set_states (send_state plain_doc ''me'' sample_communicator) = set_states sample_communicator @ [x] \<and>
     communicator_on_custom Debug plain_doc x sample_communicator = (d', Ok ()) \<and>
     is_muted ''me'' d' = self_muted sample_communicator \<and> is_deafed ''me'' d' = self_deafed sample_communicator \<and>
     (\<forall>j. j \<noteq> ''me'' \<longrightarrow> mutes_and_deafs d' j = mutes_and_deafs sample_communicator j)"
  by (rule mute_state_understood[OF plain_object_laws]) simp

end
