(* ===== verification/Video_Sharing.thy ===== *)
theory Video_Sharing
  imports Stateful
begin

text \<open>
  What is seen: tracks and connections, and the camera
  (tracks\_adder.cpp, own\_video.cpp and video\_settings.cpp in src/fubble/client;
  capture/video/device.cpp in src/fubble/rtc/google).

  Adders, connections and videos are known by names. The capture library is a
  parameter: \<open>opens\<close> tells which cameras can be opened at that moment.
\<close>

section \<open>Every track on every connection\<close>

text \<open>\<open>attached\<close> are the calls that are in effect: a track adder added its track to a
  connection and did not remove it.\<close>

record ('a, 'c) tracks_adder =
  adders :: "'a list"
  connections :: "'c list"
  attached :: "('a \<times> 'c) list"

definition attach :: "'a \<Rightarrow> 'c \<Rightarrow> ('a, 'c) tracks_adder \<Rightarrow> ('a, 'c) tracks_adder" where
  "attach a c s = s\<lparr> attached := attached s @ [(a, c)] \<rparr>"

definition detach :: "'a \<Rightarrow> 'c \<Rightarrow> ('a, 'c) tracks_adder \<Rightarrow> ('a, 'c) tracks_adder" where
  "detach a c s = s\<lparr> attached := remove1 (a, c) (attached s) \<rparr>"

definition add_adder :: "build \<Rightarrow> 'a \<Rightarrow> ('a, 'c) tracks_adder \<Rightarrow> ('a, 'c) tracks_adder res" where
  "add_adder b a s =
     rbind (boost_assert b (a \<notin> set (adders s))) (\<lambda>u.
     Ok (fold (attach a) (connections s) (s\<lparr> adders := adders s @ [a] \<rparr>)))"

text \<open>In a Release build the search may fail; erasing \<open>end()\<close> is then undefined.\<close>

definition remove_adder :: "build \<Rightarrow> 'a \<Rightarrow> ('a, 'c) tracks_adder \<Rightarrow> ('a, 'c) tracks_adder res" where
  "remove_adder b a s =
     rbind (boost_assert b (a \<in> set (adders s))) (\<lambda>u.
     if a \<notin> set (adders s) then Undefined
     else Ok ((fold (detach a) (connections s) s)\<lparr> adders := remove1 a (adders s) \<rparr>))"

definition add_connection :: "build \<Rightarrow> 'c \<Rightarrow> ('a, 'c) tracks_adder \<Rightarrow> ('a, 'c) tracks_adder res" where
  "add_connection b c s =
     rbind (boost_assert b (c \<notin> set (connections s))) (\<lambda>u.
     Ok (fold (\<lambda>a. attach a c) (adders s) (s\<lparr> connections := connections s @ [c] \<rparr>)))"

definition remove_connection :: "build \<Rightarrow> 'c \<Rightarrow> ('a, 'c) tracks_adder \<Rightarrow> ('a, 'c) tracks_adder res" where
  "remove_connection b c s =
     rbind (boost_assert b (c \<in> set (connections s))) (\<lambda>u.
     if c \<notin> set (connections s) then Undefined
     else Ok ((fold (\<lambda>a. detach a c) (adders s) s)\<lparr> connections := remove1 c (connections s) \<rparr>))"

datatype ('a, 'c) adder_event =
    Add_adder 'a
  | Remove_adder 'a
  | Add_connection 'c
  | Remove_connection 'c

fun adder_step :: "build \<Rightarrow> ('a, 'c) tracks_adder \<Rightarrow> ('a, 'c) adder_event \<Rightarrow> ('a, 'c) tracks_adder res" where
  "adder_step b s (Add_adder a) = add_adder b a s"
| "adder_step b s (Remove_adder a) = remove_adder b a s"
| "adder_step b s (Add_connection c) = add_connection b c s"
| "adder_step b s (Remove_connection c) = remove_connection b c s"

definition adder_inv :: "('a, 'c) tracks_adder \<Rightarrow> bool" where
  "adder_inv s \<longleftrightarrow> distinct (adders s) \<and> distinct (connections s) \<and> distinct (attached s) \<and>
     set (attached s) = set (adders s) \<times> set (connections s)"

lemma fold_attach:
  "adders (fold (\<lambda>x. attach (f x) (g x)) xs s) = adders s"
  "connections (fold (\<lambda>x. attach (f x) (g x)) xs s) = connections s"
  "attached (fold (\<lambda>x. attach (f x) (g x)) xs s) = attached s @ map (\<lambda>x. (f x, g x)) xs"
  by (induction xs arbitrary: s) (auto simp: attach_def)

lemma fold_detach_simps:
  "adders (fold (\<lambda>x. detach (f x) (g x)) xs s) = adders s"
  "connections (fold (\<lambda>x. detach (f x) (g x)) xs s) = connections s"
  by (induction xs arbitrary: s) (auto simp: detach_def)

lemma fold_detach:
  "distinct (attached s) \<Longrightarrow> distinct (attached (fold (\<lambda>x. detach (f x) (g x)) xs s)) \<and>
   set (attached (fold (\<lambda>x. detach (f x) (g x)) xs s)) = set (attached s) - (\<lambda>x. (f x, g x)) ` set xs"
  by (induction xs arbitrary: s) (auto simp: detach_def)

lemmas fold_attach_adder = fold_attach[where f = "\<lambda>x. a" and g = "\<lambda>x. x" for a]
lemmas fold_attach_connection = fold_attach[where f = "\<lambda>x. x" and g = "\<lambda>x. c" for c]
lemmas fold_detach_adder = fold_detach_simps[where f = "\<lambda>x. a" and g = "\<lambda>x. x" for a]
  fold_detach[where f = "\<lambda>x. a" and g = "\<lambda>x. x" for a]
lemmas fold_detach_connection = fold_detach_simps[where f = "\<lambda>x. x" and g = "\<lambda>x. c" for c]
  fold_detach[where f = "\<lambda>x. x" and g = "\<lambda>x. c" for c]

interpretation tracks: state_machine "adder_step Debug" adder_inv
proof
  fix s t :: "('a, 'c) tracks_adder" and e
  assume inv: "adder_inv s" and step: "adder_step Debug s e = Ok t"
  show "adder_inv t"
  proof (cases e)
    case (Add_adder a)
    with inv step show ?thesis
      by (auto simp: adder_inv_def add_adder_def res_simps fold_attach_adder distinct_map inj_on_def)
  next
    case (Remove_adder a)
    with inv step show ?thesis
      by (auto simp: adder_inv_def remove_adder_def res_simps fold_detach_adder)
  next
    case (Add_connection c)
    with inv step show ?thesis
      by (auto simp: adder_inv_def add_connection_def res_simps fold_attach_connection distinct_map inj_on_def)
  next
    case (Remove_connection c)
    with inv step show ?thesis
      by (auto simp: adder_inv_def remove_connection_def res_simps fold_detach_connection)
  qed
qed


section \<open>Own videos\<close>

record 'v own_video =
  own_videos :: "'v list"
  videos_told :: "(bool \<times> 'v) list"

definition own_video_add :: "build \<Rightarrow> 'v \<Rightarrow> ('v, 'z) own_video_scheme \<Rightarrow> ('v, 'z) own_video_scheme res" where
  "own_video_add b v s =
     rbind (boost_assert b (v \<notin> set (own_videos s))) (\<lambda>u.
     Ok (s\<lparr> own_videos := own_videos s @ [v], videos_told := videos_told s @ [(True, v)] \<rparr>))"

definition own_video_remove :: "build \<Rightarrow> 'v \<Rightarrow> ('v, 'z) own_video_scheme \<Rightarrow> ('v, 'z) own_video_scheme res" where
  "own_video_remove b v s =
     (if v \<notin> set (own_videos s) then rbind (boost_assert b False) (\<lambda>u. Ok s)
      else Ok (s\<lparr> own_videos := remove1 v (own_videos s), videos_told := videos_told s @ [(False, v)] \<rparr>))"


section \<open>One camera, many users\<close>

text \<open>The wrappers around one device share a counter; the device captures from the
  first start to the last stop.\<close>

record shared_device =
  counter :: int
  capturing :: bool
  wrapper_started :: "bool list"

definition new_wrapper :: "shared_device \<Rightarrow> shared_device" where
  "new_wrapper s = s\<lparr> wrapper_started := wrapper_started s @ [False] \<rparr>"

definition wrapper_start :: "bool \<Rightarrow> nat \<Rightarrow> (shared_device, unit) prog" where
  "wrapper_start opens n =
     sbind (gets (\<lambda>s. wrapper_started s ! n)) (\<lambda>started.
     if started then ret ()
     else sthen (update (\<lambda>s. s\<lparr> wrapper_started := (wrapper_started s)[n := True], counter := counter s + 1 \<rparr>))
       (sbind (gets counter) (\<lambda>c.
        if c = 1 then (if opens then update (\<lambda>s. s\<lparr> capturing := True \<rparr>) else lift_res (Throw Runtime_error))
        else ret ())))"

definition wrapper_stop :: "build \<Rightarrow> nat \<Rightarrow> (shared_device, unit) prog" where
  "wrapper_stop b n =
     sbind (gets (\<lambda>s. wrapper_started s ! n)) (\<lambda>started.
     if \<not> started then ret ()
     else sthen (update (\<lambda>s. s\<lparr> wrapper_started := (wrapper_started s)[n := False], counter := counter s - 1 \<rparr>))
       (sbind (gets counter) (\<lambda>c. sthen (sassert b (c \<ge> 0))
        (if c = 0 then update (\<lambda>s. s\<lparr> capturing := False \<rparr>) else ret ()))))"

definition device_inv :: "shared_device \<Rightarrow> bool" where
  "device_inv s \<longleftrightarrow> counter s = int (length (filter id (wrapper_started s))) \<and>
     (capturing s \<longrightarrow> counter s > 0)"

lemma filter_update_True:
  "n < length xs \<Longrightarrow> \<not> xs ! n \<Longrightarrow> length (filter id (xs[n := True])) = Suc (length (filter id xs))"
  by (induction xs arbitrary: n) (auto simp: nth_Cons split: nat.splits)

lemma filter_update_False:
  "n < length xs \<Longrightarrow> xs ! n \<Longrightarrow> Suc (length (filter id (xs[n := False]))) = length (filter id xs)"
  by (induction xs arbitrary: n) (auto simp: nth_Cons split: nat.splits)

text \<open>The counter counts the started wrappers, whether the device opens or not; the
  assertion of \<open>stop\<close> never fires. Once a start succeeded the device captures until
  the last wrapper stops.\<close>

lemma wrapper_start_inv:
  assumes "device_inv s" "n < length (wrapper_started s)" "wrapper_start opens n s = (t, r)"
  shows "device_inv t \<and> wrapper_started t ! n"
  using assms filter_update_True[OF assms(2)]
  by (auto simp: wrapper_start_def prog_eval device_inv_def split: if_splits)

lemma wrapper_stop_inv:
  assumes "device_inv s" "n < length (wrapper_started s)"
  shows "\<exists>t. wrapper_stop b n s = (t, Ok ()) \<and> device_inv t \<and> \<not> wrapper_started t ! n \<and>
    (True \<in> set (wrapper_started t) \<longrightarrow> capturing t = capturing s) \<and>
    (True \<notin> set (wrapper_started t) \<longrightarrow> wrapper_started s ! n \<longrightarrow> \<not> capturing t)"
proof -
  have pos: "length (filter id xs) = 0 \<longleftrightarrow> True \<notin> set xs" for xs :: "bool list"
    by (induction xs) auto
  show ?thesis
    using assms filter_update_False[OF assms(2)] pos[of "(wrapper_started s)[n := False]"] pos[of "wrapper_started s"]
    by (auto simp: wrapper_stop_def prog_eval sassert_def boost_assert_def device_inv_def)
qed


record device_factory =
  factory_devices :: "(string \<times> shared_device) list"

text \<open>The factory keeps one device for every id it ever created; the result is the
  place of the device and the number of the new wrapper.\<close>

definition fresh_device :: shared_device where
  "fresh_device = \<lparr> counter = 0, capturing = False, wrapper_started = [] \<rparr>"

definition factory_create ::
  "(string \<Rightarrow> bool) \<Rightarrow> string \<Rightarrow> (device_factory, nat \<times> nat) prog" where
  "factory_create exists i =
     sthen (sbind (gets factory_devices) (\<lambda>ds.
         if i \<in> fst ` set ds then ret ()
         else if \<not> exists i then lift_res (Throw Runtime_error)
         else update (\<lambda>s. s\<lparr> factory_devices := ds @ [(i, fresh_device)] \<rparr>)))
     (sbind (gets factory_devices) (\<lambda>ds.
        case find_index (\<lambda>d. fst d = i) ds of None \<Rightarrow> lift_res Undefined
        | Some k \<Rightarrow> sthen (update (\<lambda>s. s\<lparr> factory_devices := ds[k := (i, new_wrapper (snd (ds ! k)))] \<rparr>))
            (ret (k, length (wrapper_started (snd (ds ! k)))))))"

text \<open>One device per id, whatever is created in whatever order.\<close>

lemma factory_create_distinct:
  assumes "distinct (map fst (factory_devices s))" "factory_create exists i s = (t, r)"
  shows "distinct (map fst (factory_devices t)) \<and> set (map fst (factory_devices s)) \<subseteq> set (map fst (factory_devices t)) \<and>
    (\<forall>k n. r = Ok (k, n) \<longrightarrow> k < length (factory_devices t) \<and> fst (factory_devices t ! k) = i \<and>
       n < length (wrapper_started (snd (factory_devices t ! k))))"
proof -
  have upd: "map fst (ds[k := (fst (ds ! k), y)]) = map fst ds" for ds :: "(string \<times> shared_device) list" and k y
    by (induction ds arbitrary: k) (auto split: nat.splits)
  have keep: "fst ` set (ds[k := (fst (ds ! k), y)]) = fst ` set ds" for ds :: "(string \<times> shared_device) list" and k y
    using upd[of ds k y] by (metis set_map)
  have self: "find_index (\<lambda>d. fst d = i) (ds @ [(i, y)]) = Some (length ds)"
    if "i \<notin> fst ` set ds" for ds and y :: shared_device
    using that by (induction ds) auto
  show ?thesis
  proof (cases "i \<in> fst ` set (factory_devices s)")
    case True
    with assms show ?thesis
      by (auto simp: factory_create_def prog_eval upd keep new_wrapper_def rev_image_eqI split: option.splits
          dest!: find_index_Some)
  next
    case False
    with assms show ?thesis
      by (auto simp: factory_create_def prog_eval self upd new_wrapper_def split: if_splits)
  qed
qed


section \<open>The camera\<close>

text \<open>\<open>told_video\<close> are the signals sent: \<open>None\<close> is \<open>on_video_source_changed\<close>.\<close>

record 'c video =
  video_tracks :: "(nat, 'c) tracks_adder"
  video_own :: "string own_video"
  next_adder :: nat
  enumerated :: "string list"
  capture_device :: "string option"
  video_adder :: "nat option"
  video_paused :: bool
  last_device_id :: "string option"
  told_video :: "bool option list"

definition on_part :: "('s \<Rightarrow> 'p) \<Rightarrow> ('p \<Rightarrow> 's \<Rightarrow> 's) \<Rightarrow> ('p \<Rightarrow> 'p res) \<Rightarrow> ('s, unit) prog" where
  "on_part look put f = sbind (gets look) (\<lambda>x. sbind (lift_res (f x)) (\<lambda>y. update (put y)))"

definition on_tracks ::
  "((nat, 'c) tracks_adder \<Rightarrow> (nat, 'c) tracks_adder res) \<Rightarrow> (('c, 'z) video_scheme, unit) prog" where
  "on_tracks = on_part video_tracks (\<lambda>t s. s\<lparr> video_tracks := t \<rparr>)"

definition on_own :: "(string own_video \<Rightarrow> string own_video res) \<Rightarrow> (('c, 'z) video_scheme, unit) prog" where
  "on_own = on_part video_own (\<lambda>t s. s\<lparr> video_own := t \<rparr>)"

definition source_changed :: "(('c, 'z) video_scheme, unit) prog" where
  "source_changed = update (\<lambda>s. s\<lparr> told_video := told_video s @ [None] \<rparr>)"

text \<open>Removing the empty pointer is looking for an adder that is never there.\<close>

definition remove_track :: "build \<Rightarrow> nat option \<Rightarrow> (('c, 'z) video_scheme, unit) prog" where
  "remove_track b a =
     (case a of None \<Rightarrow> sthen (sassert b False) (lift_res Undefined) | Some a \<Rightarrow> on_tracks (remove_adder b a))"

definition add_new_track :: "build \<Rightarrow> (nat \<Rightarrow> ('c, 'z) video_scheme \<Rightarrow> ('c, 'z) video_scheme) \<Rightarrow>
    (('c, 'z) video_scheme, unit) prog" where
  "add_new_track b remember = sbind (gets next_adder) (\<lambda>a.
     sthen (update (\<lambda>s. remember a (s\<lparr> next_adder := Suc a \<rparr>))) (on_tracks (add_adder b a)))"

definition reset_current_video_capture :: "build \<Rightarrow> (('c, 'z) video_scheme, unit) prog" where
  "reset_current_video_capture b = sbind (gets capture_device) (\<lambda>d.
     case d of None \<Rightarrow> ret ()
     | Some d \<Rightarrow> sbind (gets video_adder) (\<lambda>a. sthen (remove_track b a)
         (sthen (update (\<lambda>s. s\<lparr> video_adder := None \<rparr>))
         (sthen (on_own (own_video_remove b d))
         (update (\<lambda>s. s\<lparr> capture_device := None \<rparr>))))))"

definition reset_current_video :: "build \<Rightarrow> (('c, 'z) video_scheme, unit) prog" where
  "reset_current_video b = sthen (reset_current_video_capture b)
     (sthen (update (\<lambda>s. s\<lparr> last_device_id := None \<rparr>)) source_changed)"

definition change_to_device :: "build \<Rightarrow> (string \<Rightarrow> bool) \<Rightarrow> string \<Rightarrow> (('c, 'z) video_scheme, unit) prog" where
  "change_to_device b opens i = sbind (gets capture_device) (\<lambda>d.
     if d = Some i then ret ()
     else sthen (if d = None then ret () else reset_current_video b)
      (sthen (update (\<lambda>s. s\<lparr> last_device_id := Some i \<rparr>))
      (sbind (gets video_paused) (\<lambda>p.
        if p then ret ()
        else if \<not> opens i then
          sthen (update (\<lambda>s. s\<lparr> last_device_id := None \<rparr>)) (sthen source_changed (lift_res (Throw Runtime_error)))
        else sthen (update (\<lambda>s. s\<lparr> capture_device := Some i \<rparr>))
          (sthen (add_new_track b (\<lambda>a s. s\<lparr> video_adder := Some a \<rparr>))
          (sthen (on_own (own_video_add b i)) source_changed))))))"

text \<open>The first device that can be opened is taken; the failures are logged.\<close>

fun setup_initial_device ::
  "build \<Rightarrow> (string \<Rightarrow> bool) \<Rightarrow> string list \<Rightarrow> (('c, 'z) video_scheme, unit) prog" where
  "setup_initial_device b opens [] = ret ()"
| "setup_initial_device b opens (i # is) = (\<lambda>s.
     case change_to_device b opens i s of
       (t, Throw e) \<Rightarrow> setup_initial_device b opens is t
     | done \<Rightarrow> done)"

text \<open>\<open>slot\<close> is what is connected to \<open>on_paused\<close>.\<close>

definition video_pause :: "(bool \<Rightarrow> (('c, 'z) video_scheme, unit) prog) \<Rightarrow> build \<Rightarrow> (string \<Rightarrow> bool) \<Rightarrow> bool \<Rightarrow>
    (('c, 'z) video_scheme, unit) prog" where
  "video_pause slot b opens p = sbind (gets video_paused) (\<lambda>paused.
     if paused = p then ret ()
     else
       let signal = sthen (update (\<lambda>s. s\<lparr> told_video := told_video s @ [Some p] \<rparr>)) (slot p) in
       sthen (update (\<lambda>s. s\<lparr> video_paused := p \<rparr>))
        (if p then sthen (reset_current_video_capture b) (sthen source_changed signal)
         else sbind (gets last_device_id) (\<lambda>i.
           case i of None \<Rightarrow> ret () | Some i \<Rightarrow> sthen (change_to_device b opens i) signal)))"

definition is_a_video_available :: "('c, 'z) video_scheme \<Rightarrow> bool" where
  "is_a_video_available s \<longleftrightarrow> last_device_id s \<noteq> None"

definition on_video_devices_changed :: "build \<Rightarrow> (('c, 'z) video_scheme, unit) prog" where
  "on_video_devices_changed b = sbind (gets last_device_id) (\<lambda>i.
     case i of None \<Rightarrow> ret ()
     | Some i \<Rightarrow> sbind (gets enumerated) (\<lambda>ds. if i \<in> set ds then ret () else reset_current_video b))"


section \<open>The camera is shown exactly while it captures\<close>

lemma add_adder_result:
  assumes "adder_inv t" "a \<notin> set (adders t)"
  shows "\<exists>t'. add_adder b a t = Ok t' \<and> adder_inv t' \<and> adders t' = adders t @ [a] \<and> connections t' = connections t"
  using assms
  by (auto simp: adder_inv_def add_adder_def fold_attach_adder distinct_map inj_on_def)

lemma remove_adder_result:
  assumes "adder_inv t" "a \<in> set (adders t)"
  shows "\<exists>t'. remove_adder b a t = Ok t' \<and> adder_inv t' \<and> adders t' = remove1 a (adders t) \<and>
    connections t' = connections t"
  using assms
  by (auto simp: adder_inv_def remove_adder_def fold_detach_adder)

definition video_inv :: "('c, 'z) video_scheme \<Rightarrow> bool" where
  "video_inv s \<longleftrightarrow> adder_inv (video_tracks s) \<and> (\<forall>a \<in> set (adders (video_tracks s)). a < next_adder s) \<and>
     (case capture_device s of
        None \<Rightarrow> video_adder s = None \<and> own_videos (video_own s) = []
      | Some d \<Rightarrow> last_device_id s = Some d \<and> own_videos (video_own s) = [d] \<and>
          (\<exists>a \<in> set (adders (video_tracks s)). video_adder s = Some a))"

definition video_ok :: "('c, 'z) video_scheme \<Rightarrow> bool" where
  "video_ok s \<longleftrightarrow> video_inv s \<and> (video_paused s \<longrightarrow> capture_device s = None)"

text \<open>What the camera code leaves alone: the tracks of others, the connections and
  the state around it.\<close>

definition other_adders :: "('c, 'z) video_scheme \<Rightarrow> nat set" where
  "other_adders s = set (adders (video_tracks s)) - set_option (video_adder s)"

definition same_rest :: "('c, 'z) video_scheme \<Rightarrow> ('c, 'z) video_scheme \<Rightarrow> bool" where
  "same_rest s t \<longleftrightarrow> other_adders t = other_adders s \<and> connections (video_tracks t) = connections (video_tracks s) \<and>
     video.more t = video.more s \<and> enumerated t = enumerated s \<and> next_adder s \<le> next_adder t"

lemma same_rest_refl [simp]: "same_rest s s"
  by (simp add: same_rest_def)

lemma same_rest_trans: "same_rest s t \<Longrightarrow> same_rest t u \<Longrightarrow> same_rest s u"
  by (auto simp: same_rest_def)

lemma unseen_fields [simp]:
  "video_inv (s\<lparr> video_paused := p \<rparr>) = video_inv s" "video_inv (s\<lparr> told_video := ns \<rparr>) = video_inv s"
  "same_rest s (t\<lparr> video_paused := p \<rparr>) = same_rest s t" "same_rest s (t\<lparr> told_video := ns \<rparr>) = same_rest s t"
  "same_rest (s\<lparr> video_paused := p \<rparr>) t = same_rest s t"
  by (simp_all add: video_inv_def same_rest_def other_adders_def split: option.split)

lemma reset_capture_result:
  assumes "video_inv s"
  shows "\<exists>t. reset_current_video_capture b s = (t, Ok ()) \<and> video_inv t \<and> same_rest s t \<and> capture_device t = None \<and>
    last_device_id t = last_device_id s \<and> video_paused t = video_paused s \<and> told_video t = told_video s"
proof (cases "capture_device s")
  case None
  with assms show ?thesis by (simp add: reset_current_video_capture_def prog_eval)
next
  case (Some d)
  with assms obtain a where a: "a \<in> set (adders (video_tracks s))" "video_adder s = Some a"
    and inv: "adder_inv (video_tracks s)" and own: "own_videos (video_own s) = [d]"
    and low: "\<forall>a \<in> set (adders (video_tracks s)). a < next_adder s"
    by (auto simp: video_inv_def)
  obtain t where t: "remove_adder b a (video_tracks s) = Ok t" "adder_inv t"
    "adders t = remove1 a (adders (video_tracks s))" "connections t = connections (video_tracks s)"
    using remove_adder_result[OF inv a(1), of b] by blast
  have "distinct (adders (video_tracks s))" using inv by (simp add: adder_inv_def)
  then have "set (adders t) = set (adders (video_tracks s)) - {a}" using t(3) by simp
  with Some a own t low show ?thesis
    by (auto simp: reset_current_video_capture_def prog_eval remove_track_def on_tracks_def on_own_def on_part_def
        own_video_remove_def video_inv_def same_rest_def other_adders_def)
qed

lemma reset_video_result:
  assumes "video_inv s"
  shows "\<exists>t. reset_current_video b s = (t, Ok ()) \<and> video_inv t \<and> same_rest s t \<and> capture_device t = None \<and>
    last_device_id t = None \<and> video_paused t = video_paused s"
proof -
  obtain t where t: "reset_current_video_capture b s = (t, Ok ())" "video_inv t" "same_rest s t" "capture_device t = None"
    "video_paused t = video_paused s"
    using reset_capture_result[OF assms, of b] by blast
  then show ?thesis
    by (auto simp: reset_current_video_def prog_eval source_changed_def video_inv_def same_rest_def other_adders_def)
qed

lemma start_device_result:
  assumes "video_inv s" "capture_device s = None" "last_device_id s = Some i"
  shows "\<exists>t. sthen (update (\<lambda>s. s\<lparr> capture_device := Some i \<rparr>))
          (sthen (add_new_track b (\<lambda>a s. s\<lparr> video_adder := Some a \<rparr>))
          (sthen (on_own (own_video_add b i)) source_changed)) s = (t, Ok ()) \<and> video_inv t \<and> same_rest s t \<and>
    capture_device t = Some i \<and> last_device_id t = Some i \<and> video_paused t = video_paused s"
proof -
  from assms have inv: "adder_inv (video_tracks s)" "next_adder s \<notin> set (adders (video_tracks s))"
    and low: "\<forall>a \<in> set (adders (video_tracks s)). a < next_adder s" and own: "own_videos (video_own s) = []"
    and none: "video_adder s = None"
    by (auto simp: video_inv_def)
  obtain t where "add_adder b (next_adder s) (video_tracks s) = Ok t" "adder_inv t"
    "adders t = adders (video_tracks s) @ [next_adder s]" "connections t = connections (video_tracks s)"
    using add_adder_result[OF inv, of b] by blast
  with assms low own none inv(2) show ?thesis
    by (auto simp: prog_eval add_new_track_def on_tracks_def on_own_def on_part_def own_video_add_def
        source_changed_def video_inv_def same_rest_def other_adders_def)
qed

lemma change_device_result:
  assumes "video_ok s"
  shows "\<exists>t r. change_to_device b opens i s = (t, r) \<and> video_ok t \<and> same_rest s t \<and> video_paused t = video_paused s \<and>
    (r = Ok () \<and> last_device_id t = Some i \<and> (\<not> video_paused s \<longrightarrow> capture_device t = Some i) \<or>
     r = Throw Runtime_error \<and> \<not> opens i \<and> \<not> video_paused s \<and> capture_device t = None \<and> last_device_id t = None)"
proof (cases "capture_device s = Some i")
  case True
  with assms show ?thesis by (auto simp: change_to_device_def prog_eval video_ok_def video_inv_def)
next
  case False
  obtain u where u: "(if capture_device s = None then ret () else reset_current_video b) s = (u, Ok ())" "video_inv u"
    "same_rest s u" "capture_device u = None" "video_paused u = video_paused s"
  proof (cases "capture_device s")
    case None
    with assms that[of s] show ?thesis by (simp add: video_ok_def prog_eval)
  next
    case (Some d)
    with assms reset_video_result[of s b] that show ?thesis by (auto simp: video_ok_def)
  qed
  let ?v = "u\<lparr> last_device_id := Some i \<rparr>"
  have v: "video_inv ?v" "same_rest s ?v" "capture_device ?v = None"
    using u by (auto simp: video_inv_def same_rest_def other_adders_def)
  have run: "change_to_device b opens i s =
      (if video_paused s then (?v, Ok ())
       else if \<not> opens i then (?v\<lparr> last_device_id := None, told_video := told_video u @ [None] \<rparr>, Throw Runtime_error)
       else sthen (update (\<lambda>s. s\<lparr> capture_device := Some i \<rparr>))
          (sthen (add_new_track b (\<lambda>a s. s\<lparr> video_adder := Some a \<rparr>))
          (sthen (on_own (own_video_add b i)) source_changed)) ?v)"
    using False u(1,5) by (simp add: change_to_device_def sthen_Pair source_changed_def prog_eval del: sthen_update)
  show ?thesis
  proof (cases "\<not> video_paused s \<and> opens i")
    case True
    obtain t where "sthen (update (\<lambda>s. s\<lparr> capture_device := Some i \<rparr>))
          (sthen (add_new_track b (\<lambda>a s. s\<lparr> video_adder := Some a \<rparr>))
          (sthen (on_own (own_video_add b i)) source_changed)) ?v = (t, Ok ())" "video_inv t" "same_rest ?v t"
      "capture_device t = Some i" "last_device_id t = Some i" "video_paused t = video_paused ?v"
      using start_device_result[OF v(1,3), of i b] by auto
    with True run u(5) same_rest_trans[OF v(2)] show ?thesis by (simp add: video_ok_def)
  next
    case nope: False
    with run u v show ?thesis
      by (auto simp: video_ok_def video_inv_def same_rest_def other_adders_def)
  qed
qed


lemma change_device_fails:
  assumes "capture_device s = None" "\<not> video_paused s" "\<not> opens i"
  shows "snd (change_to_device b opens i s) = Throw Runtime_error"
  using assms by (simp add: change_to_device_def prog_eval source_changed_def)

lemma setup_result:
  assumes "video_ok s" "\<not> video_paused s" "capture_device s = None"
  shows "\<exists>t. setup_initial_device b opens ds s = (t, Ok ()) \<and> video_ok t \<and> same_rest s t \<and> \<not> video_paused t \<and>
    capture_device t = find_first opens ds"
  using assms
proof (induction ds arbitrary: s)
  case Nil
  then show ?case by (simp add: prog_eval)
next
  case (Cons i ds)
  obtain t r where t: "change_to_device b opens i s = (t, r)" "video_ok t" "same_rest s t" "video_paused t = video_paused s"
    and r: "r = Ok () \<and> last_device_id t = Some i \<and> (\<not> video_paused s \<longrightarrow> capture_device t = Some i) \<or>
     r = Throw Runtime_error \<and> \<not> opens i \<and> \<not> video_paused s \<and> capture_device t = None \<and> last_device_id t = None"
    using change_device_result[OF Cons.prems(1), of b opens i] by blast
  show ?case
  proof (cases "opens i")
    case True
    with t r Cons.prems(2) show ?thesis by auto
  next
    case False
    show ?thesis
    proof (cases r)
      case (Ok x)
      with r have "capture_device t = Some i" using Cons.prems(2) by simp
      with False t Ok r Cons.prems show ?thesis
        using change_device_fails[where opens = opens and b = b, OF Cons.prems(3) Cons.prems(2) False] by simp
    next
      case (Throw e)
      with t r Cons.prems(2) Cons.IH[of t] False show ?thesis
        by (auto intro: same_rest_trans)
    qed (use r in simp_all)
  qed
qed

lemma pause_result:
  assumes "video_ok s" "\<not> video_paused s"
  shows "\<exists>t. video_pause slot b opens True s = slot True t \<and> video_ok t \<and> same_rest s t \<and> video_paused t \<and>
    capture_device t = None \<and> last_device_id t = last_device_id s"
proof -
  have "video_inv (s\<lparr> video_paused := True \<rparr>)" using assms(1) by (simp add: video_ok_def)
  from reset_capture_result[OF this, of b] obtain t where
    t: "reset_current_video_capture b (s\<lparr> video_paused := True \<rparr>) = (t, Ok ())" "video_inv t"
      "same_rest (s\<lparr> video_paused := True \<rparr>) t" "capture_device t = None" "last_device_id t = last_device_id s" "video_paused t"
    by auto
  let ?t = "t\<lparr> told_video := told_video t @ [None] @ [Some True] \<rparr>"
  have "video_pause slot b opens True s = slot True ?t"
    using t(1) assms(2) by (simp add: video_pause_def Let_def sthen_Pair source_changed_def)
  moreover have "video_ok ?t" "same_rest s ?t"
    using t by (simp_all add: video_ok_def)
  ultimately show ?thesis using t by auto
qed

lemma unpause_result:
  assumes "video_ok s" "video_paused s"
  shows "\<exists>t. video_ok t \<and> same_rest s t \<and> \<not> video_paused t \<and>
    (case last_device_id s of
       None \<Rightarrow> video_pause slot b opens False s = (t, Ok ()) \<and> capture_device t = None \<and> last_device_id t = None
     | Some i \<Rightarrow>
         if opens i then video_pause slot b opens False s = slot False t \<and> capture_device t = Some i \<and>
           last_device_id t = Some i
         else video_pause slot b opens False s = (t, Throw Runtime_error) \<and> capture_device t = None \<and>
           last_device_id t = None)"
proof -
  let ?s = "s\<lparr> video_paused := False \<rparr>"
  have s: "video_ok ?s" "capture_device ?s = None" "same_rest s ?s"
    using assms by (simp_all add: video_ok_def)
  show ?thesis
  proof (cases "last_device_id s")
    case None
    with s assms(2) show ?thesis
      by (intro exI[of _ ?s]) (simp add: video_pause_def Let_def prog_eval)
  next
    case (Some i)
    obtain t r where t: "change_to_device b opens i ?s = (t, r)" "video_ok t" "same_rest ?s t" "\<not> video_paused t"
      and r: "r = Ok () \<and> last_device_id t = Some i \<and> capture_device t = Some i \<or>
        r = Throw Runtime_error \<and> \<not> opens i \<and> capture_device t = None \<and> last_device_id t = None"
      using change_device_result[OF s(1), of b opens i] by auto
    show ?thesis
    proof (cases "opens i")
      case True
      let ?t = "t\<lparr> told_video := told_video t @ [Some False] \<rparr>"
      have "video_pause slot b opens False s = slot False ?t"
        using t(1) r Some assms(2) True by (simp add: video_pause_def Let_def sthen_Pair)
      moreover have "video_ok ?t" "same_rest s ?t"
        using t by (simp_all add: video_ok_def)
      ultimately show ?thesis using Some True t r by (intro exI[of _ ?t]) auto
    next
      case False
      with change_device_fails[where opens = opens and b = b, OF s(2) _ False] t(1) r
      have "r = Throw Runtime_error" by auto
      with t r s(3) Some False assms(2) show ?thesis
        by (intro exI[of _ t]) (auto simp: video_pause_def Let_def sthen_Throw intro: same_rest_trans)
    qed
  qed
qed


datatype video_event =
    Pause_video bool "string \<Rightarrow> bool"
  | Change_device string "string \<Rightarrow> bool"
  | Devices_changed "string list"

text \<open>The exceptions end in the user interface.\<close>

fun video_step :: "build \<Rightarrow> 'c video \<Rightarrow> video_event \<Rightarrow> 'c video res" where
  "video_step b s (Pause_video p opens) = handled (video_pause (\<lambda>p. ret ()) b opens p) s"
| "video_step b s (Change_device i opens) = handled (change_to_device b opens i) s"
| "video_step b s (Devices_changed ds) = handled (on_video_devices_changed b) (s\<lparr> enumerated := ds \<rparr>)"

definition fresh_video :: "'c list \<Rightarrow> string list \<Rightarrow> 'c video" where
  "fresh_video cs ds = \<lparr> video_tracks = \<lparr> adders = [], connections = cs, attached = [] \<rparr>,
     video_own = \<lparr> own_videos = [], videos_told = [] \<rparr>, next_adder = 0, enumerated = ds,
     capture_device = None, video_adder = None, video_paused = False, last_device_id = None, told_video = [] \<rparr>"

definition camera_inv :: "'c list \<Rightarrow> 'c video \<Rightarrow> bool" where
  "camera_inv cs s \<longleftrightarrow> video_ok s \<and> other_adders s = {} \<and> connections (video_tracks s) = cs"

lemma camera_inv_rest: "camera_inv cs s \<Longrightarrow> video_ok t \<Longrightarrow> same_rest s t \<Longrightarrow> camera_inv cs t"
  by (simp add: camera_inv_def same_rest_def)

lemma camera_step:
  assumes "camera_inv cs s"
  shows "\<exists>t. video_step b s e = Ok t \<and> camera_inv cs t"
proof (cases e)
  case (Pause_video p opens)
  from assms have ok: "video_ok s" by (simp add: camera_inv_def)
  let ?slot = "\<lambda>p :: bool. ret () :: ('c video, unit) prog"
  show ?thesis
  proof (cases "video_paused s = p")
    case True
    with assms Pause_video show ?thesis by (simp add: video_pause_def handled_def prog_eval)
  next
    case False
    then consider "p" "\<not> video_paused s" | "\<not> p" "video_paused s" by blast
    then show ?thesis
    proof cases
      case 1
      with pause_result[OF ok 1(2), where b = b and slot = ?slot and opens = opens] Pause_video camera_inv_rest[OF assms]
      show ?thesis by (auto simp: handled_def ret_def)
    next
      case 2
      with unpause_result[OF ok 2(2), where b = b and slot = ?slot and opens = opens] Pause_video camera_inv_rest[OF assms]
      show ?thesis by (auto simp: handled_def ret_def split: option.splits if_splits)
    qed
  qed
next
  case (Change_device i opens)
  from assms have ok: "video_ok s" by (simp add: camera_inv_def)
  from change_device_result[OF ok, of b opens i] Change_device camera_inv_rest[OF assms]
  show ?thesis by (auto simp: handled_def)
next
  case (Devices_changed ds)
  let ?s = "s\<lparr> enumerated := ds \<rparr>"
  have s: "video_inv ?s" "camera_inv cs ?s"
    using assms by (auto simp: camera_inv_def video_ok_def video_inv_def other_adders_def split: option.splits)
  obtain t where "reset_current_video b ?s = (t, Ok ())" "video_inv t" "same_rest ?s t" "capture_device t = None"
    using reset_video_result[OF s(1)] by blast
  with camera_inv_rest[OF s(2), of t] s(2) Devices_changed show ?thesis
    by (auto simp: on_video_devices_changed_def handled_def prog_eval video_ok_def split: option.split)
qed

interpretation camera: total_machine "video_step b" "camera_inv cs" "\<lambda>e. True" for b and cs :: "'c list"
proof
  fix s t :: "'c video" and e
  assume "camera_inv cs s" "video_step b s e = Ok t"
  with camera_step[of cs s b e] show "camera_inv cs t" by auto
next
  fix s :: "'c video" and e
  assume "camera_inv cs s"
  with camera_step[of cs s b e] show "\<exists>t. video_step b s e = Ok t" by auto
qed

lemma attached_camera:
  assumes "camera_inv cs s"
  shows "set (attached (video_tracks s)) =
    (case capture_device s of None \<Rightarrow> {} | Some d \<Rightarrow> {the (video_adder s)} \<times> set cs)"
proof -
  from assms have inv: "video_inv s" "other_adders s = {}" "connections (video_tracks s) = cs"
    by (simp_all add: camera_inv_def video_ok_def)
  then have "set (adders (video_tracks s)) = set_option (video_adder s)"
    by (auto simp: other_adders_def video_inv_def split: option.splits)
  with inv show ?thesis by (auto simp: video_inv_def adder_inv_def split: option.splits)
qed

text \<open>C8. The first camera that can be opened is used. From then on, whatever is
  paused, changed or unplugged and whatever cannot be opened: no assertion fires, the
  own video is shown exactly if a camera captures, its track is on every connection
  exactly then, a paused video captures nothing, and what captures is the device that
  is reported.\<close>
theorem camera_shown_iff_capturing:
  assumes "distinct cs"
  shows "\<exists>s t. setup_initial_device b opens ds (fresh_video cs ds) = (s, Ok ()) \<and>
    capture_device s = find_first opens ds \<and> run_events (video_step b) s es = Ok t \<and>
    own_videos (video_own t) = (case capture_device t of None \<Rightarrow> [] | Some d \<Rightarrow> [d]) \<and>
    set (attached (video_tracks t)) =
      (case capture_device t of None \<Rightarrow> {} | Some d \<Rightarrow> {the (video_adder t)} \<times> set cs) \<and>
    (video_paused t \<longrightarrow> capture_device t = None) \<and>
    (capture_device t \<noteq> None \<longrightarrow> last_device_id t = capture_device t)"
proof -
  have fresh: "camera_inv cs (fresh_video cs ds)"
    using assms by (simp add: camera_inv_def video_ok_def video_inv_def adder_inv_def fresh_video_def other_adders_def)
  obtain s where s: "setup_initial_device b opens ds (fresh_video cs ds) = (s, Ok ())" "video_ok s"
    "same_rest (fresh_video cs ds) s" "capture_device s = find_first opens ds"
    using setup_result[of "fresh_video cs ds" b opens ds] fresh by (auto simp: camera_inv_def fresh_video_def)
  from camera.run_ok[of cs s es b] camera_inv_rest[OF fresh s(2,3)] obtain t
    where t: "run_events (video_step b) s es = Ok t" "camera_inv cs t" by auto
  then have "own_videos (video_own t) = (case capture_device t of None \<Rightarrow> [] | Some d \<Rightarrow> [d])"
    "video_paused t \<longrightarrow> capture_device t = None" "capture_device t \<noteq> None \<longrightarrow> last_device_id t = capture_device t"
    by (auto simp: camera_inv_def video_ok_def video_inv_def split: option.splits)
  with s t attached_camera[OF t(2)] show ?thesis by blast
qed

lemma camera_shown_iff_capturing_witness:
  "\<exists>s t. setup_initial_device Debug (\<lambda>i. i = ''b'') [''a'', ''b''] (fresh_video [1, 2 :: nat] [''a'', ''b'']) = (s, Ok ()) \<and>
    capture_device s = Some ''b'' \<and>
    run_events (video_step Debug) s [Pause_video True (\<lambda>i. True), Change_device ''a'' (\<lambda>i. True)] = Ok t"
proof -
  from camera_shown_iff_capturing[of "[1, 2 :: nat]" Debug "\<lambda>i. i = ''b''" "[''a'', ''b'']"
      "[Pause_video True (\<lambda>i. True), Change_device ''a'' (\<lambda>i. True)]"]
  show ?thesis by auto
qed

end
