(* ===== verification/Desktop_Sharing.thy ===== *)
theory Desktop_Sharing
  imports Video_Sharing Timer
begin

text \<open>
  Sharing a screen or a window (desktop\_sharing.cpp in src/fubble/client;
  capturer.cpp and enumerator.cpp in src/fubble/rtc/google/capture/desktop).

  The lists of screens and windows, and whether a source can be selected, come from
  the capture library and are parameters; pixels are not modelled. The tick of a timer and
  the answer of the capture library are two operations (\<open>desktop_tick\<close>, \<open>desktop_answer\<close>). A
  library that answers within the call of \<open>CaptureFrame\<close> runs them in one (\<open>desktop_frame\<close>);
  what becomes of an answer that comes later is in \<open>capture_step\<close>.
\<close>

section \<open>Sources\<close>

datatype source_type = Screen | Window

type_synonym sources = "(int \<times> string) list option"

definition get_title_by_id :: "sources \<Rightarrow> int \<Rightarrow> string option" where
  "get_title_by_id ss i = (case ss of None \<Rightarrow> None | Some ss \<Rightarrow> map_option snd (find_first (\<lambda>x. fst x = i) ss))"

definition get_type :: "sources \<Rightarrow> sources \<Rightarrow> int \<Rightarrow> source_type option" where
  "get_type screens windows i =
     (case screens of None \<Rightarrow> None
      | Some ss \<Rightarrow>
          if find_first (\<lambda>x. fst x = i) ss \<noteq> None then Some Screen
          else case windows of None \<Rightarrow> None
            | Some ws \<Rightarrow> if find_first (\<lambda>x. fst x = i) ws \<noteq> None then Some Window else None)"

definition new_capturer :: "(int \<Rightarrow> bool) \<Rightarrow> int \<Rightarrow> string \<Rightarrow> (int \<times> string) res" where
  "new_capturer selects i title = (if selects i then Ok (i, title) else Throw Runtime_error)"

definition create_kind :: "(int \<Rightarrow> bool) \<Rightarrow> sources \<Rightarrow> int \<Rightarrow> (int \<times> string) res" where
  "create_kind selects ss i =
     (case get_title_by_id ss i of None \<Rightarrow> Throw Runtime_error | Some title \<Rightarrow> new_capturer selects i title)"

definition create_capturer :: "(int \<Rightarrow> bool) \<Rightarrow> sources \<Rightarrow> sources \<Rightarrow> int \<Rightarrow> (int \<times> string) res" where
  "create_capturer selects screens windows i =
     (if get_type screens windows i = Some Screen then create_kind selects screens i
      else create_kind selects windows i)"

lemma create_capturer_Ok:
  "create_capturer selects screens windows i = Ok (j, title) \<Longrightarrow> j = i \<and> selects i \<and>
   (get_title_by_id screens i = Some title \<or> get_title_by_id windows i = Some title)"
  by (auto simp: create_capturer_def create_kind_def new_capturer_def split: if_splits option.splits)

record enumerator =
  screens :: "(int \<times> string) list"
  windows :: "(int \<times> string) list"

definition enumerate_sources :: "build \<Rightarrow> sources \<Rightarrow> sources \<Rightarrow> enumerator \<Rightarrow> enumerator res" where
  "enumerate_sources b ss ws e =
     rbind (boost_assert b (ws \<noteq> None)) (\<lambda>u.
     case ws of None \<Rightarrow> Ok \<lparr> screens = [], windows = [] \<rparr>
     | Some ws \<Rightarrow> rbind (boost_assert b (ss \<noteq> None)) (\<lambda>u.
         case ss of None \<Rightarrow> Ok \<lparr> screens = [], windows = ws \<rparr>
         | Some ss \<Rightarrow> Ok \<lparr> screens = ss, windows = ws \<rparr>))"


section \<open>Capturing at an interval\<close>

text \<open>\<open>capturing_frame\<close> tells whether \<open>capture_promise\<close> is set, \<open>start_promise\<close> whether
  the promise of \<open>start\<close> is; \<open>start_results\<close> is what the promises got.\<close>

datatype capture_result = Captured | Temporary | Permanent

record capturer =
  capture_timer :: "unit interval"
  capturing_frame :: bool
  start_promise :: bool
  start_results :: "unit res list"

definition fresh_capturer :: capturer where
  "fresh_capturer = \<lparr> capture_timer = fresh_interval, capturing_frame = False, start_promise = False,
     start_results = [] \<rparr>"

definition capturer_start :: "build \<Rightarrow> capturer \<Rightarrow> capturer res" where
  "capturer_start b c =
     rbind (boost_assert b (\<not> start_promise c)) (\<lambda>u.
     rbind (start_immediately b () (capture_timer c)) (\<lambda>t.
     Ok (c\<lparr> start_promise := True, capture_timer := t \<rparr>)))"

definition capturer_stop :: "build \<Rightarrow> capturer \<Rightarrow> capturer res" where
  "capturer_stop b c =
     rbind (boost_assert b (start_promise c)) (\<lambda>u.
     rbind (interval_stop b (capture_timer c)) (\<lambda>t.
     if \<not> start_promise c then Undefined
     else Ok (c\<lparr> start_promise := False, capture_timer := t, start_results := start_results c @ [Ok ()] \<rparr>)))"

definition on_captured :: "build \<Rightarrow> capture_result \<Rightarrow> capturer \<Rightarrow> capturer res" where
  "on_captured b r c =
     rbind (boost_assert b (start_promise c)) (\<lambda>u.
     if r = Permanent then
       rbind (interval_stop b (capture_timer c)) (\<lambda>t.
       if \<not> start_promise c then Undefined
       else Ok (c\<lparr> start_promise := False, capture_timer := t,
         start_results := start_results c @ [Throw Runtime_error] \<rparr>))
     else Ok c)"

text \<open>A promise that is replaced while its capture runs is broken, which the
  continuation sees as any other error.\<close>

definition capture :: "build \<Rightarrow> capturer \<Rightarrow> capturer res" where
  "capture b c =
     rbind (boost_assert b (\<not> capturing_frame c)) (\<lambda>u.
     rbind (if capturing_frame c then on_captured b Permanent c else Ok c) (\<lambda>c.
     Ok (c\<lparr> capturing_frame := True \<rparr>)))"

definition on_capture_result :: "build \<Rightarrow> capture_result \<Rightarrow> capturer \<Rightarrow> capturer res" where
  "on_capture_result b r c =
     (if \<not> capturing_frame c then Undefined else on_captured b r (c\<lparr> capturing_frame := False \<rparr>))"

text \<open>The timer's expiry with \<open>on_timeout\<close> as its callback.\<close>

definition capturer_timeout :: "build \<Rightarrow> capturer \<Rightarrow> capturer res" where
  "capturer_timeout b c =
     (case icallback (capture_timer c) of None \<Rightarrow> if b = Debug then Assert_failed else Throw Runtime_error
      | Some u \<Rightarrow> rbind (capture b c) (\<lambda>c.
          Ok (if started (capture_timer c) then c\<lparr> capture_timer := start_timer (capture_timer c) \<rparr> else c)))"

definition frame :: "build \<Rightarrow> capture_result \<Rightarrow> capturer \<Rightarrow> capturer res" where
  "frame b r c = rbind (capturer_timeout b c) (on_capture_result b r)"

definition running :: "capturer \<Rightarrow> bool" where
  "running c \<longleftrightarrow> start_promise c \<and> \<not> capturing_frame c \<and> started (capture_timer c) \<and> icallback (capture_timer c) = Some ()"

definition idle :: "capturer \<Rightarrow> bool" where
  "idle c \<longleftrightarrow> \<not> start_promise c \<and> \<not> capturing_frame c \<and> \<not> started (capture_timer c) \<and> icallback (capture_timer c) = None"

lemma capturer_life:
  "idle fresh_capturer"
  "idle c \<Longrightarrow> \<exists>d. capturer_start b c = Ok d \<and> running d"
  "running c \<Longrightarrow> \<exists>d. capturer_stop b c = Ok d \<and> idle d \<and> start_results d = start_results c @ [Ok ()]"
  "running c \<Longrightarrow> r \<noteq> Permanent \<Longrightarrow> \<exists>d. frame b r c = Ok d \<and> running d \<and> start_results d = start_results c"
  "running c \<Longrightarrow> \<exists>d. frame b Permanent c = Ok d \<and> idle d \<and> start_results d = start_results c @ [Throw Runtime_error]"
  by (auto simp: idle_def running_def fresh_capturer_def fresh_interval_def capturer_start_def start_immediately_def
      capturer_stop_def interval_stop_def frame_def capturer_timeout_def capture_def on_capture_result_def
      on_captured_def start_timer_def)

text \<open>A capture that answers after \<open>stop\<close> finds the promise gone.\<close>

lemma answer_after_stop:
  assumes "running c"
  shows "\<exists>c1 c2. capturer_timeout Release c = Ok c1 \<and> capturer_stop Release c1 = Ok c2 \<and>
    on_capture_result Debug r c2 = Assert_failed \<and> on_capture_result Release Permanent c2 = Undefined"
  using assms
  by (auto simp: running_def capturer_stop_def interval_stop_def capturer_timeout_def capture_def
      on_capture_result_def on_captured_def start_timer_def boost_assert_def)


section \<open>Sharing\<close>

record 'c desktop = "'c video" +
  set_capturer :: "(int \<times> capturer) option"
  desktop_adder :: "nat option"
  did_pause :: bool
  told_shared :: "(bool \<times> int) list"

definition reset_instance :: "build \<Rightarrow> ('c desktop, unit) prog" where
  "reset_instance b = sbind (gets set_capturer) (\<lambda>c.
     case c of None \<Rightarrow> sassert b False
     | Some (i, c) \<Rightarrow> sbind (gets desktop_adder) (\<lambda>a. sthen (sassert b (a \<noteq> None))
         (sthen (update (\<lambda>s. s\<lparr> set_capturer := None, desktop_adder := None,
            told_shared := told_shared s @ [(False, i)] \<rparr>))
          (remove_track b a))))"

text \<open>An error of the capturer is logged, then the same happens as after a stop.\<close>

definition on_stopped :: "build \<Rightarrow> unit res \<Rightarrow> ('c desktop, unit) prog" where
  "on_stopped b result = reset_instance b"

definition stop_or_reset :: "build \<Rightarrow> ('c desktop, unit) prog" where
  "stop_or_reset b = sbind (gets set_capturer) (\<lambda>c.
     case c of None \<Rightarrow> sassert b False
     | Some (i, c) \<Rightarrow>
         if start_promise c then sbind (lift_res (capturer_stop b c)) (\<lambda>c.
           sthen (update (\<lambda>s. s\<lparr> set_capturer := Some (i, c) \<rparr>)) (on_stopped b (Ok ())))
         else reset_instance b)"

definition on_leave :: "build \<Rightarrow> ('c desktop, unit) prog" where
  "on_leave b = sbind (gets set_capturer) (\<lambda>c. if c \<noteq> None then stop_or_reset b else ret ())"

definition pause_video :: "(bool \<Rightarrow> ('c desktop, unit) prog) \<Rightarrow> ('c desktop, unit) prog" where
  "pause_video pause = sbind (gets (\<lambda>s. did_pause s \<or> \<not> is_a_video_available s \<or> video_paused s)) (\<lambda>skip.
     if skip then ret () else sthen (pause True) (update (\<lambda>s. s\<lparr> did_pause := True \<rparr>)))"

definition unpause_video :: "(bool \<Rightarrow> ('c desktop, unit) prog) \<Rightarrow> ('c desktop, unit) prog" where
  "unpause_video pause = sbind (gets did_pause) (\<lambda>d.
     if \<not> d then ret () else sthen (update (\<lambda>s. s\<lparr> did_pause := False \<rparr>)) (pause False))"

definition desktop_reset :: "(bool \<Rightarrow> ('c desktop, unit) prog) \<Rightarrow> build \<Rightarrow> ('c desktop, unit) prog" where
  "desktop_reset pause b = sthen (stop_or_reset b) (unpause_video pause)"

definition on_video_paused :: "(bool \<Rightarrow> ('c desktop, unit) prog) \<Rightarrow> build \<Rightarrow> bool \<Rightarrow> ('c desktop, unit) prog" where
  "on_video_paused pause b p =
     sthen (update (\<lambda>s. if did_pause s \<and> \<not> p then s\<lparr> did_pause := False \<rparr> else s))
      (sbind (gets set_capturer) (\<lambda>c. if \<not> p \<and> c \<noteq> None then desktop_reset pause b else ret ()))"

text \<open>Pausing the camera calls \<open>on_video_paused\<close>, which may want to pause again. The
  fuel bounds the nesting; \<open>pause_depth\<close> shows that one level is enough.\<close>

fun pause_nested :: "nat \<Rightarrow> build \<Rightarrow> (string \<Rightarrow> bool) \<Rightarrow> bool \<Rightarrow> ('c desktop, unit) prog" where
  "pause_nested 0 b opens p = lift_res Undefined"
| "pause_nested (Suc n) b opens p = video_pause (on_video_paused (pause_nested n b opens) b) b opens p"

definition settings_pause :: "build \<Rightarrow> (string \<Rightarrow> bool) \<Rightarrow> bool \<Rightarrow> ('c desktop, unit) prog" where
  "settings_pause b opens = pause_nested 1 b opens"

definition start_set_capturer :: "build \<Rightarrow> ('c desktop, unit) prog" where
  "start_set_capturer b = sbind (gets set_capturer) (\<lambda>c.
     case c of None \<Rightarrow> lift_res Undefined
     | Some (i, c) \<Rightarrow> sbind (lift_res (capturer_start b c)) (\<lambda>c. update (\<lambda>s. s\<lparr> set_capturer := Some (i, c) \<rparr>)))"

definition add_desktop :: "build \<Rightarrow> int \<Rightarrow> ('c desktop, unit) prog" where
  "add_desktop b i = sbind (gets next_adder) (\<lambda>a.
     sthen (update (\<lambda>s. s\<lparr> next_adder := Suc a, desktop_adder := Some a \<rparr>))
      (sthen (start_set_capturer b)
      (sthen (on_tracks (add_adder b a))
       (update (\<lambda>s. s\<lparr> told_shared := told_shared s @ [(True, i)] \<rparr>)))))"

definition desktop_set :: "build \<Rightarrow> (string \<Rightarrow> bool) \<Rightarrow> (int \<Rightarrow> (int \<times> string) res) \<Rightarrow> int \<Rightarrow> ('c desktop, unit) prog" where
  "desktop_set b opens create i = sbind (gets set_capturer) (\<lambda>c.
     sthen (if c \<noteq> None then desktop_reset (settings_pause b opens) b else ret ())
      (sbind (gets set_capturer) (\<lambda>c. sthen (sassert b (c = None))
      (sbind (lift_res (create i)) (\<lambda>made.
       sthen (update (\<lambda>s. s\<lparr> set_capturer := Some (i, fresh_capturer) \<rparr>))
      (sthen (pause_video (settings_pause b opens)) (add_desktop b i)))))))"

text \<open>The timer expires: a capture is asked for.\<close>

definition desktop_tick :: "build \<Rightarrow> ('c desktop, unit) prog" where
  "desktop_tick b = sbind (gets set_capturer) (\<lambda>c.
     case c of None \<Rightarrow> ret ()
     | Some (i, c) \<Rightarrow> sbind (lift_res (capturer_timeout b c)) (\<lambda>c.
         sthen (update (\<lambda>s. s\<lparr> set_capturer := Some (i, c) \<rparr>))
          (if start_promise c then ret () else on_stopped b (Throw Runtime_error))))"

text \<open>The library answers.\<close>

definition desktop_answer :: "build \<Rightarrow> capture_result \<Rightarrow> ('c desktop, unit) prog" where
  "desktop_answer b r = sbind (gets set_capturer) (\<lambda>c.
     case c of None \<Rightarrow> ret ()
     | Some (i, c) \<Rightarrow> sbind (lift_res (on_capture_result b r c)) (\<lambda>c.
         sthen (update (\<lambda>s. s\<lparr> set_capturer := Some (i, c) \<rparr>))
          (if start_promise c then ret () else on_stopped b (Throw Runtime_error))))"

text \<open>Both at once.\<close>

definition desktop_frame :: "build \<Rightarrow> capture_result \<Rightarrow> ('c desktop, unit) prog" where
  "desktop_frame b r = sbind (gets set_capturer) (\<lambda>c.
     case c of None \<Rightarrow> ret ()
     | Some (i, c) \<Rightarrow> sbind (lift_res (frame b r c)) (\<lambda>c.
         sthen (update (\<lambda>s. s\<lparr> set_capturer := Some (i, c) \<rparr>))
          (if start_promise c then ret () else on_stopped b (Throw Runtime_error))))"

lemma tick_then_answer:
  assumes "set_capturer s = Some (i, c)" "running c"
  shows "\<exists>t. desktop_tick b s = (t, Ok ()) \<and> desktop_answer b r t = desktop_frame b r s"
proof -
  from assms(2) obtain d where d: "capturer_timeout b c = Ok d" "start_promise d"
    by (auto simp: running_def capturer_timeout_def capture_def start_timer_def)
  let ?t = "s\<lparr> set_capturer := Some (i, d) \<rparr>"
  have "desktop_tick b s = (?t, Ok ())" using assms(1) d by (simp add: desktop_tick_def prog_eval)
  moreover obtain d' where "on_capture_result b r d = Ok d'"
    using capturer_life(4)[OF assms(2), of r b] capturer_life(5)[OF assms(2), of b] d(1) by (cases "r = Permanent") (auto simp: frame_def)
  then have "desktop_answer b r ?t = desktop_frame b r s"
    using assms(1) d by (simp add: desktop_answer_def desktop_frame_def frame_def prog_eval)
  ultimately show ?thesis by blast
qed

text \<open>Whatever the nesting is given: it is never used.\<close>

lemma did_pause_kept: "keeps_on (\<lambda>s. did_pause s = d) (stop_or_reset b)"
  unfolding stop_or_reset_def reset_instance_def on_stopped_def remove_track_def on_tracks_def on_part_def
  by (intro keeps keeps_update) auto

lemma unpaused_slot: "on_video_paused pause b p = on_video_paused pause' b p"
proof (rule ext)
  fix s :: "'a desktop"
  have did: "did_pause t = d" if "stop_or_reset b u = (t, r)" "did_pause u = d" for u t :: "'a desktop" and r d
    by (rule keeps_onD[OF did_pause_kept[of d b] that(2,1)])
  show "on_video_paused pause b p s = on_video_paused pause' b p s"
  proof (cases p)
    case True
    then show ?thesis by (simp add: on_video_paused_def prog_eval)
  next
    case False
    let ?u = "if did_pause s then s\<lparr> did_pause := False \<rparr> else s"
    obtain t r where t: "stop_or_reset b ?u = (t, r)" by (cases "stop_or_reset b ?u")
    have "\<not> did_pause t" using did[OF t, of False] by simp
    with t False show ?thesis
      by (cases r) (auto simp: on_video_paused_def desktop_reset_def unpause_video_def prog_eval)
  qed
qed

lemma pause_depth: "pause_nested (Suc n) b opens p = settings_pause b opens p"
  unfolding settings_pause_def One_nat_def pause_nested.simps
  by (rule arg_cong[where f = "\<lambda>f. video_pause f b opens p"], rule ext, rule unpaused_slot)


section \<open>Invariants\<close>

definition desktop_inv :: "'c desktop \<Rightarrow> bool" where
  "desktop_inv s \<longleftrightarrow>
     (case set_capturer s of None \<Rightarrow> desktop_adder s = None \<and> other_adders s = {}
      | Some (i, c) \<Rightarrow> running c \<and> (\<exists>a. desktop_adder s = Some a \<and> other_adders s = {a}))"

definition desktop_ok :: "'c desktop \<Rightarrow> bool" where
  "desktop_ok s \<longleftrightarrow> video_ok s \<and> desktop_inv s"

lemma same_rest_desktop:
  assumes "same_rest s (t :: 'c desktop)"
  shows "set_capturer t = set_capturer s" "desktop_adder t = desktop_adder s" "did_pause t = did_pause s"
    "told_shared t = told_shared s"
  using assms by (cases s; cases t; simp add: same_rest_def)+

text \<open>Fields of the camera that sharing does not touch, and the other way round.\<close>

definition same_camera :: "'c desktop \<Rightarrow> 'c desktop \<Rightarrow> bool" where
  "same_camera s t \<longleftrightarrow> capture_device t = capture_device s \<and> video_adder t = video_adder s \<and>
     last_device_id t = last_device_id s \<and> video_paused t = video_paused s \<and>
     video_own t = video_own s \<and> connections (video_tracks t) = connections (video_tracks s)"

lemma sharing_fields [simp]:
  "video_ok (s\<lparr> set_capturer := x \<rparr>) = video_ok s" "video_ok (s\<lparr> did_pause := d \<rparr>) = video_ok s"
  "other_adders (s\<lparr> set_capturer := x \<rparr>) = other_adders s" "other_adders (s\<lparr> did_pause := d \<rparr>) = other_adders s"
  for s :: "'c desktop"
  by (simp_all add: video_ok_def video_inv_def other_adders_def split: option.split)

lemma reset_instance_result:
  assumes "video_ok s" "set_capturer s = Some (i, c)" "desktop_adder s = Some a" "other_adders s = {a}"
  shows "\<exists>t. reset_instance b s = (t, Ok ()) \<and> video_ok t \<and> set_capturer t = None \<and> desktop_adder t = None \<and>
    other_adders t = {} \<and> did_pause t = did_pause s \<and> same_camera s t \<and> told_shared t = told_shared s @ [(False, i)]"
proof -
  from assms have mem: "a \<in> set (adders (video_tracks s))" "video_adder s \<noteq> Some a" and inv: "adder_inv (video_tracks s)"
    by (auto simp: other_adders_def video_ok_def video_inv_def)
  then have dist: "distinct (adders (video_tracks s))" by (simp add: adder_inv_def)
  obtain t where t: "remove_adder b a (video_tracks s) = Ok t" "adder_inv t"
    "adders t = remove1 a (adders (video_tracks s))" "connections t = connections (video_tracks s)"
    using remove_adder_result[OF inv mem(1), of b] by blast
  let ?t = "s\<lparr> set_capturer := None, desktop_adder := None, told_shared := told_shared s @ [(False, i)], video_tracks := t \<rparr>"
  have "reset_instance b s = (?t, Ok ())"
    using assms t(1) by (simp add: reset_instance_def remove_track_def on_tracks_def on_part_def prog_eval)
  moreover have set: "set (adders t) = set (adders (video_tracks s)) - {a}" using t(3) dist by simp
  have "video_ok ?t"
    using assms(1) t mem set by (auto simp: video_ok_def video_inv_def split: option.splits)
  moreover have "other_adders ?t = {}" using assms(4) set by (auto simp: other_adders_def)
  ultimately show ?thesis using t(4) by (intro exI[of _ ?t]) (simp add: same_camera_def)
qed

lemma stop_or_reset_result:
  assumes "desktop_ok s" "set_capturer s = Some (i, c)"
  shows "\<exists>t. stop_or_reset b s = (t, Ok ()) \<and> desktop_ok t \<and> set_capturer t = None \<and> did_pause t = did_pause s \<and>
    same_camera s t \<and> told_shared t = told_shared s @ [(False, i)]"
proof -
  from assms obtain a where a: "desktop_adder s = Some a" "other_adders s = {a}" "running c"
    "video_ok s"
    by (auto simp: desktop_ok_def desktop_inv_def)
  obtain d where d: "capturer_stop b c = Ok d" using capturer_life(3)[OF a(3)] by blast
  let ?s = "s\<lparr> set_capturer := Some (i, d) \<rparr>"
  obtain t where t: "reset_instance b ?s = (t, Ok ())" "video_ok t" "set_capturer t = None" "desktop_adder t = None"
      "other_adders t = {}" "did_pause t = did_pause ?s" "same_camera ?s t" "told_shared t = told_shared ?s @ [(False, i)]"
    using reset_instance_result[of ?s i d a b] a by auto
  have "stop_or_reset b s = (t, Ok ())"
    using assms(2) a(3) d t(1) by (simp add: stop_or_reset_def on_stopped_def running_def prog_eval)
  with t a show ?thesis by (auto simp: desktop_ok_def desktop_inv_def same_camera_def)
qed

lemma on_leave_result:
  assumes "desktop_ok s"
  shows "\<exists>t. on_leave b s = (t, Ok ()) \<and> desktop_ok t \<and> set_capturer t = None \<and> did_pause t = did_pause s \<and>
    same_camera s t"
proof (cases "set_capturer s")
  case None
  with assms show ?thesis by (simp add: on_leave_def prog_eval same_camera_def)
next
  case (Some ic)
  with stop_or_reset_result[OF assms, of "fst ic" "snd ic" b] show ?thesis by (auto simp: on_leave_def prog_eval)
qed

text \<open>Frames go on until the source is lost; then sharing ends but for the camera.\<close>

lemma desktop_frame_result:
  assumes "desktop_ok s"
  shows "\<exists>t. desktop_frame b r s = (t, Ok ()) \<and> desktop_ok t \<and> did_pause t = did_pause s \<and> same_camera s t \<and>
    (set_capturer t = None \<longleftrightarrow> set_capturer s = None \<or> r = Permanent) \<and>
    map_option fst (set_capturer t) = (if r = Permanent then None else map_option fst (set_capturer s))"
proof (cases "set_capturer s")
  case None
  with assms show ?thesis by (simp add: desktop_frame_def prog_eval same_camera_def)
next
  case (Some ic)
  obtain i c where ic: "ic = (i, c)" by (cases ic)
  with assms Some obtain a where a: "desktop_adder s = Some a" "other_adders s = {a}" "running c"
    "video_ok s"
    by (auto simp: desktop_ok_def desktop_inv_def)
  show ?thesis
  proof (cases "r = Permanent")
    case True
    obtain d where d: "frame b Permanent c = Ok d" "idle d" using capturer_life(5)[OF a(3)] by blast
    let ?s = "s\<lparr> set_capturer := Some (i, d) \<rparr>"
    obtain t where t: "reset_instance b ?s = (t, Ok ())" "video_ok t" "set_capturer t = None" "desktop_adder t = None"
        "other_adders t = {}" "did_pause t = did_pause ?s" "same_camera ?s t"
      using reset_instance_result[of ?s i d a b] a by auto
    have "desktop_frame b r s = (t, Ok ())"
      using Some ic True d t(1) by (simp add: desktop_frame_def on_stopped_def idle_def prog_eval)
    with t a True show ?thesis by (auto simp: desktop_ok_def desktop_inv_def same_camera_def)
  next
    case False
    obtain d where d: "frame b r c = Ok d" "running d" using capturer_life(4)[OF a(3) False] by blast
    let ?s = "s\<lparr> set_capturer := Some (i, d) \<rparr>"
    have "desktop_frame b r s = (?s, Ok ())"
      using Some ic d by (simp add: desktop_frame_def running_def prog_eval)
    with a d Some ic False show ?thesis
      by (auto simp: desktop_ok_def desktop_inv_def same_camera_def)
  qed
qed

lemma camera_ok_desktop:
  assumes "video_ok t" "same_rest s t" "desktop_inv s"
  shows "desktop_ok t"
  using assms same_rest_desktop[OF assms(2)]
  by (auto simp: desktop_ok_def desktop_inv_def same_rest_def split: option.splits)

lemma on_video_paused_result:
  assumes "video_ok s" "desktop_inv s"
  shows "\<exists>t. on_video_paused pause b False s = (t, Ok ()) \<and> desktop_ok t \<and> set_capturer t = None \<and> \<not> did_pause t \<and>
    same_camera s t"
proof -
  let ?s = "s\<lparr> did_pause := False \<rparr>"
  have s: "desktop_ok ?s" using assms by (auto simp: desktop_ok_def desktop_inv_def split: option.splits)
  have eq: "on_video_paused pause b False s =
    (if set_capturer s = None then (?s, Ok ()) else desktop_reset pause b ?s)"
    by (cases s) (auto simp: on_video_paused_def prog_eval)
  show ?thesis
  proof (cases "set_capturer s")
    case None
    with s eq show ?thesis by (intro exI[of _ ?s]) (simp add: same_camera_def)
  next
    case (Some ic)
    with stop_or_reset_result[OF s, of "fst ic" "snd ic" b] eq show ?thesis
      by (auto simp: desktop_reset_def sthen_Pair unpause_video_def prog_eval same_camera_def)
  qed
qed


text \<open>Pausing the camera from outside. What it does to the sharing: unpausing with a
  device that opens ends it.\<close>

lemma settings_pause_True:
  assumes "desktop_ok s" "\<not> video_paused s"
  shows "\<exists>t. settings_pause b opens True s = (t, Ok ()) \<and> desktop_ok t \<and> same_rest s t \<and> video_paused t \<and>
    capture_device t = None \<and> last_device_id t = last_device_id s"
proof -
  from assms(1) have s: "video_ok s" "desktop_inv s" by (simp_all add: desktop_ok_def)
  obtain t where t: "settings_pause b opens True s = on_video_paused (pause_nested 0 b opens) b True t" "video_ok t"
    "same_rest s t" "video_paused t" "capture_device t = None" "last_device_id t = last_device_id s"
    using pause_result[OF s(1) assms(2), of "on_video_paused (pause_nested 0 b opens) b" b opens]
    by (auto simp: settings_pause_def)
  with camera_ok_desktop[OF t(2,3) s(2)] show ?thesis
    by (auto simp: on_video_paused_def prog_eval)
qed

lemma settings_pause_False:
  assumes "desktop_ok s" "video_paused s"
  shows "\<exists>t r. settings_pause b opens False s = (t, r) \<and> desktop_ok t \<and> \<not> video_paused t \<and>
    (case last_device_id s of
       None \<Rightarrow> r = Ok () \<and> same_rest s t \<and> capture_device t = None
     | Some i \<Rightarrow>
         if opens i then r = Ok () \<and> capture_device t = Some i \<and> last_device_id t = Some i \<and> set_capturer t = None \<and>
           \<not> did_pause t \<and> connections (video_tracks t) = connections (video_tracks s)
         else r = Throw Runtime_error \<and> same_rest s t \<and> capture_device t = None)"
proof -
  from assms(1) have s: "video_ok s" "desktop_inv s" by (simp_all add: desktop_ok_def)
  let ?slot = "on_video_paused (pause_nested 0 b opens) b"
  obtain t where t: "video_ok t" "same_rest s t" "\<not> video_paused t"
    and r: "case last_device_id s of
       None \<Rightarrow> video_pause ?slot b opens False s = (t, Ok ()) \<and> capture_device t = None \<and> last_device_id t = None
     | Some i \<Rightarrow>
         if opens i then video_pause ?slot b opens False s = ?slot False t \<and> capture_device t = Some i \<and>
           last_device_id t = Some i
         else video_pause ?slot b opens False s = (t, Throw Runtime_error) \<and> capture_device t = None \<and>
           last_device_id t = None"
    using unpause_result[OF s(1) assms(2), of ?slot b opens] by blast
  have ok: "desktop_ok t" by (rule camera_ok_desktop[OF t(1,2) s(2)])
  then have "desktop_inv t" by (simp add: desktop_ok_def)
  from on_video_paused_result[OF t(1) this, of "pause_nested 0 b opens" b] obtain u where
    u: "?slot False t = (u, Ok ())" "desktop_ok u" "set_capturer u = None" "\<not> did_pause u" "same_camera t u"
    by blast
  show ?thesis
  proof (cases "last_device_id s")
    case None
    with t r ok show ?thesis by (auto simp: settings_pause_def)
  next
    case (Some i)
    with t r ok u show ?thesis
      by (cases "opens i") (auto simp: settings_pause_def same_camera_def same_rest_def)
  qed
qed

lemma desktop_reset_result:
  assumes "desktop_ok s" "set_capturer s \<noteq> None"
  shows "\<exists>t r. desktop_reset (settings_pause b opens) b s = (t, r) \<and> desktop_ok t \<and> set_capturer t = None \<and>
    \<not> did_pause t \<and> (r = Ok () \<or> r = Throw Runtime_error) \<and>
    (did_pause s \<longrightarrow> video_paused s \<longrightarrow> (\<forall>i. last_device_id s = Some i \<longrightarrow> opens i \<longrightarrow>
       r = Ok () \<and> capture_device t = Some i \<and> \<not> video_paused t \<and>
       connections (video_tracks t) = connections (video_tracks s))) \<and>
    (\<not> did_pause s \<longrightarrow> r = Ok () \<and> same_camera s t)"
proof -
  from assms(2) obtain i c where "set_capturer s = Some (i, c)" by auto
  from stop_or_reset_result[OF assms(1) this, of b] obtain u where
    u: "stop_or_reset b s = (u, Ok ())" "desktop_ok u" "set_capturer u = None" "did_pause u = did_pause s" "same_camera s u"
    by blast
  let ?u = "u\<lparr> did_pause := False \<rparr>"
  have ok: "desktop_ok ?u" "set_capturer ?u = None" "video_paused ?u = video_paused s" "last_device_id ?u = last_device_id s"
    using u by (auto simp: desktop_ok_def desktop_inv_def same_camera_def)
  have eq: "desktop_reset (settings_pause b opens) b s =
    (if did_pause s then settings_pause b opens False ?u else (u, Ok ()))"
    using u by (simp add: desktop_reset_def sthen_Pair unpause_video_def prog_eval)
  show ?thesis
  proof (cases "did_pause s \<and> video_paused s")
    case True
    then have p: "video_paused ?u" using ok(3) by simp
    obtain t r where t: "settings_pause b opens False ?u = (t, r)" "desktop_ok t" "\<not> video_paused t"
      and r: "case last_device_id ?u of
       None \<Rightarrow> r = Ok () \<and> same_rest ?u t \<and> capture_device t = None
     | Some i \<Rightarrow>
         if opens i then r = Ok () \<and> capture_device t = Some i \<and> last_device_id t = Some i \<and> set_capturer t = None \<and>
           \<not> did_pause t \<and> connections (video_tracks t) = connections (video_tracks ?u)
         else r = Throw Runtime_error \<and> same_rest ?u t \<and> capture_device t = None"
      using settings_pause_False[OF ok(1) p, of b opens] by blast
    have same: "same_rest ?u t \<Longrightarrow> set_capturer t = None \<and> \<not> did_pause t"
      using same_rest_desktop[of ?u t] u(3) by simp
    have "desktop_reset (settings_pause b opens) b s = (t, r)" using eq True t(1) by simp
    moreover have "set_capturer t = None \<and> \<not> did_pause t \<and> (r = Ok () \<or> r = Throw Runtime_error)"
      using r same by (auto split: option.splits if_splits)
    moreover have "r = Ok () \<and> capture_device t = Some i \<and> \<not> video_paused t \<and>
       connections (video_tracks t) = connections (video_tracks s)" if "last_device_id s = Some i" "opens i" for i
      using r t(3) that ok(4) u(5) by (simp add: same_camera_def)
    ultimately show ?thesis using True t(2) by blast
  next
    case False
    show ?thesis
    proof (cases "did_pause s")
      case True
      with False have "settings_pause b opens False ?u = (?u, Ok ())"
        using ok(3) by (simp add: settings_pause_def video_pause_def prog_eval)
      with True False eq ok show ?thesis by auto
    next
      case nopause: False
      with eq u show ?thesis by (intro exI[of _ u] exI[of _ "Ok ()"]) simp
    qed
  qed
qed


lemma pause_video_result:
  fixes s :: "'c desktop"
  assumes "video_ok s"
  shows "\<exists>t. pause_video (settings_pause b opens) s = (t, Ok ()) \<and> video_ok t \<and> set_capturer t = set_capturer s \<and>
    desktop_adder t = desktop_adder s \<and> other_adders t = other_adders s \<and>
    connections (video_tracks t) = connections (video_tracks s) \<and> last_device_id t = last_device_id s \<and>
    (if \<not> did_pause s \<and> is_a_video_available s \<and> \<not> video_paused s
     then did_pause t \<and> video_paused t \<and> capture_device t = None else t = s)"
proof (cases "\<not> did_pause s \<and> is_a_video_available s \<and> \<not> video_paused s")
  case False
  with assms show ?thesis by (auto simp: pause_video_def prog_eval)
next
  case True
  obtain t where t: "settings_pause b opens True s = on_video_paused (pause_nested 0 b opens) b True t" "video_ok t"
    "same_rest s t" "video_paused t" "capture_device t = None" "last_device_id t = last_device_id s"
    using pause_result[OF assms, of "on_video_paused (pause_nested 0 b opens) b" b opens] True
    by (auto simp: settings_pause_def)
  then have "settings_pause b opens True s = (t, Ok ())"
    by (simp add: on_video_paused_def prog_eval)
  with True have "pause_video (settings_pause b opens) s = (t\<lparr> did_pause := True \<rparr>, Ok ())"
    by (simp add: pause_video_def prog_eval)
  with t(2-6) True same_rest_desktop[OF t(3)] show ?thesis
    by (intro exI[of _ "t\<lparr> did_pause := True \<rparr>"]) (simp add: same_rest_def)
qed

lemma add_desktop_result:
  assumes "video_ok s" "set_capturer s = Some (i, fresh_capturer)" "other_adders s = {}"
  shows "\<exists>t c. add_desktop b i s = (t, Ok ()) \<and> desktop_ok t \<and> set_capturer t = Some (i, c) \<and> did_pause t = did_pause s \<and>
    same_camera s t"
proof -
  let ?a = "next_adder s"
  from assms have inv: "adder_inv (video_tracks s)" "?a \<notin> set (adders (video_tracks s))"
    by (auto simp: video_ok_def video_inv_def)
  obtain t where t: "add_adder b ?a (video_tracks s) = Ok t" "adder_inv t"
    "adders t = adders (video_tracks s) @ [?a]" "connections t = connections (video_tracks s)"
    using add_adder_result[OF inv, of b] by blast
  obtain c where c: "capturer_start b fresh_capturer = Ok c" "running c"
    using capturer_life(2)[OF capturer_life(1)] by blast
  let ?t = "s\<lparr> next_adder := Suc ?a, desktop_adder := Some ?a, set_capturer := Some (i, c), video_tracks := t,
    told_shared := told_shared s @ [(True, i)] \<rparr>"
  have "add_desktop b i s = (?t, Ok ())"
    using assms(2) t(1) c(1)
    by (simp add: add_desktop_def start_set_capturer_def on_tracks_def on_part_def prog_eval)
  moreover have "video_adder s \<noteq> Some ?a"
    using assms(1) inv(2) by (auto simp: video_ok_def video_inv_def split: option.splits)
  then have "desktop_inv ?t"
    using c(2) t(3) assms(3) by (auto simp: desktop_inv_def other_adders_def)
  moreover have "video_ok ?t"
    using assms(1) t by (auto simp: video_ok_def video_inv_def split: option.splits)
  ultimately show ?thesis
    using t(4) by (intro exI[of _ ?t] exI[of _ c]) (simp add: desktop_ok_def same_camera_def)
qed

lemma desktop_set_fresh:
  assumes "desktop_ok s" "set_capturer s = None" "create i = Ok x"
  shows "\<exists>t c. desktop_set b opens create i s = (t, Ok ()) \<and> desktop_ok t \<and> set_capturer t = Some (i, c) \<and>
    connections (video_tracks t) = connections (video_tracks s) \<and> last_device_id t = last_device_id s \<and>
    (if \<not> did_pause s \<and> is_a_video_available s \<and> \<not> video_paused s
     then did_pause t \<and> video_paused t \<and> capture_device t = None
     else did_pause t = did_pause s \<and> video_paused t = video_paused s \<and> capture_device t = capture_device s)"
proof -
  let ?s = "s\<lparr> set_capturer := Some (i, fresh_capturer) \<rparr>"
  have s: "video_ok ?s" "other_adders ?s = {}"
    using assms by (auto simp: desktop_ok_def desktop_inv_def)
  obtain t where t: "pause_video (settings_pause b opens) ?s = (t, Ok ())" "video_ok t" "set_capturer t = set_capturer ?s"
    "other_adders t = other_adders ?s"
    "connections (video_tracks t) = connections (video_tracks ?s)" "last_device_id t = last_device_id ?s"
    "if \<not> did_pause ?s \<and> is_a_video_available ?s \<and> \<not> video_paused ?s
     then did_pause t \<and> video_paused t \<and> capture_device t = None else t = ?s"
    using pause_video_result[OF s(1), of b opens] by blast
  obtain u c where u: "add_desktop b i t = (u, Ok ())" "desktop_ok u" "set_capturer u = Some (i, c)"
    "did_pause u = did_pause t" "same_camera t u"
    using add_desktop_result[OF t(2), of i b] t(3,4) s(2) by auto
  have "desktop_set b opens create i s = (u, Ok ())"
    using assms(2,3) t(1) u(1) by (simp add: desktop_set_def sthen_Pair)
  with t u show ?thesis
    by (intro exI[of _ u] exI[of _ c]) (auto simp: same_camera_def is_a_video_available_def split: if_splits)
qed

lemma desktop_set_result:
  assumes "desktop_ok s" "\<forall>e. create i \<noteq> Assert_failed \<and> create i \<noteq> Undefined"
  shows "\<exists>t r. desktop_set b opens create i s = (t, r) \<and> desktop_ok t \<and> (r = Ok () \<or> (\<exists>e. r = Throw e))"
proof -
  have fresh: "\<exists>t r. desktop_set b opens create i u = (t, r) \<and> desktop_ok t \<and> (r = Ok () \<or> (\<exists>e. r = Throw e))"
    if "desktop_ok u" "set_capturer u = None" for u
  proof (cases "create i")
    case (Ok x)
    with desktop_set_fresh[OF that, of create i x b opens] show ?thesis by blast
  next
    case (Throw e)
    with that show ?thesis by (simp add: desktop_set_def prog_eval)
  qed (use assms(2) in simp_all)
  show ?thesis
  proof (cases "set_capturer s")
    case None
    then show ?thesis by (rule fresh[OF assms(1)])
  next
    case (Some ic)
    obtain u r where u: "desktop_reset (settings_pause b opens) b s = (u, r)" "desktop_ok u" "set_capturer u = None"
      "r = Ok () \<or> r = Throw Runtime_error"
      using desktop_reset_result[OF assms(1), of b opens] Some by blast
    have "desktop_set b opens create i s =
      (if r = Ok () then desktop_set b opens create i u else (u, Throw Runtime_error))"
      using Some u by (auto simp: desktop_set_def sthen_Pair sthen_Throw)
    with fresh[OF u(2,3)] u(2,4) show ?thesis by auto
  qed
qed


section \<open>Camera and desktop together\<close>

datatype desktop_event =
    Share int "int \<Rightarrow> bool" sources sources "string \<Rightarrow> bool"
  | Unshare "string \<Rightarrow> bool"
  | Leave
  | Frame capture_result
  | Camera_pause bool "string \<Rightarrow> bool"
  | Camera_change string "string \<Rightarrow> bool"
  | Camera_devices "string list"

fun desktop_prog :: "build \<Rightarrow> desktop_event \<Rightarrow> ('c desktop, unit) prog" where
  "desktop_prog b (Share i selects ss ws opens) = desktop_set b opens (create_capturer selects ss ws) i"
| "desktop_prog b (Unshare opens) = desktop_reset (settings_pause b opens) b"
| "desktop_prog b Leave = on_leave b"
| "desktop_prog b (Frame r) = desktop_frame b r"
| "desktop_prog b (Camera_pause p opens) = settings_pause b opens p"
| "desktop_prog b (Camera_change i opens) = change_to_device b opens i"
| "desktop_prog b (Camera_devices ds) =
     sthen (update (\<lambda>s. s\<lparr> enumerated := ds \<rparr>)) (on_video_devices_changed b)"

text \<open>Nothing can be unshared while nothing is shared.\<close>

definition desktop_step :: "build \<Rightarrow> 'c desktop \<Rightarrow> desktop_event \<Rightarrow> 'c desktop res" where
  "desktop_step b s e =
     (case e of Unshare opens \<Rightarrow> if set_capturer s = None then Ok s else handled (desktop_prog b e) s
      | _ \<Rightarrow> handled (desktop_prog b e) s)"

lemma desktop_step_simps:
  "desktop_step b s (Frame r) = handled (desktop_frame b r) s"
  "desktop_step b s Leave = handled (on_leave b) s"
  "desktop_step b s (Camera_change d opens) = handled (change_to_device b opens d) s"
  "desktop_step b s (Share i selects ss ws opens) =
     handled (desktop_set b opens (create_capturer selects ss ws) i) s"
  "desktop_step b s (Unshare opens) =
     (if set_capturer s = None then Ok s else handled (desktop_reset (settings_pause b opens) b) s)"
  by (simp_all add: desktop_step_def)

definition fresh_desktop :: "'c list \<Rightarrow> string list \<Rightarrow> 'c desktop" where
  "fresh_desktop cs ds = video.extend (fresh_video cs ds)
     \<lparr> set_capturer = None, desktop_adder = None, did_pause = False, told_shared = [] \<rparr>"

definition stays :: "'c list \<Rightarrow> 'c desktop \<Rightarrow> bool" where
  "stays cs s \<longleftrightarrow> desktop_ok s \<and> connections (video_tracks s) = cs"

text \<open>No program changes the connections.\<close>

abbreviation same_connections :: "'c list \<Rightarrow> ('c desktop, unit) prog \<Rightarrow> bool" where
  "same_connections cs \<equiv> keeps_on (\<lambda>s. connections (video_tracks s) = cs)"

lemma tracks_connections:
  "same_connections cs (on_tracks (add_adder b a))" "same_connections cs (on_tracks (remove_adder b a))"
  by (auto simp: keeps_on_def on_tracks_def on_part_def prog_eval add_adder_def remove_adder_def boost_assert_def
      fold_attach_adder fold_detach_adder)

lemma own_connections: "same_connections cs (on_own f)"
  unfolding on_own_def on_part_def by (intro keeps keeps_update) simp

lemma remove_track_connections: "same_connections cs (remove_track b a)"
  unfolding remove_track_def by (intro keeps tracks_connections)

lemma reset_video_connections:
  "same_connections cs (reset_current_video_capture b)" "same_connections cs (reset_current_video b)"
  unfolding reset_current_video_def reset_current_video_capture_def source_changed_def
  by (intro keeps keeps_update remove_track_connections own_connections; simp)+

lemma camera_connections:
  "same_connections cs (change_to_device b opens i)" "same_connections cs (on_video_devices_changed b)"
  unfolding change_to_device_def on_video_devices_changed_def source_changed_def add_new_track_def
  by (intro keeps keeps_update tracks_connections own_connections reset_video_connections; simp)+

lemma pause_connections:
  assumes "\<And>p. same_connections cs (slot p)"
  shows "same_connections cs (video_pause slot b opens p)"
  unfolding video_pause_def Let_def source_changed_def
  by (intro keeps keeps_update camera_connections reset_video_connections assms; simp)

lemma reset_connections:
  "same_connections cs (reset_instance b)" "same_connections cs (stop_or_reset b)" "same_connections cs (on_leave b)"
  unfolding on_leave_def stop_or_reset_def on_stopped_def reset_instance_def
  by (intro keeps keeps_update remove_track_connections; simp)+

lemma desktop_reset_connections:
  assumes "\<And>p. same_connections cs (pause p)"
  shows "same_connections cs (desktop_reset pause b)" "same_connections cs (pause_video pause)"
    "same_connections cs (on_video_paused pause b p)"
  unfolding on_video_paused_def desktop_reset_def unpause_video_def pause_video_def
  by (intro keeps keeps_update reset_connections assms; simp)+

lemma nested_connections: "same_connections cs (pause_nested n b opens p)"
  by (induction n arbitrary: p) (auto intro: keeps pause_connections desktop_reset_connections)

lemma settings_pause_connections: "same_connections cs (settings_pause b opens p)"
  unfolding settings_pause_def by (rule nested_connections)

lemma desktop_set_connections: "same_connections cs (desktop_set b opens create i)"
  unfolding desktop_set_def add_desktop_def start_set_capturer_def
  by (intro keeps keeps_update desktop_reset_connections settings_pause_connections tracks_connections; simp)

lemma connections_kept: "same_connections cs (desktop_prog b e)"
proof (cases e)
  case (Frame r)
  have "same_connections cs (desktop_frame b r)"
    unfolding desktop_frame_def on_stopped_def by (intro keeps keeps_update reset_connections; simp)
  with Frame show ?thesis by simp
next
  case (Camera_devices ds)
  have "same_connections cs (sthen (update (\<lambda>s. s\<lparr> enumerated := ds \<rparr>)) (on_video_devices_changed b))"
    by (intro keeps keeps_update camera_connections) simp
  with Camera_devices show ?thesis by simp
qed (auto intro: desktop_set_connections desktop_reset_connections settings_pause_connections reset_connections
    camera_connections)

lemma handled_outcome: "m s = (t, r) \<Longrightarrow> r = Ok () \<or> (\<exists>e. r = Throw e) \<Longrightarrow> handled m s = Ok t"
  by (auto simp: handled_def)

lemma create_capturer_outcome: "\<forall>e. create_capturer selects ss ws i \<noteq> Assert_failed \<and> create_capturer selects ss ws i \<noteq> Undefined"
  by (auto simp: create_capturer_def create_kind_def new_capturer_def split: option.splits)

lemma desktop_prog_result:
  assumes "desktop_ok s" "\<And>opens. e = Unshare opens \<Longrightarrow> set_capturer s \<noteq> None"
  shows "\<exists>t r. desktop_prog b e s = (t, r) \<and> desktop_ok t \<and> (r = Ok () \<or> (\<exists>x. r = Throw x))"
proof -
  from assms(1) have s: "video_ok s" "desktop_inv s" by (simp_all add: desktop_ok_def)
  show ?thesis
  proof (cases e)
    case (Share i selects ss ws opens)
    with desktop_set_result[where b = b and opens = opens, OF assms(1) create_capturer_outcome] show ?thesis by simp
  next
    case (Unshare opens)
    with desktop_reset_result[OF assms(1) assms(2)[OF Unshare], of b opens] show ?thesis by auto
  next
    case Leave
    with on_leave_result[OF assms(1), of b] show ?thesis by auto
  next
    case (Frame r)
    with desktop_frame_result[OF assms(1), of b r] show ?thesis by auto
  next
    case (Camera_pause p opens)
    show ?thesis
    proof (cases "video_paused s = p")
      case True
      with assms(1) Camera_pause show ?thesis by (simp add: settings_pause_def video_pause_def prog_eval)
    next
      case False
      then consider "p" "\<not> video_paused s" | "\<not> p" "video_paused s" by blast
      then show ?thesis
      proof cases
        case 1
        with settings_pause_True[OF assms(1), of b opens] Camera_pause show ?thesis by auto
      next
        case 2
        with settings_pause_False[OF assms(1), of b opens] Camera_pause show ?thesis
          by (auto split: option.splits if_splits)
      qed
    qed
  next
    case (Camera_change i opens)
    with change_device_result[OF s(1), of b opens i] camera_ok_desktop[OF _ _ s(2)] show ?thesis by auto
  next
    case (Camera_devices ds)
    let ?s = "s\<lparr> enumerated := ds \<rparr>"
    have ok: "desktop_ok ?s" "video_inv ?s"
      using assms(1) by (auto simp: desktop_ok_def desktop_inv_def video_ok_def video_inv_def other_adders_def
          split: option.splits)
    obtain t where t: "reset_current_video b ?s = (t, Ok ())" "video_inv t" "same_rest ?s t" "capture_device t = None"
      using reset_video_result[OF ok(2)] by blast
    have "desktop_ok t"
      using camera_ok_desktop[of t ?s] t ok(1) by (simp add: video_ok_def desktop_ok_def)
    with t(1) ok(1) Camera_devices show ?thesis
      by (auto simp: on_video_devices_changed_def prog_eval split: option.split)
  qed
qed

lemma sharing_step:
  assumes "stays cs s"
  shows "\<exists>t. desktop_step b s e = Ok t \<and> stays cs t"
proof (cases "\<exists>opens. e = Unshare opens \<and> set_capturer s = None")
  case True
  with assms show ?thesis by (auto simp: desktop_step_def)
next
  case False
  with assms desktop_prog_result[of s e b] obtain t r where t: "desktop_prog b e s = (t, r)" "desktop_ok t"
    "r = Ok () \<or> (\<exists>x. r = Throw x)" by (auto simp: stays_def)
  have "stays cs t"
    using keeps_onD[OF connections_kept _ t(1), of cs] assms t(2) by (simp add: stays_def)
  moreover have "desktop_step b s e = handled (desktop_prog b e) s"
    using False by (auto simp: desktop_step_def split: desktop_event.split)
  ultimately show ?thesis using handled_outcome[of "desktop_prog b e", OF t(1,3)] by simp
qed

interpretation sharing: total_machine "desktop_step b" "stays cs" "\<lambda>e. True" for b and cs :: "'c list"
proof
  fix s t :: "'c desktop" and e
  assume "stays cs s" "desktop_step b s e = Ok t"
  with sharing_step[of cs s b e] show "stays cs t" by auto
next
  fix s :: "'c desktop" and e
  assume "stays cs s"
  with sharing_step[of cs s b e] show "\<exists>t. desktop_step b s e = Ok t" by auto
qed

lemma stays_fresh: "distinct cs \<Longrightarrow> stays cs (fresh_desktop cs ds)"
  by (simp add: stays_def desktop_ok_def desktop_inv_def video_ok_def video_inv_def adder_inv_def fresh_desktop_def
      fresh_video_def other_adders_def video.defs)

lemma attached_sharing:
  assumes "stays cs s"
  shows "set (attached (video_tracks s)) = (set_option (video_adder s) \<union> set_option (desktop_adder s)) \<times> set cs \<and>
    (video_adder s \<noteq> None \<longleftrightarrow> capture_device s \<noteq> None) \<and> (desktop_adder s \<noteq> None \<longleftrightarrow> set_capturer s \<noteq> None)"
proof -
  from assms have inv: "video_inv s" "desktop_inv s" "connections (video_tracks s) = cs"
    by (simp_all add: stays_def desktop_ok_def video_ok_def)
  then have sub: "set_option (video_adder s) \<subseteq> set (adders (video_tracks s))"
    and cam: "video_adder s \<noteq> None \<longleftrightarrow> capture_device s \<noteq> None"
    by (auto simp: video_inv_def split: option.splits)
  have desk: "other_adders s = set_option (desktop_adder s)" "desktop_adder s \<noteq> None \<longleftrightarrow> set_capturer s \<noteq> None"
    using inv(2) by (cases "set_capturer s"; force simp: desktop_inv_def)+
  from sub have "set (adders (video_tracks s)) = set_option (video_adder s) \<union> other_adders s"
    by (auto simp: other_adders_def)
  moreover have "set (attached (video_tracks s)) = set (adders (video_tracks s)) \<times> set cs"
    using inv(1,3) by (simp add: video_inv_def adder_inv_def)
  ultimately show ?thesis using cam desk by simp
qed

text \<open>The same with a capture library that may answer later. A capture that is under way when its capturer is
  destroyed finds a promise that is gone, or the capturer itself.\<close>

datatype capture_event = Event desktop_event | Tick | Answer capture_result

definition outstanding :: "'c desktop \<Rightarrow> bool" where
  "outstanding s = (case set_capturer s of None \<Rightarrow> False | Some (i, c) \<Rightarrow> capturing_frame c)"

fun capture_step :: "build \<Rightarrow> 'c desktop \<Rightarrow> capture_event \<Rightarrow> 'c desktop res" where
  "capture_step b s (Event e) = rbind (desktop_step b s e) (\<lambda>t.
     if outstanding s \<and> \<not> outstanding t \<and> (\<forall>r. e \<noteq> Frame r)
     then if b = Debug then Assert_failed else Undefined else Ok t)"
| "capture_step b s Tick = handled (desktop_tick b) s"
| "capture_step b s (Answer r) = handled (desktop_answer b r) s"

fun answers_at_once :: "capture_event list \<Rightarrow> bool" where
  "answers_at_once [] = True"
| "answers_at_once (Event e # es) = answers_at_once es"
| "answers_at_once (Tick # Answer r # es) = answers_at_once es"
| "answers_at_once es = False"

lemma stays_settled: "stays cs s \<Longrightarrow> \<not> outstanding s"
  by (auto simp: stays_def desktop_ok_def desktop_inv_def outstanding_def running_def split: option.splits)

lemma capture_at_once:
  assumes "stays cs s"
  shows "run_events (capture_step b) s [Tick, Answer r] = desktop_step b s (Frame r)"
proof (cases "set_capturer s")
  case None
  then show ?thesis by (simp add: desktop_tick_def desktop_answer_def desktop_frame_def desktop_step_simps handled_def prog_eval)
next
  case (Some ic)
  obtain i c where ic: "ic = (i, c)" by (cases ic)
  with assms Some have "running c" by (auto simp: stays_def desktop_ok_def desktop_inv_def)
  from tick_then_answer[OF Some[unfolded ic] this, of b r] obtain t where
    "desktop_tick b s = (t, Ok ())" "desktop_answer b r t = desktop_frame b r s" by blast
  then show ?thesis by (simp add: desktop_step_simps handled_def)
qed

lemma capture_run:
  "answers_at_once es \<Longrightarrow> stays cs s \<Longrightarrow> \<exists>t. run_events (capture_step b) s es = Ok t \<and> stays cs t"
proof (induction es arbitrary: s rule: answers_at_once.induct)
  case (2 e es)
  from sharing_step[OF 2(3), of b e] obtain t where t: "desktop_step b s e = Ok t" "stays cs t" by blast
  with stays_settled[OF 2(3)] have "capture_step b s (Event e) = Ok t" by simp
  with 2(1)[OF _ t(2)] 2(2) show ?case by simp
next
  case (3 r es)
  from sharing_step[OF 3(3), of b "Frame r"] obtain t where t: "desktop_step b s (Frame r) = Ok t" "stays cs t" by blast
  with capture_at_once[OF 3(3), of b r] have "run_events (capture_step b) s [Tick, Answer r] = Ok t" by simp
  then have "run_events (capture_step b) s (Tick # Answer r # es) = run_events (capture_step b) t es"
    by (auto simp: rbind_Ok_iff simp del: capture_step.simps)
  with 3(1)[OF _ t(2)] 3(2) show ?case by (simp del: run_events.simps)
qed simp_all

lemma unshare_restores:
  assumes "desktop_ok v" "set_capturer v \<noteq> None" "did_pause v" "last_device_id v = Some d" "opens d"
    and "video_paused v \<or> capture_device v = Some d \<and> \<not> video_paused v"
  shows "\<exists>u. desktop_reset (settings_pause b opens) b v = (u, Ok ()) \<and> set_capturer u = None \<and> \<not> did_pause u \<and>
    capture_device u = Some d"
proof (cases "video_paused v")
  case True
  with desktop_reset_result[OF assms(1,2), of b opens] assms show ?thesis by blast
next
  case False
  from assms(2) obtain i c where "set_capturer v = Some (i, c)" by auto
  from stop_or_reset_result[OF assms(1) this, of b] obtain u where
    u: "stop_or_reset b v = (u, Ok ())" "set_capturer u = None" "did_pause u = did_pause v" "same_camera v u" by blast
  with False assms(3,6) show ?thesis
    by (simp add: desktop_reset_def sthen_Pair unpause_video_def prog_eval settings_pause_def video_pause_def same_camera_def)
qed

text \<open>C23. Sharing, unsharing while something is shared, ticks, frames, lost windows, leaving, and everything that can
  happen to the camera, in any order, as long as the capture library answers a tick before anything else happens
  (from within the call that asks it): no assertion fires, and every connection carries the track of the camera
  exactly while a camera captures and the track of the desktop exactly while something is shared.\<close>
theorem sharing_consistent:
  assumes "distinct cs" "answers_at_once es"
  shows "\<exists>t. run_events (capture_step b) (fresh_desktop cs ds) es = Ok t \<and>
    set (attached (video_tracks t)) = (set_option (video_adder t) \<union> set_option (desktop_adder t)) \<times> set cs \<and>
    (video_adder t \<noteq> None \<longleftrightarrow> capture_device t \<noteq> None) \<and> (desktop_adder t \<noteq> None \<longleftrightarrow> set_capturer t \<noteq> None)"
  using capture_run[OF assms(2) stays_fresh[OF assms(1)], of b ds] attached_sharing by blast

definition one_screen :: sources where
  "one_screen = Some [(7, ''screen'')]"

lemma sharing_consistent_witness:
  "\<exists>t. run_events (capture_step Debug) (fresh_desktop [1, 2 :: nat] [''cam''])
     [Event (Camera_change ''cam'' (\<lambda>i. True)), Event (Share 7 (\<lambda>i. True) one_screen one_screen (\<lambda>i. True)),
      Tick, Answer Captured] = Ok t \<and> (desktop_adder t \<noteq> None \<longleftrightarrow> set_capturer t \<noteq> None)"
proof -
  have "distinct [1, 2 :: nat]" by simp
  from sharing_consistent[OF this, of "[Event (Camera_change ''cam'' (\<lambda>i. True)),
      Event (Share 7 (\<lambda>i. True) one_screen one_screen (\<lambda>i. True)), Tick, Answer Captured]" Debug "[''cam'']"]
  show ?thesis by (simp del: run_events.simps) blast
qed

text \<open>The condition is needed: when the sharing ends while a capture is under way, a Debug build asserts and a
  Release build runs into undefined behaviour.\<close>

theorem late_answer_breaks:
  assumes "stays cs s" "set_capturer s \<noteq> None"
  shows "\<exists>t. capture_step b s Tick = Ok t \<and>
    capture_step b t (Event Leave) = (if b = Debug then Assert_failed else Undefined)"
proof -
  from assms obtain i c a where c: "set_capturer s = Some (i, c)" "running c" "desktop_adder s = Some a" "other_adders s = {a}"
    "video_ok s" by (auto simp: stays_def desktop_ok_def desktop_inv_def)
  from c(2) obtain d where d: "capturer_timeout b c = Ok d" "start_promise d" "capturing_frame d" "started (capture_timer d)"
    by (auto simp: running_def capturer_timeout_def capture_def start_timer_def)
  let ?t = "s\<lparr> set_capturer := Some (i, d) \<rparr>"
  have t: "capture_step b s Tick = Ok ?t" using c(1) d by (simp add: desktop_tick_def handled_def prog_eval)
  from d obtain d' where d': "capturer_stop b d = Ok d'" by (auto simp: capturer_stop_def interval_stop_def)
  let ?u = "s\<lparr> set_capturer := Some (i, d') \<rparr>"
  from reset_instance_result[of ?u i d' a b] c obtain v where v: "reset_instance b ?u = (v, Ok ())" "set_capturer v = None" by auto
  then have "on_leave b ?t = (v, Ok ())"
    using c(1) d d' by (simp add: on_leave_def stop_or_reset_def on_stopped_def prog_eval)
  then have "desktop_step b ?t Leave = Ok v" by (simp add: desktop_step_simps handled_def)
  with t d(3) v(2) show ?thesis by (intro exI[of _ ?t]) (simp add: outstanding_def)
qed

text \<open>C7. Sharing a source while a camera runs. The camera is switched off while the source is shared, which it stays
  as long as frames arrive, and ending the sharing switches the same camera on again, if it still opens. The one
  exception: if an earlier sharing paused the camera and was never told that it runs again (\<open>did_pause\<close>), the
  camera stays on next to the shared source.\<close>
theorem sharing_restores_camera:
  assumes "run_events (desktop_step b) (fresh_desktop cs ds) es = Ok s" "distinct cs"
    and "set_capturer s = None" "capture_device s = Some d"
    and "create_capturer selects ss ws i = Ok x" "Permanent \<notin> set rs" "opens d"
  shows "\<exists>t u. run_events (desktop_step b) s (Share i selects ss ws opens # map Frame rs) = Ok t \<and>
    map_option fst (set_capturer t) = Some i \<and> capture_device t = (if did_pause s then Some d else None) \<and>
    run_events (desktop_step b) t [Unshare opens] = Ok u \<and>
    set_capturer u = None \<and> capture_device u = Some d \<and> \<not> did_pause u"
proof -
  from sharing.run_inv[OF stays_fresh[OF assms(2)] assms(1)] have s: "desktop_ok s" by (simp add: stays_def)
  with assms(4) have avail: "is_a_video_available s" "\<not> video_paused s" "last_device_id s = Some d"
    by (auto simp: desktop_ok_def video_ok_def video_inv_def is_a_video_available_def)
  let ?off = "\<lambda>t :: 'a desktop. if did_pause s then \<not> video_paused t \<and> capture_device t = Some d
    else video_paused t \<and> capture_device t = None"
  obtain t c where t: "desktop_set b opens (create_capturer selects ss ws) i s = (t, Ok ())" "desktop_ok t"
    "set_capturer t = Some (i, c)" "last_device_id t = Some d" "did_pause t" "?off t"
    using desktop_set_fresh[where opens = opens and b = b and create = "create_capturer selects ss ws", OF s assms(3,5)]
      avail assms(4) by (cases "did_pause s") auto
  have frames: "\<exists>v. run_events (desktop_step b) u (map Frame rs) = Ok v \<and> desktop_ok v \<and>
      map_option fst (set_capturer v) = Some i \<and> did_pause v \<and> ?off v \<and> last_device_id v = Some d"
    if "desktop_ok u" "map_option fst (set_capturer u) = Some i" "did_pause u" "?off u"
      "last_device_id u = Some d" "Permanent \<notin> set rs" for u rs
    using that
  proof (induction rs arbitrary: u)
    case Nil
    then show ?case by simp
  next
    case (Cons r rs)
    obtain v where "desktop_frame b r u = (v, Ok ())" "desktop_ok v" "did_pause v = did_pause u" "same_camera u v"
      "map_option fst (set_capturer v) = (if r = Permanent then None else map_option fst (set_capturer u))"
      using desktop_frame_result[OF Cons.prems(1), of b r] by blast
    moreover from Cons.prems(6) have "r \<noteq> Permanent" by auto
    ultimately show ?case using Cons.prems Cons.IH[of v]
      by (simp add: desktop_step_simps handled_def same_camera_def)
  qed
  from frames[OF t(2) _ t(5,6,4) assms(6)] t(3) obtain v where
    v: "run_events (desktop_step b) t (map Frame rs) = Ok v" "desktop_ok v" "map_option fst (set_capturer v) = Some i"
      "did_pause v" "?off v" "last_device_id v = Some d" by auto
  have "set_capturer v \<noteq> None" using v(3) by auto
  from unshare_restores[where opens = opens, OF v(2) this v(4,6) assms(7), of b] v(5) obtain u where
    u: "desktop_reset (settings_pause b opens) b v = (u, Ok ())" "set_capturer u = None" "\<not> did_pause u"
      "capture_device u = Some d" by (auto split: if_splits)
  have "run_events (desktop_step b) s (Share i selects ss ws opens # map Frame rs) = Ok v"
    using t(1) v(1) by (simp add: desktop_step_simps handled_def)
  moreover have "run_events (desktop_step b) v [Unshare opens] = Ok u"
    using u(1) \<open>set_capturer v \<noteq> None\<close> by (auto simp: desktop_step_simps handled_def)
  ultimately show ?thesis using v(3,5) u by (cases "did_pause s") auto
qed


lemma sample_camera:
  "\<exists>s. run_events (desktop_step Debug) (fresh_desktop [1 :: nat] [''cam'']) [Camera_change ''cam'' (\<lambda>i. True)] = Ok s \<and>
     set_capturer s = None \<and> capture_device s = Some ''cam'' \<and> \<not> did_pause s"
  by (rule res_caseD) (simp add: desktop_step_simps handled_def change_to_device_def prog_eval fresh_desktop_def
      fresh_video_def video.defs add_new_track_def on_tracks_def on_own_def on_part_def add_adder_def own_video_add_def
      attach_def source_changed_def)

lemma sample_create: "create_capturer (\<lambda>i. True) one_screen one_screen 7 = Ok (7, ''screen'')"
  by (simp add: create_capturer_def get_type_def one_screen_def create_kind_def get_title_by_id_def new_capturer_def)

lemma sharing_restores_camera_witness:
  "\<exists>s t u. run_events (desktop_step Debug) (fresh_desktop [1 :: nat] [''cam'']) [Camera_change ''cam'' (\<lambda>i. True)] = Ok s \<and>
     run_events (desktop_step Debug) s
       (Share 7 (\<lambda>i. True) one_screen one_screen (\<lambda>i. True) # map Frame [Captured, Temporary]) = Ok t \<and>
     capture_device t = None \<and> run_events (desktop_step Debug) t [Unshare (\<lambda>i. True)] = Ok u \<and>
     capture_device u = Some ''cam''"
proof -
  from sample_camera obtain s where s:
    "run_events (desktop_step Debug) (fresh_desktop [1 :: nat] [''cam'']) [Camera_change ''cam'' (\<lambda>i. True)] = Ok s"
    "set_capturer s = None" "capture_device s = Some ''cam''" "\<not> did_pause s" by blast
  have d: "distinct [1 :: nat]" "Permanent \<notin> set [Captured, Temporary]" by simp_all
  from sharing_restores_camera[where opens = "\<lambda>i. True", OF s(1) d(1) s(2-3) sample_create d(2) TrueI] s(1,4)
  show ?thesis by auto
qed

text \<open>How the exception comes about: a shared source is lost, and the camera with it; it comes back and is switched
  on, while \<open>pause(false)\<close> without a camera has told nobody. The next source is shared next to the camera.\<close>

lemma pause_survives:
  "ran (run_events (desktop_step Debug) (fresh_desktop [1 :: nat] [''cam''])
     [Camera_change ''cam'' (\<lambda>i. True), Share 7 (\<lambda>i. True) one_screen one_screen (\<lambda>i. True), Frame Permanent,
      Camera_devices [], Camera_pause False (\<lambda>i. True), Camera_devices [''cam''], Camera_change ''cam'' (\<lambda>i. True),
      Share 7 (\<lambda>i. True) one_screen one_screen (\<lambda>i. True)])
   (\<lambda>s. did_pause s \<and> capture_device s = Some ''cam'' \<and> map_option fst (set_capturer s) = Some 7)"
  by code_simp

text \<open>When the shared window is lost, or the room is left, the sharing ends but the
  camera stays off and paused, as no other code switches it on again.\<close>
theorem lost_source_leaves_camera_off:
  assumes "run_events (desktop_step b) (fresh_desktop cs ds) es = Ok s" "distinct cs"
    and "set_capturer s = None" "capture_device s = Some d" "\<not> did_pause s"
    and "create_capturer selects ss ws i = Ok x" "e = Frame Permanent \<or> e = Leave"
  shows "\<exists>t. run_events (desktop_step b) s [Share i selects ss ws opens, e] = Ok t \<and>
    set_capturer t = None \<and> capture_device t = None \<and> video_paused t \<and> did_pause t"
proof -
  from sharing.run_inv[OF stays_fresh[OF assms(2)] assms(1)] have s: "desktop_ok s" by (simp add: stays_def)
  with assms(4) have avail: "is_a_video_available s" "\<not> video_paused s"
    by (auto simp: desktop_ok_def video_ok_def video_inv_def is_a_video_available_def)
  obtain t where t: "desktop_set b opens (create_capturer selects ss ws) i s = (t, Ok ())" "desktop_ok t"
    "did_pause t" "video_paused t" "capture_device t = None"
    using desktop_set_fresh[where opens = opens and b = b and create = "create_capturer selects ss ws", OF s assms(3,6)]
      assms(5) avail by auto
  obtain u where u: "desktop_frame b Permanent t = (u, Ok ())" "did_pause u = did_pause t" "same_camera t u" "set_capturer u = None"
    using desktop_frame_result[OF t(2), of b Permanent] by auto
  obtain v where v: "on_leave b t = (v, Ok ())" "did_pause v = did_pause t" "same_camera t v" "set_capturer v = None"
    using on_leave_result[OF t(2), of b] by blast
  from assms(7) t(1,3-) u v show ?thesis
    by (auto simp: desktop_step_simps handled_def same_camera_def)
qed

lemma lost_source_leaves_camera_off_witness:
  "\<exists>s t. run_events (desktop_step Debug) (fresh_desktop [1 :: nat] [''cam'']) [Camera_change ''cam'' (\<lambda>i. True)] = Ok s \<and>
     run_events (desktop_step Debug) s [Share 7 (\<lambda>i. True) one_screen one_screen (\<lambda>i. True), Frame Permanent] = Ok t \<and>
     set_capturer t = None \<and> capture_device t = None \<and> video_paused t"
proof -
  from sample_camera obtain s where s:
    "run_events (desktop_step Debug) (fresh_desktop [1 :: nat] [''cam'']) [Camera_change ''cam'' (\<lambda>i. True)] = Ok s"
    "set_capturer s = None" "capture_device s = Some ''cam''" "\<not> did_pause s" by blast
  have d: "distinct [1 :: nat]" "Frame Permanent = Frame Permanent \<or> Frame Permanent = Leave" by simp_all
  from lost_source_leaves_camera_off[where opens = "\<lambda>i. True", OF s(1) d(1) s(2-4) sample_create d(2)] s(1)
  show ?thesis by blast
qed


section \<open>Previews\<close>

text \<open>A preview is a capturer with the identity of its source. \<open>preview_log\<close> are the
  signals: added or removed, a screen or a window.\<close>

record previews =
  preview_timer :: "unit interval"
  preview_sources :: enumerator
  screen_previews :: "(int \<times> capturer) list"
  window_previews :: "(int \<times> capturer) list"
  preview_log :: "(bool \<times> source_type \<times> int) list"

definition previews_of :: "source_type \<Rightarrow> previews \<Rightarrow> (int \<times> capturer) list" where
  "previews_of k p = (case k of Screen \<Rightarrow> screen_previews p | Window \<Rightarrow> window_previews p)"

definition set_previews :: "source_type \<Rightarrow> (int \<times> capturer) list \<Rightarrow> previews \<Rightarrow> previews" where
  "set_previews k xs p = (case k of Screen \<Rightarrow> p\<lparr> screen_previews := xs \<rparr> | Window \<Rightarrow> p\<lparr> window_previews := xs \<rparr>)"

definition start_preview :: "build \<Rightarrow> int \<times> capturer \<Rightarrow> (int \<times> capturer) res" where
  "start_preview b x =
     rbind (boost_assert b (\<not> start_promise (snd x))) (\<lambda>u.
     rbind (capturer_start b (snd x)) (\<lambda>c. Ok (fst x, c)))"

definition create_preview :: "(int \<times> string \<Rightarrow> capturer res) \<Rightarrow> int \<times> string \<Rightarrow> (int \<times> capturer) res" where
  "create_preview made info = rbind (made info) (\<lambda>c. Ok (fst info, c))"

fun add_previews :: "build \<Rightarrow> (int \<times> string \<Rightarrow> capturer res) \<Rightarrow> source_type \<Rightarrow> (int \<times> string) list \<Rightarrow>
    previews \<Rightarrow> previews res" where
  "add_previews b made k [] p = Ok p"
| "add_previews b made k (x # xs) p =
     rbind (create_preview made x) (\<lambda>y.
     rbind (start_preview b y) (\<lambda>y.
     add_previews b made k xs
       ((set_previews k (previews_of k p @ [y]) p)\<lparr> preview_log := preview_log p @ [(True, k, fst x)] \<rparr>)))"

text \<open>The list is filtered before the first preview is added.\<close>

definition create_previews :: "build \<Rightarrow> (int \<times> string \<Rightarrow> capturer res) \<Rightarrow> source_type \<Rightarrow> previews \<Rightarrow> previews res" where
  "create_previews b made k p =
     (let found = (case k of Screen \<Rightarrow> screens (preview_sources p) | Window \<Rightarrow> windows (preview_sources p)) in
      add_previews b made k (filter (\<lambda>x. fst x \<notin> fst ` set (previews_of k p)) found) p)"

definition enumerate_previews ::
  "build \<Rightarrow> (int \<times> string \<Rightarrow> capturer res) \<Rightarrow> sources \<Rightarrow> sources \<Rightarrow> previews \<Rightarrow> previews res" where
  "enumerate_previews b made ss ws p =
     rbind (enumerate_sources b ss ws (preview_sources p)) (\<lambda>e.
     rbind (create_previews b made Screen (p\<lparr> preview_sources := e \<rparr>)) (create_previews b made Window))"

fun each_preview :: "(int \<times> capturer \<Rightarrow> (int \<times> capturer) res) \<Rightarrow> (int \<times> capturer) list \<Rightarrow> (int \<times> capturer) list res" where
  "each_preview f [] = Ok []"
| "each_preview f (x # xs) = rbind (f x) (\<lambda>y. rbind (each_preview f xs) (\<lambda>ys. Ok (y # ys)))"

definition previews_start ::
  "build \<Rightarrow> (int \<times> string \<Rightarrow> capturer res) \<Rightarrow> sources \<Rightarrow> sources \<Rightarrow> previews \<Rightarrow> previews res" where
  "previews_start b made ss ws p =
     rbind (each_preview (start_preview b) (window_previews p)) (\<lambda>wp.
     rbind (each_preview (start_preview b) (screen_previews p)) (\<lambda>sp.
     rbind (enumerate_previews b made ss ws (p\<lparr> window_previews := wp, screen_previews := sp \<rparr>)) (\<lambda>p.
     rbind (interval_start b () (preview_timer p)) (\<lambda>t. Ok (p\<lparr> preview_timer := t \<rparr>)))))"

definition stop_preview :: "build \<Rightarrow> int \<times> capturer \<Rightarrow> (int \<times> capturer) res" where
  "stop_preview b x =
     rbind (boost_assert b (start_promise (snd x))) (\<lambda>u.
     rbind (capturer_stop b (snd x)) (\<lambda>c. Ok (fst x, c)))"

definition previews_stop :: "build \<Rightarrow> previews \<Rightarrow> previews res" where
  "previews_stop b p =
     rbind (interval_stop b (preview_timer p)) (\<lambda>t.
     rbind (each_preview (stop_preview b) (window_previews p)) (\<lambda>wp.
     rbind (each_preview (stop_preview b) (screen_previews p)) (\<lambda>sp.
     Ok (p\<lparr> preview_timer := t, window_previews := wp, screen_previews := sp \<rparr>))))"

text \<open>A capturer that ended with an error takes its preview with it: the first one
  with its identity, windows before screens.\<close>

definition erase_first :: "('a \<Rightarrow> bool) \<Rightarrow> 'a list \<Rightarrow> 'a list" where
  "erase_first q xs = (case find_index q xs of None \<Rightarrow> xs | Some i \<Rightarrow> erase_at i xs)"

definition on_capturer_stopped :: "int \<Rightarrow> unit res \<Rightarrow> previews \<Rightarrow> previews" where
  "on_capturer_stopped i r p =
     (if r = Ok () then p
      else if i \<in> fst ` set (window_previews p) then
        p\<lparr> window_previews := erase_first (\<lambda>x. fst x = i) (window_previews p),
          preview_log := preview_log p @ [(False, Window, i)] \<rparr>
      else if i \<in> fst ` set (screen_previews p) then
        p\<lparr> screen_previews := erase_first (\<lambda>x. fst x = i) (screen_previews p),
          preview_log := preview_log p @ [(False, Screen, i)] \<rparr>
      else p)"

text \<open>No source has two previews, however often the sources are enumerated, and after
  an enumeration each listed source has one.\<close>

definition previews_inv :: "previews \<Rightarrow> bool" where
  "previews_inv p \<longleftrightarrow> (\<forall>k. distinct (map fst (previews_of k p)))"

lemma previews_of_simps [simp]:
  "previews_of k (set_previews k' xs p) = (if k = k' then xs else previews_of k p)"
  "previews_of k (p\<lparr> preview_log := ns \<rparr>) = previews_of k p"
  "previews_of k (p\<lparr> preview_sources := e \<rparr>) = previews_of k p"
  "preview_sources (set_previews k' xs p) = preview_sources p"
  by (simp_all add: previews_of_def set_previews_def split: source_type.split)

lemma add_previews_ids:
  assumes "add_previews b made k xs p = Ok q"
  shows "map fst (previews_of k q) = map fst (previews_of k p) @ map fst xs \<and>
    (\<forall>k'. k' \<noteq> k \<longrightarrow> previews_of k' q = previews_of k' p) \<and> preview_sources q = preview_sources p"
  using assms
proof (induction xs arbitrary: p)
  case Nil
  then show ?case by simp
next
  case (Cons x xs)
  then obtain c d where "add_previews b made k xs ((set_previews k (previews_of k p @ [(fst x, d)]) p)
      \<lparr> preview_log := preview_log p @ [(True, k, fst x)] \<rparr>) = Ok q"
    by (auto simp: res_simps create_preview_def start_preview_def)
  from Cons.IH[OF this] show ?case by auto
qed

lemma create_previews_inv:
  assumes "create_previews b made k p = Ok q" "previews_inv p"
    and "distinct (map fst (screens (preview_sources p)))" "distinct (map fst (windows (preview_sources p)))"
  shows "previews_inv q \<and> preview_sources q = preview_sources p \<and>
    fst ` set (case k of Screen \<Rightarrow> screens (preview_sources p) | Window \<Rightarrow> windows (preview_sources p)) \<subseteq>
      fst ` set (previews_of k q) \<and> (\<forall>k'. k' \<noteq> k \<longrightarrow> previews_of k' q = previews_of k' p)"
proof -
  let ?found = "case k of Screen \<Rightarrow> screens (preview_sources p) | Window \<Rightarrow> windows (preview_sources p)"
  let ?new = "filter (\<lambda>x. fst x \<notin> fst ` set (previews_of k p)) ?found"
  from assms(1) have "add_previews b made k ?new p = Ok q" by (simp add: create_previews_def Let_def)
  from add_previews_ids[OF this] have q: "map fst (previews_of k q) = map fst (previews_of k p) @ map fst ?new"
    "\<And>k'. k' \<noteq> k \<Longrightarrow> previews_of k' q = previews_of k' p" "preview_sources q = preview_sources p" by auto
  have "distinct (map fst ?found)" using assms(3,4) by (cases k) auto
  then have "distinct (map fst ?new)" by (simp add: distinct_map_filter)
  moreover have "set (map fst ?new) \<inter> set (map fst (previews_of k p)) = {}"
    unfolding set_map by auto
  ultimately have "distinct (map fst (previews_of k q))"
    using assms(2) unfolding q(1) previews_inv_def distinct_append by blast
  then have "previews_inv q"
    using assms(2) q(2) unfolding previews_inv_def by metis
  moreover have "fst ` set ?found \<subseteq> set (map fst (previews_of k q))"
    unfolding q(1) by auto
  then have "fst ` set ?found \<subseteq> fst ` set (previews_of k q)" by (simp only: set_map)
  ultimately show ?thesis using q(2,3) by blast
qed

lemma enumerate_previews_inv:
  assumes "enumerate_previews b made (Some ss) (Some ws) p = Ok q" "previews_inv p"
    and "distinct (map fst ss)" "distinct (map fst ws)"
  shows "previews_inv q \<and> fst ` set ss \<subseteq> fst ` set (screen_previews q) \<and> fst ` set ws \<subseteq> fst ` set (window_previews q)"
proof -
  let ?p = "p\<lparr> preview_sources := \<lparr> screens = ss, windows = ws \<rparr> \<rparr>"
  from assms(1) obtain r where r: "create_previews b made Screen ?p = Ok r" "create_previews b made Window r = Ok q"
    by (auto simp: enumerate_previews_def enumerate_sources_def res_simps)
  from create_previews_inv[OF r(1)] assms(2-4)
  have s: "previews_inv r" "preview_sources r = \<lparr> screens = ss, windows = ws \<rparr>" "fst ` set ss \<subseteq> fst ` set (previews_of Screen r)"
    by (auto simp: previews_inv_def)
  from create_previews_inv[OF r(2)] s assms(3,4) show ?thesis
    by (force simp: previews_of_def)
qed

end
