(* ===== verification/Participants.thy ===== *)
theory Participants
  imports Matrix_Room
begin

text \<open>
  Who is in the room (participants.cpp, peers.cpp, participant\_creator.cpp,
  room.cpp, leaver.cpp and joiner.cpp in src/fubble/client).

  A participant is known by its id. Asynchronous completions are events: the end of a
  participant's \<open>close\<close>, of the requests of joining and leaving.
\<close>

section \<open>Waiting for every participant to close\<close>

text \<open>\<open>futures\<close> are the results that have arrived; \<open>current\<close> is the iterator.\<close>

record waiter =
  futures :: "unit res option list"
  current :: nat
  promise_set :: bool

definition is_ready :: "waiter \<Rightarrow> nat \<Rightarrow> bool" where
  "is_ready w i \<longleftrightarrow> i < length (futures w) \<and> futures w ! i \<noteq> None"

text \<open>A continuation on a ready future runs at once. What it catches is logged.\<close>

function do_next :: "waiter \<Rightarrow> waiter" where
  "do_next w =
     (if \<not> is_ready w (current w) then w
      else let v = w\<lparr> current := Suc (current w) \<rparr> in
        if current v = length (futures v) then v\<lparr> promise_set := True \<rparr> else do_next v)"
  by pat_completeness auto
termination
  by (relation "measure (\<lambda>w. length (futures w) - current w)") (auto simp: is_ready_def)

declare do_next.simps [simp del]

definition wait_for_done :: "unit res option list \<Rightarrow> waiter" where
  "wait_for_done fs =
     (let w = \<lparr> futures = fs, current = 0, promise_set = False \<rparr> in
      if fs = [] then w\<lparr> promise_set := True \<rparr> else do_next w)"

text \<open>A future gets its result; if the waiter waits for this one, it goes on.\<close>

definition future_done :: "waiter \<Rightarrow> nat \<times> unit res \<Rightarrow> waiter" where
  "future_done w d =
     (let v = w\<lparr> futures := (futures w)[fst d := Some (snd d)] \<rparr> in
      if fst d = current w \<and> \<not> promise_set w then do_next v else v)"

definition waiter_inv :: "waiter \<Rightarrow> bool" where
  "waiter_inv w \<longleftrightarrow> current w \<le> length (futures w) \<and> (\<forall>i < current w. is_ready w i) \<and>
     \<not> is_ready w (current w) \<and> (promise_set w \<longleftrightarrow> current w = length (futures w))"

lemma do_next_inv:
  assumes "\<forall>i < current w. is_ready w i" "current w < length (futures w)" "\<not> promise_set w"
  shows "waiter_inv (do_next w) \<and> futures (do_next w) = futures w"
  using assms
proof (induction w rule: do_next.induct)
  case (1 w)
  show ?case
  proof (cases "is_ready w (current w)")
    case False
    with 1 show ?thesis by (simp add: waiter_inv_def do_next.simps)
  next
    case True
    let ?v = "w\<lparr> current := Suc (current w) \<rparr>"
    have ready: "\<forall>i < current ?v. is_ready ?v i"
      using "1.prems"(1) True by (auto simp: less_Suc_eq is_ready_def)
    show ?thesis
    proof (cases "current ?v = length (futures ?v)")
      case True
      with ready \<open>is_ready w (current w)\<close> show ?thesis
        by (simp add: waiter_inv_def do_next.simps[of w] Let_def is_ready_def)
    next
      case False
      with 1 True ready have "waiter_inv (do_next ?v) \<and> futures (do_next ?v) = futures ?v" by simp
      with True False show ?thesis by (simp add: do_next.simps[of w] Let_def)
    qed
  qed
qed

lemma wait_for_done_inv: "waiter_inv (wait_for_done fs) \<and> futures (wait_for_done fs) = fs"
proof (cases "fs = []")
  case True
  then show ?thesis by (simp add: wait_for_done_def waiter_inv_def is_ready_def)
next
  case False
  with do_next_inv[of "\<lparr> futures = fs, current = 0, promise_set = False \<rparr>"] show ?thesis
    by (simp add: wait_for_done_def Let_def)
qed

lemma future_done_inv:
  assumes "waiter_inv w" "fst d < length (futures w)"
  shows "waiter_inv (future_done w d) \<and> futures (future_done w d) = (futures w)[fst d := Some (snd d)]"
proof -
  let ?v = "w\<lparr> futures := (futures w)[fst d := Some (snd d)] \<rparr>"
  have ready: "is_ready ?v i \<longleftrightarrow> is_ready w i \<or> i = fst d" for i
    using assms(2) by (auto simp: is_ready_def nth_list_update)
  show ?thesis
  proof (cases "fst d = current w \<and> \<not> promise_set w")
    case True
    with assms ready have "\<forall>i < current ?v. is_ready ?v i" "current ?v < length (futures ?v)" "\<not> promise_set ?v"
      by (auto simp: waiter_inv_def)
    then have "waiter_inv (do_next ?v) \<and> futures (do_next ?v) = futures ?v" by (rule do_next_inv)
    with True show ?thesis by (simp add: future_done_def Let_def)
  next
    case False
    then have "waiter_inv ?v"
      using assms ready by (auto simp: waiter_inv_def)
    with False show ?thesis by (auto simp: future_done_def Let_def)
  qed
qed

lemma fold_done_inv:
  assumes "waiter_inv w" "\<forall>d \<in> set ds. fst d < length (futures w)"
  shows "waiter_inv (fold (\<lambda>d w. future_done w d) ds w) \<and>
    length (futures (fold (\<lambda>d w. future_done w d) ds w)) = length (futures w) \<and>
    (\<forall>i. is_ready (fold (\<lambda>d w. future_done w d) ds w) i \<longleftrightarrow> is_ready w i \<or> i \<in> fst ` set ds)"
  using assms
proof (induction ds arbitrary: w)
  case Nil
  then show ?case by simp
next
  case (Cons d ds)
  from future_done_inv[OF Cons.prems(1), of d] Cons.prems(2)
  have d: "waiter_inv (future_done w d)" "futures (future_done w d) = (futures w)[fst d := Some (snd d)]" by auto
  then have "\<forall>i. is_ready (future_done w d) i \<longleftrightarrow> is_ready w i \<or> i = fst d"
    using Cons.prems(2) by (auto simp: is_ready_def nth_list_update)
  with Cons.IH[OF d(1)] Cons.prems(2) d(2) show ?case by auto
qed

text \<open>C24. However many participants close, in whatever order and with whatever results
  their futures end, before or after the waiting began: the waiter's promise is set
  exactly when all of them have ended.\<close>
theorem waits_for_everybody:
  assumes "\<forall>d \<in> set ds. fst d < length fs"
  shows "promise_set (fold (\<lambda>d w. future_done w d) ds (wait_for_done fs)) \<longleftrightarrow>
    (\<forall>i < length fs. fs ! i \<noteq> None \<or> i \<in> fst ` set ds)"
proof -
  let ?w = "fold (\<lambda>d w. future_done w d) ds (wait_for_done fs)"
  have w: "waiter_inv ?w" "length (futures ?w) = length fs"
    "\<And>i. is_ready ?w i \<longleftrightarrow> is_ready (wait_for_done fs) i \<or> i \<in> fst ` set ds"
    using fold_done_inv[of "wait_for_done fs" ds] wait_for_done_inv[of fs] assms by auto
  have start: "is_ready (wait_for_done fs) i \<longleftrightarrow> i < length fs \<and> fs ! i \<noteq> None" for i
    using wait_for_done_inv[of fs] by (auto simp: is_ready_def)
  have "promise_set ?w \<longleftrightarrow> (\<forall>i < length fs. is_ready ?w i)"
    using w(1,2) by (auto simp: waiter_inv_def)
  with w(3) start show ?thesis by auto
qed

lemma waits_for_everybody_witness:
  "promise_set (fold (\<lambda>d w. future_done w d) [(2, Ok ()), (1, Throw System_error)] (wait_for_done [Some (Ok ()), None, None]))"
  using waits_for_everybody[of "[(2, Ok ()), (1, Throw System_error)]" "[Some (Ok ()), None, None]"]
  by (simp add: less_Suc_eq)


section \<open>The participants follow the members of the room\<close>

text \<open>\<open>members_in\<close> are the ids in the container, \<open>told\<close> the signals, \<open>closing\<close> the
  participants that \<open>close\<close> has asked to close. \<open>listened\<close> are the members of the
  matrix room whose join state is listened to, with their present state.\<close>

record participants =
  members_in :: "string list"
  told :: "(bool \<times> string) list"
  closing :: "string list"
  listened :: "(string \<times> join_state) list"

definition get :: "string \<Rightarrow> participants \<Rightarrow> string option" where
  "get i s = find_first (\<lambda>j. j = i) (members_in s)"

definition add :: "build \<Rightarrow> string \<Rightarrow> participants \<Rightarrow> participants res" where
  "add b i s =
     rbind (boost_assert b (i \<notin> set (members_in s))) (\<lambda>u.
     Ok (s\<lparr> members_in := members_in s @ [i], told := told s @ [(True, i)] \<rparr>))"

definition remove_by_id :: "build \<Rightarrow> string \<Rightarrow> participants \<Rightarrow> participants res" where
  "remove_by_id b i s =
     rbind (boost_assert b (i \<in> set (members_in s))) (\<lambda>u.
     if i \<notin> set (members_in s) then Ok s
     else Ok (s\<lparr> members_in := remove1 i (members_in s), told := told s @ [(False, i)] \<rparr>))"

definition on_join_state_changed :: "build \<Rightarrow> string \<Rightarrow> join_state \<Rightarrow> participants \<Rightarrow> participants res" where
  "on_join_state_changed b i j s =
     rbind (if j = Joined then add b i s else Ok s) (\<lambda>s.
     if j = Left then remove_by_id b i s else Ok s)"

fun on_matrix_room_participant_joins :: "build \<Rightarrow> (string \<times> join_state) list \<Rightarrow> participants \<Rightarrow> participants res" where
  "on_matrix_room_participant_joins b [] s = Ok s"
| "on_matrix_room_participant_joins b ((i, j) # ms) s =
     rbind (if j = Joined then add b i s else Ok s) (\<lambda>s.
     on_matrix_room_participant_joins b ms (s\<lparr> listened := listened s @ [(i, j)] \<rparr>))"

definition fresh_participants :: "build \<Rightarrow> (string \<times> join_state) list \<Rightarrow> participants res" where
  "fresh_participants b ms =
     on_matrix_room_participant_joins b ms \<lparr> members_in = [], told = [], closing = [], listened = [] \<rparr>"

text \<open>\<open>close\<close> works on a copy; every participant stays in the container until its own
  \<open>close\<close> has ended.\<close>

definition close_participants :: "participants \<Rightarrow> participants" where
  "close_participants s = s\<lparr> closing := closing s @ members_in s \<rparr>"

definition on_async_closed :: "build \<Rightarrow> string \<Rightarrow> unit res \<Rightarrow> participants \<Rightarrow> participants res" where
  "on_async_closed b i r s =
     rbind (boost_assert b (i \<in> set (members_in s))) (\<lambda>u.
     if i \<notin> set (members_in s) then Ok s
     else Ok (s\<lparr> members_in := remove1 i (members_in s), told := told s @ [(False, i)] \<rparr>))"

datatype participants_event =
    Member_joins string join_state
  | State_changed string join_state
  | Close_all
  | Closed string "unit res"

text \<open>The matrix room reports a member once, and a change of state only if it is one
  (a joined member can not be invited again); only what is closing ends.\<close>

fun participants_event_ok :: "participants \<Rightarrow> participants_event \<Rightarrow> bool" where
  "participants_event_ok s (Member_joins i j) = (i \<notin> fst ` set (listened s))"
| "participants_event_ok s (State_changed i j) =
     (case map_of (listened s) i of None \<Rightarrow> False | Some k \<Rightarrow> k \<noteq> j \<and> (k = Joined \<longrightarrow> j = Left))"
| "participants_event_ok s Close_all = True"
| "participants_event_ok s (Closed i r) = (i \<in> set (closing s))"

fun participants_action :: "build \<Rightarrow> participants \<Rightarrow> participants_event \<Rightarrow> participants res" where
  "participants_action b s (Member_joins i j) = on_matrix_room_participant_joins b [(i, j)] s"
| "participants_action b s (State_changed i j) = on_join_state_changed b i j
     (s\<lparr> listened := map (\<lambda>m. if fst m = i then (i, j) else m) (listened s) \<rparr>)"
| "participants_action b s Close_all = Ok (close_participants s)"
| "participants_action b s (Closed i r) = on_async_closed b i r (s\<lparr> closing := remove1 i (closing s) \<rparr>)"

definition participants_step :: "build \<Rightarrow> participants \<Rightarrow> participants_event \<Rightarrow> participants res" where
  "participants_step b s e = (if participants_event_ok s e then participants_action b s e else Ok s)"

definition joined :: "participants \<Rightarrow> string set" where
  "joined s = {i. map_of (listened s) i = Some Joined}"

fun told_state :: "(bool \<times> string) list \<Rightarrow> string set \<Rightarrow> string set" where
  "told_state [] A = A"
| "told_state ((True, i) # ns) A = told_state ns (insert i A)"
| "told_state ((False, i) # ns) A = told_state ns (A - {i})"

lemma told_state_append: "told_state (xs @ ys) A = told_state ys (told_state xs A)"
  by (induction xs A rule: told_state.induct) auto

text \<open>Only members who have joined are participants, each once, and the signals tell
  who. Nobody is missing until \<open>close\<close> is called.\<close>

definition mirror :: "bool \<Rightarrow> participants \<Rightarrow> bool" where
  "mirror open s \<longleftrightarrow> distinct (members_in s) \<and> set (members_in s) \<subseteq> joined s \<and>
     told_state (told s) {} = set (members_in s) \<and> distinct (map fst (listened s)) \<and>
     (open \<longrightarrow> joined s \<subseteq> set (members_in s) \<and> closing s = [])"

lemma map_of_changed:
  "map_of (map (\<lambda>m. if fst m = i then (i, j) else m) ms) k =
     (if k = i \<and> i \<in> fst ` set ms then Some j else map_of ms k)"
  by (induction ms) force+

lemma fst_changed: "map fst (map (\<lambda>m. if fst m = i then (i, j) else m) ms) = map fst ms"
  by (induction ms) auto

lemma map_of_new: "i \<notin> fst ` set ms \<Longrightarrow> map_of (ms @ [(i, j)]) k = (if k = i then Some j else map_of ms k)"
  by (induction ms) auto

lemma mirror_joins:
  assumes "mirror open s" "i \<notin> fst ` set (listened s)"
  shows "\<exists>t. on_matrix_room_participant_joins b [(i, j)] s = Ok t \<and> mirror open t"
proof -
  have "map_of (listened s) i = None" using assms(2) by (simp add: map_of_eq_None_iff)
  with assms have "i \<notin> set (members_in s)" "i \<notin> joined s" by (auto simp: mirror_def joined_def)
  with assms show ?thesis
    by (auto simp: add_def mirror_def joined_def map_of_new told_state_append
        simp del: map_of_append map_of_eq_Some_iff)
qed

lemma mirror_changed:
  assumes "mirror open s" "map_of (listened s) i = Some k" "k \<noteq> j" "k = Joined \<longrightarrow> j = Left"
  shows "(b = Release \<longrightarrow> (\<exists>t. on_join_state_changed b i j
      (s\<lparr> listened := map (\<lambda>m. if fst m = i then (i, j) else m) (listened s) \<rparr>) = Ok t)) \<and>
    (\<forall>t. on_join_state_changed b i j
      (s\<lparr> listened := map (\<lambda>m. if fst m = i then (i, j) else m) (listened s) \<rparr>) = Ok t \<longrightarrow> mirror open t)"
proof -
  let ?ms = "map (\<lambda>m. if fst m = i then (i, j) else m) (listened s)"
  from assms(2) have mem: "i \<in> fst ` set (listened s)" by (metis map_of_eq_None_iff option.distinct(1))
  have j: "map_of ?ms i' = Some Joined \<longleftrightarrow> (if i' = i then j = Joined else i' \<in> joined s)" for i'
    using mem by (auto simp: map_of_changed joined_def)
  have k: "i \<in> joined s \<longleftrightarrow> k = Joined" using assms(2) by (simp add: joined_def)
  have dist: "distinct (map fst ?ms)" using assms(1) unfolding fst_changed by (simp add: mirror_def)
  have joined': "joined (s\<lparr> listened := ?ms \<rparr>) = (if j = Joined then insert i (joined s) else joined s - {i})"
    using j by (auto simp: joined_def)
  have frame: "joined (u\<lparr> members_in := x, told := y \<rparr>) = joined u" for u x y by (simp add: joined_def)
  show ?thesis
  proof (cases j)
    case Joined
    with assms k dist joined' show ?thesis
      by (auto simp: frame on_join_state_changed_def add_def mirror_def told_state_append res_simps)
  next
    case Left
    with assms k dist joined' show ?thesis
      by (auto simp: frame on_join_state_changed_def remove_by_id_def mirror_def told_state_append res_simps)
  next
    case Invited
    with assms k dist joined' show ?thesis
      by (cases k) (auto simp: on_join_state_changed_def mirror_def)
  qed
qed

lemma mirror_step:
  assumes "mirror open s"
  shows "(b = Release \<longrightarrow> (\<exists>t. participants_step b s e = Ok t)) \<and>
    (\<forall>t. participants_step b s e = Ok t \<longrightarrow> mirror (open \<and> e \<noteq> Close_all) t)"
proof (cases "participants_event_ok s e")
  case False
  with assms show ?thesis by (cases e) (auto simp: participants_step_def)
next
  case True
  show ?thesis
  proof (cases e)
    case (Member_joins i j)
    with True mirror_joins[OF assms, of i b j] show ?thesis by (auto simp: participants_step_def)
  next
    case (State_changed i j)
    with True obtain k where k: "map_of (listened s) i = Some k" "k \<noteq> j" "k = Joined \<longrightarrow> j = Left"
      by (auto split: option.splits)
    from mirror_changed[OF assms k, of b] True State_changed show ?thesis by (simp add: participants_step_def)
  next
    case Close_all
    with assms show ?thesis by (simp add: participants_step_def close_participants_def mirror_def joined_def
        del: map_of_eq_Some_iff)
  next
    case (Closed i r)
    with True assms show ?thesis
      by (auto simp: participants_step_def on_async_closed_def mirror_def joined_def told_state_append res_simps
          simp del: map_of_eq_Some_iff)
  qed
qed

interpretation members: total_machine "participants_step Release" "mirror False" "\<lambda>e. True"
  by unfold_locales (use mirror_step[of False] in auto)

interpretation members_of: state_machine "participants_step b" "mirror False" for b
  by unfold_locales (use mirror_step[of False] in auto)

lemma mirror_open_run:
  assumes "mirror True s" "run_events (participants_step b) s es = Ok t" "Close_all \<notin> set es"
  shows "mirror True t"
  using assms
proof (induction es arbitrary: s)
  case Nil
  then show ?case by simp
next
  case (Cons e es)
  then obtain u where u: "participants_step b s e = Ok u" "run_events (participants_step b) u es = Ok t"
    by (auto simp: res_simps)
  with Cons mirror_step[of True s b e] show ?case by auto
qed

lemma mirror_fresh:
  assumes "distinct (map fst ms)"
  shows "\<exists>s. fresh_participants b ms = Ok s \<and> mirror True s"
proof -
  have "\<exists>t. on_matrix_room_participant_joins b ms s = Ok t \<and> mirror True t"
    if "mirror True s" "fst ` set (listened s) \<inter> fst ` set ms = {}" for s
    using that assms
  proof (induction ms arbitrary: s)
    case Nil
    then show ?case by simp
  next
    case (Cons m ms)
    obtain i j where m: "m = (i, j)" by (cases m)
    with Cons.prems have "i \<notin> fst ` set (listened s)" by auto
    from mirror_joins[OF Cons.prems(1) this, of b j] obtain t
      where t: "on_matrix_room_participant_joins b [(i, j)] s = Ok t" "mirror True t" by blast
    have l: "listened t = listened s @ [(i, j)]"
      using t(1) by (auto simp: add_def res_simps split: if_splits)
    have "on_matrix_room_participant_joins b (m # ms) s = on_matrix_room_participant_joins b ms t"
      using t(1) m by (auto simp: add_def res_simps boost_assert_def split: if_splits)
    with Cons.IH[OF t(2)] Cons.prems l m show ?case by auto
  qed
  from this[of "\<lparr> members_in = [], told = [], closing = [], listened = [] \<rparr>"] show ?thesis
    by (simp add: fresh_participants_def mirror_def joined_def)
qed

text \<open>C9. Whatever the room reports and whatever is closing: the participants are members
  who have joined, each listed once, and who listens to the signals knows exactly them;
  until \<open>close\<close> is called nobody who has joined is missing. A Release build handles every
  such sequence.\<close>
theorem participants_mirror_members:
  assumes "distinct (map fst ms)"
  shows "\<exists>s. fresh_participants b ms = Ok s \<and>
    (b = Release \<longrightarrow> (\<exists>t. run_events (participants_step b) s es = Ok t)) \<and>
    (\<forall>t. run_events (participants_step b) s es = Ok t \<longrightarrow>
       distinct (members_in t) \<and> set (members_in t) \<subseteq> joined t \<and> told_state (told t) {} = set (members_in t) \<and>
       (Close_all \<notin> set es \<longrightarrow> set (members_in t) = joined t))"
proof -
  obtain s where s: "fresh_participants b ms = Ok s" "mirror True s" using mirror_fresh[OF assms] by blast
  then have weak: "mirror False s" by (simp add: mirror_def)
  have "\<exists>t. run_events (participants_step b) s es = Ok t" if "b = Release"
    using members.run_ok[OF weak, of es] that by auto
  moreover have "mirror (Close_all \<notin> set es) t" if "run_events (participants_step b) s es = Ok t" for t
    using mirror_open_run[OF s(2) that] members_of.run_inv[OF weak that] by (auto simp: mirror_def)
  ultimately show ?thesis using s(1) by (auto simp: mirror_def)
qed

lemma participants_mirror_members_witness:
  "\<exists>s. fresh_participants Debug [(''a'', Joined), (''b'', Invited)] = Ok s \<and>
    (\<forall>t. run_events (participants_step Debug) s [State_changed ''b'' Joined, State_changed ''a'' Left] = Ok t \<longrightarrow>
      set (members_in t) = joined t)"
proof -
  have "distinct (map fst [(''a'', Joined), (''b'', Invited)])" by simp
  from participants_mirror_members[OF this, of Debug "[State_changed ''b'' Joined, State_changed ''a'' Left]"]
  show ?thesis by force
qed

text \<open>A Debug build does not survive two ordinary things: a member who declines an
  invitation, and one who leaves while the own client closes the room.\<close>
theorem leaving_asserts:
  assumes "i \<notin> fst ` set (listened s)" "i \<notin> set (members_in s)"
    and "map_of (listened s) k = Some Joined" "distinct (members_in s)" "k \<in> set (members_in s)"
  shows "run_events (participants_step Debug) s [Member_joins i Invited, State_changed i Left] = Assert_failed \<and>
    run_events (participants_step Debug) s [Close_all, State_changed k Left, Closed k r] = Assert_failed"
proof -
  have "map_of (listened s) i = None" using assms(1) by (simp add: map_of_eq_None_iff)
  then have "map_of (listened s @ [(i, Invited)]) i = Some Invited" by (simp add: map_add_def)
  with assms show ?thesis
    by (simp add: participants_step_def on_join_state_changed_def remove_by_id_def boost_assert_def
        close_participants_def on_async_closed_def del: map_of_append map_of_eq_Some_iff)
qed

lemma leaving_asserts_witness:
  "run_events (participants_step Debug) \<lparr> members_in = [''a''], told = [(True, ''a'')], closing = [],
     listened = [(''a'', Joined)] \<rparr> [Member_joins ''b'' Invited, State_changed ''b'' Left] = Assert_failed"
  using leaving_asserts[of "''b''" "\<lparr> members_in = [''a''], told = [(True, ''a'')], closing = [],
     listened = [(''a'', Joined)] \<rparr>" "''a''" "Ok ()"] by simp


section \<open>Comparing strings\<close>

text \<open>\<open>operator<\<close> of \<open>std::string\<close>: bytes as unsigned numbers, a proper prefix is
  smaller.\<close>

fun string_less :: "string \<Rightarrow> string \<Rightarrow> bool" where
  "string_less xs [] = False"
| "string_less [] (y # ys) = True"
| "string_less (x # xs) (y # ys) =
     (if x = y then string_less xs ys else (of_char x :: nat) < of_char y)"

lemma string_less_irrefl [simp]: "\<not> string_less xs xs"
  by (induction xs) auto

lemma string_less_total: "xs = ys \<or> string_less xs ys \<or> string_less ys xs"
proof (induction xs ys rule: string_less.induct)
  case (1 xs)
  then show ?case by (cases xs) simp_all
next
  case (3 x xs y ys)
  then show ?case using linorder_neqE_nat[of "of_char x" "of_char y"] by auto
qed simp

lemma string_less_asym: "string_less xs ys \<Longrightarrow> \<not> string_less ys xs"
  by (induction xs ys rule: string_less.induct) (auto split: if_splits)

lemma string_less_prefix [simp]: "string_less (zs @ xs) (zs @ ys) = string_less xs ys"
  by (induction zs) auto


section \<open>The kinds of participants\<close>

datatype participant_kind =
    Own_participant
  | Bot_participant
  | Remote_participant string string

definition peer_id :: "string \<Rightarrow> string \<Rightarrow> string" where
  "peer_id own other = (if string_less own other then own @ ''_'' @ other else other @ ''_'' @ own)"

text \<open>A remote participant's peer connects to the signaling server with the own id as
  token and the identity of the pair as key.\<close>

definition create_participant :: "string \<Rightarrow> string \<Rightarrow> string \<Rightarrow> participant_kind" where
  "create_participant own user name =
     (if user = own then Own_participant
      else if name = ''Fubble Bot'' then Bot_participant
      else Remote_participant own (peer_id own user))"

text \<open>Any two people in a room reach the signaling server under the same key and
  with different tokens, whoever of them creates the connection first.\<close>
theorem peers_share_key:
  assumes "a \<noteq> b" "name_a \<noteq> ''Fubble Bot''" "name_b \<noteq> ''Fubble Bot''"
  shows "\<exists>key. create_participant a b name_b = Remote_participant a key \<and>
    create_participant b a name_a = Remote_participant b key"
  using assms string_less_total[of a b] string_less_asym
  by (auto simp: create_participant_def peer_id_def)

lemma peers_share_key_witness:
  "\<exists>key. create_participant ''@b'' ''@a'' ''Anna'' = Remote_participant ''@b'' key \<and>
    create_participant ''@a'' ''@b'' ''Bert'' = Remote_participant ''@a'' key"
  by (rule peers_share_key) simp_all

text \<open>The key does not determine the pair: ids may contain the separator.\<close>

lemma peer_id_collision: "peer_id ''a'' ''b_c'' = peer_id ''a_b'' ''c''"
  by (simp add: peer_id_def)

definition peers_add :: "'p \<Rightarrow> 'p list \<Rightarrow> 'p list" where
  "peers_add p ps = ps @ [p]"

definition peers_remove :: "build \<Rightarrow> 'p \<Rightarrow> 'p list \<Rightarrow> 'p list res" where
  "peers_remove b p ps =
     rbind (boost_assert b (p \<in> set ps)) (\<lambda>u. if p \<notin> set ps then Ok ps else Ok (remove1 p ps))"

lemma peers_add_remove: "p \<notin> set ps \<Longrightarrow> peers_remove b p (peers_add p ps) = Ok ps"
  by (simp add: peers_remove_def peers_add_def remove1_append)


section \<open>Joining\<close>

text \<open>The requests in their order; the state is what has been asked for so far.\<close>

datatype join_call =
    Get_version
  | Register_anonymously
  | Synchronize string
  | Set_display_name string
  | Join_temporary_room string string
  | Join_room_by_id string
  | Create_room string string
  | Set_room string

definition cut_version :: "string \<Rightarrow> string" where
  "cut_version v = takeWhile (\<lambda>c. c \<noteq> CHR ''-'') v"

definition on_version :: "string \<Rightarrow> string \<Rightarrow> unit res" where
  "on_version installed minimum =
     (if \<not> string_less (cut_version installed) (cut_version minimum) then Ok () else Throw Runtime_error)"

record join_services =
  version_result :: "string res"
  register_result :: "string res"
  name_result :: "unit res"
  temporary_result :: "string res"
  room_result :: "string res"

definition asked :: "join_call \<Rightarrow> (join_call list, unit) prog" where
  "asked c = update (\<lambda>cs. cs @ [c])"

definition joiner_join :: "string \<Rightarrow> string \<Rightarrow> string \<Rightarrow> join_services \<Rightarrow> (join_call list, string) prog" where
  "joiner_join installed name to_join r =
     sthen (asked Get_version)
    (sbind (lift_res (version_result r)) (\<lambda>minimum.
     sthen (lift_res (on_version installed minimum))
    (sthen (asked Register_anonymously)
    (sbind (lift_res (register_result r)) (\<lambda>user.
     sthen (asked (Synchronize user))
    (sthen (asked (Set_display_name name))
    (sthen (lift_res (name_result r))
    (sthen (asked (Join_temporary_room to_join user))
    (sbind (lift_res (temporary_result r)) (\<lambda>i.
     sthen (asked (Join_room_by_id i))
    (sbind (lift_res (room_result r)) (\<lambda>room.
     sthen (asked (Create_room user room))
    (sthen (asked (Set_room room)) (ret room))))))))))))))"

lemma joined_calls:
  assumes "joiner_join installed name to_join r [] = (cs, Ok room)"
  shows "\<exists>minimum user i. version_result r = Ok minimum \<and> on_version installed minimum = Ok () \<and>
    register_result r = Ok user \<and> name_result r = Ok () \<and> temporary_result r = Ok i \<and> room_result r = Ok room \<and>
    cs = [Get_version, Register_anonymously, Synchronize user, Set_display_name name,
      Join_temporary_room to_join user, Join_room_by_id i, Create_room user room, Set_room room]"
  using assms
  by (auto simp: joiner_join_def asked_def prog_eval split: res.splits)

text \<open>A newer client can be refused: version numbers are compared as strings, so
  whatever comes before and after, a part of 10 or more is less than the minimum's 9;
  nothing but the version is asked for then.\<close>
theorem newer_version_refused:
  assumes "CHR ''-'' \<notin> set p"
  shows "joiner_join (p @ ''10'' @ q) name to_join (s\<lparr> version_result := Ok (p @ ''9'' @ q') \<rparr>) [] =
    ([Get_version], Throw Runtime_error)"
proof -
  have cut: "cut_version (p @ x) = p @ cut_version x" for x
    using assms by (induction p) (auto simp: cut_version_def)
  have "string_less (cut_version (p @ ''10'' @ q)) (cut_version (p @ ''9'' @ q'))"
    unfolding cut by (simp add: cut_version_def)
  then show ?thesis
    by (simp add: joiner_join_def asked_def prog_eval on_version_def)
qed

lemma newer_version_refused_witness:
  "joiner_join ''1.10.2'' ''Anna'' ''room'' \<lparr> version_result = Ok ''1.9.0'', register_result = Ok ''@a'',
     name_result = Ok (), temporary_result = Ok ''!r'', room_result = Ok ''!r'' \<rparr> [] = ([Get_version], Throw Runtime_error)"
proof -
  have "CHR ''-'' \<notin> set ''1.''" by simp
  from newer_version_refused[where p = "''1.''" and q = "''.2''" and q' = "''.0''" and name = "''Anna''"
      and to_join = "''room''" and s = "\<lparr> version_result = Ok ''1.9.0'', register_result = Ok ''@a'',
     name_result = Ok (), temporary_result = Ok ''!r'', room_result = Ok ''!r'' \<rparr>", OF this]
  show ?thesis by simp
qed


section \<open>Leaving\<close>

datatype leave_call = About_to_leave | Stop_sync | Close_participants | Leave_room

record session =
  session_room :: "string option"
  leave_calls :: "leave_call list"
  rooms_set :: nat

definition leaves :: "leave_call \<Rightarrow> (session, unit) prog" where
  "leaves c = update (\<lambda>s. s\<lparr> leave_calls := leave_calls s @ [c] \<rparr>)"

definition rooms_set_room :: "string option \<Rightarrow> (session, unit) prog" where
  "rooms_set_room r = update (\<lambda>s. s\<lparr> session_room := r, rooms_set := Suc (rooms_set s) \<rparr>)"

text \<open>\<open>closed\<close> and \<open>left\<close> are the results of closing the participants and of the request
  to leave.\<close>

definition room_leave :: "unit res \<Rightarrow> unit res \<Rightarrow> (session, unit) prog" where
  "room_leave closed left =
     sthen (leaves Stop_sync) (sthen (leaves Close_participants) (sthen (lift_res closed)
       (sthen (leaves Leave_room) (lift_res left))))"

definition on_left :: "unit res \<Rightarrow> (session, unit) prog" where
  "on_left result = sthen (rooms_set_room None) (lift_res result)"

definition leaver_leave :: "build \<Rightarrow> unit res \<Rightarrow> unit res \<Rightarrow> (session, unit) prog" where
  "leaver_leave b closed left =
     sthen (leaves About_to_leave)
      (sbind (gets session_room) (\<lambda>r. sthen (sassert b (r \<noteq> None))
       (if r = None then lift_res Undefined
        else (\<lambda>s. case room_leave closed left s of (t, result) \<Rightarrow> on_left result t))))"

text \<open>The room is forgotten whatever fails; the server is told only after the
  participants have closed.\<close>

lemma leave_result:
  assumes "session_room s = Some r"
  shows "\<exists>t x. leaver_leave b closed left s = (t, x) \<and> session_room t = None \<and>
    x = rbind closed (\<lambda>u. left) \<and>
    leave_calls t = leave_calls s @ [About_to_leave, Stop_sync, Close_participants] @
      (if closed = Ok () then [Leave_room] else [])"
  using assms
  by (cases closed; cases left) (auto simp: leaver_leave_def leaves_def room_leave_def on_left_def rooms_set_room_def prog_eval)

end
