(* ===== verification/Negotiation.thy ===== *)
theory Negotiation
  imports Stateful "HOL-Library.Multiset"
begin

text \<open>
  One end of a peer connection (offer\_answer.cpp and ice\_candidates.cpp in
  src/fubble/client/p2p/negotiation, and how connection.cpp in src/fubble/rtc/google
  takes a candidate).

  The peer connection of the media library is known by the operations asked of it and
  by their results, which come whenever they come: \<open>pending\<close> holds the continuations of
  the futures that have not ended, each with what its lambda captured. Descriptions are
  their texts.
\<close>

section \<open>Descriptions and candidates\<close>

datatype sdp_type = Sdp_offer | Sdp_answer

record session_description =
  sdp_type :: sdp_type
  sdp :: string

record ice_candidate =
  mlineindex :: int
  mid :: string
  candidate_sdp :: string

datatype signal_message =
    Want_to_negotiate
  | Send_offer string
  | Send_answer string
  | Send_candidate ice_candidate

datatype rtc_request =
    Create_offer bool bool
  | Set_local session_description
  | Set_remote session_description
  | Create_answer
  | Add_candidate ice_candidate


section \<open>Negotiating\<close>

datatype continuation =
    Offer_created
  | Offer_local session_description
  | Offer_set
  | Answer_created
  | Answer_local session_description

record offer_answer =
  connected :: bool
  wants_to_negotiate :: bool
  receive_audio :: bool
  receive_video :: bool
  signaled :: "signal_message list"
  requested :: "rtc_request list"
  pending :: "continuation list"

definition signal :: "signal_message \<Rightarrow> (offer_answer, unit) prog" where
  "signal m = update (\<lambda>s. s\<lparr> signaled := signaled s @ [m] \<rparr>)"

definition request :: "rtc_request \<Rightarrow> (offer_answer, unit) prog" where
  "request r = update (\<lambda>s. s\<lparr> requested := requested s @ [r] \<rparr>)"

definition request_then :: "rtc_request \<Rightarrow> continuation \<Rightarrow> (offer_answer, unit) prog" where
  "request_then r k = sthen (request r) (update (\<lambda>s. s\<lparr> pending := pending s @ [k] \<rparr>))"

definition on_negotiation_needed :: "(offer_answer, unit) prog" where
  "on_negotiation_needed = sbind (gets connected) (\<lambda>c.
     if c then signal Want_to_negotiate else update (\<lambda>s. s\<lparr> wants_to_negotiate := True \<rparr>))"

definition on_connected :: "(offer_answer, unit) prog" where
  "on_connected = sthen (update (\<lambda>s. s\<lparr> connected := True \<rparr>))
     (sbind (gets wants_to_negotiate) (\<lambda>w.
      if \<not> w then ret ()
      else sthen (signal Want_to_negotiate) (update (\<lambda>s. s\<lparr> wants_to_negotiate := False \<rparr>))))"

definition on_closed :: "(offer_answer, unit) prog" where
  "on_closed = update (\<lambda>s. s\<lparr> connected := False \<rparr>)"

definition on_create_offer :: "(offer_answer, unit) prog" where
  "on_create_offer =
     sbind (gets (\<lambda>s. Create_offer (receive_audio s) (receive_video s))) (\<lambda>r. request_then r Offer_created)"

definition on_offer_created :: "session_description res \<Rightarrow> (offer_answer, unit) prog" where
  "on_offer_created r = sbind (lift_res r) (\<lambda>offer. request_then (Set_local offer) (Offer_local offer))"

definition on_offer_local :: "session_description \<Rightarrow> unit res \<Rightarrow> (offer_answer, unit) prog" where
  "on_offer_local offer r = sthen (lift_res r) (signal (Send_offer (sdp offer)))"

text \<open>Nobody looks at the future of an answer: how setting it ends is no event.\<close>

definition on_answer :: "string \<Rightarrow> (offer_answer, unit) prog" where
  "on_answer answer_text = request (Set_remote \<lparr> sdp_type = Sdp_answer, sdp = answer_text \<rparr>)"

definition on_offer :: "string \<Rightarrow> (offer_answer, unit) prog" where
  "on_offer offer_text = request_then (Set_remote \<lparr> sdp_type = Sdp_offer, sdp = offer_text \<rparr>) Offer_set"

definition on_offer_set :: "build \<Rightarrow> unit res \<Rightarrow> (offer_answer, unit) prog" where
  "on_offer_set b r =
     (case r of Throw e \<Rightarrow> sassert b False
      | _ \<Rightarrow> sthen (lift_res r) (request_then Create_answer Answer_created))"

definition on_answer_created :: "session_description res \<Rightarrow> (offer_answer, unit) prog" where
  "on_answer_created r = try_catch
     (sbind (lift_res r) (\<lambda>answer. request_then (Set_local answer) (Answer_local answer))) (\<lambda>e. ret ())"

definition on_answer_local :: "session_description \<Rightarrow> unit res \<Rightarrow> (offer_answer, unit) prog" where
  "on_answer_local answer r = sthen (lift_res r) (signal (Send_answer (sdp answer)))"

fun resume :: "build \<Rightarrow> continuation \<Rightarrow> session_description res \<Rightarrow> unit res \<Rightarrow> (offer_answer, unit) prog" where
  "resume b Offer_created d r = on_offer_created d"
| "resume b (Offer_local offer) d r = on_offer_local offer r"
| "resume b Offer_set d r = on_offer_set b r"
| "resume b Answer_created d r = on_answer_created d"
| "resume b (Answer_local answer) d r = on_answer_local answer r"

text \<open>The i-th future ends: with the description, if it is one of a description.\<close>

definition on_completed :: "build \<Rightarrow> nat \<Rightarrow> session_description res \<Rightarrow> unit res \<Rightarrow> (offer_answer, unit) prog" where
  "on_completed b i d r = sbind (gets pending) (\<lambda>ks.
     if i < length ks then sthen (update (\<lambda>s. s\<lparr> pending := erase_at i ks \<rparr>)) (resume b (ks ! i) d r)
     else ret ())"

definition from_rtc :: "ice_candidate \<Rightarrow> (offer_answer, unit) prog" where
  "from_rtc c = signal (Send_candidate c)"

text \<open>A candidate the media library can not parse is an exception.\<close>

definition add_ice_candidate :: "bool \<Rightarrow> ice_candidate \<Rightarrow> (offer_answer, unit) prog" where
  "add_ice_candidate parses c =
     (if parses then request (Add_candidate c) else lift_res (Throw Runtime_error))"

definition from_signaling :: "bool \<Rightarrow> ice_candidate \<Rightarrow> (offer_answer, unit) prog" where
  "from_signaling parses c = add_ice_candidate parses c"

definition fresh_offer_answer :: "bool \<Rightarrow> bool \<Rightarrow> offer_answer" where
  "fresh_offer_answer a v = \<lparr> connected = False, wants_to_negotiate = False, receive_audio = a, receive_video = v,
     signaled = [], requested = [], pending = [] \<rparr>"

datatype negotiation_event =
    Negotiation_needed
  | Registered
  | Signaling_closed
  | Offer_wanted
  | Got_offer string
  | Got_answer string
  | Completed nat "session_description res" "unit res"
  | Candidate_found ice_candidate
  | Got_candidate ice_candidate bool

fun negotiation_prog :: "build \<Rightarrow> negotiation_event \<Rightarrow> (offer_answer, unit) prog" where
  "negotiation_prog b Negotiation_needed = on_negotiation_needed"
| "negotiation_prog b Registered = on_connected"
| "negotiation_prog b Signaling_closed = on_closed"
| "negotiation_prog b Offer_wanted = on_create_offer"
| "negotiation_prog b (Got_offer t) = on_offer t"
| "negotiation_prog b (Got_answer t) = on_answer t"
| "negotiation_prog b (Completed i d r) = on_completed b i d r"
| "negotiation_prog b (Candidate_found c) = from_rtc c"
| "negotiation_prog b (Got_candidate c p) = from_signaling p c"

text \<open>What is thrown ends in a future, or in the handler of the signaling connection.\<close>

definition negotiation_step :: "build \<Rightarrow> offer_answer \<Rightarrow> negotiation_event \<Rightarrow> offer_answer res" where
  "negotiation_step b s e = handled (negotiation_prog b e) s"

lemmas negotiation_defs = negotiation_step_def handled_def on_negotiation_needed_def on_connected_def on_closed_def
  on_create_offer_def on_offer_created_def on_offer_local_def on_offer_def on_offer_set_def on_answer_created_def
  on_answer_local_def on_answer_def on_completed_def from_rtc_def from_signaling_def add_ice_candidate_def
  signal_def request_def request_then_def

text \<open>What a continuation can do: nothing, ask for more, or tell the partner what its
  lambda captured.\<close>

definition resumed :: "continuation \<Rightarrow> offer_answer \<Rightarrow> offer_answer \<Rightarrow> bool" where
  "resumed k s t \<longleftrightarrow> t = s
     \<or> (\<exists>offer. k = Offer_created \<and> t = s\<lparr> requested := requested s @ [Set_local offer], pending := pending s @ [Offer_local offer] \<rparr>)
     \<or> (\<exists>offer. k = Offer_local offer \<and> t = s\<lparr> signaled := signaled s @ [Send_offer (sdp offer)] \<rparr>)
     \<or> k = Offer_set \<and> t = s\<lparr> requested := requested s @ [Create_answer], pending := pending s @ [Answer_created] \<rparr>
     \<or> (\<exists>answer. k = Answer_created \<and> t = s\<lparr> requested := requested s @ [Set_local answer], pending := pending s @ [Answer_local answer] \<rparr>)
     \<or> (\<exists>answer. k = Answer_local answer \<and> t = s\<lparr> signaled := signaled s @ [Send_answer (sdp answer)] \<rparr>)"

lemma resume_resumed: "resumed k s (fst (resume b k d r s))"
proof (cases k)
  case Offer_created
  then show ?thesis by (cases d) (simp_all add: resumed_def negotiation_defs prog_eval, blast?)
next
  case (Offer_local x)
  then show ?thesis by (cases r) (simp_all add: resumed_def negotiation_defs prog_eval)
next
  case Offer_set
  then show ?thesis by (cases r) (simp_all add: resumed_def negotiation_defs prog_eval sassert_def)
next
  case Answer_created
  then show ?thesis by (cases d) (simp_all add: resumed_def negotiation_defs prog_eval, blast?)
next
  case (Answer_local x)
  then show ?thesis by (cases r) (simp_all add: resumed_def negotiation_defs prog_eval)
qed

lemma step_completed:
  assumes "negotiation_step b s (Completed i d r) = Ok t"
  shows "t = s \<or> i < length (pending s) \<and>
    resumed (pending s ! i) (s\<lparr> pending := erase_at i (pending s) \<rparr>) t"
proof (cases "i < length (pending s)")
  case False
  with assms show ?thesis by (simp add: negotiation_defs prog_eval)
next
  case True
  let ?u = "s\<lparr> pending := erase_at i (pending s) \<rparr>"
  obtain v q where v: "resume b (pending s ! i) d r ?u = (v, q)" by (cases "resume b (pending s ! i) d r ?u")
  with assms True have "t = v"
    by (cases q) (simp_all add: negotiation_step_def handled_def on_completed_def prog_eval)
  with resume_resumed[of "pending s ! i" ?u b d r] v True show ?thesis by simp
qed

text \<open>A pending wish exists only while the signaling is down, and only a registration
  takes it away, by telling it.\<close>

definition wish_inv :: "offer_answer \<Rightarrow> bool" where
  "wish_inv s \<longleftrightarrow> (wants_to_negotiate s \<longrightarrow> \<not> connected s)"

lemma negotiation_cases:
  assumes "negotiation_step b s e = Ok t"
  shows "\<exists>ms. signaled t = signaled s @ ms \<and>
    (case e of
       Negotiation_needed \<Rightarrow> connected t = connected s \<and>
         (if connected s then ms = [Want_to_negotiate] \<and> wants_to_negotiate t = wants_to_negotiate s
          else ms = [] \<and> wants_to_negotiate t)
     | Registered \<Rightarrow> connected t \<and> \<not> wants_to_negotiate t \<and>
         ms = (if wants_to_negotiate s then [Want_to_negotiate] else [])
     | Signaling_closed \<Rightarrow> \<not> connected t \<and> wants_to_negotiate t = wants_to_negotiate s \<and> ms = []
     | _ \<Rightarrow> connected t = connected s \<and> wants_to_negotiate t = wants_to_negotiate s \<and> Want_to_negotiate \<notin> set ms)"
proof (cases "\<exists>i d r. e = Completed i d r")
  case True
  then obtain i d r where e: "e = Completed i d r" by blast
  with step_completed[of b s i d r t] assms show ?thesis by (auto simp: resumed_def)
next
  case False
  with assms show ?thesis by (cases e) (auto simp: negotiation_defs prog_eval split: if_splits)
qed

interpretation negotiating: state_machine "negotiation_step b" wish_inv for b
proof
  fix s t e
  assume "wish_inv s" "negotiation_step b s e = Ok t"
  with negotiation_cases[of b s e t] show "wish_inv t"
    by (cases e) (auto simp: wish_inv_def split: if_splits)
qed

lemma signaled_grows:
  "run_events (negotiation_step b) s es = Ok t \<Longrightarrow> \<exists>ms. signaled t = signaled s @ ms"
proof (induction es arbitrary: s)
  case Nil
  then show ?case by simp
next
  case (Cons e es)
  then obtain u where "negotiation_step b s e = Ok u" "run_events (negotiation_step b) u es = Ok t"
    by (auto simp: res_simps)
  with Cons.IH[of u] negotiation_cases[of b s e u] show ?case by auto
qed

lemma pending_wish_told:
  assumes "wants_to_negotiate s" "run_events (negotiation_step b) s (es @ [Registered]) = Ok t"
  shows "\<exists>ms. signaled t = signaled s @ ms \<and> Want_to_negotiate \<in> set ms"
  using assms
proof (induction es arbitrary: s)
  case Nil
  then show ?case using negotiation_cases[of b s Registered t] by (auto simp: res_simps)
next
  case (Cons e es)
  then obtain u where u: "negotiation_step b s e = Ok u" "run_events (negotiation_step b) u (es @ [Registered]) = Ok t"
    by (auto simp: res_simps)
  from negotiation_cases[OF u(1)] Cons.prems(1)
  have "wants_to_negotiate u \<or> (\<exists>ms. signaled u = signaled s @ ms \<and> Want_to_negotiate \<in> set ms)"
    by (cases e) (auto split: if_splits)
  moreover obtain ms where "signaled u = signaled s @ ms" using negotiation_cases[OF u(1)] by blast
  moreover obtain ns where "signaled t = signaled u @ ns" using signaled_grows[OF u(2)] by blast
  ultimately show ?case using Cons.IH[OF _ u(2)] by auto
qed

text \<open>C32. A need to negotiate is told to the signaling server, at once or when the
  signaling has registered (again), whatever happens in between.\<close>
theorem wish_is_told:
  assumes "run_events (negotiation_step b) s (Negotiation_needed # es @ [Registered]) = Ok t"
  shows "\<exists>ms. signaled t = signaled s @ ms \<and> Want_to_negotiate \<in> set ms"
proof -
  from assms obtain u where u: "negotiation_step b s Negotiation_needed = Ok u"
    "run_events (negotiation_step b) u (es @ [Registered]) = Ok t" by (auto simp: res_simps)
  from negotiation_cases[OF u(1)] signaled_grows[OF u(2)] pending_wish_told[OF _ u(2)]
  show ?thesis by (auto split: if_splits)
qed

lemma wish_is_told_witness:
  "\<exists>t. run_events (negotiation_step Debug) (fresh_offer_answer True True)
     (Negotiation_needed # [Signaling_closed] @ [Registered]) = Ok t \<and> Want_to_negotiate \<in> set (signaled t)"
proof -
  have "\<exists>t. run_events (negotiation_step Debug) (fresh_offer_answer True True)
      (Negotiation_needed # [Signaling_closed] @ [Registered]) = Ok t \<and> True"
    by (rule res_caseD) (simp add: negotiation_defs prog_eval fresh_offer_answer_def)
  with wish_is_told[of Debug "fresh_offer_answer True True" "[Signaling_closed]"] show ?thesis
    by (force simp: fresh_offer_answer_def)
qed

text \<open>Setting a local description: by which continuation it is awaited, what that tells the partner,
  and which of these operations ended over a run, in the order of their ends, with their results.\<close>

fun awaits_local :: "continuation \<Rightarrow> session_description list" where
  "awaits_local (Offer_local d) = [d]"
| "awaits_local (Answer_local d) = [d]"
| "awaits_local k = []"

fun message_of :: "continuation \<Rightarrow> signal_message list" where
  "message_of (Offer_local d) = [Send_offer (sdp d)]"
| "message_of (Answer_local d) = [Send_answer (sdp d)]"
| "message_of k = []"

fun ended :: "offer_answer \<Rightarrow> negotiation_event \<Rightarrow> (continuation \<times> unit res) list" where
  "ended s (Completed i d r) =
     (if i < length (pending s) \<and> awaits_local (pending s ! i) \<noteq> [] then [(pending s ! i, r)] else [])"
| "ended s e = []"

fun ended_in :: "build \<Rightarrow> offer_answer \<Rightarrow> negotiation_event list \<Rightarrow> (continuation \<times> unit res) list" where
  "ended_in b s [] = []"
| "ended_in b s (e # es) =
     (case negotiation_step b s e of Ok t \<Rightarrow> ended s e @ ended_in b t es | _ \<Rightarrow> [])"

definition locals_awaited :: "continuation list \<Rightarrow> session_description list" where
  "locals_awaited ks = concat (map awaits_local ks)"

definition locals_requested :: "rtc_request list \<Rightarrow> session_description list" where
  "locals_requested rs = concat (map (\<lambda>r. case r of Set_local d \<Rightarrow> [d] | _ \<Rightarrow> []) rs)"

definition told_descriptions :: "signal_message list \<Rightarrow> signal_message list" where
  "told_descriptions ms = filter (\<lambda>m. (\<exists>t. m = Send_offer t) \<or> (\<exists>t. m = Send_answer t)) ms"

definition told_for :: "(continuation \<times> unit res) list \<Rightarrow> signal_message list" where
  "told_for xs = concat (map (\<lambda>(k, r). if r = Ok () then message_of k else []) xs)"

lemmas local_defs = locals_awaited_def locals_requested_def told_descriptions_def told_for_def

lemma locals_awaited_erase:
  assumes "i < length ks"
  shows "mset (locals_awaited (erase_at i ks)) + mset (awaits_local (ks ! i)) = mset (locals_awaited ks)"
proof -
  have "mset (locals_awaited ks) = mset (locals_awaited (take i ks @ ks ! i # drop (Suc i) ks))"
    using erase_at_split[OF assms] by simp
  then show ?thesis by (simp add: locals_awaited_def erase_at_def)
qed

definition accounts :: "offer_answer \<Rightarrow> offer_answer \<Rightarrow> (continuation \<times> unit res) list \<Rightarrow> bool" where
  "accounts s t xs \<longleftrightarrow>
     mset (locals_requested (requested t)) + mset (locals_awaited (pending s)) =
       mset (locals_requested (requested s)) + mset (locals_awaited (pending t)) + mset (concat (map (awaits_local \<circ> fst) xs)) \<and>
     told_descriptions (signaled t) = told_descriptions (signaled s) @ told_for xs"

lemma accounts_trans: "accounts s t xs \<Longrightarrow> accounts t u ys \<Longrightarrow> accounts s u (xs @ ys)"
proof -
  assume st: "accounts s t xs" and tu: "accounts t u ys"
  let ?R = "\<lambda>x. mset (locals_requested (requested x))" and ?P = "\<lambda>x. mset (locals_awaited (pending x))"
  let ?A = "\<lambda>xs. mset (concat (map (awaits_local \<circ> fst) xs))"
  have "?R t + ?P s + (?R u + ?P t) = ?R s + ?P t + ?A xs + (?R t + ?P u + ?A ys)"
    using st tu by (simp add: accounts_def)
  then have "(?R t + ?P t) + (?R u + ?P s) = (?R t + ?P t) + (?R s + ?P u + ?A (xs @ ys))"
    by (simp add: ac_simps)
  then have "?R u + ?P s = ?R s + ?P u + ?A (xs @ ys)" by (rule add_left_imp_eq)
  with st tu show ?thesis by (simp add: accounts_def told_for_def)
qed

lemma resume_accounts:
  assumes "handled (resume b k d r) s = Ok t"
  shows "mset (locals_requested (requested t)) + mset (locals_awaited (pending s)) =
      mset (locals_requested (requested s)) + mset (locals_awaited (pending t)) \<and>
    told_descriptions (signaled t) = told_descriptions (signaled s) @ (if r = Ok () then message_of k else [])"
proof (cases k)
  case Offer_created
  with assms show ?thesis
    by (cases d) (auto simp: negotiation_defs prog_eval local_defs)
next
  case (Offer_local x)
  with assms show ?thesis
    by (cases r) (auto simp: negotiation_defs prog_eval local_defs)
next
  case Offer_set
  with assms show ?thesis
    by (cases r; cases b) (auto simp: negotiation_defs prog_eval local_defs sassert_def boost_assert_def)
next
  case Answer_created
  with assms show ?thesis
    by (cases d) (auto simp: negotiation_defs prog_eval local_defs)
next
  case (Answer_local x)
  with assms show ?thesis
    by (cases r) (auto simp: negotiation_defs prog_eval local_defs)
qed

lemma step_accounts:
  assumes "negotiation_step b s e = Ok t"
  shows "accounts s t (ended s e)"
proof (cases "\<exists>i d r. e = Completed i d r")
  case True
  then obtain i d r where e: "e = Completed i d r" by blast
  show ?thesis
  proof (cases "i < length (pending s)")
    case False
    with assms e show ?thesis by (auto simp: negotiation_defs prog_eval accounts_def told_for_def)
  next
    case True
    let ?k = "pending s ! i" and ?u = "s\<lparr> pending := erase_at i (pending s) \<rparr>"
    have "handled (resume b ?k d r) ?u = Ok t"
      using assms e True by (simp add: negotiation_step_def on_completed_def handled_def sthen_def update_def sbind_def gets_def)
    note new = resume_accounts[OF this]
    let ?R = "mset (locals_requested (requested t))" and ?A = "mset (awaits_local ?k)"
    have "?R + mset (locals_awaited (pending s)) = ?R + mset (locals_awaited (pending ?u)) + ?A"
      by (simp add: locals_awaited_erase[OF True, symmetric])
    also have "?R + mset (locals_awaited (pending ?u)) =
        mset (locals_requested (requested s)) + mset (locals_awaited (pending t))"
      using new by simp
    finally have "?R + mset (locals_awaited (pending s)) =
        mset (locals_requested (requested s)) + mset (locals_awaited (pending t)) + ?A" .
    moreover have "told_descriptions (signaled t) =
        told_descriptions (signaled s) @ (if r = Ok () then message_of ?k else [])"
      using new by simp
    ultimately show ?thesis
      using e True by (cases ?k) (auto simp: accounts_def told_for_def)
  qed
next
  case False
  with assms show ?thesis
    by (cases e) (auto simp: negotiation_defs prog_eval accounts_def local_defs split: if_splits)
qed

lemma run_accounts:
  "run_events (negotiation_step b) s es = Ok t \<Longrightarrow> accounts s t (ended_in b s es)"
proof (induction es arbitrary: s)
  case Nil
  then show ?case by (simp add: accounts_def told_for_def)
next
  case (Cons e es)
  then obtain u where u: "negotiation_step b s e = Ok u" "run_events (negotiation_step b) u es = Ok t"
    by (auto simp: res_simps)
  from accounts_trans[OF step_accounts[OF u(1)] Cons.IH[OF u(2)]] u(1) show ?case by simp
qed

text \<open>C31. In whatever order the operations of the peer connection end: the partner is told
  exactly the offers and answers that were set as the local description, one for each
  operation of setting that has ended successfully, in the order in which they ended; none
  is told before, and none whose setting failed. Every operation that ended, or is still
  awaited, was asked of the peer connection, with that description.\<close>
theorem descriptions_set_before_told:
  assumes "run_events (negotiation_step b) (fresh_offer_answer a v) es = Ok s"
  shows "told_descriptions (signaled s) = told_for (ended_in b (fresh_offer_answer a v) es) \<and>
    mset (locals_requested (requested s)) = mset (locals_awaited (pending s)) +
      mset (concat (map (awaits_local \<circ> fst) (ended_in b (fresh_offer_answer a v) es)))"
  using run_accounts[OF assms] by (simp add: accounts_def fresh_offer_answer_def local_defs)

definition answering :: "negotiation_event list" where
  "answering = [Got_offer ''o'', Completed 0 Undefined (Ok ()),
     Completed 0 (Ok \<lparr> sdp_type = Sdp_answer, sdp = ''a'' \<rparr>) Undefined]"

text \<open>An answer that is set, and one that can not be.\<close>

lemma descriptions_set_before_told_witness:
  "\<exists>s t. run_events (negotiation_step Debug) (fresh_offer_answer True True) (answering @ [Completed 0 Undefined (Ok ())]) = Ok s \<and>
     told_descriptions (signaled s) = [Send_answer ''a''] \<and>
     run_events (negotiation_step Debug) (fresh_offer_answer True True)
       (answering @ [Completed 0 Undefined (Throw Runtime_error)]) = Ok t \<and>
     told_descriptions (signaled t) = []"
proof -
  let ?s = "fresh_offer_answer True True"
  have ok: "\<exists>s. run_events (negotiation_step Debug) ?s (answering @ [Completed 0 Undefined r]) = Ok s"
    "told_for (ended_in Debug ?s (answering @ [Completed 0 Undefined r])) = (if r = Ok () then [Send_answer ''a''] else [])"
    if "r = Ok () \<or> r = Throw Runtime_error" for r
    using that by (auto simp: answering_def negotiation_defs prog_eval fresh_offer_answer_def erase_at_def told_for_def)
  obtain s t where "run_events (negotiation_step Debug) ?s (answering @ [Completed 0 Undefined (Ok ())]) = Ok s"
    "run_events (negotiation_step Debug) ?s (answering @ [Completed 0 Undefined (Throw Runtime_error)]) = Ok t"
    using ok(1)[of "Ok ()"] ok(1)[of "Throw Runtime_error"] by auto
  with descriptions_set_before_told[of Debug True True] ok(2)[of "Ok ()"] ok(2)[of "Throw Runtime_error"]
  show ?thesis by fastforce
qed

text \<open>If the offer can not be set, nothing is asked or sent: whoever sent it waits. If
  the answer can not be created or set, it is the same.\<close>

lemma failed_offer_unanswered:
  assumes "pending s ! i = Offer_set" "i < length (pending s)"
  shows "negotiation_step Release s (Completed i d (Throw e)) = Ok (s\<lparr> pending := erase_at i (pending s) \<rparr>)"
    and "negotiation_step Debug s (Completed i d (Throw e)) = Assert_failed"
  using assms by (simp_all add: negotiation_defs prog_eval sassert_def boost_assert_def)

lemma failed_answer_unsent:
  assumes "pending s ! i = Answer_created \<or> pending s ! i = Answer_local a" "i < length (pending s)"
  shows "negotiation_step b s (Completed i (Throw e) (Throw e)) = Ok (s\<lparr> pending := erase_at i (pending s) \<rparr>)"
  using assms by (auto simp: negotiation_defs prog_eval)

lemma candidate_relayed:
  "\<exists>t u. negotiation_step b s (Candidate_found c) = Ok t \<and> signaled t = signaled s @ [Send_candidate c] \<and>
     negotiation_step b' s' (Got_candidate c True) = Ok u \<and> requested u = requested s' @ [Add_candidate c]"
  by (simp add: negotiation_defs prog_eval)

end
