(* ===== verification/Rtc_Connection.thy ===== *)
theory Rtc_Connection
  imports Stateful
begin

text \<open>
  The peer connection's own bookkeeping and the participant behind it (connection.cpp
  in src/fubble/rtc/google, remote\_participant.cpp in src/fubble/client).

  Senders and receivers of the media library are opaque; its answers (whether a track
  could be added or removed, whether the connection is closed) are parameters, and so
  is the number an enumerator is printed with. A received track is a new object and
  gets the next number.
\<close>

section \<open>Printing states\<close>

datatype signaling_state =
    Stable | Have_local_offer | Have_local_pr_answer | Have_remote_offer | Have_remote_pr_answer | Signaling_state_closed

datatype peer_connection_state =
    Peer_closed | Peer_connected | Peer_connecting | Peer_disconnected | Peer_failed | Peer_new

datatype ice_connection_state =
    Ice_new | Ice_checking | Ice_connected | Ice_completed | Ice_failed | Ice_disconnected | Ice_closed | Ice_max

definition render :: "string \<Rightarrow> string \<Rightarrow> string" where
  "render name number = name @ ''('' @ number @ '')''"

primrec print_signaling_state :: "(signaling_state \<Rightarrow> string) \<Rightarrow> signaling_state \<Rightarrow> string" where
  "print_signaling_state n Stable = render ''kStable'' (n Stable)"
| "print_signaling_state n Have_local_offer = render ''kHaveLocalOffer'' (n Have_local_offer)"
| "print_signaling_state n Have_local_pr_answer = render ''kHaveLocalPrAnswer'' (n Have_local_pr_answer)"
| "print_signaling_state n Have_remote_offer = render ''kHaveRemoteOffer'' (n Have_remote_offer)"
| "print_signaling_state n Have_remote_pr_answer = render ''kHaveRemotePrAnswer'' (n Have_remote_pr_answer)"
| "print_signaling_state n Signaling_state_closed = render ''kClosed'' (n Signaling_state_closed)"

primrec print_peer_state :: "(peer_connection_state \<Rightarrow> string) \<Rightarrow> peer_connection_state \<Rightarrow> string" where
  "print_peer_state n Peer_closed = render ''kClosed'' (n Peer_closed)"
| "print_peer_state n Peer_connected = render ''kConnected'' (n Peer_connected)"
| "print_peer_state n Peer_connecting = render ''kConnecting'' (n Peer_connecting)"
| "print_peer_state n Peer_disconnected = render ''kDisconnected'' (n Peer_disconnected)"
| "print_peer_state n Peer_failed = render ''kFailed'' (n Peer_failed)"
| "print_peer_state n Peer_new = render ''kNew'' (n Peer_new)"

primrec print_ice_state :: "(ice_connection_state \<Rightarrow> string) \<Rightarrow> ice_connection_state \<Rightarrow> string" where
  "print_ice_state n Ice_new = render ''kIceConnectionNew'' (n Ice_new)"
| "print_ice_state n Ice_checking = render ''kIceConnectionChecking'' (n Ice_checking)"
| "print_ice_state n Ice_connected = render ''kIceConnectionConnected'' (n Ice_connected)"
| "print_ice_state n Ice_completed = render ''kIceConnectionCompleted'' (n Ice_completed)"
| "print_ice_state n Ice_failed = render ''kIceConnectionFailed'' (n Ice_failed)"
| "print_ice_state n Ice_disconnected = render ''kIceConnectionDisconnected'' (n Ice_disconnected)"
| "print_ice_state n Ice_closed = render ''kIceConnectionClosed'' (n Ice_closed)"
| "print_ice_state n Ice_max = render ''kIceConnectionMax'' (n Ice_max)"

text \<open>The log tells the states apart, whatever their numbers are.\<close>

lemma print_signaling_inj: "inj (print_signaling_state n)"
proof (rule injI)
  fix x y assume "print_signaling_state n x = print_signaling_state n y"
  then show "x = y" by (cases x; cases y) (auto simp: render_def)
qed

lemma print_peer_inj: "inj (print_peer_state n)"
proof (rule injI)
  fix x y assume "print_peer_state n x = print_peer_state n y"
  then show "x = y" by (cases x; cases y) (auto simp: render_def)
qed

lemma print_ice_inj: "inj (print_ice_state n)"
proof (rule injI)
  fix x y assume "print_ice_state n x = print_ice_state n y"
  then show "x = y" by (cases x; cases y) (auto simp: render_def)
qed


section \<open>The remote participant's tracks\<close>

datatype track_kind = Video_kind | Audio_kind | Other_kind

record remote_tracks =
  remote_videos :: "nat list"
  remote_audios :: "nat list"
  told_tracks :: "(bool \<times> track_kind \<times> nat) list"

definition on_video_track :: "nat \<Rightarrow> remote_tracks \<Rightarrow> remote_tracks" where
  "on_video_track t s = s\<lparr> remote_videos := remote_videos s @ [t], told_tracks := told_tracks s @ [(True, Video_kind, t)] \<rparr>"

definition on_audio_track :: "nat \<Rightarrow> remote_tracks \<Rightarrow> remote_tracks" where
  "on_audio_track t s = s\<lparr> remote_audios := remote_audios s @ [t], told_tracks := told_tracks s @ [(True, Audio_kind, t)] \<rparr>"

text \<open>Erasing \<open>end()\<close> is undefined.\<close>

definition on_video_track_removed :: "nat \<Rightarrow> remote_tracks \<Rightarrow> remote_tracks res" where
  "on_video_track_removed t s =
     (if t \<notin> set (remote_videos s) then Undefined
      else Ok (s\<lparr> remote_videos := remove1 t (remote_videos s), told_tracks := told_tracks s @ [(False, Video_kind, t)] \<rparr>))"

definition on_audio_track_removed :: "nat \<Rightarrow> remote_tracks \<Rightarrow> remote_tracks res" where
  "on_audio_track_removed t s =
     (if t \<notin> set (remote_audios s) then Undefined
      else Ok (s\<lparr> remote_audios := remove1 t (remote_audios s), told_tracks := told_tracks s @ [(False, Audio_kind, t)] \<rparr>))"

definition on_track_added :: "build \<Rightarrow> track_kind \<Rightarrow> nat \<Rightarrow> remote_tracks \<Rightarrow> remote_tracks res" where
  "on_track_added b k t s =
     (case k of Video_kind \<Rightarrow> Ok (on_video_track t s) | Audio_kind \<Rightarrow> Ok (on_audio_track t s)
      | Other_kind \<Rightarrow> rbind (boost_assert b False) (\<lambda>u. Ok s))"

definition on_track_removed :: "build \<Rightarrow> track_kind \<Rightarrow> nat \<Rightarrow> remote_tracks \<Rightarrow> remote_tracks res" where
  "on_track_removed b k t s =
     (case k of Video_kind \<Rightarrow> on_video_track_removed t s | Audio_kind \<Rightarrow> on_audio_track_removed t s
      | Other_kind \<Rightarrow> rbind (boost_assert b False) (\<lambda>u. Ok s))"


section \<open>The connection\<close>

record ('t, 's, 'r) connection =
  sending :: "('t \<times> 's) list"
  receiving :: "('r \<times> track_kind \<times> nat) list"
  next_track :: nat
  remote :: remote_tracks

text \<open>\<open>added\<close> is the sender, if the media library accepts the track.\<close>

definition add_track :: "build \<Rightarrow> 's option \<Rightarrow> 't \<Rightarrow> ('t, 's, 'r) connection \<Rightarrow> ('t, 's, 'r) connection res" where
  "add_track b added t s =
     rbind (boost_assert b (t \<notin> fst ` set (sending s))) (\<lambda>u.
     case added of None \<Rightarrow> rbind (boost_assert b False) (\<lambda>u. Ok s)
     | Some x \<Rightarrow> Ok (s\<lparr> sending := sending s @ [(t, x)] \<rparr>))"

definition remove_track :: "build \<Rightarrow> bool \<Rightarrow> bool \<Rightarrow> 't \<Rightarrow> ('t, 's, 'r) connection \<Rightarrow> ('t, 's, 'r) connection res" where
  "remove_track b closed removed t s =
     rbind (boost_assert b (t \<in> fst ` set (sending s))) (\<lambda>u.
     case find_index (\<lambda>x. fst x = t) (sending s) of None \<Rightarrow> Ok s
     | Some i \<Rightarrow> rbind (if closed then Ok () else boost_assert b removed) (\<lambda>u.
         Ok (s\<lparr> sending := erase_at i (sending s) \<rparr>)))"

definition on_add_track :: "build \<Rightarrow> 'r \<Rightarrow> track_kind \<Rightarrow> ('t, 's, 'r) connection \<Rightarrow> ('t, 's, 'r) connection res" where
  "on_add_track b r k s =
     (if k = Other_kind then rbind (boost_assert b False) (\<lambda>u. Ok s)
      else let t = next_track s in
        rbind (on_track_added b k t (remote s)) (\<lambda>m.
        Ok (s\<lparr> receiving := receiving s @ [(r, k, t)], next_track := Suc t, remote := m \<rparr>)))"

definition on_remove_track :: "build \<Rightarrow> 'r \<Rightarrow> ('t, 's, 'r) connection \<Rightarrow> ('t, 's, 'r) connection res" where
  "on_remove_track b r s =
     rbind (boost_assert b (r \<in> fst ` set (receiving s))) (\<lambda>u.
     case find_index (\<lambda>x. fst x = r) (receiving s) of None \<Rightarrow> Undefined
     | Some i \<Rightarrow> (case receiving s ! i of (r', k, t) \<Rightarrow>
         rbind (on_track_removed b k t (remote s)) (\<lambda>m.
         Ok (s\<lparr> receiving := erase_at i (receiving s), remote := m \<rparr>))))"

text \<open>Only offers and answers exist; what cannot be parsed is an exception, which
  \<open>set_local_description\<close> and \<open>set_remote_description\<close> turn into a failed future.\<close>

definition fresh_connection :: "('t, 's, 'r) connection" where
  "fresh_connection = \<lparr> sending = [], receiving = [], next_track = 0,
     remote = \<lparr> remote_videos = [], remote_audios = [], told_tracks = [] \<rparr> \<rparr>"

datatype ('t, 's, 'r) connection_event =
    Add_track "'s option" 't
  | Remove_track bool bool 't
  | Track_received 'r track_kind
  | Track_lost 'r

fun connection_step :: "build \<Rightarrow> ('t, 's, 'r) connection \<Rightarrow> ('t, 's, 'r) connection_event \<Rightarrow>
    ('t, 's, 'r) connection res" where
  "connection_step b s (Add_track x t) = add_track b x t s"
| "connection_step b s (Remove_track c r t) = remove_track b c r t s"
| "connection_step b s (Track_received r k) = on_add_track b r k s"
| "connection_step b s (Track_lost r) = on_remove_track b r s"

text \<open>The participant shows exactly the tracks the connection receives.\<close>

definition tracks_of :: "track_kind \<Rightarrow> ('r \<times> track_kind \<times> nat) list \<Rightarrow> nat list" where
  "tracks_of k xs = map (snd \<circ> snd) (filter (\<lambda>x. fst (snd x) = k) xs)"

definition connection_inv :: "('t, 's, 'r) connection \<Rightarrow> bool" where
  "connection_inv s \<longleftrightarrow> remote_videos (remote s) = tracks_of Video_kind (receiving s) \<and>
     remote_audios (remote s) = tracks_of Audio_kind (receiving s) \<and>
     distinct (map (snd \<circ> snd) (receiving s)) \<and> (\<forall>x \<in> set (receiving s). snd (snd x) < next_track s) \<and>
     (\<forall>x \<in> set (receiving s). fst (snd x) \<noteq> Other_kind)"

lemma tracks_of_append: "tracks_of k (xs @ ys) = tracks_of k xs @ tracks_of k ys"
  by (simp add: tracks_of_def)

lemma tracks_of_Cons: "tracks_of k ((r, k', t) # xs) = (if k' = k then t # tracks_of k xs else tracks_of k xs)"
  by (simp add: tracks_of_def)

lemma tracks_of_sub: "set (tracks_of k xs) \<subseteq> (snd \<circ> snd) ` set xs"
  by (auto simp: tracks_of_def)

lemma tracks_of_erase:
  assumes "distinct (map (snd \<circ> snd) xs)" "i < length xs" "xs ! i = (r, k', t)"
  shows "tracks_of k (erase_at i xs) = (if k' = k then remove1 t (tracks_of k xs) else tracks_of k xs) \<and>
    (k' = k \<longrightarrow> t \<in> set (tracks_of k xs))"
proof -
  have xs: "xs = take i xs @ (r, k', t) # drop (Suc i) xs"
    using erase_at_split[OF assms(2)] assms(3) by simp
  then have "distinct (map (snd \<circ> snd) (take i xs @ (r, k', t) # drop (Suc i) xs))"
    using assms(1) by simp
  then have new: "t \<notin> set (tracks_of k (take i xs))" for k
    using tracks_of_sub[of k "take i xs"] by auto
  have "tracks_of k xs = tracks_of k (take i xs) @ (if k' = k then [t] else []) @ tracks_of k (drop (Suc i) xs)"
    by (subst xs) (simp add: tracks_of_append tracks_of_Cons)
  with new show ?thesis
    by (simp add: erase_at_def tracks_of_append remove1_append)
qed

lemma inv_sending [simp]: "connection_inv (s\<lparr> sending := x \<rparr>) = connection_inv s"
  by (simp add: connection_inv_def)

lemma connection_step_inv:
  assumes "connection_inv s" "connection_step b s e = Ok t"
  shows "connection_inv t"
proof (cases e)
  case (Track_received r k)
  have low: "\<And>a c. (a, c, next_track s) \<notin> set (receiving s)" "\<And>a c n. (a, c, n) \<in> set (receiving s) \<Longrightarrow> n < Suc (next_track s)"
    using assms(1) by (fastforce simp: connection_inv_def)+
  with assms Track_received show ?thesis
    by (cases k) (auto simp: on_add_track_def Let_def on_track_added_def on_video_track_def on_audio_track_def
        connection_inv_def tracks_of_append tracks_of_Cons tracks_of_def[of _ "[]"] res_simps dest: low(2))
next
  case (Track_lost r)
  with assms(2) obtain i where i: "find_index (\<lambda>x. fst x = r) (receiving s) = Some i"
    by (auto simp: on_remove_track_def res_simps split: option.splits)
  obtain r' k u where x: "receiving s ! i = (r', k, u)" by (cases "receiving s ! i")
  have len: "i < length (receiving s)" using find_index_Some[OF i] by simp
  from assms(2) Track_lost i x obtain m where m: "on_track_removed b k u (remote s) = Ok m"
    "t = s\<lparr> receiving := erase_at i (receiving s), remote := m \<rparr>"
    by (auto simp: on_remove_track_def res_simps)
  have dist: "distinct (map (snd \<circ> snd) (receiving s))" using assms(1) by (simp add: connection_inv_def)
  have k: "k \<noteq> Other_kind" using assms(1) len x nth_mem[OF len] by (auto simp: connection_inv_def)
  have "remote_videos m = tracks_of Video_kind (erase_at i (receiving s)) \<and>
    remote_audios m = tracks_of Audio_kind (erase_at i (receiving s))"
    using assms(1) m(1) k tracks_of_erase[OF dist len x, of Video_kind] tracks_of_erase[OF dist len x, of Audio_kind]
    by (cases k) (auto simp: on_track_removed_def on_video_track_removed_def on_audio_track_removed_def
        connection_inv_def split: if_splits)
  moreover have "distinct (map (snd \<circ> snd) (erase_at i (receiving s)))"
    unfolding map_erase_at by (rule distinct_erase_at[OF dist])
  ultimately show ?thesis
    using assms(1) m(2) set_erase_at[of i "receiving s"] by (auto simp: connection_inv_def)
qed (use assms in \<open>auto simp: add_track_def remove_track_def res_simps split: option.splits\<close>)

interpretation receiving: state_machine "connection_step b" connection_inv for b
  by unfold_locales (rule connection_step_inv)

text \<open>What the connection relies on: its owner adds no track twice and removes only what
  it added, the media library takes the tracks and, unless the connection is closed,
  gives them back, and it reports receivers of audio or video, each once before it
  is lost.\<close>

fun orderly :: "'t set \<Rightarrow> 'r set \<Rightarrow> ('t, 's, 'r) connection_event list \<Rightarrow> bool" where
  "orderly T R [] \<longleftrightarrow> True"
| "orderly T R (Add_track x t # es) \<longleftrightarrow> t \<notin> T \<and> x \<noteq> None \<and> orderly (insert t T) R es"
| "orderly T R (Remove_track closed removed t # es) \<longleftrightarrow>
     t \<in> T \<and> (closed \<or> removed) \<and> orderly (T - {t}) R es"
| "orderly T R (Track_received r k # es) \<longleftrightarrow> r \<notin> R \<and> k \<noteq> Other_kind \<and> orderly T (insert r R) es"
| "orderly T R (Track_lost r # es) \<longleftrightarrow> r \<in> R \<and> orderly T (R - {r}) es"

definition holds :: "'t set \<Rightarrow> 'r set \<Rightarrow> ('t, 's, 'r) connection \<Rightarrow> bool" where
  "holds T R s \<longleftrightarrow> connection_inv s \<and> distinct (map fst (sending s)) \<and> fst ` set (sending s) = T \<and>
     distinct (map fst (receiving s)) \<and> fst ` set (receiving s) = R"

lemma found_erased:
  assumes "distinct (map fst xs)" "x \<in> fst ` set xs"
  shows "\<exists>i. find_index (\<lambda>y. fst y = x) xs = Some i \<and> i < length xs \<and> fst (xs ! i) = x \<and>
    distinct (map fst (erase_at i xs)) \<and> fst ` set (erase_at i xs) = fst ` set xs - {x}"
proof -
  obtain i where i: "find_index (\<lambda>y. fst y = x) xs = Some i"
    using assms(2) by (cases "find_index (\<lambda>y. fst y = x) xs") (auto simp: find_index_None)
  then have x: "i < length xs" "fst (xs ! i) = x" using find_index_Some by blast+
  have "fst ` set (erase_at i xs) = set (erase_at i (map fst xs))"
    by (metis list.set_map map_erase_at)
  also have "\<dots> = fst ` set xs - {x}"
    using set_erase_at_distinct[OF assms(1), of i] x by simp
  finally show ?thesis
    using i x distinct_erase_at[OF assms(1), of i] by (auto simp: map_erase_at)
qed

lemma track_lost_ok:
  assumes "holds T R s" "r \<in> R"
  shows "\<exists>t. on_remove_track b r s = Ok t \<and> holds T (R - {r}) t"
proof -
  from assms have inv: "connection_inv s" and h: "distinct (map fst (receiving s))" "r \<in> fst ` set (receiving s)"
    by (auto simp: holds_def)
  from found_erased[OF h] obtain i where i: "find_index (\<lambda>y. fst y = r) (receiving s) = Some i"
    "i < length (receiving s)" "distinct (map fst (erase_at i (receiving s)))"
    "fst ` set (erase_at i (receiving s)) = fst ` set (receiving s) - {r}" by blast
  obtain r' k t where x: "receiving s ! i = (r', k, t)" by (cases "receiving s ! i")
  have dist: "distinct (map (snd \<circ> snd) (receiving s))" and "k \<noteq> Other_kind"
    using inv x nth_mem[OF i(2)] by (auto simp: connection_inv_def)
  then obtain m where m: "on_track_removed b k t (remote s) = Ok m"
    using inv tracks_of_erase[OF dist i(2) x, of k]
    by (cases k) (auto simp: on_track_removed_def on_video_track_removed_def on_audio_track_removed_def
        connection_inv_def)
  then have step: "on_remove_track b r s = Ok (s\<lparr> receiving := erase_at i (receiving s), remote := m \<rparr>)"
    using h i x by (simp add: on_remove_track_def)
  from connection_step_inv[OF inv, of b "Track_lost r"] step
  have "connection_inv (s\<lparr> receiving := erase_at i (receiving s), remote := m \<rparr>)" by simp
  with step i(3,4) assms(1) show ?thesis by (auto simp: holds_def)
qed

lemma orderly_step:
  assumes "holds T R s" "orderly T R (e # es)"
  shows "\<exists>t T' R'. connection_step b s e = Ok t \<and> holds T' R' t \<and> orderly T' R' es"
proof (cases e)
  case (Add_track x t)
  with assms show ?thesis
    by (intro exI[of _ "s\<lparr> sending := sending s @ [(t, the x)] \<rparr>"] exI[of _ "insert t T"] exI[of _ R])
      (auto simp: add_track_def holds_def)
next
  case (Remove_track c r t)
  with assms have h: "distinct (map fst (sending s))" "t \<in> fst ` set (sending s)" by (auto simp: holds_def)
  from found_erased[OF h] obtain i where i: "find_index (\<lambda>y. fst y = t) (sending s) = Some i"
    "distinct (map fst (erase_at i (sending s)))" "fst ` set (erase_at i (sending s)) = fst ` set (sending s) - {t}"
    by blast
  with assms Remove_track h show ?thesis
    by (intro exI[of _ "s\<lparr> sending := erase_at i (sending s) \<rparr>"] exI[of _ "T - {t}"] exI[of _ R])
      (auto simp: remove_track_def holds_def)
next
  case (Track_received r k)
  with assms have k: "k \<noteq> Other_kind" "r \<notin> R" "orderly T (insert r R) es" by auto
  then obtain m where m: "on_track_added b k (next_track s) (remote s) = Ok m"
    by (cases k) (auto simp: on_track_added_def)
  let ?t = "s\<lparr> receiving := receiving s @ [(r, k, next_track s)], next_track := Suc (next_track s), remote := m \<rparr>"
  have step: "connection_step b s e = Ok ?t" using Track_received k(1) m by (simp add: on_add_track_def Let_def)
  with connection_step_inv[of s b e ?t] assms(1) have "connection_inv ?t" by (simp add: holds_def)
  with assms(1) k have "holds T (insert r R) ?t" by (auto simp: holds_def)
  with step k(3) show ?thesis by blast
next
  case (Track_lost r)
  with assms track_lost_ok[of T R s r b] show ?thesis by auto
qed

lemma orderly_runs:
  "holds T R s \<Longrightarrow> orderly T R es \<Longrightarrow> \<exists>t. run_events (connection_step b) s es = Ok t"
proof (induction es arbitrary: s T R)
  case Nil
  then show ?case by simp
next
  case (Cons e es)
  from orderly_step[OF Cons.prems] obtain t T' R' where "connection_step b s e = Ok t" "holds T' R' t" "orderly T' R' es"
    by blast
  with Cons.IH show ?case by simp
qed

text \<open>C26. Whatever tracks are sent, received and lost, as long as nothing asserts: the
  participant's videos and audios are the received tracks of the connection, in the
  order of their arrival, and no other. And nothing asserts as long as the owner of
  the connection and the media library keep the rules of \<open>orderly\<close>.\<close>
theorem remote_tracks_mirror:
  "(\<forall>s. run_events (connection_step b) fresh_connection es = Ok s \<longrightarrow>
      remote_videos (remote s) = tracks_of Video_kind (receiving s) \<and>
      remote_audios (remote s) = tracks_of Audio_kind (receiving s) \<and>
      length (receiving s) = length (remote_videos (remote s)) + length (remote_audios (remote s))) \<and>
   (orderly {} {} es \<longrightarrow> (\<exists>s. run_events (connection_step b) fresh_connection es = Ok s))"
proof (intro conjI impI allI)
  have init: "connection_inv fresh_connection"
    by (simp add: connection_inv_def fresh_connection_def tracks_of_def)
  have len: "length xs = length (tracks_of Video_kind xs) + length (tracks_of Audio_kind xs)"
    if "\<forall>x \<in> set xs. fst (snd x) \<noteq> Other_kind" for xs :: "('c \<times> track_kind \<times> nat) list"
    using that
  proof (induction xs)
    case Nil
    then show ?case by (simp add: tracks_of_def)
  next
    case (Cons x xs)
    obtain r k t where "x = (r, k, t)" by (cases x)
    with Cons show ?case by (cases k) (auto simp: tracks_of_Cons)
  qed
  fix s :: "('a, 'b, 'c) connection"
  assume "run_events (connection_step b) fresh_connection es = Ok s"
  from receiving.run_inv[OF init this] have inv: "connection_inv s" .
  then show "remote_videos (remote s) = tracks_of Video_kind (receiving s)"
    "remote_audios (remote s) = tracks_of Audio_kind (receiving s)"
    "length (receiving s) = length (remote_videos (remote s)) + length (remote_audios (remote s))"
    using len by (simp_all add: connection_inv_def)
next
  assume "orderly {} {} es"
  moreover have "holds {} {} fresh_connection"
    by (simp add: holds_def connection_inv_def fresh_connection_def tracks_of_def)
  ultimately show "\<exists>s. run_events (connection_step b) fresh_connection es = Ok s" by (metis orderly_runs)
qed

lemma remote_tracks_mirror_witness:
  "\<exists>s. run_events (connection_step Debug) (fresh_connection :: (nat, nat, nat) connection)
     [Track_received 5 Video_kind, Add_track (Some 1) 2, Track_received 6 Audio_kind, Track_lost 5] = Ok s \<and>
    remote_videos (remote s) = tracks_of Video_kind (receiving s)"
  using remote_tracks_mirror[where b = Debug and es =
      "[Track_received 5 Video_kind, Add_track (Some 1) 2, Track_received 6 Audio_kind, Track_lost 5]
        :: (nat, nat, nat) connection_event list"]
  by auto

end
