(* ===== verification/Audio_Level.thy ===== *)
theory Audio_Level
  imports Prelude Complex_Main "HOL-Library.Word"
begin

text \<open>
  The loudness shown beside a participant (audio\_level\_calculator.cpp in
  src/fubble/client).

  A buffer is a list of bytes, and the machine is little-endian. Levels are rational
  numbers: the code computes them in \<open>long double\<close> and \<open>double\<close>, whose rounding is not
  modelled. The detector of voices is a parameter.
\<close>

section \<open>Reading a buffer\<close>

record audio_data =
  bits_per_sample :: int
  number_of_channels :: nat
  number_of_frames :: nat
  audio_bytes :: "8 word list"

text \<open>The width of the type the buffer is read with: 32 bit samples are read as 64 bit
  integers.\<close>

definition read_width :: "int \<Rightarrow> nat option" where
  "read_width bits = (if bits = 8 then Some 8 else if bits = 16 then Some 16 else if bits = 32 then Some 64 else None)"

primrec little_endian :: "8 word list \<Rightarrow> int" where
  "little_endian [] = 0"
| "little_endian (x # xs) = uint x + 256 * little_endian xs"

definition sample_at :: "nat \<Rightarrow> 8 word list \<Rightarrow> nat \<Rightarrow> int" where
  "sample_at w bs i =
     (let u = little_endian (take (w div 8) (drop (i * (w div 8)) bs))
      in if u < 2 ^ (w - 1) then u else u - 2 ^ w)"

text \<open>One sample per frame is read, whatever the number of channels. To read past the
  end of the buffer is undefined.\<close>

definition read_samples :: "nat \<Rightarrow> nat \<Rightarrow> 8 word list \<Rightarrow> int list res" where
  "read_samples w n bs =
     (if n * (w div 8) \<le> length bs then Ok (map (sample_at w bs) [0..<n]) else Undefined)"

lemma little_endian_bounds: "0 \<le> little_endian xs \<and> little_endian xs < 256 ^ length xs"
proof (induction xs)
  case Nil
  then show ?case by simp
next
  case (Cons x xs)
  have "uint x < 256" using uint_lt2p[of x] by simp
  moreover have "0 \<le> uint x" by simp
  ultimately show ?case using Cons.IH by simp
qed

lemma sample_bounds:
  assumes "w \<in> {8, 16, 64}"
  shows "- (2 ^ (w - 1)) \<le> sample_at w bs i \<and> sample_at w bs i < 2 ^ (w - 1)"
proof -
  let ?c = "take (w div 8) (drop (i * (w div 8)) bs)"
  have "(256 :: int) ^ length ?c \<le> 256 ^ (w div 8)" by (rule power_increasing) simp_all
  with little_endian_bounds[of ?c] have "0 \<le> little_endian ?c" "little_endian ?c < 256 ^ (w div 8)" by linarith+
  with assms show ?thesis by (auto simp: sample_at_def Let_def)
qed


section \<open>The average\<close>

definition abs_sum :: "int list \<Rightarrow> int" where
  "abs_sum xs = fold (\<lambda>x r. r + \<bar>x\<bar>) xs 0"

text \<open>The sum is a 64 bit integer. The division is one of unsigned integers; no sample
  at all is a division by zero.\<close>

definition average :: "int \<Rightarrow> int list \<Rightarrow> rat res" where
  "average greatest xs =
     (if 2 ^ 63 \<le> abs_sum xs \<or> xs = [] then Undefined
      else Ok (of_int (abs_sum xs div int (length xs)) / of_int greatest * 2))"

lemma abs_sum_eq: "abs_sum xs = (\<Sum>x \<leftarrow> xs. \<bar>x\<bar>)"
proof -
  have "fold (\<lambda>x r. r + \<bar>x\<bar>) xs r = r + (\<Sum>x \<leftarrow> xs. \<bar>x\<bar>)" for r
    by (induction xs arbitrary: r) simp_all
  then show ?thesis by (simp add: abs_sum_def)
qed

lemma abs_sum_bound: "\<forall>x \<in> set xs. \<bar>x\<bar> \<le> m \<Longrightarrow> 0 \<le> abs_sum xs \<and> abs_sum xs \<le> m * int (length xs)"
  unfolding abs_sum_eq by (induction xs) (auto simp: algebra_simps)

text \<open>The 64 bit sum does not overflow for any buffer of 16 bit samples that fits in
  memory.\<close>

lemma abs_sum_fits:
  assumes "\<forall>x \<in> set xs. - (2 ^ 15) \<le> x \<and> x < 2 ^ 15" "length xs < 2 ^ 48"
  shows "abs_sum xs < 2 ^ 63"
proof -
  from assms(1) have "\<forall>x \<in> set xs. \<bar>x\<bar> \<le> 2 ^ 15" by auto
  from abs_sum_bound[OF this] have "abs_sum xs \<le> 2 ^ 15 * int (length xs)" by simp
  also have "\<dots> < 2 ^ 15 * 2 ^ 48" using assms(2) by simp
  finally show ?thesis by simp
qed

lemma average_bounds:
  assumes "average greatest xs = Ok l" "0 < greatest" "\<forall>x \<in> set xs. - greatest - 1 \<le> x \<and> x \<le> greatest"
  shows "0 \<le> l \<and> l \<le> 2 + 2 / of_int greatest"
proof -
  let ?q = "abs_sum xs div int (length xs)"
  from assms(1) have xs: "xs \<noteq> []" and l: "l = of_int ?q / of_int greatest * 2"
    by (auto simp: average_def split: if_splits)
  from assms(2,3) have "\<forall>x \<in> set xs. \<bar>x\<bar> \<le> greatest + 1" by auto
  from abs_sum_bound[OF this] have b: "0 \<le> abs_sum xs" "abs_sum xs \<le> (greatest + 1) * int (length xs)" by simp_all
  have "0 \<le> ?q" using b(1) by (simp add: pos_imp_zdiv_nonneg_iff xs)
  moreover have "?q \<le> greatest + 1"
    using zdiv_mono1[OF b(2), of "int (length xs)"] xs by simp
  ultimately have q: "0 \<le> (of_int ?q :: rat)" "(of_int ?q :: rat) \<le> of_int greatest + 1"
    by (simp, metis of_int_1 of_int_add of_int_le_iff)
  have g: "0 < (of_int greatest :: rat)" using assms(2) by simp
  have "of_int ?q / of_int greatest \<le> (1 + 1 / of_int greatest :: rat)"
    using q(2) g by (simp add: field_simps)
  then have "of_int ?q / of_int greatest * 2 \<le> (1 + 1 / of_int greatest) * (2 :: rat)"
    by (rule mult_right_mono) simp
  moreover have "0 \<le> of_int ?q / of_int greatest * (2 :: rat)" using q(1) g by simp
  ultimately show ?thesis unfolding l by (simp add: distrib_right)
qed


section \<open>Ten values make a level\<close>

record level_calculator =
  level_cache :: rat
  level_counter :: int
  voice_detected :: bool
  levels_told :: "rat list"
  voices_told :: "bool list"

definition values_to_collect :: int where
  "values_to_collect = 100 div 10"

definition calculate_level :: "rat \<Rightarrow> level_calculator \<Rightarrow> level_calculator" where
  "calculate_level new s =
     (let s = s\<lparr> level_counter := level_counter s + 1 \<rparr>;
          s = (if level_counter s > values_to_collect
               then s\<lparr> levels_told := levels_told s @ [min 1 (level_cache s)], level_counter := 0, level_cache := 0 \<rparr>
               else s)
      in s\<lparr> level_cache := level_cache s + new / of_int values_to_collect \<rparr>)"

definition calculate_voice :: "bool \<Rightarrow> level_calculator \<Rightarrow> level_calculator" where
  "calculate_voice check s =
     (if check = voice_detected s then s
      else s\<lparr> voice_detected := check, voices_told := voices_told s @ [check] \<rparr>)"

definition greatest_value :: "nat \<Rightarrow> int" where
  "greatest_value w = 2 ^ (w - 1) - 1"

definition frame_average :: "build \<Rightarrow> audio_data \<Rightarrow> rat res" where
  "frame_average b d =
     (case read_width (bits_per_sample d) of
        None \<Rightarrow> rbind (boost_assert b False) (\<lambda>u. Ok 0)
      | Some w \<Rightarrow> rbind (read_samples w (number_of_frames d) (audio_bytes d)) (average (greatest_value w)))"

definition on_data :: "build \<Rightarrow> audio_data \<Rightarrow> bool \<Rightarrow> level_calculator \<Rightarrow> level_calculator res" where
  "on_data b d voice s =
     rbind (frame_average b d) (\<lambda>averaged. Ok (calculate_voice voice (calculate_level averaged s)))"

definition fresh_level :: level_calculator where
  "fresh_level = \<lparr> level_cache = 0, level_counter = 0, voice_detected = False, levels_told = [], voices_told = [] \<rparr>"

definition level_inv :: "level_calculator \<Rightarrow> bool" where
  "level_inv s \<longleftrightarrow> 0 \<le> level_cache s \<and> 0 \<le> level_counter s \<and> level_counter s \<le> values_to_collect \<and>
     (\<forall>l \<in> set (levels_told s). 0 \<le> l \<and> l \<le> 1)"

lemma calculate_level_inv: "level_inv s \<Longrightarrow> 0 \<le> new \<Longrightarrow> level_inv (calculate_level new s)"
  by (auto simp: level_inv_def calculate_level_def Let_def values_to_collect_def)

lemma average_nonneg: "average g xs = Ok l \<Longrightarrow> 0 < g \<Longrightarrow> 0 \<le> l"
  using abs_sum_bound[of xs "Max (abs ` set xs)"]
  by (auto simp: average_def pos_imp_zdiv_nonneg_iff split: if_splits)

text \<open>A step of the machine is a buffer and whether the detector hears a voice in it.\<close>

fun level_step :: "build \<Rightarrow> level_calculator \<Rightarrow> audio_data \<times> bool \<Rightarrow> level_calculator res" where
  "level_step b s (d, voice) = on_data b d voice s"

lemma frame_average_nonneg: "frame_average b d = Ok l \<Longrightarrow> 0 \<le> l"
  using average_nonneg
  by (fastforce simp: frame_average_def res_simps read_width_def greatest_value_def split: if_splits)

lemma average_of_samples:
  assumes "read_width (bits_per_sample d) = Some w" "w \<le> 16" "0 < number_of_frames d" "number_of_frames d < 2 ^ 48"
    and "number_of_frames d * (w div 8) \<le> length (audio_bytes d)"
  shows "\<exists>l. frame_average b d = Ok l \<and> 0 \<le> l \<and> l \<le> 2 + 2 / of_int (greatest_value w)"
proof -
  let ?xs = "map (sample_at w (audio_bytes d)) [0..<number_of_frames d]"
  from assms(1,2) have w: "w = 8 \<or> w = 16" by (auto simp: read_width_def split: if_splits)
  have range: "\<forall>x \<in> set ?xs. - (2 ^ (w - 1)) \<le> x \<and> x < 2 ^ (w - 1)"
  proof
    fix x assume "x \<in> set ?xs"
    then obtain i where "x = sample_at w (audio_bytes d) i" by auto
    with sample_bounds[of w "audio_bytes d" i] w show "- (2 ^ (w - 1)) \<le> x \<and> x < 2 ^ (w - 1)" by blast
  qed
  with w have "\<forall>x \<in> set ?xs. - (2 ^ 15) \<le> x \<and> x < 2 ^ 15" by fastforce
  from abs_sum_fits[OF this] assms(4) have "abs_sum ?xs < 2 ^ 63" by simp
  with assms(3) have "\<exists>l. average (greatest_value w) ?xs = Ok l" by (simp add: average_def)
  then obtain l where l: "average (greatest_value w) ?xs = Ok l" by blast
  have "0 < greatest_value w" "\<forall>x \<in> set ?xs. - greatest_value w - 1 \<le> x \<and> x \<le> greatest_value w"
    using range w by (auto simp: greatest_value_def)
  from average_bounds[OF l this] l assms(1,5) show ?thesis by (simp add: frame_average_def read_samples_def)
qed

text \<open>A buffer of 8 or 16 bit samples is measured without an error, whatever is in
  it and however many channels it has; a mono buffer of 32 bit samples is read past
  its end.\<close>
theorem reads_past_buffer:
  assumes "length (audio_bytes d) = number_of_frames d * number_of_channels d * nat (bits_per_sample d div 8)"
    and "0 < number_of_frames d" "number_of_frames d < 2 ^ 48" "1 \<le> number_of_channels d"
  shows "(bits_per_sample d \<in> {8, 16} \<longrightarrow> (\<exists>t. on_data b d voice s = Ok t)) \<and>
    (bits_per_sample d = 32 \<and> number_of_channels d = 1 \<longrightarrow> on_data b d voice s = Undefined)"
proof (intro conjI impI)
  assume bits: "bits_per_sample d \<in> {8, 16}"
  then obtain w where w: "read_width (bits_per_sample d) = Some w" "w \<le> 16" "nat (bits_per_sample d div 8) = w div 8"
    by (auto simp: read_width_def)
  have "number_of_frames d * (w div 8) \<le> length (audio_bytes d)"
    using assms(1,4) w(3) by simp
  from average_of_samples[OF w(1,2) assms(2,3) this, of b] show "\<exists>t. on_data b d voice s = Ok t"
    by (auto simp: on_data_def)
next
  assume "bits_per_sample d = 32 \<and> number_of_channels d = 1"
  with assms(1,2) show "on_data b d voice s = Undefined"
    by (simp add: on_data_def frame_average_def read_width_def read_samples_def)
qed

definition one_sample :: audio_data where
  "one_sample = \<lparr> bits_per_sample = 32, number_of_channels = 1, number_of_frames = 1, audio_bytes = [0, 0, 0, 64] \<rparr>"

lemma reads_past_buffer_witness: "on_data Debug one_sample False fresh_level = Undefined"
  using reads_past_buffer[of one_sample Debug False fresh_level] by (simp add: one_sample_def)

lemma calculate_voice_simps [simp]:
  "level_inv (calculate_voice v s) = level_inv s"
  "levels_told (calculate_voice v s) = levels_told s" "level_counter (calculate_voice v s) = level_counter s"
  by (simp_all add: calculate_voice_def level_inv_def)

interpretation levels: state_machine "level_step b" level_inv for b
proof
  fix s t and e :: "audio_data \<times> bool"
  assume inv: "level_inv s" and step: "level_step b s e = Ok t"
  obtain d v where "e = (d, v)" by (cases e)
  with step obtain l where "t = calculate_voice v (calculate_level l s)" "frame_average b d = Ok l"
    by (auto simp: on_data_def res_simps)
  with inv calculate_level_inv frame_average_nonneg show "level_inv t" by simp
qed

text \<open>One level is told for every eleven values: at the eleventh, which already counts
  for the next level.\<close>

lemma counted:
  assumes "run_events (level_step b) s es = Ok t" "0 \<le> level_counter s" "level_counter s \<le> values_to_collect"
  shows "11 * int (length (levels_told t)) + level_counter t =
    11 * int (length (levels_told s)) + level_counter s + int (length es) \<and>
    0 \<le> level_counter t \<and> level_counter t \<le> values_to_collect"
  using assms
proof (induction es arbitrary: s)
  case Nil
  then show ?case by simp
next
  case (Cons e es)
  obtain d v where e: "e = (d, v)" by (cases e)
  with Cons.prems(1) obtain l where
    run: "run_events (level_step b) (calculate_voice v (calculate_level l s)) es = Ok t"
    by (auto simp: on_data_def res_simps)
  let ?u = "calculate_voice v (calculate_level l s)"
  have "11 * int (length (levels_told ?u)) + level_counter ?u = 11 * int (length (levels_told s)) + level_counter s + 1"
    "0 \<le> level_counter ?u" "level_counter ?u \<le> values_to_collect"
    using Cons.prems(2,3) by (auto simp: calculate_level_def Let_def values_to_collect_def)
  with Cons.IH[OF run] show ?case by simp
qed

text \<open>C36. Whatever is recorded: every level told is between 0 and 1, and there is one for
  every eleven buffers, not for every ten.\<close>
theorem levels_bounded:
  assumes "run_events (level_step b) fresh_level es = Ok s"
  shows "(\<forall>l \<in> set (levels_told s). 0 \<le> l \<and> l \<le> 1) \<and> length (levels_told s) = length es div 11"
proof -
  have "level_inv fresh_level" by (simp add: level_inv_def fresh_level_def values_to_collect_def)
  from levels.run_inv[OF this assms] have "level_inv s" .
  moreover from counted[OF assms] have "11 * int (length (levels_told s)) + level_counter s = int (length es)"
    "0 \<le> level_counter s" "level_counter s \<le> 10"
    by (simp_all add: fresh_level_def values_to_collect_def)
  then have "length (levels_told s) = length es div 11" by linarith
  ultimately show ?thesis by (simp add: level_inv_def)
qed

definition two_samples :: audio_data where
  "two_samples = \<lparr> bits_per_sample = 16, number_of_channels = 1, number_of_frames = 2, audio_bytes = [1, 0, 0, 128] \<rparr>"

lemma levels_bounded_witness:
  "\<exists>s. run_events (level_step Debug) fresh_level [(two_samples, True)] = Ok s \<and>
    (\<forall>l \<in> set (levels_told s). 0 \<le> l \<and> l \<le> 1)"
proof -
  have "\<exists>s. run_events (level_step Debug) fresh_level [(two_samples, True)] = Ok s \<and> True"
    by (rule res_caseD) (simp add: on_data_def frame_average_def read_width_def read_samples_def two_samples_def
        sample_at_def average_def abs_sum_def upt_conv_Cons)
  with levels_bounded[of Debug "[(two_samples, True)]"] show ?thesis by blast
qed

end
