(* ===== verification/Video_Layout.thy ===== *)
theory Video_Layout
  imports Prelude Complex_Main "HOL-Library.Signed_Division"
begin

text \<open>
  The arrangement of the videos (video\_layout.cpp in src/fubble/video\_layout).

  Lengths and aspects are rational numbers: the code computes them in \<open>double\<close>, whose
  rounding is not modelled, and their conversions to \<open>int\<close> are taken to be in range.
  The packer of the vendored library is a parameter: \<open>new_packer\<close> makes one of a size,
  \<open>insert_rect\<close> places a rectangle. An item is known by a number.
\<close>

section \<open>Packing\<close>

record rect =
  rect_x :: int
  rect_y :: int
  rect_width :: int
  rect_height :: int

fun isqrt_below :: "nat \<Rightarrow> nat \<Rightarrow> nat" where
  "isqrt_below n 0 = 0"
| "isqrt_below n (Suc k) = (if Suc k * Suc k \<le> n then Suc k else isqrt_below n k)"

definition isqrt :: "int \<Rightarrow> int" where
  "isqrt n = int (isqrt_below (nat n) (nat n))"

text \<open>The integral part of a root is the root of the integral part.\<close>

definition width_and_height :: "rat \<Rightarrow> int \<times> int" where
  "width_and_height aspect =
     (let x = isqrt \<lfloor>10000 * aspect\<rfloor> in (x, \<lfloor>of_int x / aspect\<rfloor>))"

definition packer_height :: "rat \<Rightarrow> int \<Rightarrow> int" where
  "packer_height container_aspect width = \<lfloor>of_int width / container_aspect\<rfloor>"

text \<open>Narrow items are packed as if their aspect were one half. A rectangle without
  an extent is the packer's refusal.\<close>

fun insert_all :: "('p \<Rightarrow> int \<times> int \<Rightarrow> rect \<times> 'p) \<Rightarrow> 'p \<Rightarrow> rat list \<Rightarrow> rect list option" where
  "insert_all insert_rect p [] = Some []"
| "insert_all insert_rect p (a # as) =
     (case insert_rect p (width_and_height (max a (1 / 2))) of (r, q) \<Rightarrow>
        if rect_width r = 0 \<or> rect_height r = 0 then None
        else map_option (\<lambda>rs. r # rs) (insert_all insert_rect q as))"

definition try_pack ::
  "(int \<Rightarrow> int \<Rightarrow> 'p) \<Rightarrow> ('p \<Rightarrow> int \<times> int \<Rightarrow> rect \<times> 'p) \<Rightarrow> rat list \<Rightarrow> rat \<Rightarrow> int \<Rightarrow> rect list option" where
  "try_pack new_packer insert_rect aspects container_aspect width =
     insert_all insert_rect (new_packer width (packer_height container_aspect width)) aspects"

text \<open>The packer grows by five percent until everything fits, or until five percent of
  it are nothing. Beyond the range of \<open>int\<close> the product is undefined.\<close>

datatype 'r fit = Fits int 'r | Going_nowhere | Out_of_int

function fit_width :: "(int \<Rightarrow> 'r option) \<Rightarrow> int \<Rightarrow> 'r fit" where
  "fit_width pack w =
     (case pack w of
        Some r \<Rightarrow> Fits w r
      | None \<Rightarrow>
          if w * 5 \<ge> 2 ^ 31 \<or> w + (w * 5) sdiv 100 \<ge> 2 ^ 31 then Out_of_int
          else if w \<ge> w + (w * 5) sdiv 100 then Going_nowhere
          else fit_width pack (w + (w * 5) sdiv 100))"
  by pat_completeness auto
termination
  by (relation "measure (\<lambda>(pack, w). nat (2 ^ 31 - w))") auto

declare fit_width.simps [simp del]

lemma five_percent: "0 \<le> (w :: int) \<Longrightarrow> (w * 5) sdiv 100 = (w * 5) div 100"
  by (cases "w = 0") (simp_all add: signed_divide_int_def sgn_if)

text \<open>The search for the size of the packer ends whatever the packer answers. It
  gives up only below 20 units of width. If everything fits from some width on that is
  far enough from the largest \<open>int\<close>, the result fits and is at most five percent
  wider.\<close>
theorem packing_ends:
  assumes "20 \<le> w" "w \<le> limit" "limit * 5 < 2 ^ 31" "limit + limit * 5 div 100 < 2 ^ 31"
    and "\<forall>v. limit \<le> v \<longrightarrow> pack v \<noteq> None"
  shows "\<exists>v r. fit_width pack w = Fits v r \<and> pack v = Some r \<and> w \<le> v \<and> v \<le> limit + limit * 5 div 100"
  using assms(1,2)
proof (induction "nat (limit + 1 - w)" arbitrary: w rule: less_induct)
  case less
  let ?w = "w + (w * 5) sdiv 100"
  have w: "?w = w + w * 5 div 100" using less.prems(1) five_percent[of w] by simp
  have grow: "w < ?w" using less.prems(1) w by linarith
  have top: "?w \<le> limit + limit * 5 div 100"
    using less.prems(2) w zdiv_mono1[of "w * 5" "limit * 5" 100] by linarith
  have stop: "limit \<le> limit + limit * 5 div 100" using less.prems by linarith
  show ?case
  proof (cases "pack w")
    case (Some r)
    then have "fit_width pack w = Fits w r" by (subst fit_width.simps) simp
    with Some less.prems(2) stop show ?thesis by auto
  next
    case None
    have "w * 5 < 2 ^ 31" "?w < 2 ^ 31" using less.prems(2) assms(3,4) top by linarith+
    with None grow have step: "fit_width pack w = fit_width pack ?w"
      by (subst fit_width.simps) simp
    show ?thesis
    proof (cases "?w \<le> limit")
      case True
      have "nat (limit + 1 - ?w) < nat (limit + 1 - w)" using grow True by linarith
      moreover have "20 \<le> ?w" using less.prems(1) grow by linarith
      ultimately obtain v r where "fit_width pack ?w = Fits v r" "pack v = Some r" "?w \<le> v" "v \<le> limit + limit * 5 div 100"
        using less.hyps True by blast
      with step grow show ?thesis by auto
    next
      case False
      then obtain r where "pack ?w = Some r" using assms(5) by force
      then have "fit_width pack ?w = Fits ?w r" by (subst fit_width.simps) simp
      with step grow top \<open>pack ?w = Some r\<close> show ?thesis by auto
    qed
  qed
qed

lemma packing_ends_witness:
  "\<exists>v r. fit_width (\<lambda>v. if 1000 \<le> v then Some v else None) 100 = Fits v r \<and> v \<le> (1050 :: int)"
proof -
  have "(20 :: int) \<le> 100" "(100 :: int) \<le> 1000" "(1000 :: int) * 5 < 2 ^ 31" "(1000 :: int) + 1000 * 5 div 100 < 2 ^ 31"
    "\<forall>v. 1000 \<le> v \<longrightarrow> (if 1000 \<le> v then Some v else None) \<noteq> (None :: int option)" by simp_all
  from packing_ends[OF this] show ?thesis by force
qed

lemma gives_up_small:
  assumes "fit_width pack w = Going_nowhere" "0 \<le> w"
  shows "\<exists>v < 20. w \<le> v \<and> pack v = None"
  using assms
proof (induction pack w rule: fit_width.induct)
  case (1 pack w)
  show ?case
  proof (cases "pack w = None \<and> w \<ge> w + (w * 5) sdiv 100")
    case True
    with "1.prems"(2) five_percent[of w] have "w * 5 div 100 \<le> 0" by simp
    then have "w < 20" by linarith
    with True show ?thesis by auto
  next
    case False
    with "1.prems" have "fit_width pack (w + (w * 5) sdiv 100) = Going_nowhere" "pack w = None"
      "\<not> (w * 5 \<ge> 2 ^ 31 \<or> w + (w * 5) sdiv 100 \<ge> 2 ^ 31)"
      using fit_width.simps[of pack w] by (auto split: option.splits if_splits)
    with 1 False show ?thesis by force
  qed
qed


section \<open>Placing the items\<close>

record placement =
  item_x :: rat
  item_y :: rat
  item_width :: rat
  item_height :: rat

definition max_extent :: "(rect \<Rightarrow> int) \<Rightarrow> rect list \<Rightarrow> int" where
  "max_extent f rs = fold (\<lambda>r m. max m (f r)) rs 0"

definition place :: "rect list \<Rightarrow> rat \<Rightarrow> int \<Rightarrow> int \<Rightarrow> rat \<Rightarrow> placement list" where
  "place rs factor pw ph offset =
     (let offset_x = of_int (pw - max_extent (\<lambda>r. rect_x r + rect_width r) rs) * factor / 2;
          offset_y = of_int (ph - max_extent (\<lambda>r. rect_y r + rect_height r) rs) * factor / 2 + offset
      in map (\<lambda>r. \<lparr> item_x = of_int (rect_x r) * factor + offset_x, item_y = of_int (rect_y r) * factor + offset_y,
           item_width = of_int (rect_width r) * factor, item_height = of_int (rect_height r) * factor \<rparr>) rs)"

text \<open>\<open>None\<close>: the items stay where they are.\<close>

definition calculate ::
  "(int \<Rightarrow> int \<Rightarrow> 'p) \<Rightarrow> ('p \<Rightarrow> int \<times> int \<Rightarrow> rect \<times> 'p) \<Rightarrow> rat list \<Rightarrow> rat \<Rightarrow> rat \<Rightarrow> rat \<Rightarrow> placement list option res" where
  "calculate new_packer insert_rect aspects width height offset =
     (let container_aspect = width / height in
      if container_aspect \<le> 0 \<or> hd aspects \<le> 0 then Ok None
      else case fit_width (try_pack new_packer insert_rect aspects container_aspect)
          (fst (width_and_height (hd aspects))) of
        Going_nowhere \<Rightarrow> Ok None
      | Out_of_int \<Rightarrow> Undefined
      | Fits pw rs \<Rightarrow> Ok (Some (place rs (width / of_int pw) pw (packer_height container_aspect pw) offset)))"

text \<open>What is documented of the packer: a rectangle lies within the packer's size, and
  away from the others. \<open>good\<close> is the packer's own invariant.\<close>

definition inside :: "int \<Rightarrow> int \<Rightarrow> rect \<Rightarrow> bool" where
  "inside w h r \<longleftrightarrow> 0 \<le> rect_x r \<and> 0 \<le> rect_y r \<and> 0 \<le> rect_width r \<and> 0 \<le> rect_height r \<and>
     rect_x r + rect_width r \<le> w \<and> rect_y r + rect_height r \<le> h"

definition apart :: "rect \<Rightarrow> rect \<Rightarrow> bool" where
  "apart r q \<longleftrightarrow> rect_x r + rect_width r \<le> rect_x q \<or> rect_x q + rect_width q \<le> rect_x r \<or>
     rect_y r + rect_height r \<le> rect_y q \<or> rect_y q + rect_height q \<le> rect_y r"

definition packs_apart ::
  "(int \<Rightarrow> int \<Rightarrow> 'p) \<Rightarrow> ('p \<Rightarrow> int \<times> int \<Rightarrow> rect \<times> 'p) \<Rightarrow> (int \<Rightarrow> int \<Rightarrow> rect list \<Rightarrow> 'p \<Rightarrow> bool) \<Rightarrow> bool" where
  "packs_apart new_packer insert_rect good \<longleftrightarrow>
     (\<forall>w h. 0 \<le> w \<longrightarrow> 0 \<le> h \<longrightarrow> good w h [] (new_packer w h)) \<and>
     (\<forall>w h placed p size r q. good w h placed p \<longrightarrow> insert_rect p size = (r, q) \<longrightarrow>
        rect_width r \<noteq> 0 \<longrightarrow> rect_height r \<noteq> 0 \<longrightarrow>
        inside w h r \<and> (\<forall>x \<in> set placed. apart x r) \<and> good w h (placed @ [r]) q)"

lemma insert_all_apart:
  assumes "packs_apart new_packer insert_rect good" "good w h placed p"
    and "insert_all insert_rect p as = Some rs" "sorted_wrt apart placed" "\<forall>r \<in> set placed. inside w h r"
  shows "sorted_wrt apart (placed @ rs) \<and> (\<forall>r \<in> set (placed @ rs). inside w h r)"
  using assms(2-)
proof (induction as arbitrary: placed p rs)
  case Nil
  then show ?case by simp
next
  case (Cons a as)
  obtain r q where ins: "insert_rect p (width_and_height (max a (1 / 2))) = (r, q)" by fastforce
  with Cons.prems(2) obtain qs where qs: "rect_width r \<noteq> 0" "rect_height r \<noteq> 0" "insert_all insert_rect q as = Some qs" "rs = r # qs"
    by (auto split: if_splits)
  have new: "inside w h r" "\<forall>x \<in> set placed. apart x r" "good w h (placed @ [r]) q"
    using assms(1) Cons.prems(1) ins qs(1,2) unfolding packs_apart_def by blast+
  have "sorted_wrt apart (placed @ [r])" "\<forall>x \<in> set (placed @ [r]). inside w h x"
    using Cons.prems(3,4) new by (auto simp: sorted_wrt_append)
  from Cons.IH[OF new(3) qs(3) this] qs(4) show ?case by simp
qed

lemma max_extent_bounds:
  "(\<forall>r \<in> set rs. f r \<le> max_extent f rs) \<and> (0 \<le> max_extent f rs) \<and>
   (0 \<le> m \<longrightarrow> (\<forall>r \<in> set rs. f r \<le> m) \<longrightarrow> max_extent f rs \<le> m)"
proof -
  have "(\<forall>r \<in> set rs. f r \<le> fold (\<lambda>r m. max m (f r)) rs k) \<and> k \<le> fold (\<lambda>r m. max m (f r)) rs k \<and>
    (k \<le> m \<longrightarrow> (\<forall>r \<in> set rs. f r \<le> m) \<longrightarrow> fold (\<lambda>r m. max m (f r)) rs k \<le> m)" for k
  proof (induction rs arbitrary: k)
    case Nil
    then show ?case by simp
  next
    case (Cons r rs)
    from Cons.IH[of "max k (f r)"] show ?case by auto
  qed
  from this[of 0] show ?thesis by (simp add: max_extent_def)
qed

definition placed_inside :: "rat \<Rightarrow> rat \<Rightarrow> rat \<Rightarrow> placement \<Rightarrow> bool" where
  "placed_inside width height offset p \<longleftrightarrow> 0 \<le> item_x p \<and> offset \<le> item_y p \<and>
     item_x p + item_width p \<le> width \<and> item_y p + item_height p \<le> offset + height"

definition placed_apart :: "placement \<Rightarrow> placement \<Rightarrow> bool" where
  "placed_apart p q \<longleftrightarrow> item_x p + item_width p \<le> item_x q \<or> item_x q + item_width q \<le> item_x p \<or>
     item_y p + item_height p \<le> item_y q \<or> item_y q + item_height q \<le> item_y p"

lemma scaled_le:
  assumes "0 \<le> (f :: rat)" "a + b \<le> (c :: int)"
  shows "of_int a * f + of_int b * f \<le> of_int c * f"
proof -
  have "(of_int (a + b) :: rat) * f \<le> of_int c * f"
    using assms by (intro mult_right_mono) simp_all
  then show ?thesis by (simp add: distrib_right)
qed

lemma place_inside:
  assumes "\<forall>r \<in> set rs. inside pw ph r" "0 < pw" "0 \<le> ph" "0 \<le> width" "of_int ph * (width / of_int pw) \<le> height"
    and "p \<in> set (place rs (width / of_int pw) pw ph offset)"
  shows "placed_inside width height offset p"
proof -
  let ?f = "width / of_int pw"
  let ?mx = "max_extent (\<lambda>r. rect_x r + rect_width r) rs" and ?my = "max_extent (\<lambda>r. rect_y r + rect_height r) rs"
  let ?ox = "of_int (pw - ?mx) * ?f / 2" and ?oy = "of_int (ph - ?my) * ?f / 2"
  from assms(6) obtain r where r: "r \<in> set rs" and p: "p = \<lparr> item_x = of_int (rect_x r) * ?f + ?ox,
      item_y = of_int (rect_y r) * ?f + (?oy + offset), item_width = of_int (rect_width r) * ?f,
      item_height = of_int (rect_height r) * ?f \<rparr>"
    by (auto simp: place_def Let_def)
  have f: "0 \<le> ?f" using assms(2,4) by simp
  have fw: "of_int pw * ?f = width" using assms(2) by simp
  have mx: "rect_x r + rect_width r \<le> ?mx" "?mx \<le> pw"
    using max_extent_bounds[of rs "\<lambda>r. rect_x r + rect_width r" pw] r assms(1,2) by (auto simp: inside_def)
  have my: "rect_y r + rect_height r \<le> ?my" "?my \<le> ph"
    using max_extent_bounds[of rs "\<lambda>r. rect_y r + rect_height r" ph] r assms(1,3) by (auto simp: inside_def)
  have "0 \<le> rect_x r" "0 \<le> rect_y r" using r assms(1) by (auto simp: inside_def)
  then have x: "0 \<le> of_int (rect_x r) * ?f" "0 \<le> of_int (rect_y r) * ?f"
    by (intro mult_nonneg_nonneg f; simp)+
  have o: "0 \<le> ?ox" "0 \<le> ?oy" using mx(2) my(2) by (intro divide_nonneg_pos mult_nonneg_nonneg f; simp)+
  have gen: "of_int m * g + 2 * (of_int (q - m) * g / 2) = of_int q * g" for m q and g :: rat
    by (simp add: left_diff_distrib diff_divide_distrib)
  have ox: "of_int ?mx * ?f + 2 * ?ox = width"
    using gen[of ?mx ?f pw] unfolding fw .
  have oy: "of_int ?my * ?f + 2 * ?oy = of_int ph * ?f" by (rule gen)
  from scaled_le[OF f mx(1)] scaled_le[OF f my(1)] x o ox oy assms(5) show ?thesis
    unfolding placed_inside_def p by simp
qed

lemma place_apart:
  assumes "sorted_wrt apart rs" "0 \<le> factor"
  shows "sorted_wrt placed_apart (place rs factor pw ph offset)"
proof -
  have step: "placed_apart
      \<lparr> item_x = of_int (rect_x r) * factor + ox, item_y = of_int (rect_y r) * factor + oy,
         item_width = of_int (rect_width r) * factor, item_height = of_int (rect_height r) * factor \<rparr>
      \<lparr> item_x = of_int (rect_x q) * factor + ox, item_y = of_int (rect_y q) * factor + oy,
         item_width = of_int (rect_width q) * factor, item_height = of_int (rect_height q) * factor \<rparr>"
    if "apart r q" for r q ox oy
    using that scaled_le[OF assms(2), of "rect_x r" "rect_width r" "rect_x q"]
      scaled_le[OF assms(2), of "rect_x q" "rect_width q" "rect_x r"]
      scaled_le[OF assms(2), of "rect_y r" "rect_height r" "rect_y q"]
      scaled_le[OF assms(2), of "rect_y q" "rect_height q" "rect_y r"]
    by (auto simp: apart_def placed_apart_def)
  show ?thesis
    unfolding place_def Let_def sorted_wrt_map
    by (rule sorted_wrt_mono_rel[OF _ assms(1)]) (rule step)
qed


lemma fit_width_Fits: "fit_width pack w = Fits v r \<Longrightarrow> 0 \<le> w \<Longrightarrow> pack v = Some r \<and> w \<le> v"
proof (induction pack w rule: fit_width.induct)
  case (1 pack w)
  show ?case
  proof (cases "pack w")
    case (Some x)
    with "1.prems"(1) show ?thesis by (subst (asm) fit_width.simps) simp
  next
    case None
    let ?w = "w + (w * 5) sdiv 100"
    from None "1.prems"(1) have cond: "\<not> (w * 5 \<ge> 2 ^ 31 \<or> ?w \<ge> 2 ^ 31)" "\<not> w \<ge> ?w" and "fit_width pack ?w = Fits v r"
      using fit_width.simps[of pack w] by (auto split: if_splits)
    moreover have "0 \<le> ?w" using "1.prems"(2) cond(2) by linarith
    ultimately have "pack v = Some r \<and> ?w \<le> v" using "1.IH"[OF None] by blast
    with cond(2) show ?thesis by auto
  qed
qed

lemma isqrt_nonneg: "0 \<le> isqrt n"
  by (simp add: isqrt_def)

text \<open>C35. If the packer keeps what is documented of it, the items are placed within the
  container and do not overlap, whatever their number and aspects.\<close>
theorem items_inside_and_apart:
  assumes "packs_apart new_packer insert_rect good" "0 < width" "0 < height" "aspects \<noteq> []"
    and "calculate new_packer insert_rect aspects width height offset = Ok (Some ps)"
  shows "(\<forall>p \<in> set ps. placed_inside width height offset p) \<and> sorted_wrt placed_apart ps"
proof -
  let ?aspect = "width / height"
  have aspect: "0 < ?aspect" using assms(2,3) by simp
  with assms(5) obtain pw rs where
    fit: "fit_width (try_pack new_packer insert_rect aspects ?aspect) (fst (width_and_height (hd aspects))) = Fits pw rs"
    and ps: "ps = place rs (width / of_int pw) pw (packer_height ?aspect pw) offset"
    by (auto simp: calculate_def Let_def split: if_splits fit.splits)
  let ?ph = "packer_height ?aspect pw"
  have "0 \<le> fst (width_and_height (hd aspects))" by (simp add: width_and_height_def Let_def isqrt_nonneg)
  from fit_width_Fits[OF fit this] this
  have pack: "insert_all insert_rect (new_packer pw ?ph) aspects = Some rs" and pw: "0 \<le> pw"
    by (simp_all add: try_pack_def)
  have ph: "0 \<le> ?ph"
    unfolding packer_height_def zero_le_floor using pw aspect by (intro divide_nonneg_pos) simp_all
  have "good pw ?ph [] (new_packer pw ?ph)" using assms(1) pw ph by (simp add: packs_apart_def)
  from insert_all_apart[OF assms(1) this pack] have rs: "sorted_wrt apart rs" "\<forall>r \<in> set rs. inside pw ?ph r" by simp_all
  have "0 < pw"
  proof -
    obtain a as where "aspects = a # as" using assms(4) by (cases aspects) auto
    with pack obtain r qs where "rs = r # qs" "rect_width r \<noteq> 0"
      by (auto split: prod.splits if_splits)
    with rs(2) show ?thesis by (auto simp: inside_def)
  qed
  have "of_int ?ph \<le> of_int pw / ?aspect" by (simp add: packer_height_def)
  then have "of_int ?ph * (width / of_int pw) \<le> of_int pw / ?aspect * (width / of_int pw)"
    using assms(2) \<open>0 < pw\<close> by (intro mult_right_mono) simp_all
  also have "\<dots> = height" using assms(2,3) \<open>0 < pw\<close> by simp
  finally have height: "of_int ?ph * (width / of_int pw) \<le> height" .
  from place_inside[OF rs(2) \<open>0 < pw\<close> ph _ height] assms(2) have "\<forall>p \<in> set ps. placed_inside width height offset p"
    unfolding ps by simp
  moreover have "sorted_wrt placed_apart ps"
    unfolding ps using assms(2) \<open>0 < pw\<close> by (intro place_apart rs(1)) simp
  ultimately show ?thesis by blast
qed

text \<open>A packer that puts everything into one column keeps it.\<close>

definition column_packer :: "int \<Rightarrow> int \<Rightarrow> int \<times> int \<times> int" where
  "column_packer w h = (0, w, h)"

definition column_insert :: "int \<times> int \<times> int \<Rightarrow> int \<times> int \<Rightarrow> rect \<times> int \<times> int \<times> int" where
  "column_insert p ext = (case p of (y, w, h) \<Rightarrow> case ext of (a, b) \<Rightarrow>
     if 0 \<le> a \<and> 0 \<le> b \<and> a \<le> w \<and> y + b \<le> h
     then (\<lparr> rect_x = 0, rect_y = y, rect_width = a, rect_height = b \<rparr>, (y + b, w, h))
     else (\<lparr> rect_x = 0, rect_y = 0, rect_width = 0, rect_height = 0 \<rparr>, p))"

definition column_good :: "int \<Rightarrow> int \<Rightarrow> rect list \<Rightarrow> int \<times> int \<times> int \<Rightarrow> bool" where
  "column_good w h placed p \<longleftrightarrow> 0 \<le> fst p \<and> snd p = (w, h) \<and>
     (\<forall>r \<in> set placed. rect_y r + rect_height r \<le> fst p)"

lemma column_packs_apart: "packs_apart column_packer column_insert column_good"
  by (auto simp: packs_apart_def column_packer_def column_insert_def column_good_def inside_def apart_def
      split: prod.splits if_splits)

lemma isqrt_unique:
  assumes "0 \<le> r" "r * r \<le> n" "n < (r + 1) * (r + 1)"
  shows "isqrt n = r"
proof -
  have "isqrt_below (nat n) k = nat r" if "nat r \<le> k" for k
    using that
  proof (induction k)
    case 0
    then show ?case by simp
  next
    case (Suc k)
    have fits: "j * j \<le> nat n \<longleftrightarrow> j \<le> nat r" for j
    proof
      assume "j * j \<le> nat n"
      moreover have "0 \<le> n" using assms(1,2) by (meson mult_nonneg_nonneg order_trans)
      ultimately have "int (j * j) \<le> n" by (simp add: le_nat_iff)
      with assms(3) have "int j * int j < (r + 1) * (r + 1)" by simp
      then have "int j < r + 1" using assms(1) by (meson linorder_not_less mult_mono' of_nat_0_le_iff add_nonneg_nonneg zero_le_one)
      then show "j \<le> nat r" by simp
    next
      assume "j \<le> nat r"
      then have "int j * int j \<le> r * r" using assms(1) by (intro mult_mono) simp_all
      with assms(2) have "int (j * j) \<le> n" by simp
      moreover from this have "0 \<le> n" by (meson of_nat_0_le_iff order_trans)
      ultimately show "j * j \<le> nat n" by (simp add: le_nat_iff)
    qed
    show ?case
    proof (cases "nat r = Suc k")
      case True
      with fits[of "Suc k"] show ?thesis by simp
    next
      case False
      with Suc fits[of "Suc k"] show ?thesis by simp
    qed
  qed
  moreover have "nat r \<le> nat n"
    using assms(1,2) by (metis mult_left_mono mult.right_neutral nat_mono order_trans linorder_not_less
        zero_less_one int_one_le_iff_zero_less nat_0_le nat_le_0 le_cases mult_zero_left nle_le)
  ultimately show ?thesis using assms(1) by (simp add: isqrt_def)
qed

lemma items_inside_and_apart_witness:
  "\<exists>ps. calculate column_packer column_insert [1, 1] 50 100 0 = Ok (Some ps) \<and>
    (\<forall>p \<in> set ps. placed_inside 50 100 0 p) \<and> sorted_wrt placed_apart ps"
proof -
  have size: "width_and_height 1 = (100, 100)"
    using isqrt_unique[of 100 10000] by (simp add: width_and_height_def Let_def)
  have height: "packer_height (1 / 2) 100 = 200" by (simp add: packer_height_def)
  have "\<exists>ps. calculate column_packer column_insert [1, 1] 50 100 0 = Ok (Some ps)"
    by (simp add: calculate_def size fit_width.simps[of _ 100] try_pack_def height column_packer_def column_insert_def)
  with items_inside_and_apart[OF column_packs_apart, of 50 100 "[1, 1]" 0] show ?thesis by auto
qed


section \<open>Layouts\<close>

datatype layout = Grid | Enlarged | Full

text \<open>\<open>arranged\<close> is what the last recalculation passed to \<open>calculate\<close>: the items and
  the height and offset of their part; \<open>hidden\<close> are the invisible items. The focused
  item may be the null pointer; whoever reads its aspect then is undefined.\<close>

record video_layout =
  items :: "nat list"
  focused :: "nat option"
  layout_of :: layout
  layout_width :: rat
  layout_height :: rat
  hidden :: "nat set"
  arranged :: "(nat list \<times> rat \<times> rat) list"
  layouts_told :: "layout list"

definition recalculate :: "build \<Rightarrow> video_layout \<Rightarrow> video_layout res" where
  "recalculate b s =
     (if layout_width s = 0 \<or> layout_height s = 0 \<or> items s = [] then Ok s
      else
        let actual = (if length (items s) = 1 then Grid else layout_of s);
            shown = (if actual \<noteq> Full then s\<lparr> hidden := hidden s - set (items s) \<rparr> else s);
            h = layout_height s;
            others = filter (\<lambda>i. Some i \<noteq> focused s) (items s)
        in if actual = Grid then Ok (shown\<lparr> arranged := [(items s, h, 0)] \<rparr>)
        else rbind (boost_assert b (others \<noteq> [])) (\<lambda>u.
          if actual = Full then rbind (boost_assert b (focused s \<noteq> None)) (\<lambda>u.
            case focused s of None \<Rightarrow> Undefined
            | Some f \<Rightarrow> Ok (s\<lparr> hidden := hidden s - {f} \<union> set others, arranged := [([f], h, 0)] \<rparr>))
          else let smalls = h * 20 / 100 in
            case focused s of None \<Rightarrow> Undefined
            | Some f \<Rightarrow> if others = [] then Undefined
                else Ok (shown\<lparr> arranged := [(others, smalls, 0), ([f], h - smalls, smalls)] \<rparr>)))"

definition set_layout_property :: "build \<Rightarrow> layout \<Rightarrow> video_layout \<Rightarrow> video_layout res" where
  "set_layout_property b l s =
     (if l = layout_of s then Ok s
      else recalculate b (s\<lparr> layout_of := l, layouts_told := layouts_told s @ [l] \<rparr>))"

definition enlarge :: "build \<Rightarrow> nat \<Rightarrow> video_layout \<Rightarrow> video_layout res" where
  "enlarge b i s =
     (if focused s = Some i \<or> layout_of s = Grid then
        set_layout_property b (case layout_of s of Grid \<Rightarrow> Enlarged | Enlarged \<Rightarrow> Full | Full \<Rightarrow> Grid) (s\<lparr> focused := Some i \<rparr>)
      else recalculate b (s\<lparr> focused := Some i \<rparr>))"

definition shrink :: "build \<Rightarrow> video_layout \<Rightarrow> video_layout res" where
  "shrink b s =
     (case layout_of s of Grid \<Rightarrow> Ok s | Enlarged \<Rightarrow> set_layout_property b Grid s
      | Full \<Rightarrow> set_layout_property b Full s)"

definition clear_focused :: "build \<Rightarrow> video_layout \<Rightarrow> video_layout res" where
  "clear_focused b s = rbind (set_layout_property b Grid s) (\<lambda>s. Ok (s\<lparr> focused := None \<rparr>))"

text \<open>Children without an aspect are no items; the list given is the one after the
  change.\<close>

definition on_child_added :: "build \<Rightarrow> bool \<Rightarrow> nat \<Rightarrow> video_layout \<Rightarrow> video_layout res" where
  "on_child_added b has_aspect i s =
     (if \<not> has_aspect then Ok s else recalculate b (s\<lparr> items := items s @ [i] \<rparr>))"

definition on_child_removed :: "build \<Rightarrow> nat \<Rightarrow> video_layout \<Rightarrow> video_layout res" where
  "on_child_removed b i s =
     (let s = s\<lparr> items := remove1 i (items s) \<rparr> in
      rbind (if focused s = Some i then clear_focused b s else Ok s) (recalculate b))"

definition layout_to_string :: "layout \<Rightarrow> string" where
  "layout_to_string l = (case l of Grid \<Rightarrow> ''grid'' | Enlarged \<Rightarrow> ''enlarged'' | Full \<Rightarrow> ''full'')"

definition set_layout :: "build \<Rightarrow> string \<Rightarrow> video_layout \<Rightarrow> video_layout res" where
  "set_layout b t s =
     rbind (if t = ''enlarged'' then Ok Enlarged else if t = ''full'' then Ok Full
        else rbind (boost_assert b (t = ''grid'')) (\<lambda>u. Ok Grid))
       (\<lambda>l. set_layout_property b l s)"

lemma layout_string_read: "set_layout b (layout_to_string l) s = set_layout_property b l s"
  by (cases l) (simp_all add: set_layout_def layout_to_string_def)

text \<open>A focus is an item; without one the layout is the grid.\<close>

definition focus_inv :: "video_layout \<Rightarrow> bool" where
  "focus_inv s \<longleftrightarrow> distinct (items s) \<and> (\<forall>i. focused s = Some i \<longrightarrow> i \<in> set (items s)) \<and>
     (focused s = None \<longrightarrow> layout_of s = Grid)"

lemma others_not_empty:
  assumes "distinct xs" "i \<in> set xs" "length xs \<noteq> 1"
  shows "filter (\<lambda>j. j \<noteq> i) xs \<noteq> []"
proof
  assume "filter (\<lambda>j. j \<noteq> i) xs = []"
  then have "set xs \<subseteq> {i}" by (auto simp: filter_empty_conv)
  then have "card (set xs) \<le> 1" by (metis card.empty card_insert_disjoint card_mono empty_iff finite.simps One_nat_def)
  with assms show False by (cases xs) (auto simp: distinct_card)
qed

lemma recalculate_ok:
  assumes "focus_inv s"
  shows "\<exists>t. recalculate b s = Ok t \<and> focus_inv t \<and> items t = items s \<and> focused t = focused s \<and> layout_of t = layout_of s"
proof (cases "layout_of s = Grid \<or> length (items s) = 1 \<or> layout_width s = 0 \<or> layout_height s = 0 \<or> items s = []")
  case True
  with assms show ?thesis by (auto simp: recalculate_def Let_def focus_inv_def)
next
  case False
  then obtain f where f: "focused s = Some f" "f \<in> set (items s)"
    using assms by (auto simp: focus_inv_def)
  have "filter (\<lambda>i. Some i \<noteq> focused s) (items s) \<noteq> []"
    using others_not_empty[of "items s" f] assms f False by (simp add: focus_inv_def)
  with assms f False show ?thesis
    by (cases "layout_of s") (simp_all add: recalculate_def Let_def focus_inv_def)
qed

lemma set_property_ok:
  assumes "focus_inv s" "focused s = None \<longrightarrow> l = Grid"
  shows "\<exists>t. set_layout_property b l s = Ok t \<and> focus_inv t \<and> items t = items s \<and> focused t = focused s \<and> layout_of t = l"
proof -
  let ?s = "s\<lparr> layout_of := l, layouts_told := layouts_told s @ [l] \<rparr>"
  have "focus_inv ?s" using assms by (simp add: focus_inv_def)
  from recalculate_ok[OF this, of b] assms(1) show ?thesis by (auto simp: set_layout_property_def)
qed

datatype layout_event = Enlarge nat | Shrink | Child_added bool nat | Child_removed nat | Resized rat rat

text \<open>Only items are enlarged, and an item is a child once.\<close>

fun layout_event_ok :: "video_layout \<Rightarrow> layout_event \<Rightarrow> bool" where
  "layout_event_ok s (Enlarge i) = (i \<in> set (items s))"
| "layout_event_ok s (Child_added a i) = (i \<notin> set (items s))"
| "layout_event_ok s e = True"

fun layout_action :: "build \<Rightarrow> video_layout \<Rightarrow> layout_event \<Rightarrow> video_layout res" where
  "layout_action b s (Enlarge i) = enlarge b i s"
| "layout_action b s Shrink = shrink b s"
| "layout_action b s (Child_added a i) = on_child_added b a i s"
| "layout_action b s (Child_removed i) = on_child_removed b i s"
| "layout_action b s (Resized w h) = recalculate b (s\<lparr> layout_width := w, layout_height := h \<rparr>)"

definition layout_step :: "build \<Rightarrow> video_layout \<Rightarrow> layout_event \<Rightarrow> video_layout res" where
  "layout_step b s e = (if layout_event_ok s e then layout_action b s e else Ok s)"


lemma removed_focus_ok:
  assumes "focus_inv s" "focused s = Some i"
  shows "\<exists>t. clear_focused b (s\<lparr> items := remove1 i (items s) \<rparr>) = Ok t \<and> focus_inv t"
proof -
  let ?s = "s\<lparr> items := remove1 i (items s), layout_of := Grid, layouts_told := layouts_told s @ [Grid] \<rparr>"
  have "\<exists>t. recalculate b ?s = Ok t \<and> items t = items ?s \<and> layout_of t = Grid"
    by (auto simp: recalculate_def Let_def)
  then obtain t where t: "recalculate b ?s = Ok t" "items t = items ?s" "layout_of t = Grid" by blast
  from assms have dist: "distinct (remove1 i (items s))" by (simp add: focus_inv_def)
  show ?thesis
  proof (cases "layout_of s = Grid")
    case True
    with dist show ?thesis by (simp add: clear_focused_def set_layout_property_def focus_inv_def)
  next
    case False
    then have "set_layout_property b Grid (s\<lparr> items := remove1 i (items s) \<rparr>) = Ok t"
      using t(1) by (simp add: set_layout_property_def)
    with t dist show ?thesis by (simp add: clear_focused_def focus_inv_def)
  qed
qed

lemma layout_step_ok:
  assumes "focus_inv s"
  shows "\<exists>t. layout_step b s e = Ok t \<and> focus_inv t"
proof (cases "layout_event_ok s e")
  case False
  with assms show ?thesis by (simp add: layout_step_def)
next
  case True
  show ?thesis
  proof (cases e)
    case (Enlarge i)
    let ?s = "s\<lparr> focused := Some i \<rparr>"
    have "focus_inv ?s" using assms True Enlarge by (simp add: focus_inv_def)
    with set_property_ok[OF this, of _ b] recalculate_ok[OF this, of b] Enlarge True show ?thesis
      by (auto simp: layout_step_def enlarge_def)
  next
    case Shrink
    with assms set_property_ok[OF assms, of Grid b] True show ?thesis
      by (cases "layout_of s") (auto simp: layout_step_def shrink_def set_layout_property_def)
  next
    case (Child_added a i)
    let ?s = "s\<lparr> items := items s @ [i] \<rparr>"
    have "focus_inv ?s" using assms True Child_added by (auto simp: focus_inv_def)
    with recalculate_ok[OF this, of b] assms Child_added True show ?thesis
      by (auto simp: layout_step_def on_child_added_def)
  next
    case (Child_removed i)
    let ?s = "s\<lparr> items := remove1 i (items s) \<rparr>"
    have "\<exists>t. (if focused s = Some i then clear_focused b ?s else Ok ?s) = Ok t \<and> focus_inv t"
    proof (cases "focused s = Some i")
      case True
      with removed_focus_ok[OF assms True, of b] show ?thesis by simp
    next
      case False
      with assms show ?thesis by (auto simp: focus_inv_def)
    qed
    then obtain t where "(if focused s = Some i then clear_focused b ?s else Ok ?s) = Ok t" "focus_inv t" by blast
    with recalculate_ok[of t b] Child_removed True show ?thesis
      by (auto simp: layout_step_def on_child_removed_def Let_def)
  next
    case (Resized w h)
    let ?s = "s\<lparr> layout_width := w, layout_height := h \<rparr>"
    have "focus_inv ?s" using assms by (simp add: focus_inv_def)
    from recalculate_ok[OF this, of b] Resized True show ?thesis by (auto simp: layout_step_def)
  qed
qed

interpretation layouts: total_machine "layout_step b" focus_inv "\<lambda>e. True" for b
  by unfold_locales (metis layout_step_ok res.inject(1), metis layout_step_ok)

definition fresh_layout :: video_layout where
  "fresh_layout = \<lparr> items = [], focused = None, layout_of = Grid, layout_width = 0, layout_height = 0, hidden = {},
     arranged = [], layouts_told = [] \<rparr>"

text \<open>Enlarging, shrinking, resizing, and items that come and go never run into an
  assertion or a null pointer; the focused item is always one of the items.\<close>
theorem layout_never_stuck:
  "\<exists>s. run_events (layout_step b) fresh_layout es = Ok s \<and> (\<forall>i. focused s = Some i \<longrightarrow> i \<in> set (items s)) \<and>
    (focused s = None \<longrightarrow> layout_of s = Grid)"
proof -
  have "focus_inv fresh_layout" by (simp add: focus_inv_def fresh_layout_def)
  from layouts.run_ok[OF this, of es b] show ?thesis by (auto simp: focus_inv_def)
qed

text \<open>Setting the property from outside does: without a focus there is nothing to
  enlarge.\<close>

lemma set_layout_without_focus:
  assumes "focused s = None" "layout_of s = Grid" "length (items s) > 1" "layout_width s \<noteq> 0" "layout_height s \<noteq> 0"
  shows "set_layout Debug ''full'' s = Assert_failed \<and> set_layout Release ''full'' s = Undefined \<and>
    set_layout b ''enlarged'' s = Undefined"
proof -
  have "items s \<noteq> []" "length (items s) \<noteq> Suc 0" using assms(3) by auto
  with assms show ?thesis
    by (simp add: set_layout_def set_layout_property_def recalculate_def Let_def boost_assert_def)
qed

text \<open>Shrinking the full layout leaves it as it is.\<close>

lemma shrink_full: "layout_of s = Full \<Longrightarrow> shrink b s = Ok s"
  by (simp add: shrink_def set_layout_property_def)

end
