(* ===== verification/Http.thy ===== *)
theory Http
  imports Prelude
begin

text \<open>
  HTTP requests (action.cpp, client.cpp, connection\_creator.cpp, connector.hpp and
  ssl\_upgrader.hpp in src/fubble/http).

  Sockets, TLS and the framing of HTTP are Boost's: an asynchronous operation is known
  by the error it completes with, and parsing a body is a parameter. Which operation
  runs is part of the state, so a completion that cannot happen is no event.
\<close>

section \<open>Connecting\<close>

datatype error_code = No_error | Stream_truncated | End_of_file | Operation_cancelled | Other_error

datatype promised = Open | Value | Failed error_code | Moved_away

text \<open>\<open>None\<close> is a call through the promise that was moved away.\<close>

record ssl_upgrader =
  upgrade_promise :: promised
  handshaking :: bool

definition upgrader_check :: "error_code \<Rightarrow> ssl_upgrader \<Rightarrow> ssl_upgrader \<times> bool" where
  "upgrader_check e s = (if e = No_error then (s, True) else (s\<lparr> upgrade_promise := Failed e \<rparr>, False))"

text \<open>If the name of the server can not be set, the promise is moved away by the error
  handling, and its future is asked for afterwards.\<close>

definition secure_connection :: "bool \<Rightarrow> error_code \<Rightarrow> ssl_upgrader \<Rightarrow> ssl_upgrader res" where
  "secure_connection name_set e s =
     (if \<not> name_set then
        (case upgrader_check e s of (t, good) \<Rightarrow> if good then Ok t else Undefined)
      else Ok (s\<lparr> handshaking := True \<rparr>))"

definition upgrader_on_secured :: "error_code \<Rightarrow> ssl_upgrader \<Rightarrow> ssl_upgrader" where
  "upgrader_on_secured e s = (case upgrader_check e (s\<lparr> handshaking := False \<rparr>) of
     (t, good) \<Rightarrow> if good then t\<lparr> upgrade_promise := Value \<rparr> else t)"

datatype connector_phase = Resolving | Connecting | Securing ssl_upgrader | Connector_done

record connector =
  connector_phase :: connector_phase
  connector_promise :: promised
  secure :: bool

definition connector_do :: "bool \<Rightarrow> connector" where
  "connector_do s = \<lparr> connector_phase = Resolving, connector_promise = Open, secure = s \<rparr>"

definition connector_check :: "error_code \<Rightarrow> connector \<Rightarrow> connector \<times> bool" where
  "connector_check e c =
     (if e = No_error then (c, True)
      else (c\<lparr> connector_promise := Failed e, connector_phase := Connector_done \<rparr>, False))"

definition connector_finish :: "connector \<Rightarrow> connector" where
  "connector_finish c = c\<lparr> connector_promise := Value, connector_phase := Connector_done \<rparr>"

definition on_resolved :: "error_code \<Rightarrow> connector \<Rightarrow> connector" where
  "on_resolved e c = (case connector_check e c of (c, good) \<Rightarrow> if good then c\<lparr> connector_phase := Connecting \<rparr> else c)"

definition on_connected :: "bool \<Rightarrow> error_code \<Rightarrow> error_code \<Rightarrow> connector \<Rightarrow> connector res" where
  "on_connected name_set name_error e c = (case connector_check e c of (c, good) \<Rightarrow>
     if \<not> good then Ok c
     else if secure c then
       rbind (secure_connection name_set name_error \<lparr> upgrade_promise = Open, handshaking = False \<rparr>) (\<lambda>u.
       Ok (c\<lparr> connector_phase := Securing u \<rparr>))
     else Ok (connector_finish c))"

definition on_secured :: "error_code \<Rightarrow> ssl_upgrader \<Rightarrow> connector \<Rightarrow> connector" where
  "on_secured e u c =
     (case upgrade_promise (upgrader_on_secured e u) of
        Failed x \<Rightarrow> fst (connector_check x c)
      | _ \<Rightarrow> connector_finish c)"

text \<open>The next completion, with the results the setting of the name would have.\<close>

definition connector_step :: "bool \<Rightarrow> error_code \<Rightarrow> error_code \<Rightarrow> connector \<Rightarrow> connector res" where
  "connector_step name_set name_error e c =
     (case connector_phase c of
        Resolving \<Rightarrow> Ok (on_resolved e c)
      | Connecting \<Rightarrow> on_connected name_set name_error e c
      | Securing u \<Rightarrow> Ok (on_secured e u c)
      | Connector_done \<Rightarrow> Ok c)"

text \<open>At most three completions, then the promise has its result; it is a value only
  if none of them was an error.\<close>

lemma connector_ends:
  assumes "connector_step True x e1 (connector_do s) = Ok c1" "connector_step True x e2 c1 = Ok c2"
    and "connector_step True x e3 c2 = Ok c3"
  shows "connector_phase c3 = Connector_done \<and>
    connector_promise c3 =
      (if e1 \<noteq> No_error then Failed e1 else if e2 \<noteq> No_error then Failed e2
       else if s \<and> e3 \<noteq> No_error then Failed e3 else Value)"
  using assms
  by (cases s) (auto simp: connector_step_def connector_do_def on_resolved_def connector_check_def on_connected_def
      secure_connection_def on_secured_def upgrader_on_secured_def upgrader_check_def connector_finish_def
      split: if_splits)

lemma name_not_set_undefined:
  "e \<noteq> No_error \<Longrightarrow> connector_step False e No_error \<lparr> connector_phase = Connecting, connector_promise = Open, secure = True \<rparr> = Undefined"
  by (simp add: connector_step_def on_connected_def connector_check_def secure_connection_def upgrader_check_def)


section \<open>One request\<close>

datatype verb = Get | Post | Put

record server =
  host :: string
  port :: string
  server_secure :: bool

record fields =
  fields_host :: string
  target_prefix :: string
  agent :: string
  version :: int
  auth_token :: "string option"

definition fields_of :: "string \<Rightarrow> server \<Rightarrow> fields" where
  "fields_of program s = \<lparr> fields_host = host s @ '':'' @ port s, target_prefix = [], agent = program, version = 10, auth_token = None \<rparr>"

record request =
  request_verb :: verb
  request_target :: string
  request_version :: int
  headers :: "(string \<times> string) list"
  request_body :: string

definition make_request :: "verb \<Rightarrow> string \<Rightarrow> fields \<Rightarrow> request" where
  "make_request v target f =
     \<lparr> request_verb = v, request_target = target_prefix f @ target, request_version = version f,
       headers = [(''Host'', fields_host f), (''User-Agent'', agent f), (''Accept'', ''application/json'')] @
         (case auth_token f of None \<Rightarrow> [] | Some t \<Rightarrow> [(''Authorization'', ''Bearer '' @ t)]),
       request_body = [] \<rparr>"

definition set_request_body :: "string \<Rightarrow> request \<Rightarrow> request" where
  "set_request_body body r = r\<lparr> request_body := body \<rparr>"

datatype 'j result = Response nat 'j | Error error_code | Bad_json

datatype operation = Connect | Write_request | Read_response

record 'j action =
  action_request :: request
  running :: "operation option"
  promise_open :: bool
  outcome :: "'j result option"
  shut_down :: bool

definition new_action :: "request \<Rightarrow> 'j action" where
  "new_action r = \<lparr> action_request = r, running = None, promise_open = True, outcome = None, shut_down = False \<rparr>"

definition action_do :: "'j action \<Rightarrow> 'j action" where
  "action_do a = a\<lparr> running := Some Connect \<rparr>"

definition fulfill :: "'j result \<Rightarrow> 'j action \<Rightarrow> 'j action" where
  "fulfill r a = a\<lparr> promise_open := False, outcome := Some r \<rparr>"

text \<open>Two errors are ignored: some servers end a TLS connection without saying so.\<close>

definition check_and_handle_error :: "error_code \<Rightarrow> 'j action \<Rightarrow> 'j action \<times> bool" where
  "check_and_handle_error e a =
     (if e = No_error then (a, True)
      else if e = Stream_truncated \<or> e = End_of_file then (a, True)
      else (fulfill (Error e) a, False))"

definition send_request :: "'j action \<Rightarrow> 'j action" where
  "send_request a = a\<lparr> running := Some Write_request \<rparr>"

definition read_response :: "'j action \<Rightarrow> 'j action" where
  "read_response a = a\<lparr> running := Some Read_response \<rparr>"

definition on_connector_done :: "error_code \<Rightarrow> 'j action \<Rightarrow> 'j action" where
  "on_connector_done e a =
     (if e \<noteq> No_error then fst (check_and_handle_error e a) else send_request a)"

definition on_request_send :: "error_code \<Rightarrow> 'j action \<Rightarrow> 'j action" where
  "on_request_send e a = (case check_and_handle_error e a of (a, good) \<Rightarrow> if good then read_response a else a)"

definition on_response_read :: "(string \<Rightarrow> 'j option) \<Rightarrow> error_code \<Rightarrow> nat \<Rightarrow> string \<Rightarrow> 'j action \<Rightarrow> 'j action" where
  "on_response_read parse e status body a = (case check_and_handle_error e a of (a, good) \<Rightarrow>
     if \<not> good then a
     else let a = a\<lparr> shut_down := True \<rparr> in
       (case parse body of None \<Rightarrow> fulfill Bad_json a | Some j \<Rightarrow> fulfill (Response status j) a))"

datatype completion = Completed error_code nat string

definition action_step :: "(string \<Rightarrow> 'j option) \<Rightarrow> completion \<Rightarrow> 'j action \<Rightarrow> 'j action" where
  "action_step parse c a = (case c of Completed e status body \<Rightarrow>
     (case running a of
        None \<Rightarrow> a
      | Some Connect \<Rightarrow> on_connector_done e (a\<lparr> running := None \<rparr>)
      | Some Write_request \<Rightarrow> on_request_send e (a\<lparr> running := None \<rparr>)
      | Some Read_response \<Rightarrow> on_response_read parse e status body (a\<lparr> running := None \<rparr>)))"

text \<open>An action destroyed before it is done fails, and its connection is cancelled.\<close>

definition destroy_action :: "'j action \<Rightarrow> 'j action" where
  "destroy_action a = (if promise_open a then (fulfill (Error Operation_cancelled) a)\<lparr> running := None \<rparr> else a)"

definition action_inv :: "'j action \<Rightarrow> bool" where
  "action_inv a \<longleftrightarrow> (promise_open a \<longleftrightarrow> outcome a = None) \<and> (running a \<noteq> None \<longrightarrow> promise_open a)"

lemmas action_defs = action_step_def on_connector_done_def on_request_send_def on_response_read_def
  check_and_handle_error_def fulfill_def send_request_def read_response_def Let_def


lemma action_destroyed: "action_inv a \<Longrightarrow> outcome (destroy_action a) \<noteq> None"
  by (auto simp: destroy_action_def action_inv_def fulfill_def)

text \<open>A request whose connection fails in one of the two ways that are otherwise
  ignored (a server that gives up during the TLS handshake does) is never answered:
  nothing runs any more, and its promise stays open whatever completes.\<close>
theorem truncated_connect_hangs:
  assumes "e = Stream_truncated \<or> e = End_of_file"
  shows "outcome (fold (action_step parse) (Completed e n body # cs) (action_do (new_action r))) = None \<and>
    running (fold (action_step parse) (Completed e n body # cs) (action_do (new_action r))) = None"
proof -
  let ?a = "(action_do (new_action r))\<lparr> running := None \<rparr>"
  have "action_step parse (Completed e n body) (action_do (new_action r)) = ?a"
    using assms by (auto simp: action_defs action_do_def)
  moreover have "fold (action_step parse) cs ?a = ?a"
    by (induction cs) (auto simp: action_step_def split: completion.split)
  ultimately show ?thesis by (simp add: action_do_def new_action_def)
qed

lemma truncated_connect_hangs_witness:
  "outcome (fold (action_step (\<lambda>s. Some s)) [Completed Stream_truncated 0 [], Completed No_error 200 ''{}'']
     (action_do (new_action (make_request Get ''/sync'' (fields_of ''fubble'' \<lparr> host = ''h'', port = ''443'', server_secure = True \<rparr>))))) = None"
  using truncated_connect_hangs[of Stream_truncated "\<lambda>s. Some s" 0 "[]" "[Completed No_error 200 ''{}'']"] by simp

lemma answered_otherwise:
  assumes "e1 = No_error" "e2 \<notin> {Operation_cancelled, Other_error}"
  shows "outcome (fold (action_step parse) [Completed e1 n1 b1, Completed e2 n2 b2, Completed e3 status body]
      (action_do (new_action r))) =
    Some (if e3 \<in> {Operation_cancelled, Other_error} then Error e3
      else case parse body of None \<Rightarrow> Bad_json | Some j \<Rightarrow> Response status j)"
  using assms
  by (cases e2; cases e3) (auto simp: action_defs action_do_def new_action_def split: option.split)


section \<open>The client\<close>

text \<open>\<open>answered\<close> are the results handed to the callers, in their order.\<close>

record 'j client =
  actions :: "(nat \<times> 'j action) list"
  next_action :: nat
  answered :: "(nat \<times> 'j result) list"


definition do_action :: "request \<Rightarrow> 'j client \<Rightarrow> 'j client" where
  "do_action r s = s\<lparr> actions := actions s @ [(next_action s, action_do (new_action r))], next_action := Suc (next_action s) \<rparr>"

definition client_get :: "fields \<Rightarrow> string \<Rightarrow> 'j client \<Rightarrow> 'j client" where
  "client_get f target = do_action (make_request Get target f)"

definition client_post :: "fields \<Rightarrow> string \<Rightarrow> string \<Rightarrow> 'j client \<Rightarrow> 'j client" where
  "client_post f target content = do_action (set_request_body content (make_request Post target f))"

definition client_put :: "fields \<Rightarrow> string \<Rightarrow> string \<Rightarrow> 'j client \<Rightarrow> 'j client" where
  "client_put f target content = do_action (set_request_body content (make_request Put target f))"

















end
