(* ===== verification/Room_View.thy ===== *)
theory Room_View
  imports Prelude Complex_Main
begin

text \<open>
  What a room shows (participant\_model.cpp, participants\_model.cpp,
  participants\_with\_video\_model.cpp, room\_model.cpp and chat\_messages\_model.cpp in
  src/fubble/app, chat.cpp in src/fubble/client).

  The models are Qt lists; who is told of what is part of the state where the code
  depends on it. A tile is the model of one participant. Tiles have different ids, so
  a slot of a tile is known by its id. A removed tile hears nothing any more.
\<close>

section \<open>A tile\<close>

record ('v, 'a) member =
  member_id :: string
  is_bot :: bool
  is_own :: bool
  videos :: "'v list"
  audios :: "'a list"

record ('v, 'a) tile =
  tile_id :: string
  tile_own :: bool
  tile_video :: "'v option"
  level_source :: "'a option"
  tile_muted :: bool
  tile_deafed :: bool
  watched :: bool

definition video_added :: "'v \<Rightarrow> ('v, 'a) tile \<Rightarrow> ('v, 'a) tile" where
  "video_added v t = t\<lparr> tile_video := Some v \<rparr>"

text \<open>The flag says whether the change is told.\<close>

definition video_removed :: "build \<Rightarrow> 'v \<Rightarrow> ('v, 'a) tile \<Rightarrow> (('v, 'a) tile \<times> bool) res" where
  "video_removed b v t =
     rbind (boost_assert b (tile_video t \<noteq> None)) (\<lambda>u.
     case tile_video t of
       None \<Rightarrow> Undefined
     | Some w \<Rightarrow> Ok (if w \<noteq> v then (t, False) else (t\<lparr> tile_video := None \<rparr>, True)))"

definition audio_added :: "build \<Rightarrow> 'a \<Rightarrow> ('v, 'a) tile \<Rightarrow> ('v, 'a) tile res" where
  "audio_added b a t =
     rbind (boost_assert b (level_source t = None)) (\<lambda>u. Ok (t\<lparr> level_source := Some a \<rparr>))"

definition audio_removed :: "'a \<Rightarrow> ('v, 'a) tile \<Rightarrow> ('v, 'a) tile res" where
  "audio_removed a t =
     (case level_source t of
        None \<Rightarrow> Undefined
      | Some w \<Rightarrow> Ok (if w \<noteq> a then t else t\<lparr> level_source := None \<rparr>))"

definition on_muted :: "build \<Rightarrow> string \<Rightarrow> bool \<Rightarrow> ('v, 'a) tile \<Rightarrow> ('v, 'a) tile res" where
  "on_muted b i m t =
     rbind (boost_assert b (i \<noteq> [])) (\<lambda>u.
     if i \<noteq> tile_id t then Ok t
     else rbind (boost_assert b (m \<noteq> tile_muted t)) (\<lambda>u. Ok (t\<lparr> tile_muted := m \<rparr>)))"

definition on_deafed :: "build \<Rightarrow> string \<Rightarrow> bool \<Rightarrow> ('v, 'a) tile \<Rightarrow> ('v, 'a) tile res" where
  "on_deafed b i m t =
     rbind (boost_assert b (i \<noteq> [])) (\<lambda>u.
     if i \<noteq> tile_id t then Ok t
     else rbind (boost_assert b (m \<noteq> tile_deafed t)) (\<lambda>u. Ok (t\<lparr> tile_deafed := m \<rparr>)))"

text \<open>Converting to an integer cuts the fraction off.\<close>

definition shown_level :: "rat \<Rightarrow> int" where
  "shown_level level = (let x = level * 127 in min 127 (if x < 0 then \<lceil>x\<rceil> else \<lfloor>x\<rfloor>))"

lemma shown_level_bounds: "0 \<le> level \<Longrightarrow> 0 \<le> shown_level level \<and> shown_level level \<le> 127"
  by (simp add: shown_level_def Let_def)

text \<open>The first state of mute and deaf comes from the communicator.\<close>

definition new_tile ::
  "build \<Rightarrow> (string \<Rightarrow> bool) \<Rightarrow> (string \<Rightarrow> bool) \<Rightarrow> ('v, 'a) member \<Rightarrow> ('v, 'a) tile res" where
  "new_tile b is_muted is_deafed p =
     (let t = fold video_added (videos p)
        \<lparr> tile_id = member_id p, tile_own = is_own p, tile_video = None, level_source = None,
          tile_muted = is_muted (member_id p), tile_deafed = is_deafed (member_id p), watched = False \<rparr>
      in if is_own p then Ok t else foreach (audios p) (audio_added b) t)"

fun new_tiles ::
  "build \<Rightarrow> (string \<Rightarrow> bool) \<Rightarrow> (string \<Rightarrow> bool) \<Rightarrow> ('v, 'a) member list \<Rightarrow> ('v, 'a) tile list res" where
  "new_tiles b mu de [] = Ok []"
| "new_tiles b mu de (p # ps) =
     rbind (new_tile b mu de p) (\<lambda>t. rbind (new_tiles b mu de ps) (\<lambda>ts. Ok (t # ts)))"


section \<open>The lists of tiles\<close>

text \<open>\<open>rows\<close> are the tiles with a video. They are told of insertions and removals only
  once they are \<open>attached\<close>, and hear of the video of a tile only if it is \<open>watched\<close>.\<close>

record ('v, 'a) room_view =
  own_id :: string
  tiles :: "('v, 'a) tile list"
  attached :: bool
  rows :: "string list"
  own_tile :: "string option"
  videos_available :: bool
  told_available :: "bool list"

definition recalculate_video_available :: "('v, 'a) room_view \<Rightarrow> ('v, 'a) room_view" where
  "recalculate_video_available s =
     (let has_videos = rows s \<noteq> [] in
      if has_videos = videos_available s then s
      else s\<lparr> videos_available := has_videos, told_available := told_available s @ [has_videos] \<rparr>)"

definition add_participant :: "string \<Rightarrow> ('v, 'a) room_view \<Rightarrow> ('v, 'a) room_view" where
  "add_participant i s =
     (if i \<in> set (rows s) then s else recalculate_video_available (s\<lparr> rows := rows s @ [i] \<rparr>))"

definition remove_participant :: "string \<Rightarrow> ('v, 'a) room_view \<Rightarrow> ('v, 'a) room_view" where
  "remove_participant i s =
     (case find_index (\<lambda>j. j = i) (rows s) of
        None \<Rightarrow> s
      | Some k \<Rightarrow> recalculate_video_available (s\<lparr> rows := erase_at k (rows s) \<rparr>))"

text \<open>The slot of \<open>video_changed\<close>.\<close>

definition on_video_changed :: "nat \<Rightarrow> ('v, 'a) room_view \<Rightarrow> ('v, 'a) room_view" where
  "on_video_changed k s =
     (let t = tiles s ! k in
      if \<not> watched t then s
      else if tile_video t \<noteq> None then add_participant (tile_id t) s
      else remove_participant (tile_id t) s)"

definition participant_at :: "build \<Rightarrow> nat \<Rightarrow> ('v, 'a) room_view \<Rightarrow> ('v, 'a) tile res" where
  "participant_at b k s =
     rbind (boost_assert b (k < length (tiles s))) (\<lambda>u. if k < length (tiles s) then Ok (tiles s ! k) else Undefined)"

definition on_participants_inserted :: "build \<Rightarrow> nat \<Rightarrow> nat \<Rightarrow> ('v, 'a) room_view \<Rightarrow> ('v, 'a) room_view res" where
  "on_participants_inserted b first final s =
     rbind (boost_assert b (first = final)) (\<lambda>u.
     rbind (participant_at b first s) (\<lambda>t.
     let s = s\<lparr> tiles := (tiles s)[first := t\<lparr> watched := True \<rparr>] \<rparr> in
     Ok (if tile_video t = None then s else add_participant (tile_id t) s)))"

definition on_participants_about_to_be_removed ::
  "build \<Rightarrow> nat \<Rightarrow> nat \<Rightarrow> ('v, 'a) room_view \<Rightarrow> ('v, 'a) room_view res" where
  "on_participants_about_to_be_removed b first final s =
     rbind (boost_assert b (first = final)) (\<lambda>u.
     rbind (participant_at b first s) (\<lambda>t. Ok (remove_participant (tile_id t) s)))"

definition filter_joining :: "('v, 'a) member list \<Rightarrow> ('v, 'a) member list" where
  "filter_joining ps = filter (\<lambda>p. \<not> is_bot p) ps"

definition get_own :: "('v, 'a) room_view \<Rightarrow> string option" where
  "get_own s = map_option tile_id (find_first (\<lambda>t. tile_id t = own_id s) (tiles s))"

text \<open>To read an empty optional is a logic error, as \<open>Out_of_range\<close> is one.\<close>

definition set_own :: "build \<Rightarrow> ('v, 'a) room_view \<Rightarrow> ('v, 'a) room_view res" where
  "set_own b s =
     rbind (boost_assert b (get_own s \<noteq> None)) (\<lambda>u.
     case get_own s of None \<Rightarrow> Throw Out_of_range | Some i \<Rightarrow> Ok (s\<lparr> own_tile := Some i \<rparr>))"

text \<open>However many join, one row is announced.\<close>

definition on_joins ::
  "build \<Rightarrow> (string \<Rightarrow> bool) \<Rightarrow> (string \<Rightarrow> bool) \<Rightarrow> ('v, 'a) member list \<Rightarrow> ('v, 'a) room_view \<Rightarrow>
   ('v, 'a) room_view res" where
  "on_joins b mu de to_filter s =
     (let joins = filter_joining to_filter in
      if joins = [] then Ok s
      else rbind (new_tiles b mu de joins) (\<lambda>ts.
        let row = length (tiles s); s = s\<lparr> tiles := tiles s @ ts \<rparr> in
        rbind (if attached s then on_participants_inserted b row row s else Ok s) (\<lambda>s.
        if attached s \<and> (\<exists>p \<in> set joins. member_id p = own_id s) then set_own b s else Ok s)))"

definition on_leave :: "build \<Rightarrow> string \<Rightarrow> ('v, 'a) room_view \<Rightarrow> ('v, 'a) room_view res" where
  "on_leave b i s =
     (case find_index (\<lambda>t. tile_id t = i) (tiles s) of
        None \<Rightarrow> Ok s
      | Some k \<Rightarrow>
          rbind (if attached s then on_participants_about_to_be_removed b k k s else Ok s) (\<lambda>s.
          Ok (s\<lparr> tiles := erase_at k (tiles s) \<rparr>)))"

definition on_leaves :: "build \<Rightarrow> string list \<Rightarrow> ('v, 'a) room_view \<Rightarrow> ('v, 'a) room_view res" where
  "on_leaves b leaves s = rbind (boost_assert b (length leaves = 1)) (\<lambda>u. foreach leaves (on_leave b) s)"

text \<open>The rows are attached after the tiles of those who are already there.\<close>

definition fresh_room_view ::
  "build \<Rightarrow> (string \<Rightarrow> bool) \<Rightarrow> (string \<Rightarrow> bool) \<Rightarrow> string \<Rightarrow> ('v, 'a) member list \<Rightarrow> ('v, 'a) room_view res" where
  "fresh_room_view b mu de own ps =
     rbind (on_joins b mu de ps
       \<lparr> own_id = own, tiles = [], attached = False, rows = [], own_tile = None, videos_available = False,
         told_available = [] \<rparr>) (\<lambda>s.
     Ok (recalculate_video_available (s\<lparr> attached := True, own_tile := get_own s \<rparr>)))"

definition with_tile ::
  "string \<Rightarrow> (('v, 'a) tile \<Rightarrow> (('v, 'a) tile \<times> bool) res) \<Rightarrow> ('v, 'a) room_view \<Rightarrow> ('v, 'a) room_view res" where
  "with_tile i f s =
     (case find_index (\<lambda>t. tile_id t = i) (tiles s) of
        None \<Rightarrow> Ok s
      | Some k \<Rightarrow> rbind (f (tiles s ! k)) (\<lambda>(t, tell).
          let s = s\<lparr> tiles := (tiles s)[k := t] \<rparr> in Ok (if tell then on_video_changed k s else s)))"

datatype ('v, 'a) view_event =
    Joined_room "('v, 'a) member"
  | Left_room string
  | Video_came string 'v
  | Video_went string 'v
  | Audio_came string 'a
  | Audio_went string 'a
  | Muted string bool
  | Deafed string bool

fun view_action ::
  "build \<Rightarrow> (string \<Rightarrow> bool) \<Rightarrow> (string \<Rightarrow> bool) \<Rightarrow> ('v, 'a) room_view \<Rightarrow> ('v, 'a) view_event \<Rightarrow>
   ('v, 'a) room_view res" where
  "view_action b mu de s (Joined_room p) = on_joins b mu de [p] s"
| "view_action b mu de s (Left_room i) = on_leaves b [i] s"
| "view_action b mu de s (Video_came i v) = with_tile i (\<lambda>t. Ok (video_added v t, True)) s"
| "view_action b mu de s (Video_went i v) = with_tile i (video_removed b v) s"
| "view_action b mu de s (Audio_came i a) = with_tile i (\<lambda>t.
     if tile_own t then Ok (t, False) else rbind (audio_added b a t) (\<lambda>t. Ok (t, False))) s"
| "view_action b mu de s (Audio_went i a) = with_tile i (\<lambda>t.
     if tile_own t then Ok (t, False) else rbind (audio_removed a t) (\<lambda>t. Ok (t, False))) s"
| "view_action b mu de s (Muted i m) = with_tile i (\<lambda>t. rbind (on_muted b i m t) (\<lambda>t. Ok (t, False))) s"
| "view_action b mu de s (Deafed i m) = with_tile i (\<lambda>t. rbind (on_deafed b i m t) (\<lambda>t. Ok (t, False))) s"

text \<open>A participant joins once, with one video and one audio at most; a tile hears of
  the end of a video and an audio it has, and of real changes. (The code takes a second video of a
  tile and asserts when the first one ends; such runs are left out.)\<close>

fun view_event_ok :: "('v, 'a) room_view \<Rightarrow> ('v, 'a) view_event \<Rightarrow> bool" where
  "view_event_ok s (Joined_room p) \<longleftrightarrow> member_id p \<notin> tile_id ` set (tiles s) \<and> length (audios p) \<le> 1"
| "view_event_ok s (Left_room i) \<longleftrightarrow> True"
| "view_event_ok s (Video_came i v) \<longleftrightarrow> (\<forall>t \<in> set (tiles s). tile_id t = i \<longrightarrow> tile_video t = None)"
| "view_event_ok s (Video_went i v) \<longleftrightarrow> (\<forall>t \<in> set (tiles s). tile_id t = i \<longrightarrow> tile_video t = Some v)"
| "view_event_ok s (Audio_came i a) \<longleftrightarrow> (\<forall>t \<in> set (tiles s). tile_id t = i \<longrightarrow> level_source t = None)"
| "view_event_ok s (Audio_went i a) \<longleftrightarrow> (\<forall>t \<in> set (tiles s). tile_id t = i \<longrightarrow> level_source t = Some a)"
| "view_event_ok s (Muted i m) \<longleftrightarrow> i \<noteq> [] \<and> (\<forall>t \<in> set (tiles s). tile_id t = i \<longrightarrow> tile_muted t \<noteq> m)"
| "view_event_ok s (Deafed i m) \<longleftrightarrow> i \<noteq> [] \<and> (\<forall>t \<in> set (tiles s). tile_id t = i \<longrightarrow> tile_deafed t \<noteq> m)"

definition view_step ::
  "build \<Rightarrow> (string \<Rightarrow> bool) \<Rightarrow> (string \<Rightarrow> bool) \<Rightarrow> ('v, 'a) room_view \<Rightarrow> ('v, 'a) view_event \<Rightarrow>
   ('v, 'a) room_view res" where
  "view_step b mu de s e = (if view_event_ok s e then view_action b mu de s e else Ok s)"


section \<open>The rows are the tiles with a video\<close>

definition told_ok :: "('v, 'a) room_view \<Rightarrow> bool" where
  "told_ok s \<longleftrightarrow> distinct_adj (told_available s) \<and>
     videos_available s = (told_available s \<noteq> [] \<and> last (told_available s))"

definition rows_match :: "('v, 'a) room_view \<Rightarrow> bool" where
  "rows_match s \<longleftrightarrow> distinct (rows s) \<and>
     set (rows s) = tile_id ` {t \<in> set (tiles s). watched t \<and> tile_video t \<noteq> None}"

definition own_known :: "('v, 'a) room_view \<Rightarrow> bool" where
  "own_known s \<longleftrightarrow> (own_id s \<in> tile_id ` set (tiles s) \<longrightarrow> own_tile s = Some (own_id s))"

definition view_inv :: "('v, 'a) room_view \<Rightarrow> bool" where
  "view_inv s \<longleftrightarrow> attached s \<and> distinct (map tile_id (tiles s)) \<and> rows_match s \<and> told_ok s \<and>
     videos_available s = (rows s \<noteq> []) \<and> own_known s"

lemma recalculate_fields [simp]:
  "tiles (recalculate_video_available s) = tiles s" "rows (recalculate_video_available s) = rows s"
  "own_id (recalculate_video_available s) = own_id s" "own_tile (recalculate_video_available s) = own_tile s"
  "attached (recalculate_video_available s) = attached s"
  "videos_available (recalculate_video_available s) = (rows s \<noteq> [])"
  by (auto simp: recalculate_video_available_def Let_def)

lemma recalculate_told: "told_ok s \<Longrightarrow> told_ok (recalculate_video_available s)"
  by (auto simp: told_ok_def recalculate_video_available_def Let_def distinct_adj_append_iff)

lemma told_ok_fields:
  "told_ok (s\<lparr> rows := rs \<rparr>) = told_ok s" "told_ok (s\<lparr> tiles := ts \<rparr>) = told_ok s" "told_ok (s\<lparr> own_tile := i \<rparr>) = told_ok s"
  by (simp_all add: told_ok_def)

lemma add_participant_result:
  assumes "distinct (rows s)" "told_ok s" "videos_available s = (rows s \<noteq> [])"
  shows "set (rows (add_participant i s)) = insert i (set (rows s)) \<and> distinct (rows (add_participant i s)) \<and>
    told_ok (add_participant i s) \<and> videos_available (add_participant i s) = (rows (add_participant i s) \<noteq> []) \<and>
    tiles (add_participant i s) = tiles s \<and> own_id (add_participant i s) = own_id s \<and>
    own_tile (add_participant i s) = own_tile s \<and> attached (add_participant i s) = attached s"
  using assms by (auto simp: add_participant_def recalculate_told told_ok_fields)

lemma remove_participant_result:
  assumes "distinct (rows s)" "told_ok s" "videos_available s = (rows s \<noteq> [])"
  shows "set (rows (remove_participant i s)) = set (rows s) - {i} \<and> distinct (rows (remove_participant i s)) \<and>
    told_ok (remove_participant i s) \<and> videos_available (remove_participant i s) = (rows (remove_participant i s) \<noteq> []) \<and>
    tiles (remove_participant i s) = tiles s \<and> own_id (remove_participant i s) = own_id s \<and>
    own_tile (remove_participant i s) = own_tile s \<and> attached (remove_participant i s) = attached s"
proof (cases "find_index (\<lambda>j. j = i) (rows s)")
  case None
  then have "i \<notin> set (rows s)" by (auto simp: find_index_None)
  with None assms show ?thesis by (simp add: remove_participant_def)
next
  case (Some k)
  then have "k < length (rows s)" "rows s ! k = i" using find_index_Some by blast+
  with Some assms show ?thesis
    by (simp add: remove_participant_def recalculate_told told_ok_fields set_erase_at_distinct distinct_erase_at)
qed

text \<open>The ids of the tiles with a property, after a tile has changed or gone.\<close>

lemma image_where_insert:
  assumes "f t = f x" "\<forall>y \<in> R. f y \<noteq> f t"
  shows "f ` {y \<in> insert t R. P y} = (f ` {y \<in> insert x R. P y} - {f t}) \<union> (if P t then {f t} else {})"
    and "f ` {y \<in> R. P y} = f ` {y \<in> insert x R. P y} - {f x}"
proof -
  show rest: "f ` {y \<in> R. P y} = f ` {y \<in> insert x R. P y} - {f x}"
    using assms by auto
  have "f ` {y \<in> insert t R. P y} = f ` {y \<in> R. P y} \<union> (if P t then {f t} else {})" by auto
  then show "f ` {y \<in> insert t R. P y} = (f ` {y \<in> insert x R. P y} - {f t}) \<union> (if P t then {f t} else {})"
    unfolding rest assms(1) by simp
qed

lemma ids_where_update:
  assumes "distinct (map tile_id ts)" "k < length ts" "tile_id t = tile_id (ts ! k)"
  shows "tile_id ` {x \<in> set (ts[k := t]). P x} =
    (tile_id ` {x \<in> set ts. P x} - {tile_id t}) \<union> (if P t then {tile_id t} else {})"
    and "map tile_id (ts[k := t]) = map tile_id ts"
proof -
  let ?rest = "set (take k ts) \<union> set (drop (Suc k) ts)"
  have split: "ts = take k ts @ ts ! k # drop (Suc k) ts" by (rule erase_at_split[OF assms(2)])
  then have all: "set ts = insert (ts ! k) ?rest" by (metis Un_insert_right list.simps(15) set_append)
  have new: "set (ts[k := t]) = insert t ?rest" using assms(2) by (simp add: upd_conv_take_nth_drop)
  have "distinct (map tile_id (take k ts @ ts ! k # drop (Suc k) ts))" using split assms(1) by simp
  then have "tile_id t \<notin> tile_id ` ?rest" using assms(3) by auto
  then have "\<forall>y \<in> ?rest. tile_id y \<noteq> tile_id t" by (metis imageI)
  from image_where_insert(1)[OF assms(3) this] show "tile_id ` {x \<in> set (ts[k := t]). P x} =
    (tile_id ` {x \<in> set ts. P x} - {tile_id t}) \<union> (if P t then {tile_id t} else {})"
    unfolding all new .
  show "map tile_id (ts[k := t]) = map tile_id ts"
    using assms(2,3) by (simp add: map_update list_update_same_conv)
qed

lemma ids_where_erase:
  assumes "distinct (map tile_id ts)" "k < length ts"
  shows "tile_id ` {x \<in> set (erase_at k ts). P x} = tile_id ` {x \<in> set ts. P x} - {tile_id (ts ! k)}"
proof -
  let ?rest = "set (take k ts) \<union> set (drop (Suc k) ts)"
  have split: "ts = take k ts @ ts ! k # drop (Suc k) ts" by (rule erase_at_split[OF assms(2)])
  then have all: "set ts = insert (ts ! k) ?rest" by (metis Un_insert_right list.simps(15) set_append)
  have "distinct (map tile_id (take k ts @ ts ! k # drop (Suc k) ts))" using split assms(1) by simp
  then have "tile_id (ts ! k) \<notin> tile_id ` ?rest" by auto
  then have "\<forall>y \<in> ?rest. tile_id y \<noteq> tile_id (ts ! k)" by (metis imageI)
  note image_where_insert(2)[OF refl this]
  moreover have "set (erase_at k ts) = ?rest" by (simp add: erase_at_def)
  ultimately show ?thesis unfolding all by simp
qed

lemma minus_one:
  "A - {x} = B - {x} \<Longrightarrow> x \<in> B \<Longrightarrow> insert x A = B" "A - {x} = B - {x} \<Longrightarrow> x \<notin> B \<Longrightarrow> A - {x} = B"
  by blast+

lemma video_changed_inv:
  assumes "attached s" "distinct (map tile_id (tiles s))" "k < length (tiles s)" "distinct (rows s)" "told_ok s"
    and "videos_available s = (rows s \<noteq> [])" "own_known s"
    and "set (rows s) - {tile_id (tiles s ! k)} =
      tile_id ` {t \<in> set (tiles s). watched t \<and> tile_video t \<noteq> None} - {tile_id (tiles s ! k)}"
    and "\<not> watched (tiles s ! k) \<Longrightarrow> tile_id (tiles s ! k) \<notin> set (rows s)"
  shows "view_inv (on_video_changed k s)"
proof -
  let ?t = "tiles s ! k"
  let ?shown = "tile_id ` {t \<in> set (tiles s). watched t \<and> tile_video t \<noteq> None}"
  have at: "tile_id ?t \<in> ?shown \<longleftrightarrow> watched ?t \<and> tile_video ?t \<noteq> None"
  proof
    assume "tile_id ?t \<in> ?shown"
    then obtain t where t: "t \<in> set (tiles s)" "tile_id t = tile_id ?t" "watched t" "tile_video t \<noteq> None" by auto
    with assms(2,3) have "t = ?t" by (metis distinct_map inj_onD nth_mem)
    with t show "watched ?t \<and> tile_video ?t \<noteq> None" by simp
  qed (use assms(3) in auto)
  note add = add_participant_result[OF assms(4-6), of "tile_id ?t"]
  note remove = remove_participant_result[OF assms(4-6), of "tile_id ?t"]
  consider "\<not> watched ?t" | "watched ?t" "tile_video ?t \<noteq> None" | "watched ?t" "tile_video ?t = None" by blast
  then show ?thesis
  proof cases
    case 1
    with at assms show ?thesis by (auto simp: on_video_changed_def Let_def view_inv_def rows_match_def)
  next
    case 2
    with at have "tile_id ?t \<in> ?shown" by simp
    from minus_one(1)[OF assms(8) this] have "insert (tile_id ?t) (set (rows s)) = ?shown" .
    with 2 add assms(1,2,7) show ?thesis
      by (simp add: on_video_changed_def Let_def view_inv_def rows_match_def own_known_def)
  next
    case 3
    with at have "tile_id ?t \<notin> ?shown" by simp
    from minus_one(2)[OF assms(8) this] have "set (rows s) - {tile_id ?t} = ?shown" .
    with 3 remove assms(1,2,7) show ?thesis
      by (simp add: on_video_changed_def Let_def view_inv_def rows_match_def own_known_def)
  qed
qed

lemma with_tile_inv:
  assumes inv: "view_inv s"
    and f: "\<And>t. t \<in> set (tiles s) \<Longrightarrow> tile_id t = i \<Longrightarrow>
      \<exists>u tell. f t = Ok (u, tell) \<and> tile_id u = i \<and> watched u = watched t \<and> (tell \<or> tile_video u = tile_video t)"
  shows "\<exists>s'. with_tile i f s = Ok s' \<and> view_inv s'"
proof (cases "find_index (\<lambda>t. tile_id t = i) (tiles s)")
  case None
  with inv show ?thesis by (simp add: with_tile_def)
next
  case (Some k)
  then have k: "k < length (tiles s)" "tile_id (tiles s ! k) = i" using find_index_Some by blast+
  from f[OF nth_mem[OF k(1)] k(2)] obtain u tell where
    u: "f (tiles s ! k) = Ok (u, tell)" "tile_id u = i" "watched u = watched (tiles s ! k)"
    "tell \<or> tile_video u = tile_video (tiles s ! k)" by blast
  let ?s = "s\<lparr> tiles := (tiles s)[k := u] \<rparr>"
  let ?shown = "\<lambda>t. watched t \<and> tile_video t \<noteq> None"
  have d: "distinct (map tile_id (tiles s))" using inv by (simp add: view_inv_def)
  have same: "tile_id u = tile_id (tiles s ! k)" using k(2) u(2) by simp
  note upd = ids_where_update[OF d k(1) same]
  have ids: "tile_id ` set (tiles ?s) = tile_id ` set (tiles s)"
    using upd(2) by (metis list.set_map room_view.select_convs(2) room_view.surjective room_view.update_convs(2))
  have shown: "set (rows s) = tile_id ` {t \<in> set (tiles s). ?shown t}"
    using inv by (simp add: view_inv_def rows_match_def)
  have i_shown: "i \<in> set (rows s) \<Longrightarrow> ?shown (tiles s ! k)"
  proof -
    assume "i \<in> set (rows s)"
    with shown obtain t where "t \<in> set (tiles s)" "tile_id t = i" "?shown t" by auto
    with k d show "?shown (tiles s ! k)" by (metis distinct_map inj_onD nth_mem)
  qed
  have step: "with_tile i f s = Ok (if tell then on_video_changed k ?s else ?s)"
    using Some u(1) by (simp add: with_tile_def)
  show ?thesis
  proof (cases tell)
    case True
    have "view_inv (on_video_changed k ?s)"
    proof (rule video_changed_inv)
      show "set (rows ?s) - {tile_id (tiles ?s ! k)} =
          tile_id ` {t \<in> set (tiles ?s). ?shown t} - {tile_id (tiles ?s ! k)}"
        using upd(1)[of ?shown] shown k(1) by auto
      show "\<not> watched (tiles ?s ! k) \<Longrightarrow> tile_id (tiles ?s ! k) \<notin> set (rows ?s)"
        using i_shown u k(1) by auto
    qed (use inv k(1) upd(2) ids in \<open>simp_all add: view_inv_def rows_match_def told_ok_fields own_known_def\<close>)
    with step True show ?thesis by simp
  next
    case False
    have set_s: "set (tiles ?s) = set ((tiles s)[k := u])" by simp
    have "set (rows s) = tile_id ` {t \<in> set (tiles ?s). ?shown t}"
    proof (cases "?shown u")
      case True
      with u False k have "i \<in> set (rows s)" unfolding shown by (metis (mono_tags, lifting) imageI mem_Collect_eq nth_mem)
      then have "set (rows s) = set (rows s) - {i} \<union> {i}" by blast
      with True show ?thesis unfolding set_s upd(1)[of ?shown] u(2) shown[symmetric] by simp
    next
      case not_shown: False
      with u False i_shown have i: "i \<notin> set (rows s)" by auto
      have none: "(if ?shown u then {i} else {}) = {}" using not_shown by (rule if_not_P)
      show ?thesis unfolding set_s upd(1)[of ?shown] u(2) shown[symmetric] none using i by simp
    qed
    with inv upd(2) ids have "view_inv ?s"
      by (simp add: view_inv_def rows_match_def told_ok_fields own_known_def)
    with step False show ?thesis by simp
  qed
qed

lemma new_tile_result:
  assumes "length (audios p) \<le> 1"
  shows "\<exists>t. new_tile b mu de p = Ok t \<and> tile_id t = member_id p \<and> \<not> watched t"
proof -
  have fields: "tile_id (fold video_added vs t) = tile_id t \<and> watched (fold video_added vs t) = watched t \<and>
      level_source (fold video_added vs t) = level_source t" for vs and t :: "('v, 'a) tile"
    by (induction vs arbitrary: t) (simp_all add: video_added_def)
  show ?thesis
    using assms
    by (cases "audios p"; cases "is_own p") (auto simp: new_tile_def Let_def fields audio_added_def)
qed

lemma joins_inv:
  assumes inv: "view_inv s" and ok: "member_id p \<notin> tile_id ` set (tiles s)" "length (audios p) \<le> 1"
  shows "\<exists>s'. on_joins b mu de [p] s = Ok s' \<and> view_inv s'"
proof (cases "is_bot p")
  case True
  with inv show ?thesis by (simp add: on_joins_def filter_joining_def)
next
  case False
  from new_tile_result[OF ok(2)] obtain t where
    t: "new_tile b mu de p = Ok t" "tile_id t = member_id p" "\<not> watched t" by blast
  let ?w = "t\<lparr> watched := True \<rparr>"
  let ?s = "s\<lparr> tiles := tiles s @ [?w] \<rparr>"
  let ?k = "length (tiles s)"
  have "view_inv (on_video_changed ?k (?s\<lparr> own_tile := if member_id p = own_id s then Some (own_id s) else own_tile s \<rparr>))"
  proof (rule video_changed_inv)
  qed (use inv ok t in \<open>auto simp: view_inv_def rows_match_def told_ok_fields own_known_def\<close>)
  moreover have "on_video_changed ?k (?s\<lparr> own_tile := i \<rparr>) = (on_video_changed ?k ?s)\<lparr> own_tile := i \<rparr>" for i
    by (simp add: on_video_changed_def Let_def add_participant_def remove_participant_def
        recalculate_video_available_def split: option.split)
  ultimately have final: "view_inv ((on_video_changed ?k ?s)\<lparr> own_tile := if member_id p = own_id s then Some (own_id s) else own_tile s \<rparr>)"
    by simp
  have not_row: "tile_id t \<notin> set (rows s)" using inv ok t(2) by (auto simp: view_inv_def rows_match_def)
  have inserted: "on_participants_inserted b ?k ?k (s\<lparr> tiles := tiles s @ [t] \<rparr>) = Ok (on_video_changed ?k ?s)"
  proof (cases "tile_video t")
    case None
    from not_row have "find_index (\<lambda>j. j = tile_id t) (rows s) = None" by (auto simp: find_index_None)
    with None show ?thesis
      by (simp add: on_participants_inserted_def participant_at_def on_video_changed_def remove_participant_def)
  qed (simp add: on_participants_inserted_def participant_at_def on_video_changed_def)
  have kept: "own_tile (on_video_changed ?k ?s) = own_tile s" "own_id (on_video_changed ?k ?s) = own_id s"
    "attached (on_video_changed ?k ?s)" "tiles (on_video_changed ?k ?s) = tiles s @ [?w]"
    using inv
    by (auto simp: on_video_changed_def Let_def add_participant_def remove_participant_def view_inv_def split: option.split)
  have "on_joins b mu de [p] s =
    (if member_id p = own_id s then set_own b (on_video_changed ?k ?s) else Ok (on_video_changed ?k ?s))"
    using False t inv kept inserted by (simp add: on_joins_def filter_joining_def Let_def view_inv_def)
  moreover have "set_own b (on_video_changed ?k ?s) = Ok ((on_video_changed ?k ?s)\<lparr> own_tile := Some (own_id s) \<rparr>)"
    if "member_id p = own_id s"
  proof -
    have "find_first (\<lambda>u. tile_id u = own_id s) (tiles s @ [?w]) \<noteq> None"
      unfolding find_first_None using that t(2) by simp
    then obtain x where x: "find_first (\<lambda>u. tile_id u = own_id s) (tiles s @ [?w]) = Some x" by blast
    from find_first_Some[OF x] have "tile_id x = own_id s" by simp
    with x have "get_own (on_video_changed ?k ?s) = Some (own_id s)" by (simp add: get_own_def kept)
    then show ?thesis by (simp add: set_own_def)
  qed
  moreover have "(on_video_changed ?k ?s)\<lparr> own_tile := own_tile s \<rparr> = on_video_changed ?k ?s"
    using kept(1) by (cases "on_video_changed ?k ?s") simp
  ultimately show ?thesis using final by auto
qed

lemma leaves_inv:
  assumes inv: "view_inv s"
  shows "\<exists>s'. on_leaves b [i] s = Ok s' \<and> view_inv s'"
proof (cases "find_index (\<lambda>t. tile_id t = i) (tiles s)")
  case None
  with inv show ?thesis by (simp add: on_leaves_def on_leave_def)
next
  case (Some k)
  then have k: "k < length (tiles s)" "tile_id (tiles s ! k) = i" using find_index_Some by blast+
  have parts: "attached s" "distinct (map tile_id (tiles s))" "distinct (rows s)" "told_ok s"
    "videos_available s = (rows s \<noteq> [])" "own_known s"
    "set (rows s) = tile_id ` {t \<in> set (tiles s). watched t \<and> tile_video t \<noteq> None}"
    using inv by (simp_all add: view_inv_def rows_match_def)
  note r = remove_participant_result[OF parts(3-5), of i]
  note e = ids_where_erase[OF parts(2) k(1)]
  have "tile_id ` set (erase_at k (tiles s)) \<subseteq> tile_id ` set (tiles s)" using set_erase_at[of k "tiles s"] by blast
  then have "view_inv ((remove_participant i s)\<lparr> tiles := erase_at k (tiles s) \<rparr>)"
    using r parts e[of "\<lambda>t. watched t \<and> tile_video t \<noteq> None"] k(2) distinct_erase_at[OF parts(2), of k]
    by (auto simp: view_inv_def rows_match_def told_ok_fields own_known_def map_erase_at)
  with Some parts(1) k r show ?thesis
    by (simp add: on_leaves_def on_leave_def on_participants_about_to_be_removed_def participant_at_def)
qed

lemma view_step_ok:
  assumes inv: "view_inv s"
  shows "\<exists>t. view_step b mu de s e = Ok t \<and> view_inv t"
proof (cases "view_event_ok s e")
  case False
  with inv show ?thesis by (simp add: view_step_def)
next
  case ok: True
  have "\<exists>t. view_action b mu de s e = Ok t \<and> view_inv t"
  proof (cases e)
    case (Joined_room p)
    with joins_inv[OF inv] ok show ?thesis by simp
  next
    case (Left_room i)
    with leaves_inv[OF inv] show ?thesis by simp
  next
    case (Video_came i v)
    show ?thesis unfolding Video_came view_action.simps by (rule with_tile_inv[OF inv]) (auto simp: video_added_def)
  next
    case (Video_went i v)
    show ?thesis unfolding Video_went view_action.simps
      by (rule with_tile_inv[OF inv]) (use ok Video_went in \<open>auto simp: video_removed_def\<close>)
  next
    case (Audio_came i a)
    show ?thesis unfolding Audio_came view_action.simps
      by (rule with_tile_inv[OF inv]) (use ok Audio_came in \<open>auto simp: audio_added_def\<close>)
  next
    case (Audio_went i a)
    show ?thesis unfolding Audio_went view_action.simps
      by (rule with_tile_inv[OF inv]) (use ok Audio_went in \<open>auto simp: audio_removed_def\<close>)
  next
    case (Muted i m)
    show ?thesis unfolding Muted view_action.simps
      by (rule with_tile_inv[OF inv]) (use ok Muted in \<open>auto simp: on_muted_def\<close>)
  next
    case (Deafed i m)
    show ?thesis unfolding Deafed view_action.simps
      by (rule with_tile_inv[OF inv]) (use ok Deafed in \<open>auto simp: on_deafed_def\<close>)
  qed
  with ok show ?thesis by (simp add: view_step_def)
qed

interpretation viewing: total_machine
  "view_step b mu de :: ('v, 'a) room_view \<Rightarrow> ('v, 'a) view_event \<Rightarrow> ('v, 'a) room_view res" view_inv "\<lambda>e. True"
  for b mu de
proof
  fix s t :: "('v, 'a) room_view" and e :: "('v, 'a) view_event"
  assume "view_inv s" "view_step b mu de s e = Ok t"
  with view_step_ok[of s b mu de e] show "view_inv t" by auto
next
  fix s :: "('v, 'a) room_view" and e :: "('v, 'a) view_event"
  assume "view_inv s"
  with view_step_ok[of s b mu de e] show "\<exists>t. view_step b mu de s e = Ok t" by auto
qed

lemma new_tiles_result:
  assumes "\<forall>p \<in> set ps. length (audios p) \<le> 1"
  shows "\<exists>ts. new_tiles b mu de ps = Ok ts \<and> map tile_id ts = map member_id ps \<and> (\<forall>t \<in> set ts. \<not> watched t)"
  using assms
proof (induction ps)
  case Nil
  then show ?case by simp
next
  case (Cons p ps)
  then obtain ts where "new_tiles b mu de ps = Ok ts" "map tile_id ts = map member_id ps" "\<forall>t \<in> set ts. \<not> watched t"
    by auto
  moreover obtain t where "new_tile b mu de p = Ok t" "tile_id t = member_id p" "\<not> watched t"
    using new_tile_result[of p b mu de] Cons.prems by auto
  ultimately show ?case by simp
qed

lemma fresh_view_inv:
  assumes "distinct (map member_id ps)" "\<forall>p \<in> set ps. length (audios p) \<le> 1"
  shows "\<exists>s. fresh_room_view b mu de own ps = Ok s \<and> view_inv s"
proof -
  let ?js = "filter_joining ps"
  let ?s = "\<lambda>ts. \<lparr> own_id = own, tiles = ts, attached = False, rows = [], own_tile = None, videos_available = False,
    told_available = [] \<rparr>"
  have "\<forall>p \<in> set ?js. length (audios p) \<le> 1" using assms(2) by (simp add: filter_joining_def)
  from new_tiles_result[OF this] obtain ts where
    ts: "new_tiles b mu de ?js = Ok ts" "map tile_id ts = map member_id ?js" "\<forall>t \<in> set ts. \<not> watched t" by blast
  have "distinct (map tile_id ts)"
    unfolding ts(2) filter_joining_def using assms(1) by (simp add: distinct_map_filter)
  moreover have "on_joins b mu de ps (?s []) = Ok (?s ts)"
    using ts by (cases "?js = []") (simp_all add: on_joins_def Let_def)
  moreover have "get_own (s\<lparr> attached := True \<rparr>) = get_own s" for s :: "('v, 'a) room_view"
    by (simp add: get_own_def)
  moreover have "get_own (?s ts) = Some own" if "own \<in> tile_id ` set ts"
  proof -
    have "find_first (\<lambda>t. tile_id t = own) ts \<noteq> None" unfolding find_first_None using that by auto
    then obtain x where x: "find_first (\<lambda>t. tile_id t = own) ts = Some x" by blast
    with find_first_Some[OF x] show ?thesis by (simp add: get_own_def)
  qed
  ultimately show ?thesis
    using ts(3)
    by (auto simp: fresh_room_view_def view_inv_def rows_match_def told_ok_def own_known_def recalculate_video_available_def)
qed

text \<open>C37. Whoever comes and goes, in whatever order videos and audios start and end:
  no assertion fires, the video wall shows exactly the tiles that joined after the
  room was opened and have a video, once each, and the room says that videos are
  available exactly if the wall is not empty, telling every change once.\<close>
theorem video_wall_matches:
  assumes "distinct (map member_id ps)" "\<forall>p \<in> set ps. length (audios p) \<le> 1"
  shows "\<exists>s. rbind (fresh_room_view b mu de own ps) (\<lambda>s. run_events (view_step b mu de) s es) = Ok s \<and>
    distinct (rows s) \<and> set (rows s) = tile_id ` {t \<in> set (tiles s). watched t \<and> tile_video t \<noteq> None} \<and>
    (videos_available s \<longleftrightarrow> rows s \<noteq> []) \<and> distinct_adj (told_available s) \<and>
    (own_id s \<in> tile_id ` set (tiles s) \<longrightarrow> own_tile s = Some (own_id s))"
proof -
  from fresh_view_inv[OF assms] obtain s0 where
    s0: "fresh_room_view b mu de own ps = Ok s0" "view_inv s0" by blast
  from viewing.run_ok[OF s0(2), of es b mu de] obtain s where
    s: "run_events (view_step b mu de) s0 es = Ok s" "view_inv s" by auto
  with s0(1) show ?thesis by (auto simp: view_inv_def rows_match_def told_ok_def own_known_def)
qed

text \<open>Two see each other: the second shows a video, which ends when the first leaves.\<close>

definition lone_member :: "string \<Rightarrow> (nat, nat) member" where
  "lone_member i = \<lparr> member_id = i, is_bot = False, is_own = (i = ''me''), videos = [], audios = [] \<rparr>"

lemma video_wall_matches_witness:
  "\<exists>s. rbind (fresh_room_view Debug (\<lambda>i. False) (\<lambda>i. False) ''me'' [lone_member ''me''])
       (\<lambda>s. run_events (view_step Debug (\<lambda>i. False) (\<lambda>i. False)) s
         [Joined_room (lone_member ''you''), Video_came ''you'' 7, Audio_came ''you'' 8, Muted ''you'' True]) = Ok s \<and>
     (videos_available s \<longleftrightarrow> rows s \<noteq> [])"
  using video_wall_matches[of "[lone_member ''me'']" Debug "\<lambda>i. False" "\<lambda>i. False" "''me''"
      "[Joined_room (lone_member ''you''), Video_came ''you'' 7, Audio_came ''you'' 8, Muted ''you'' True]"]
  by (auto simp: lone_member_def)

text \<open>A second video replaces the first; when the second ends, nothing is shown although
  the first goes on, and the end of the first is an assertion.\<close>

lemma second_video_asserts:
  assumes "tile_video (video_added w (video_added v t)) = Some w"
  shows "video_removed b w (video_added w (video_added v t)) = Ok (t\<lparr> tile_video := None \<rparr>, True) \<and>
    video_removed Debug v (t\<lparr> tile_video := None \<rparr>) = Assert_failed \<and>
    video_removed Release v (t\<lparr> tile_video := None \<rparr>) = Undefined"
  by (simp add: video_added_def video_removed_def boost_assert_def)

lemma replaced_video_stays: "w \<noteq> v \<Longrightarrow> video_removed b v (video_added w t) = Ok (video_added w t, False)"
  by (auto simp: video_added_def video_removed_def)

text \<open>When the own tile goes, which happens while a room is left, the room still points
  to it.\<close>

lemma own_tile_dangles:
  assumes "tiles s = [t]" "tile_id t = own_id s" "own_tile s = Some (own_id s)" "attached s"
  shows "\<exists>u. on_leaves b [own_id s] s = Ok u \<and> tiles u = [] \<and> own_tile u = Some (own_id s)"
  using assms
  by (auto simp: on_leaves_def on_leave_def on_participants_about_to_be_removed_def participant_at_def
      remove_participant_def recalculate_video_available_def Let_def erase_at_def split: option.split)

text \<open>Who was there when the room was opened is never on the wall.\<close>

lemma present_not_watched:
  assumes "distinct (map member_id ps)" "\<forall>p \<in> set ps. length (audios p) \<le> 1" "fresh_room_view b mu de own ps = Ok s"
  shows "rows s = []"
  using assms(3)
  by (auto simp: fresh_room_view_def on_joins_def Let_def res_simps split: if_splits)


section \<open>The chat\<close>

record matrix_message =
  body :: string
  sender_id :: string
  sender_name :: string
  sent_at :: int

record chat_message =
  text_body :: string
  sender :: string
  timestamp :: int
  own_message :: bool

definition cast_matrix_message :: "string \<Rightarrow> matrix_message \<Rightarrow> chat_message" where
  "cast_matrix_message own m =
     \<lparr> text_body = body m, sender = sender_name m, timestamp = sent_at m, own_message = (sender_id m = own) \<rparr>"

datatype row_type = Message_row | Join_row | Leave_row

record chat_row =
  row_type :: row_type
  row_participant :: string
  row_name :: string
  row_own :: bool
  row_time :: int
  row_message :: string

text \<open>The id of the participant is the name of the sender.\<close>

definition cast_client_message :: "chat_message \<Rightarrow> chat_row" where
  "cast_client_message m =
     \<lparr> row_type = Message_row, row_participant = sender m, row_name = sender m, row_own = own_message m,
       row_time = timestamp m, row_message = text_body m \<rparr>"

text \<open>\<open>announced\<close> is the number of rows Qt has been told of.\<close>

record chat_view =
  messages :: "chat_row list"
  announced :: nat

definition fresh_chat_view :: "chat_message list \<Rightarrow> chat_view" where
  "fresh_chat_view ms = \<lparr> messages = map cast_client_message ms, announced = length ms \<rparr>"

definition add_message :: "chat_row \<Rightarrow> chat_view \<Rightarrow> chat_view" where
  "add_message r s = s\<lparr> announced := Suc (announced s), messages := messages s @ [r] \<rparr>"

definition person_row :: "row_type \<Rightarrow> string \<Rightarrow> string \<Rightarrow> chat_row" where
  "person_row ty i n =
     \<lparr> row_type = ty, row_participant = i, row_name = n, row_own = False, row_time = 0, row_message = [] \<rparr>"

definition on_participants_added :: "(string \<times> string \<times> bool) list \<Rightarrow> chat_view \<Rightarrow> chat_view" where
  "on_participants_added added s =
     (if added = [] then s
      else fold (\<lambda>(i, n, robot) s. if robot then s else s\<lparr> messages := messages s @ [person_row Join_row i n] \<rparr>) added
        (s\<lparr> announced := Suc (announced s) \<rparr>))"

definition on_participants_removed :: "(string \<Rightarrow> string) \<Rightarrow> string list \<Rightarrow> chat_view \<Rightarrow> chat_view" where
  "on_participants_removed name_of removed s =
     (if removed = [] then s
      else fold (\<lambda>i s. s\<lparr> messages := messages s @ [person_row Leave_row i (name_of i)] \<rparr>) removed
        (s\<lparr> announced := Suc (announced s) \<rparr>))"

definition chat_data :: "build \<Rightarrow> nat \<Rightarrow> chat_view \<Rightarrow> chat_row res" where
  "chat_data b row s =
     rbind (boost_assert b (row < length (messages s))) (\<lambda>u.
     if row < length (messages s) then Ok (messages s ! row) else Undefined)"

datatype chat_event = Got_message chat_message | Person_added string string bool | Person_removed string

fun chat_step :: "(string \<Rightarrow> string) \<Rightarrow> chat_view \<Rightarrow> chat_event \<Rightarrow> chat_view" where
  "chat_step name_of s (Got_message m) = add_message (cast_client_message m) s"
| "chat_step name_of s (Person_added i n robot) = on_participants_added [(i, n, robot)] s"
| "chat_step name_of s (Person_removed i) = on_participants_removed name_of [i] s"

definition bots_added :: "chat_event list \<Rightarrow> nat" where
  "bots_added es = length (filter (\<lambda>e. \<exists>i n. e = Person_added i n True) es)"

text \<open>Every bot that joins leaves the chat one announced row short: with a bot in the
  room, Qt asks for a row that does not exist.\<close>
theorem bots_overannounced:
  "announced (foldl (chat_step name_of) (fresh_chat_view ms) es) =
     length (messages (foldl (chat_step name_of) (fresh_chat_view ms) es)) + bots_added es \<and>
   (0 < bots_added es \<longrightarrow>
     chat_data Debug (announced (foldl (chat_step name_of) (fresh_chat_view ms) es) - 1)
       (foldl (chat_step name_of) (fresh_chat_view ms) es) = Assert_failed)"
proof -
  have "announced (foldl (chat_step name_of) s es) + length (messages s) =
    length (messages (foldl (chat_step name_of) s es)) + bots_added es + announced s" for s
  proof (induction es arbitrary: s)
    case Nil
    then show ?case by (simp add: bots_added_def)
  next
    case (Cons e es)
    show ?case
      using Cons.IH[of "chat_step name_of s e"]
      by (cases e) (auto simp: bots_added_def add_message_def on_participants_added_def on_participants_removed_def
          split: if_splits)
  qed
  from this[of "fresh_chat_view ms"] show ?thesis
    by (auto simp: fresh_chat_view_def chat_data_def boost_assert_def)
qed

lemma bots_overannounced_witness:
  "chat_data Debug 0 (foldl (chat_step (\<lambda>i. i)) (fresh_chat_view []) [Person_added ''b'' ''Fubble Bot'' True]) = Assert_failed"
  using bots_overannounced[of "\<lambda>i. i" "[]" "[Person_added ''b'' ''Fubble Bot'' True]"]
  by (simp add: bots_added_def fresh_chat_view_def on_participants_added_def)

end
