(* ===== verification/Hw_Encoder.thy ===== *)
theory Hw_Encoder
  imports Stateful "HOL-Library.While_Combinator" "HOL-Library.Word"
begin

unbundle bit_operations_syntax

text \<open>
  The camera that encodes (reader.cpp and video\_encoder.cpp in
  src/fubble/v4l2\_hw\_h264).

  The kernel is a parameter: what it answers to a system call may depend on all calls
  so far, which the state records. An answer is an error or the fields the code reads
  of the structure it gets back; fields the kernel does not write are zero. What throws
  a \<open>v4l2_error\<close> is a \<open>Runtime_error\<close> here. A call that is interrupted for ever, and a loop
  over the controls that goes on for ever, never return: their outcome is \<open>Undefined\<close>.
\<close>

section \<open>System calls\<close>

datatype errno = EINTR | EINVAL | EAGAIN | EIO | EBADF | Other_errno

datatype call =
    Stat
  | Open_device
  | Close_device
  | Query_ctrl bool nat
  | Query_cap
  | Crop_cap
  | Set_crop
  | Set_format int int
  | Set_parm int
  | Set_ctrl nat int
  | Request_buffers nat
  | Query_buffer nat
  | Map_memory nat nat
  | Unmap_memory nat nat
  | Queue_buffer nat
  | Dequeue_buffer
  | Stream_on
  | Stream_off

type_synonym kernel = "(int \<times> call) list \<Rightarrow> errno + nat list"

record config =
  config_width :: int
  config_height :: int
  config_framerate :: int

text \<open>\<open>buffers\<close> are starts and lengths; \<open>frames\<close> what \<open>on_data\<close> has told.\<close>

record reader =
  fd :: int
  buffers :: "(nat \<times> nat) list"
  running :: bool
  available_ctrls :: "nat set"
  calls :: "(int \<times> call) list"
  frames :: "(nat \<times> nat) list"

definition fresh_reader :: reader where
  "fresh_reader = \<lparr> fd = -1, buffers = [], running = False, available_ctrls = {}, calls = [], frames = [] \<rparr>"

definition field_of :: "nat list \<Rightarrow> nat \<Rightarrow> nat" where
  "field_of xs i = (if i < length xs then xs ! i else 0)"

definition throw_v4l2 :: "(reader, 'a) prog" where
  "throw_v4l2 = lift_res (Throw Runtime_error)"

definition syscall :: "kernel \<Rightarrow> int \<Rightarrow> call \<Rightarrow> (reader, errno + nat list) prog" where
  "syscall K f c = (\<lambda>s. let l = calls s @ [(f, c)] in (s\<lparr> calls := l \<rparr>, Ok (K l)))"

definition checked :: "errno + nat list \<Rightarrow> (reader, nat list) prog" where
  "checked a = (case a of Inl e \<Rightarrow> throw_v4l2 | Inr x \<Rightarrow> ret x)"

definition xioctl :: "kernel \<Rightarrow> int \<Rightarrow> call \<Rightarrow> (reader, errno + nat list) prog" where
  "xioctl K f c = (\<lambda>s.
     case while_option (\<lambda>l. K l = Inl EINTR) (\<lambda>l. l @ [(f, c)]) (calls s @ [(f, c)]) of
       None \<Rightarrow> (s, Undefined)
     | Some l \<Rightarrow> (s\<lparr> calls := l \<rparr>, Ok (K l)))"

definition xioctl_throw :: "kernel \<Rightarrow> int \<Rightarrow> call \<Rightarrow> (reader, nat list) prog" where
  "xioctl_throw K f c = sbind (xioctl K f c) checked"

definition ioctl_fd :: "kernel \<Rightarrow> call \<Rightarrow> (reader, nat list) prog" where
  "ioctl_fd K c = sbind (gets fd) (\<lambda>f. xioctl_throw K f c)"

lemma xioctl_once:
  "K (calls s @ [(f, c)]) \<noteq> Inl EINTR \<Longrightarrow>
   xioctl K f c s = (s\<lparr> calls := calls s @ [(f, c)] \<rparr>, Ok (K (calls s @ [(f, c)])))"
  by (simp add: xioctl_def while_option_unfold)


section \<open>Opening and closing\<close>

definition open_device :: "kernel \<Rightarrow> (reader, unit) prog" where
  "open_device K =
     sbind (sbind (syscall K (-1) Stat) checked) (\<lambda>x.
     if field_of x 0 = 0 then throw_v4l2
     else sbind (syscall K (-1) Open_device) (\<lambda>a. case a of
         Inl e \<Rightarrow> sthen (update (\<lambda>s. s\<lparr> fd := -1 \<rparr>)) throw_v4l2
       | Inr x \<Rightarrow> update (\<lambda>s. s\<lparr> fd := int (field_of x 0) \<rparr>)))"

text \<open>A query is the flag for the next control and an id. The id comes back without the
  flag; for a disabled control the flag is not set again.\<close>

definition enumerate_step ::
  "kernel \<Rightarrow> int \<Rightarrow> (int \<times> call) list \<times> nat set \<Rightarrow> (int \<times> call) list \<times> nat set" where
  "enumerate_step K f = (\<lambda>(l, found).
     let x = projr (K l); i = field_of x 0 in
     if field_of x 1 \<noteq> 0 then (l @ [(f, Query_ctrl False i)], found)
     else (l @ [(f, Query_ctrl True i)], insert i found))"

definition enumerate_ctrls :: "kernel \<Rightarrow> (reader, unit) prog" where
  "enumerate_ctrls K = (\<lambda>s.
     case while_option (\<lambda>(l, found). \<not> isl (K l)) (enumerate_step K (fd s))
         (calls s @ [(fd s, Query_ctrl True 0)], available_ctrls s) of
       None \<Rightarrow> (s, Undefined)
     | Some (l, found) \<Rightarrow> (s\<lparr> calls := l, available_ctrls := found \<rparr>,
         if K l = Inl EINVAL then Ok () else Throw Runtime_error))"

text \<open>The ids of three controls.\<close>

definition repeat_seq_header :: nat where "repeat_seq_header = 0x9909e2"
definition bitrate_mode :: nat where "bitrate_mode = 0x9909ce"
definition bitrate_ctrl :: nat where "bitrate_ctrl = 0x9909cf"

definition map_failed :: nat where
  "map_failed = 2 ^ 64 - 1"

definition map_buffer :: "kernel \<Rightarrow> nat \<Rightarrow> (reader, unit) prog" where
  "map_buffer K i =
     sbind (ioctl_fd K (Query_buffer i)) (\<lambda>x.
     let len = field_of x 0 in
     sbind (gets fd) (\<lambda>f.
     sbind (syscall K f (Map_memory len (field_of x 1))) (\<lambda>a. case a of
         Inl e \<Rightarrow> sthen (update (\<lambda>s. s\<lparr> buffers := (buffers s)[i := (map_failed, len)] \<rparr>)) throw_v4l2
       | Inr y \<Rightarrow> update (\<lambda>s. s\<lparr> buffers := (buffers s)[i := (field_of y 0, len)] \<rparr>))))"

definition init_mmap :: "kernel \<Rightarrow> (reader, unit) prog" where
  "init_mmap K =
     sbind (ioctl_fd K (Request_buffers 4)) (\<lambda>x.
     let count = field_of x 0 in
     if count < 2 then throw_v4l2
     else sthen (update (\<lambda>s. s\<lparr> buffers := take count (buffers s @ replicate (count - length (buffers s)) (0, 0)) \<rparr>))
       (for_each [0..<count] (map_buffer K)))"

definition set_ctrl_if :: "kernel \<Rightarrow> nat \<Rightarrow> int \<Rightarrow> (reader, unit) prog" where
  "set_ctrl_if K i v = sbind (gets available_ctrls) (\<lambda>cs.
     if i \<in> cs then sbind (ioctl_fd K (Set_ctrl i v)) (\<lambda>x. ret ()) else ret ())"

text \<open>The fields of the capabilities are whether the device captures and streams.
  Errors of cropping are ignored. The sizes computed at the end are not used.\<close>

definition init_device :: "kernel \<Rightarrow> config \<Rightarrow> (reader, unit) prog" where
  "init_device K c =
     sbind (ioctl_fd K Query_cap) (\<lambda>caps.
     if field_of caps 0 = 0 \<or> field_of caps 1 = 0 then throw_v4l2
     else sbind (gets fd) (\<lambda>f.
       sbind (xioctl K f Crop_cap) (\<lambda>a.
       sthen (if isl a then ret () else sbind (xioctl K f Set_crop) (\<lambda>a. ret ()))
       (sbind (ioctl_fd K (Set_format (config_width c) (config_height c))) (\<lambda>x.
        sbind (ioctl_fd K (Set_parm (config_framerate c))) (\<lambda>x.
        sthen (set_ctrl_if K repeat_seq_header 1) (init_mmap K)))))))"

text \<open>The constant bitrate is the value 1 of the mode.\<close>

definition set_bitrate :: "kernel \<Rightarrow> int \<Rightarrow> (reader, unit) prog" where
  "set_bitrate K bitrate = sbind (gets available_ctrls) (\<lambda>cs.
     if bitrate_ctrl \<notin> cs then ret ()
     else sthen (set_ctrl_if K bitrate_mode 1) (set_ctrl_if K bitrate_ctrl bitrate))"

definition start_capturing :: "kernel \<Rightarrow> (reader, unit) prog" where
  "start_capturing K = sbind (gets (\<lambda>s. length (buffers s))) (\<lambda>n.
     sthen (for_each [0..<n] (\<lambda>i. sbind (ioctl_fd K (Queue_buffer i)) (\<lambda>x. ret ())))
       (sbind (ioctl_fd K Stream_on) (\<lambda>x. ret ())))"

definition initialise :: "kernel \<Rightarrow> config \<Rightarrow> int \<Rightarrow> (reader, unit) prog" where
  "initialise K c start_bitrate = sbind (gets fd) (\<lambda>f.
     if 0 \<le> f then ret ()
     else sthen (open_device K) (sthen (enumerate_ctrls K) (sthen (init_device K c)
       (sthen (set_bitrate K start_bitrate) (start_capturing K)))))"

definition stop_capturing :: "kernel \<Rightarrow> (reader, unit) prog" where
  "stop_capturing K =
     sthen (update (\<lambda>s. s\<lparr> running := False \<rparr>)) (sbind (ioctl_fd K Stream_off) (\<lambda>x. ret ()))"

definition uninit_device :: "kernel \<Rightarrow> (reader, unit) prog" where
  "uninit_device K = sbind (gets buffers) (\<lambda>bs.
     sthen (for_each bs (\<lambda>(start, len). sbind (sbind (syscall K (-1) (Unmap_memory start len)) checked) (\<lambda>x. ret ())))
       (update (\<lambda>s. s\<lparr> buffers := [] \<rparr>)))"

definition close_device :: "kernel \<Rightarrow> (reader, unit) prog" where
  "close_device K = sbind (gets fd) (\<lambda>f.
     sbind (sbind (syscall K f Close_device) checked) (\<lambda>x. update (\<lambda>s. s\<lparr> fd := -1 \<rparr>)))"

definition stop :: "kernel \<Rightarrow> (reader, unit) prog" where
  "stop K = sthen (stop_capturing K) (sthen (uninit_device K) (close_device K))"

text \<open>What the destructor throws ends the program.\<close>

definition destroy_reader :: "kernel \<Rightarrow> (reader, unit) prog" where
  "destroy_reader K = stop K"


section \<open>Reading frames\<close>

definition mainloop :: "(reader, unit) prog" where
  "mainloop = update (\<lambda>s. if running s then s else s\<lparr> running := True \<rparr>)"

definition process_image :: "nat \<Rightarrow> nat \<Rightarrow> (reader, unit) prog" where
  "process_image start size_used = update (\<lambda>s.
     if running s then s\<lparr> frames := frames s @ [(start, size_used)] \<rparr> else s)"

definition read_frame :: "build \<Rightarrow> kernel \<Rightarrow> (reader, nat) prog" where
  "read_frame b K = sbind (gets fd) (\<lambda>f.
     sbind (xioctl K f Dequeue_buffer) (\<lambda>a. case a of
       Inl e \<Rightarrow> if e = EAGAIN then ret 0 else throw_v4l2
     | Inr x \<Rightarrow>
         let i = field_of x 0 in
         sbind (gets (\<lambda>s. length (buffers s))) (\<lambda>n.
         sthen (sassert b (i < n))
         (sbind (gets buffers) (\<lambda>bs.
          if n \<le> i then lift_res Undefined
          else sthen (process_image (fst (bs ! i)) (field_of x 1))
            (sbind (ioctl_fd K (Queue_buffer i)) (\<lambda>x. ret 1)))))))"

datatype selected = Interrupted | Select_failed | Timed_out | Readable

text \<open>One turn of the loop of the thread.\<close>

definition read_turn :: "build \<Rightarrow> kernel \<Rightarrow> selected \<Rightarrow> (reader, unit) prog" where
  "read_turn b K r =
     (case r of
        Interrupted \<Rightarrow> ret ()
      | Select_failed \<Rightarrow> throw_v4l2
      | Timed_out \<Rightarrow> ret ()
      | Readable \<Rightarrow> sbind (read_frame b K) (\<lambda>n. ret ()))"


section \<open>The controls\<close>

text \<open>The documented answers: with the flag, the control with the least greater id;
  without it, the control itself. \<open>cs\<close> are the ids and whether they are disabled.\<close>

fun next_control :: "(nat \<times> bool) list \<Rightarrow> nat \<Rightarrow> (nat \<times> bool) option" where
  "next_control [] i = None"
| "next_control ((j, d) # cs) i = (if i < j then Some (j, d) else next_control cs i)"

definition control_answer :: "(nat \<times> bool) option \<Rightarrow> errno + nat list" where
  "control_answer c = (case c of None \<Rightarrow> Inl EINVAL | Some (j, d) \<Rightarrow> Inr [j, if d then 1 else 0])"

definition knows_controls :: "(nat \<times> bool) list \<Rightarrow> kernel \<Rightarrow> bool" where
  "knows_controls cs K \<longleftrightarrow>
     (\<forall>l f i. K (l @ [(f, Query_ctrl True i)]) = control_answer (next_control cs i)) \<and>
     (\<forall>l f i. K (l @ [(f, Query_ctrl False i)]) = control_answer (map_option (Pair i) (map_of cs i)))"

lemma control_answer_simps [simp]:
  "isl (control_answer None)" "\<not> isl (control_answer (Some c))"
  "field_of (projr (control_answer (Some (j, d)))) 0 = j"
  "(field_of (projr (control_answer (Some (j, d)))) (Suc 0) = 0) = (\<not> d)"
  "control_answer None = Inl EINVAL"
  by (auto simp: control_answer_def field_of_def split: prod.split)

text \<open>The loop from a control on, over those that follow.\<close>

lemma controls_from:
  assumes K: "knows_controls cs K" and cs: "sorted_wrt (<) (map fst cs)" "\<forall>c \<in> set rest. \<not> snd c"
    and split: "cs = done @ rest" "\<forall>c \<in> set done. fst c \<le> i" "\<forall>c \<in> set rest. i < fst c"
  shows "\<exists>l'. while_option (\<lambda>(l, found). \<not> isl (K l)) (enumerate_step K f) (l @ [(f, Query_ctrl True i)], found) =
    Some (l', found \<union> fst ` set rest) \<and> K l' = Inl EINVAL"
  using cs(2) split
proof (induction rest arbitrary: "done" i l found)
  case Nil
  have "next_control done i = None" if "\<forall>c \<in> set done. fst c \<le> i" for "done" :: "(nat \<times> bool) list"
    using that by (induction "done") auto
  with Nil K have "K (l @ [(f, Query_ctrl True i)]) = Inl EINVAL" by (simp add: knows_controls_def)
  then show ?case by (simp add: while_option_unfold)
next
  case (Cons c rest)
  obtain j d where c: "c = (j, d)" by (cases c)
  with Cons.prems(1) have d: "\<not> d" by simp
  have skip: "next_control (xs @ ys) i = next_control ys i" if "\<forall>c \<in> set xs. fst c \<le> i" for xs ys
    using that by (induction xs) auto
  have "next_control cs i = Some (j, d)"
    using Cons.prems(2-4) c by (simp add: skip)
  then have a: "K (l @ [(f, Query_ctrl True i)]) = control_answer (Some (j, d))"
    using K by (simp add: knows_controls_def)
  have step: "enumerate_step K f (l @ [(f, Query_ctrl True i)], found) =
      ((l @ [(f, Query_ctrl True i)]) @ [(f, Query_ctrl True j)], insert j found)"
    using d by (simp add: enumerate_step_def a)
  have "sorted_wrt (<) (map fst done @ j # map fst rest)" using cs(1) Cons.prems(2) c by simp
  then have less: "\<forall>c \<in> set (done @ [c]). fst c \<le> j" "\<forall>c \<in> set rest. j < fst c"
    using c by (auto simp: sorted_wrt_append)
  from Cons.IH[of "done @ [c]" j "l @ [(f, Query_ctrl True i)]" "insert j found"] Cons.prems(1,2) less
  obtain l' where "while_option (\<lambda>(l, found). \<not> isl (K l)) (enumerate_step K f)
      ((l @ [(f, Query_ctrl True i)]) @ [(f, Query_ctrl True j)], insert j found) =
      Some (l', insert j found \<union> fst ` set rest) \<and> K l' = Inl EINVAL" by auto
  with step a c show ?case by (subst while_option_unfold) auto
qed

text \<open>A device without disabled controls: the enumeration of its controls ends, and
  finds all of them.\<close>
theorem controls_enumerated:
  assumes "knows_controls cs K" "sorted_wrt (<) (map fst cs)" "\<forall>c \<in> set cs. 0 < fst c \<and> \<not> snd c"
  shows "\<exists>t. enumerate_ctrls K s = (t, Ok ()) \<and> available_ctrls t = available_ctrls s \<union> fst ` set cs"
proof -
  from controls_from[of cs K cs "[]" 0 "fd s" "calls s" "available_ctrls s"] assms
  obtain l' where "while_option (\<lambda>(l, found). \<not> isl (K l)) (enumerate_step K (fd s))
      (calls s @ [(fd s, Query_ctrl True 0)], available_ctrls s) =
      Some (l', available_ctrls s \<union> fst ` set cs)" "K l' = Inl EINVAL" by auto
  then show ?thesis by (simp add: enumerate_ctrls_def)
qed

text \<open>The answers of a kernel that knows the given controls, has no other errors, and
  gives the given fields.\<close>

definition sample_kernel :: "(nat \<times> bool) list \<Rightarrow> kernel" where
  "sample_kernel cs l =
     (case snd (last l) of
        Query_ctrl True i \<Rightarrow> control_answer (next_control cs i)
      | Query_ctrl False i \<Rightarrow> control_answer (map_option (Pair i) (map_of cs i))
      | Stat \<Rightarrow> Inr [1]
      | Open_device \<Rightarrow> Inr [5]
      | Query_cap \<Rightarrow> Inr [1, 1]
      | Request_buffers n \<Rightarrow> Inr [2]
      | Query_buffer i \<Rightarrow> Inr [4096, 4096 * i]
      | Map_memory len offset \<Rightarrow> Inr [65536 + offset]
      | c \<Rightarrow> if fst (last l) < 0 \<and> (\<forall>a n. c \<noteq> Unmap_memory a n) then Inl EBADF else Inr [])"

lemma sample_knows: "knows_controls cs (sample_kernel cs)"
  by (simp add: knows_controls_def sample_kernel_def)

lemma controls_enumerated_witness:
  "\<exists>t. enumerate_ctrls (sample_kernel [(3, False), (7, False)]) fresh_reader = (t, Ok ()) \<and> available_ctrls t = {3, 7}"
  using controls_enumerated[OF sample_knows, of "[(3, False), (7, False)]" fresh_reader]
  by (auto simp: fresh_reader_def)

lemma next_control_between:
  assumes "sorted_wrt (<) (map fst cs)" "(j, d) \<in> set cs" "i < j"
  shows "\<exists>j' d'. next_control cs i = Some (j', d') \<and> (j', d') \<in> set cs \<and> i < j' \<and> j' \<le> j"
  using assms(1,2)
proof (induction cs)
  case Nil
  then show ?case by simp
next
  case (Cons c cs)
  obtain k e where "c = (k, e)" by (cases c)
  with Cons assms(3) show ?case by fastforce
qed

text \<open>One disabled control is enough: the enumeration asks for it again and again, and
  the reader is never initialised.\<close>
theorem disabled_control_hangs:
  assumes K: "knows_controls cs K" and cs: "sorted_wrt (<) (map fst cs)" and j: "(j, True) \<in> set cs" "0 < j"
  shows "enumerate_ctrls K s = (s, Undefined)"
proof -
  let ?P = "\<lambda>(l, found :: nat set). \<exists>l0 flag i. l = l0 @ [(fd s, Query_ctrl flag i)] \<and>
    (if flag then i < j else (i, True) \<in> set cs)"
  have dist: "distinct (map fst cs)" using cs by (simp add: strict_sorted_iff)
  have at: "K (l0 @ [(fd s, Query_ctrl False i)]) = control_answer (Some (i, d))" if "(i, d) \<in> set cs" for l0 i d
    using K that dist by (simp add: knows_controls_def)
  have answer: "\<exists>i' d. K (l0 @ [(fd s, Query_ctrl flag i)]) = control_answer (Some (i', d)) \<and> (i', d) \<in> set cs \<and> (d \<or> i' < j)"
    if q: "if flag then i < j else (i, True) \<in> set cs" for l0 flag i
  proof (cases flag)
    case False
    with q at[of i True] show ?thesis by auto
  next
    case True
    with q next_control_between[OF cs j(1), of i] obtain i' d where
      i: "next_control cs i = Some (i', d)" "(i', d) \<in> set cs" "i' \<le> j" by auto
    with j(1) dist have less: "d \<or> i' < j" by (metis (full_types) eq_key_imp_eq_value nat_less_le)
    have "K (l0 @ [(fd s, Query_ctrl True i)]) = control_answer (Some (i', d))"
      using i(1) K by (simp add: knows_controls_def)
    with i(2) less True show ?thesis by auto
  qed
  have keep: "?P (enumerate_step K (fd s) st) \<and> (\<lambda>(l, found). \<not> isl (K l)) st" if P: "?P st" for st
  proof -
    obtain l found where st: "st = (l, found)" by (cases st)
    with P obtain l0 flag i where l: "l = l0 @ [(fd s, Query_ctrl flag i)]"
      and q: "if flag then i < j else (i, True) \<in> set cs" by auto
    from answer[OF q, of l0] obtain i' d where
      a: "K l = control_answer (Some (i', d))" "(i', d) \<in> set cs" "d \<or> i' < j" unfolding l by blast
    show ?thesis
    proof (cases d)
      case True
      with a have "enumerate_step K (fd s) st = (l @ [(fd s, Query_ctrl False i')], found)"
        by (simp add: enumerate_step_def st)
      with a(1,2) True st show ?thesis by auto
    next
      case False
      with a have "enumerate_step K (fd s) st = (l @ [(fd s, Query_ctrl True i')], insert i' found)"
        by (simp add: enumerate_step_def st)
      with a(1,3) False st show ?thesis by auto
    qed
  qed
  let ?loop = "while_option (\<lambda>(l, found). \<not> isl (K l)) (enumerate_step K (fd s))
    (calls s @ [(fd s, Query_ctrl True 0)], available_ctrls s)"
  have "?loop = None"
  proof (rule ccontr)
    assume "?loop \<noteq> None"
    then obtain t where t: "?loop = Some t" by blast
    have "?P t"
      by (rule while_option_rule[OF _ t, where P = ?P]) (use keep j(2) in auto)
    with keep[of t] while_option_stop[OF t] show False by simp
  qed
  then show ?thesis by (simp add: enumerate_ctrls_def)
qed

lemma disabled_control_hangs_witness:
  "enumerate_ctrls (sample_kernel [(3, False), (7, True)]) fresh_reader = (fresh_reader, Undefined)"
  using disabled_control_hangs[OF sample_knows, of "[(3, False), (7, True)]" 7] by simp


section \<open>The life of a reader\<close>

lemma stop_without_device:
  assumes "fd s < 0" "\<forall>l f. f < 0 \<longrightarrow> K (l @ [(f, Stream_off)]) = Inl EBADF"
  shows "\<exists>t. destroy_reader K s = (t, Throw Runtime_error)"
  using assms
  by (simp add: destroy_reader_def stop_def stop_capturing_def ioctl_fd_def xioctl_throw_def xioctl_once checked_def
      throw_v4l2_def prog_eval)

lemma absent_device:
  assumes "K [(-1, Stat)] = Inl x \<or> (\<exists>y. K [(-1, Stat)] = Inr y \<and> K [(-1, Stat), (-1, Open_device)] = Inl x)"
  shows "\<exists>t. initialise K c r fresh_reader = (t, Throw Runtime_error) \<and> fd t < 0"
proof -
  note defs = initialise_def prog_eval open_device_def syscall_def checked_def throw_v4l2_def fresh_reader_def Let_def
  from assms consider "K [(-1, Stat)] = Inl x"
    | y where "K [(-1, Stat)] = Inr y" "field_of y 0 = 0"
    | y where "K [(-1, Stat)] = Inr y" "field_of y 0 \<noteq> 0" "K [(-1, Stat), (-1, Open_device)] = Inl x" by blast
  then show ?thesis by cases (simp_all add: defs)
qed

text \<open>A reader that was never initialised, or whose device is absent or can not be
  opened, has no file descriptor; the kernel refuses to stop the stream of none, and
  the destructor throws: the program ends.\<close>
theorem unopened_reader_ends_program:
  assumes "\<forall>l f. f < 0 \<longrightarrow> K (l @ [(f, Stream_off)]) = Inl EBADF"
  shows "(\<exists>t. destroy_reader K fresh_reader = (t, Throw Runtime_error)) \<and>
    (K [(-1, Stat)] = Inl x \<or> (\<exists>y. K [(-1, Stat)] = Inr y \<and> K [(-1, Stat), (-1, Open_device)] = Inl x) \<longrightarrow>
     (\<exists>t u. initialise K c r fresh_reader = (t, Throw Runtime_error) \<and>
       destroy_reader K t = (u, Throw Runtime_error)))"
proof (intro conjI impI)
  show "\<exists>t. destroy_reader K fresh_reader = (t, Throw Runtime_error)"
    by (rule stop_without_device[OF _ assms]) (simp add: fresh_reader_def)
next
  assume "K [(-1, Stat)] = Inl x \<or> (\<exists>y. K [(-1, Stat)] = Inr y \<and> K [(-1, Stat), (-1, Open_device)] = Inl x)"
  from absent_device[OF this, of c r] obtain t where
    "initialise K c r fresh_reader = (t, Throw Runtime_error)" "fd t < 0" by blast
  with stop_without_device[OF _ assms, of t] show
    "\<exists>t u. initialise K c r fresh_reader = (t, Throw Runtime_error) \<and> destroy_reader K t = (u, Throw Runtime_error)"
    by blast
qed

lemma unopened_reader_ends_program_witness:
  "\<exists>t. destroy_reader (sample_kernel []) fresh_reader = (t, Throw Runtime_error)"
  using unopened_reader_ends_program[of "sample_kernel []"] by (simp add: sample_kernel_def)

text \<open>A device that could be opened but not set up counts as initialised from then on:
  the next attempt asks the kernel for nothing and succeeds.\<close>

lemma failed_initialise_pretends:
  assumes "0 \<le> fd s"
  shows "initialise K c r s = (s, Ok ())"
  using assms by (simp add: initialise_def prog_eval)

text \<open>A frame is given back to the driver after it was told, whatever its content, and
  told only while the loop runs.\<close>

lemma frame_returned:
  assumes "K (calls s @ [(fd s, Dequeue_buffer)]) = Inr [i, n]" "i < length (buffers s)"
    and "K (calls s @ [(fd s, Dequeue_buffer), (fd s, Queue_buffer i)]) = Inr []"
  shows "\<exists>t. read_frame b K s = (t, Ok 1) \<and> calls t = calls s @ [(fd s, Dequeue_buffer), (fd s, Queue_buffer i)] \<and>
    frames t = (if running s then frames s @ [(fst (buffers s ! i), n)] else frames s)"
  using assms
  by (auto simp: read_frame_def prog_eval xioctl_once process_image_def ioctl_fd_def xioctl_throw_def checked_def
      field_of_def sassert_def)

text \<open>A kernel without errors, with \<open>n\<close> buffers to share.\<close>

definition obeys :: "nat \<Rightarrow> kernel \<Rightarrow> bool" where
  "obeys n K \<longleftrightarrow>
     (\<forall>l f c. (0 \<le> f \<or> c = Stat \<or> c = Open_device \<or> (\<exists>a m. c = Unmap_memory a m)) \<longrightarrow> (\<forall>x i. c \<noteq> Query_ctrl x i) \<longrightarrow>
        \<not> isl (K (l @ [(f, c)]))) \<and>
     (\<forall>l f. field_of (projr (K (l @ [(f, Stat)]))) 0 \<noteq> 0) \<and>
     (\<forall>l f. field_of (projr (K (l @ [(f, Query_cap)]))) 0 \<noteq> 0 \<and> field_of (projr (K (l @ [(f, Query_cap)]))) 1 \<noteq> 0) \<and>
     (\<forall>l f m. field_of (projr (K (l @ [(f, Request_buffers m)]))) 0 = n)"

definition grows :: "reader \<Rightarrow> reader \<Rightarrow> bool" where
  "grows s t \<longleftrightarrow> fd t = fd s \<and> length (buffers t) = length (buffers s) \<and> available_ctrls t = available_ctrls s \<and>
     (\<exists>l. calls t = calls s @ l)"

lemma grows_refl [simp]: "grows s s"
  by (simp add: grows_def)

lemma grows_trans: "grows s t \<Longrightarrow> grows t u \<Longrightarrow> grows s u"
  by (auto simp: grows_def)

lemma grows_calls: "grows s t \<Longrightarrow> set (calls s) \<subseteq> set (calls t)"
  by (auto simp: grows_def)

lemma obeyed:
  assumes "obeys n K" "0 \<le> f \<or> c = Stat \<or> c = Open_device \<or> (\<exists>a m. c = Unmap_memory a m)" "\<forall>x i. c \<noteq> Query_ctrl x i"
  obtains xs where "K (l @ [(f, c)]) = Inr xs"
  using assms unfolding obeys_def by (metis sum.collapse(2))

lemma ioctl_obeyed:
  assumes "obeys n K" "0 \<le> fd s" "\<forall>x i. c \<noteq> Query_ctrl x i"
  shows "ioctl_fd K c s = (s\<lparr> calls := calls s @ [(fd s, c)] \<rparr>, Ok (projr (K (calls s @ [(fd s, c)]))))"
proof -
  obtain xs where "K (calls s @ [(fd s, c)]) = Inr xs" using obeyed[OF assms(1) disjI1[OF assms(2)] assms(3)] .
  then show ?thesis by (simp add: ioctl_fd_def xioctl_throw_def prog_eval xioctl_once checked_def)
qed

lemma ioctl_ignored:
  assumes "obeys n K" "0 \<le> fd s" "\<forall>x i. c \<noteq> Query_ctrl x i"
  shows "\<exists>t. sbind (ioctl_fd K c) (\<lambda>x. ret ()) s = (t, Ok ()) \<and> grows s t \<and> (fd s, c) \<in> set (calls t)"
  by (simp add: prog_eval ioctl_obeyed[OF assms] grows_def)

lemma set_ctrl_obeyed:
  assumes "obeys n K" "0 \<le> fd s"
  shows "\<exists>t. set_ctrl_if K i v s = (t, Ok ()) \<and> grows s t"
  using ioctl_ignored[OF assms, of "Set_ctrl i v"] by (auto simp: set_ctrl_if_def prog_eval)

lemma for_each_obeyed:
  assumes "\<And>x s. x \<in> set xs \<Longrightarrow> fd s = k \<Longrightarrow> \<exists>t. f x s = (t, Ok ()) \<and> grows s t \<and> e x \<in> set (calls t)" "fd s = k"
  shows "\<exists>t. for_each xs f s = (t, Ok ()) \<and> grows s t \<and> e ` set xs \<subseteq> set (calls t)"
  using assms
proof (induction xs arbitrary: s)
  case Nil
  then show ?case by (simp add: prog_eval)
next
  case (Cons x xs)
  from Cons.prems obtain t where t: "f x s = (t, Ok ())" "grows s t" "e x \<in> set (calls t)" by fastforce
  with Cons.prems(2) have "fd t = k" by (simp add: grows_def)
  with Cons.IH[of t] Cons.prems(1) obtain u where
    u: "for_each xs f t = (u, Ok ())" "grows t u" "e ` set xs \<subseteq> set (calls u)" by fastforce
  with t grows_trans[OF t(2) u(2)] grows_calls[OF u(2)] show ?case by (auto simp: sthen_Pair)
qed

lemma map_obeyed:
  assumes "obeys n K" "0 \<le> fd s"
  shows "\<exists>t. map_buffer K i s = (t, Ok ()) \<and> grows s t \<and> (fd s, Query_buffer i) \<in> set (calls t)"
proof -
  let ?c = "Map_memory (field_of (projr (K (calls s @ [(fd s, Query_buffer i)]))) 0)
    (field_of (projr (K (calls s @ [(fd s, Query_buffer i)]))) 1)"
  obtain ys where "K ((calls s @ [(fd s, Query_buffer i)]) @ [(fd s, ?c)]) = Inr ys"
    by (rule obeyed[OF assms(1) disjI1[OF assms(2)], where c = ?c]) simp
  then show ?thesis
    by (simp add: map_buffer_def prog_eval ioctl_obeyed[OF assms] syscall_def Let_def grows_def)
qed

lemma init_mmap_obeyed:
  assumes "obeys n K" "0 \<le> fd s" "2 \<le> n" "buffers s = []"
  shows "\<exists>t. init_mmap K s = (t, Ok ()) \<and> fd t = fd s \<and> length (buffers t) = n \<and>
    available_ctrls t = available_ctrls s \<and> (\<exists>l. calls t = calls s @ l)"
proof -
  let ?s = "s\<lparr> calls := calls s @ [(fd s, Request_buffers 4)], buffers := replicate n (0, 0) \<rparr>"
  have "\<exists>t. for_each [0..<n] (map_buffer K) ?s = (t, Ok ()) \<and> grows ?s t \<and>
      (\<lambda>i. (fd s, Query_buffer i)) ` set [0..<n] \<subseteq> set (calls t)"
    by (rule for_each_obeyed[where k = "fd s"]) (use map_obeyed[OF assms(1)] assms(2) in \<open>metis, simp\<close>)
  then obtain t where t: "for_each [0..<n] (map_buffer K) ?s = (t, Ok ())" "grows ?s t" by blast
  have "field_of (projr (K (calls s @ [(fd s, Request_buffers 4)]))) 0 = n" using assms(1) by (simp add: obeys_def)
  with t assms(3,4) have "init_mmap K s = (t, Ok ())"
    by (simp add: init_mmap_def prog_eval ioctl_obeyed[OF assms(1,2)] Let_def)
  with t(2) show ?thesis by (auto simp: grows_def)
qed

lemma init_device_obeyed:
  assumes "obeys n K" "0 \<le> fd s" "2 \<le> n" "buffers s = []"
  shows "\<exists>t. init_device K c s = (t, Ok ()) \<and> fd t = fd s \<and> length (buffers t) = n \<and>
    available_ctrls t = available_ctrls s \<and> (\<exists>l. calls t = calls s @ l)"
proof -
  let ?s1 = "s\<lparr> calls := calls s @ [(fd s, Query_cap)] \<rparr>"
  obtain xs where "K ((calls s @ [(fd s, Query_cap)]) @ [(fd s, Crop_cap)]) = Inr xs"
    by (rule obeyed[OF assms(1) disjI1[OF assms(2)], where c = Crop_cap]) simp
  then have crop: "xioctl K (fd s) Crop_cap ?s1 = (?s1\<lparr> calls := calls ?s1 @ [(fd s, Crop_cap)] \<rparr>, Ok (Inr xs))"
    by (simp add: xioctl_once)
  let ?s2 = "?s1\<lparr> calls := calls ?s1 @ [(fd s, Crop_cap)] \<rparr>"
  obtain ys where "K (calls ?s2 @ [(fd s, Set_crop)]) = Inr ys"
    by (rule obeyed[OF assms(1) disjI1[OF assms(2)], where c = Set_crop]) simp
  then have set_crop: "xioctl K (fd s) Set_crop ?s2 = (?s2\<lparr> calls := calls ?s2 @ [(fd s, Set_crop)] \<rparr>, Ok (Inr ys))"
    using xioctl_once[of K ?s2 "fd s" Set_crop] by simp
  let ?s3 = "?s2\<lparr> calls := calls ?s2 @ [(fd s, Set_crop)] \<rparr>"
  let ?f = "Set_format (config_width c) (config_height c)"
  let ?s4 = "?s3\<lparr> calls := calls ?s3 @ [(fd s, ?f)] \<rparr>"
  let ?s5 = "?s4\<lparr> calls := calls ?s4 @ [(fd s, Set_parm (config_framerate c))] \<rparr>"
  obtain t5 where t5: "set_ctrl_if K repeat_seq_header 1 ?s5 = (t5, Ok ())" "grows ?s5 t5"
    using set_ctrl_obeyed[OF assms(1), of ?s5] assms(2) by auto
  have "0 \<le> fd t5" "buffers t5 = []" using t5(2) assms(2,4) by (simp_all add: grows_def)
  from init_mmap_obeyed[OF assms(1) this(1) assms(3) this(2)] obtain t where
    t: "init_mmap K t5 = (t, Ok ())" "fd t = fd t5" "length (buffers t) = n"
    "available_ctrls t = available_ctrls t5" "\<exists>l. calls t = calls t5 @ l" by blast
  have caps: "field_of (projr (K (calls s @ [(fd s, Query_cap)]))) 0 \<noteq> 0"
    "field_of (projr (K (calls s @ [(fd s, Query_cap)]))) 1 \<noteq> 0"
    using assms(1) by (simp_all add: obeys_def)
  have "ioctl_fd K ?f ?s3 = (?s4, Ok (projr (K (calls ?s3 @ [(fd s, ?f)]))))"
    using ioctl_obeyed[OF assms(1), of ?s3 ?f] assms(2) by simp
  moreover have "ioctl_fd K (Set_parm (config_framerate c)) ?s4 =
      (?s5, Ok (projr (K (calls ?s4 @ [(fd s, Set_parm (config_framerate c))]))))"
    using ioctl_obeyed[OF assms(1), of ?s4 "Set_parm (config_framerate c)"] assms(2) by simp
  moreover have "ioctl_fd K Query_cap s = (?s1, Ok (projr (K (calls s @ [(fd s, Query_cap)]))))"
    using ioctl_obeyed[OF assms(1,2), of Query_cap] by simp
  ultimately have "init_device K c s = (t, Ok ())"
    using caps crop set_crop t5(1) t(1) by (simp add: init_device_def prog_eval)
  with t t5(2) show ?thesis by (auto simp: grows_def)
qed

lemma start_obeyed:
  assumes "obeys n K" "0 \<le> fd s"
  shows "\<exists>t. start_capturing K s = (t, Ok ()) \<and> grows s t \<and>
    (\<forall>i < length (buffers s). (fd s, Queue_buffer i) \<in> set (calls t)) \<and> last (calls t) = (fd s, Stream_on)"
proof -
  have "\<exists>t. for_each [0..<length (buffers s)] (\<lambda>i. sbind (ioctl_fd K (Queue_buffer i)) (\<lambda>x. ret ())) s = (t, Ok ()) \<and>
      grows s t \<and> (\<lambda>i. (fd s, Queue_buffer i)) ` set [0..<length (buffers s)] \<subseteq> set (calls t)"
  proof (rule for_each_obeyed[where k = "fd s"])
    fix i :: nat and u :: reader
    assume "fd u = fd s"
    with ioctl_ignored[OF assms(1), of u "Queue_buffer i"] assms(2)
    show "\<exists>t. sbind (ioctl_fd K (Queue_buffer i)) (\<lambda>x. ret ()) u = (t, Ok ()) \<and> grows u t \<and>
        (fd s, Queue_buffer i) \<in> set (calls t)" by simp
  qed simp
  then obtain t where
    t: "for_each [0..<length (buffers s)] (\<lambda>i. sbind (ioctl_fd K (Queue_buffer i)) (\<lambda>x. ret ())) s = (t, Ok ())"
    "grows s t" "(\<lambda>i. (fd s, Queue_buffer i)) ` set [0..<length (buffers s)] \<subseteq> set (calls t)" by blast
  have "0 \<le> fd t" using t(2) assms(2) by (simp add: grows_def)
  from ioctl_obeyed[OF assms(1) this, of Stream_on] t show ?thesis
    by (auto simp: start_capturing_def prog_eval grows_def)
qed

lemma open_obeyed:
  assumes "obeys n K"
  shows "\<exists>t. open_device K s = (t, Ok ()) \<and> 0 \<le> fd t \<and> buffers t = buffers s"
proof -
  let ?l = "calls s @ [(-1, Stat)]"
  obtain x where x: "K ?l = Inr x" by (rule obeyed[OF assms, of "-1" Stat]) simp_all
  moreover have "field_of (projr (K ?l)) 0 \<noteq> 0" using assms by (simp add: obeys_def)
  ultimately have "field_of x 0 \<noteq> 0" by simp
  moreover obtain y where "K (?l @ [(-1, Open_device)]) = Inr y" by (rule obeyed[OF assms, where f = "-1" and c = Open_device and l = ?l]) simp_all
  ultimately show ?thesis using x
    by (simp add: open_device_def prog_eval syscall_def checked_def Let_def)
qed

lemma set_bitrate_obeyed:
  assumes "obeys n K" "0 \<le> fd s"
  shows "\<exists>t. set_bitrate K r s = (t, Ok ()) \<and> grows s t"
proof -
  obtain t where t: "set_ctrl_if K bitrate_mode 1 s = (t, Ok ())" "grows s t" using set_ctrl_obeyed[OF assms] by blast
  with assms(2) have "0 \<le> fd t" by (simp add: grows_def)
  with set_ctrl_obeyed[OF assms(1)] obtain u where "set_ctrl_if K bitrate_ctrl r t = (u, Ok ())" "grows t u" by blast
  with t grows_trans show ?thesis by (auto simp: set_bitrate_def prog_eval)
qed

lemma initialise_obeyed:
  assumes "obeys n K" "2 \<le> n" "knows_controls cs K" "sorted_wrt (<) (map fst cs)" "\<forall>c \<in> set cs. 0 < fst c \<and> \<not> snd c"
  shows "\<exists>t. initialise K c r fresh_reader = (t, Ok ()) \<and> 0 \<le> fd t \<and> length (buffers t) = n \<and>
    (\<forall>i < n. (fd t, Queue_buffer i) \<in> set (calls t)) \<and> last (calls t) = (fd t, Stream_on)"
proof -
  obtain s1 where s1: "open_device K fresh_reader = (s1, Ok ())" "0 \<le> fd s1" "buffers s1 = []"
    using open_obeyed[OF assms(1), of fresh_reader] by (auto simp: fresh_reader_def)
  obtain l found where "while_option (\<lambda>(l, found). \<not> isl (K l)) (enumerate_step K (fd s1))
      (calls s1 @ [(fd s1, Query_ctrl True 0)], available_ctrls s1) = Some (l, found)" "K l = Inl EINVAL"
    using controls_from[of cs K cs "[]" 0 "fd s1" "calls s1" "available_ctrls s1"] assms(3-5) by auto
  then obtain s2 where s2: "enumerate_ctrls K s1 = (s2, Ok ())" "fd s2 = fd s1" "buffers s2 = []"
    using s1(3) by (simp add: enumerate_ctrls_def)
  with s1(2) obtain s3 where s3: "init_device K c s2 = (s3, Ok ())" "fd s3 = fd s2" "length (buffers s3) = n"
    using init_device_obeyed[OF assms(1) _ assms(2), of s2 c] by auto
  with s1(2) s2(2) obtain s4 where s4: "set_bitrate K r s3 = (s4, Ok ())" "grows s3 s4"
    using set_bitrate_obeyed[OF assms(1), of s3 r] by auto
  then have fd4: "0 \<le> fd s4" "length (buffers s4) = n" using s1(2) s2(2) s3 by (simp_all add: grows_def)
  from start_obeyed[OF assms(1) fd4(1)] obtain t where
    t: "start_capturing K s4 = (t, Ok ())" "grows s4 t" "\<forall>i < n. (fd s4, Queue_buffer i) \<in> set (calls t)"
    "last (calls t) = (fd s4, Stream_on)" unfolding fd4(2) by blast
  have "initialise K c r fresh_reader = (t, Ok ())"
    by (simp add: initialise_def prog_eval s1(1) s2(1) s3(1) s4(1) t(1)) (simp add: fresh_reader_def)
  with t fd4 show ?thesis by (simp add: grows_def)
qed

lemma destroy_obeyed:
  assumes "obeys n K" "0 \<le> fd s"
  shows "\<exists>u. destroy_reader K s = (u, Ok ()) \<and> fd u = -1 \<and> buffers u = [] \<and>
    (\<forall>(a, len) \<in> set (buffers s). (-1, Unmap_memory a len) \<in> set (calls u)) \<and> last (calls u) = (fd s, Close_device)"
proof -
  let ?f = "\<lambda>(start, len). sbind (sbind (syscall K (-1) (Unmap_memory start len)) checked) (\<lambda>x. ret ())"
  let ?e = "\<lambda>(a, len). (-1, Unmap_memory a len)"
  obtain s1 where s1: "stop_capturing K s = (s1, Ok ())" "fd s1 = fd s" "buffers s1 = buffers s"
    using ioctl_obeyed[OF assms(1), of "s\<lparr> running := False \<rparr>" Stream_off] assms(2)
    by (simp add: stop_capturing_def prog_eval)
  have "\<exists>t. for_each (buffers s1) ?f s1 = (t, Ok ()) \<and> grows s1 t \<and> ?e ` set (buffers s1) \<subseteq> set (calls t)"
  proof (rule for_each_obeyed[where k = "fd s1"])
    fix x :: "nat \<times> nat" and v :: reader
    obtain a len where x: "x = (a, len)" by (cases x)
    obtain y where "K (calls v @ [(-1, Unmap_memory a len)]) = Inr y"
      by (rule obeyed[OF assms(1), of "-1" "Unmap_memory a len"]) simp_all
    then show "\<exists>t. ?f x v = (t, Ok ()) \<and> grows v t \<and> ?e x \<in> set (calls t)"
      by (simp add: x prog_eval syscall_def checked_def Let_def grows_def)
  qed simp
  then obtain t where t: "for_each (buffers s1) ?f s1 = (t, Ok ())" "grows s1 t" "?e ` set (buffers s1) \<subseteq> set (calls t)"
    by blast
  let ?t = "t\<lparr> buffers := [] \<rparr>"
  obtain y where "K (calls t @ [(fd t, Close_device)]) = Inr y"
    by (rule obeyed[OF assms(1), of "fd t" Close_device]) (use t(2) s1(2) assms(2) in \<open>simp_all add: grows_def\<close>)
  then have "destroy_reader K s = (?t\<lparr> calls := calls t @ [(fd t, Close_device)], fd := -1 \<rparr>, Ok ())"
    using s1(1) t(1)
    by (simp add: destroy_reader_def stop_def uninit_device_def close_device_def prog_eval syscall_def checked_def Let_def)
  with t(2,3) s1(2,3) show ?thesis by (auto simp: grows_def)
qed

text \<open>With a kernel that has no errors and no disabled control: a fresh reader is
  initialised with all the buffers the kernel shares, every one of them queued before
  the stream is on, and destroying it unmaps each of them, closes the device and
  leaves nothing.\<close>
theorem reader_life:
  assumes "obeys n K" "2 \<le> n" "knows_controls cs K" "sorted_wrt (<) (map fst cs)" "\<forall>c \<in> set cs. 0 < fst c \<and> \<not> snd c"
  shows "\<exists>t u. initialise K c r fresh_reader = (t, Ok ()) \<and> 0 \<le> fd t \<and> length (buffers t) = n \<and>
    (\<forall>i < n. (fd t, Queue_buffer i) \<in> set (calls t)) \<and> last (calls t) = (fd t, Stream_on) \<and>
    destroy_reader K t = (u, Ok ()) \<and> fd u = -1 \<and> buffers u = [] \<and>
    (\<forall>(a, len) \<in> set (buffers t). (-1, Unmap_memory a len) \<in> set (calls u)) \<and> last (calls u) = (fd t, Close_device)"
  using initialise_obeyed[OF assms] destroy_obeyed[OF assms(1)] by blast

lemma sample_obeys: "obeys 2 (sample_kernel cs)"
  by (auto simp: obeys_def sample_kernel_def field_of_def split: call.split)

lemma reader_life_witness:
  "\<exists>t u. initialise (sample_kernel [(repeat_seq_header, False)]) \<lparr> config_width = 1280, config_height = 720, config_framerate = 30 \<rparr>
       100 fresh_reader = (t, Ok ()) \<and>
     destroy_reader (sample_kernel [(repeat_seq_header, False)]) t = (u, Ok ()) \<and> fd u = -1"
  using reader_life[OF sample_obeys _ sample_knows, of "[(repeat_seq_header, False)]"
      "\<lparr> config_width = 1280, config_height = 720, config_framerate = 30 \<rparr>" 100]
  by (auto simp: repeat_seq_header_def)


section \<open>The encoder\<close>

text \<open>The fragments of RTP are those of the H.264 payload format; 0x27 starts a sequence
  parameter set. A packet shorter than six bytes is read past its end.\<close>

definition is_h264_i_frame :: "8 word list \<Rightarrow> bool res" where
  "is_h264_i_frame packet =
     (if length packet < 6 then Undefined
      else
        let fragment_type = packet ! 4 AND 0x1F;
            nal_type = packet ! 5 AND 0x1F;
            start_bit = packet ! 5 AND 0x80;
            result = (fragment_type = 28 \<or> fragment_type = 29) \<and> nal_type = 5 \<and> start_bit = 128 \<or> fragment_type = 5
        in Ok (if packet ! 4 = 0x27 then True else result))"

datatype codec_result = Codec_ok | Codec_error | Codec_uninitialised

record encoder =
  encoder_reader :: "reader option"
  callback :: bool
  got_first_iframe :: bool
  encoded :: "(bool \<times> 8 word list) list"

definition fresh_encoder :: encoder where
  "fresh_encoder = \<lparr> encoder_reader = Some fresh_reader, callback = False, got_first_iframe = False, encoded = [] \<rparr>"

definition init_encode :: "kernel \<Rightarrow> config \<Rightarrow> int \<Rightarrow> encoder \<Rightarrow> (encoder \<times> codec_result) res" where
  "init_encode K c start_bitrate e =
     (case encoder_reader e of
        None \<Rightarrow> Undefined
      | Some r \<Rightarrow> (case initialise K c start_bitrate r of (t, out) \<Rightarrow>
          (case out of
             Ok u \<Rightarrow> Ok (e\<lparr> encoder_reader := Some t \<rparr>, Codec_ok)
           | Throw x \<Rightarrow> Ok (e\<lparr> encoder_reader := Some t \<rparr>, Codec_error)
           | Assert_failed \<Rightarrow> Assert_failed
           | Undefined \<Rightarrow> Undefined)))"

text \<open>Whether the library finds a unit in the data is a parameter.\<close>

definition encoder_on_data :: "(8 word list \<Rightarrow> bool) \<Rightarrow> 8 word list \<Rightarrow> encoder \<Rightarrow> encoder res" where
  "encoder_on_data has_nalu data e =
     rbind (is_h264_i_frame data) (\<lambda>key.
     let e = (if key then e\<lparr> got_first_iframe := True \<rparr> else e) in
     Ok (if \<not> has_nalu data \<or> \<not> callback e then e else e\<lparr> encoded := encoded e @ [(key, data)] \<rparr>))"

definition register_callback :: "bool \<Rightarrow> encoder \<Rightarrow> encoder" where
  "register_callback c e = e\<lparr> callback := c \<rparr>"

text \<open>The reader of the encoder may be the last one: then it is destroyed.\<close>

definition release_encoder :: "kernel \<Rightarrow> encoder \<Rightarrow> encoder res" where
  "release_encoder K e =
     (case encoder_reader e of
        None \<Rightarrow> Ok e
      | Some r \<Rightarrow> (case destroy_reader K r of (t, out) \<Rightarrow> rbind out (\<lambda>u. Ok (e\<lparr> encoder_reader := None \<rparr>))))"

definition encode :: "encoder \<Rightarrow> (encoder \<times> codec_result) res" where
  "encode e =
     (case encoder_reader e of
        None \<Rightarrow> Ok (e, Codec_uninitialised)
      | Some r \<Rightarrow> Ok (e\<lparr> encoder_reader := Some (fst (mainloop r)) \<rparr>, Codec_ok))"

definition set_rates :: "kernel \<Rightarrow> int \<Rightarrow> encoder \<Rightarrow> encoder res" where
  "set_rates K bitrate e =
     (case encoder_reader e of
        None \<Rightarrow> Ok e
      | Some r \<Rightarrow> (case set_bitrate K bitrate r of (t, out) \<Rightarrow> rbind out (\<lambda>u. Ok (e\<lparr> encoder_reader := Some t \<rparr>))))"

lemma start_of_idr: "(w AND 0x1F = 5 \<and> w AND 0x80 = 128) = (w AND 0x9F = (0x85 :: 8 word))"
proof
  assume w: "w AND 0x1F = 5 \<and> w AND 0x80 = 128"
  have "w AND 0x9F = w AND (0x1F OR 0x80)" by simp
  also have "\<dots> = (w AND 0x1F) OR (w AND 0x80)" by (simp only: bit.conj_disj_distrib)
  finally show "w AND 0x9F = 0x85" using w by simp
next
  assume w: "w AND 0x9F = (0x85 :: 8 word)"
  have "w AND 0x1F = (w AND 0x9F) AND 0x1F" "w AND 0x80 = (w AND 0x9F) AND 0x80" by (simp_all add: and.assoc)
  with w show "w AND 0x1F = 5 \<and> w AND 0x80 = 128" by simp
qed

text \<open>A frame of six bytes or more is never read past its end; it is a key frame for
  the callback exactly if its first unit is an IDR slice, the first fragment of one,
  or starts with 0x27.\<close>
theorem key_frames_recognised:
  assumes "6 \<le> length data" "has_nalu data" "callback e"
  shows "\<exists>e'. encoder_on_data has_nalu data e = Ok e' \<and>
    encoded e' = encoded e @ [(data ! 4 AND 0x1F = 5 \<or> data ! 4 = 0x27 \<or>
      data ! 4 AND 0x1F \<in> {28, 29} \<and> data ! 5 AND 0x9F = 0x85, data)]"
  using assms start_of_idr[of "data ! 5"]
  by (auto simp: encoder_on_data_def is_h264_i_frame_def Let_def)

lemma key_frames_recognised_witness:
  "\<exists>e'. encoder_on_data (\<lambda>d. True) [0, 0, 0, 1, 0x27, 0x42] (register_callback True fresh_encoder) = Ok e' \<and>
    encoded e' = [(True, [0, 0, 0, 1, 0x27, 0x42])]"
  using key_frames_recognised[of "[0, 0, 0, 1, 0x27, 0x42]" "\<lambda>d. True" "register_callback True fresh_encoder"]
  by (simp add: register_callback_def fresh_encoder_def)

lemma short_frame_undefined: "length data < 6 \<Longrightarrow> encoder_on_data has_nalu data e = Undefined"
  by (simp add: encoder_on_data_def is_h264_i_frame_def)

text \<open>An encoder whose camera does not exist reports the error, and ends the program
  when it is released.\<close>

lemma absent_camera_ends_program:
  assumes "K [(-1, Stat)] = Inl x" "\<forall>l f. f < 0 \<longrightarrow> K (l @ [(f, Stream_off)]) = Inl EBADF"
  shows "\<exists>e. init_encode K c r fresh_encoder = Ok (e, Codec_error) \<and> release_encoder K e = Throw Runtime_error"
proof -
  obtain t where t: "initialise K c r fresh_reader = (t, Throw Runtime_error)" "fd t < 0"
    using absent_device[of K x c r] assms(1) by blast
  from stop_without_device[OF t(2) assms(2)] t(1) show ?thesis
    by (auto simp: init_encode_def release_encoder_def fresh_encoder_def)
qed

end
