(* ===== verification/Signal_Slot.thy ===== *)
theory Signal_Slot
  imports Prelude "HOL-Library.Multiset"
begin

text \<open>
  utils/signal.hpp: signals and their slots.

  Every component of the program talks to the others through these signals, so this
  theory says what a component may rely on: which slots an emission calls, in which
  order, and what connecting, disconnecting, blocking and destroying do to emissions
  that are still running. Slots may do all of that from inside an emission, and other
  threads may do it between two calls, so an emission is not one step here: \<open>Emit\<close> starts
  it, and every \<open>Proceed\<close> takes it one turn further, with any events in between. Every
  other operation holds the mutex of its signal and is one event.

  The list of slots is a \<open>copy_on_write\<close>: the signal and the running emissions hold
  counted references to payloads, and a write copies a payload that is shared. The payloads
  are the addresses of \<open>cells\<close>; a freed one is \<open>None\<close>, and touching it is \<open>Undefined\<close>. Slots
  are addresses into \<open>slots\<close>; a connection is a weak reference to one, valid while some
  payload still contains it. What a callable does is not part of the signal: a call is
  recorded in \<open>calls\<close>, and what it does are the events that follow.
\<close>

section \<open>Data\<close>

text \<open>What a slot calls on: nothing (a function object), an object by its address
  (\<open>slot_pmf\<close>), or one held by a weak pointer (\<open>slot_tracked\<close>, \<open>slot_pmf_tracked\<close>).\<close>

datatype target = No_object | Address nat | Tracked nat

text \<open>\<open>function_traits\<close>: the bytes a callable is compared by (zero when it has none), its
  \<open>std::type_info\<close>, and whether the comparison has to look at the latter.\<close>

record callable =
  bytes :: nat
  type_id :: nat
  must_check_object :: bool

record slot =
  cleaner :: nat
  index :: nat
  in_group :: int
  connected :: bool
  blocked :: bool
  func :: callable
  ptr :: target
  extended :: bool

record group_type =
  gid :: int
  slts :: "nat list"

type_synonym groups = "group_type list"

record payload =
  ref_count :: nat
  content :: groups

record signal_base =
  m_slots :: nat
  m_block :: bool

text \<open>An emission in progress: its reference to a payload, where its two loops are, and the
  arguments (as one value).\<close>

record emission =
  ref :: nat
  at_group :: nat
  at_slot :: nat
  arguments :: nat

text \<open>A call of a slot: which one, the connection it gets when it is an extended one, and
  the arguments.\<close>

record slot_call =
  callee :: nat
  own_connection :: "nat option"
  called_with :: nat

record world =
  slots :: "slot list"
  cells :: "payload option list"
  signals :: "signal_base option list"
  running :: "emission option list"
  dead :: "nat list"
  observing :: "(nat \<times> nat) list"
  calls :: "slot_call list"

definition start :: world where
  "start = \<lparr>slots = [], cells = [], signals = [], running = [], dead = [], observing = [], calls = []\<rparr>"

definition at :: "nat \<Rightarrow> 'a option list \<Rightarrow> 'a option" where
  "at i xs = (if i < length xs then xs ! i else None)"

definition deref :: "'a option \<Rightarrow> 'a res" where
  "deref p = (case p of None \<Rightarrow> Undefined | Some x \<Rightarrow> Ok x)"


section \<open>copy\_on\_write\<close>

definition acquire :: "nat \<Rightarrow> world \<Rightarrow> world res" where
  "acquire a w = rbind (deref (at a (cells w))) (\<lambda>p.
     Ok (w\<lparr>cells := (cells w)[a := Some (p\<lparr>ref_count := ref_count p + 1\<rparr>)]\<rparr>))"

definition release :: "nat \<Rightarrow> world \<Rightarrow> world res" where
  "release a w = rbind (deref (at a (cells w))) (\<lambda>p.
     Ok (w\<lparr>cells := (cells w)[a := if ref_count p - 1 = 0 then None
                                    else Some (p\<lparr>ref_count := ref_count p - 1\<rparr>)]\<rparr>))"

definition allocate :: "groups \<Rightarrow> world \<Rightarrow> world" where
  "allocate v w = w\<lparr>cells := cells w @ [Some \<lparr>ref_count = 1, content = v\<rparr>]\<rparr>"

definition set_signal :: "nat \<Rightarrow> signal_base option \<Rightarrow> world \<Rightarrow> world" where
  "set_signal sg s w = w\<lparr>signals := (signals w)[sg := s]\<rparr>"

text \<open>\<open>write()\<close>: afterwards the payload is unique.\<close>

definition unshare :: "nat \<Rightarrow> world \<Rightarrow> world res" where
  "unshare sg w = rbind (deref (at sg (signals w))) (\<lambda>s.
     rbind (deref (at (m_slots s) (cells w))) (\<lambda>p.
       if ref_count p = 1 then Ok w
       else release (m_slots s)
              (set_signal sg (Some (s\<lparr>m_slots := length (cells w)\<rparr>)) (allocate (content p) w))))"

text \<open>What the operations below do with the reference \<open>cow_write(m_slots)\<close>: they change the
  groups, and the indices of the slots.\<close>

definition modify :: "nat \<Rightarrow> (groups \<times> slot list \<Rightarrow> groups \<times> slot list) \<Rightarrow> world \<Rightarrow> world res" where
  "modify sg f w = rbind (unshare sg w) (\<lambda>w1.
     rbind (deref (at sg (signals w1))) (\<lambda>s.
     rbind (deref (at (m_slots s) (cells w1))) (\<lambda>p.
       (case f (content p, slots w1) of (gs, sl) \<Rightarrow>
          Ok (w1\<lparr>cells := (cells w1)[m_slots s := Some (p\<lparr>content := gs\<rparr>)], slots := sl\<rparr>)))))"


section \<open>Connecting\<close>

fun insert_slot :: "int \<Rightarrow> nat \<Rightarrow> groups \<Rightarrow> groups" where
  "insert_slot g s [] = [\<lparr>gid = g, slts = [s]\<rparr>]"
| "insert_slot g s (h # gs) =
     (if gid h < g then h # insert_slot g s gs
      else if gid h \<noteq> g then \<lparr>gid = g, slts = [s]\<rparr> # h # gs
      else h\<lparr>slts := slts h @ [s]\<rparr> # gs)"

fun insert_index :: "int \<Rightarrow> groups \<Rightarrow> nat" where
  "insert_index g [] = 0"
| "insert_index g (h # gs) =
     (if gid h < g then insert_index g gs else if gid h \<noteq> g then 0 else length (slts h))"

definition set_index :: "nat \<Rightarrow> nat \<Rightarrow> slot list \<Rightarrow> slot list" where
  "set_index s i sl = sl[s := (sl ! s)\<lparr>index := i\<rparr>]"

definition add_slot :: "nat \<Rightarrow> nat \<Rightarrow> world \<Rightarrow> world res" where
  "add_slot sg s w = modify sg (\<lambda>(gs, sl).
     (insert_slot (in_group (sl ! s)) s gs, set_index s (insert_index (in_group (sl ! s)) gs) sl)) w"

definition make_slot :: "nat \<Rightarrow> callable \<Rightarrow> target \<Rightarrow> bool \<Rightarrow> int \<Rightarrow> slot" where
  "make_slot sg c p x g = \<lparr>cleaner = sg, index = 0, in_group = g, connected = True, blocked = False,
     func = c, ptr = p, extended = x\<rparr>"

text \<open>The connection that \<open>connect\<close> returns is the address of the new slot.\<close>

definition connect :: "nat \<Rightarrow> callable \<Rightarrow> target \<Rightarrow> bool \<Rightarrow> int \<Rightarrow> world \<Rightarrow> world res" where
  "connect sg c p x g w = rbind (deref (at sg (signals w))) (\<lambda>_.
     add_slot sg (length (slots w)) (w\<lparr>slots := slots w @ [make_slot sg c p x g]\<rparr>))"

text \<open>The overload for an object that derives from \<open>observer\<close>.\<close>

definition connect_observer :: "nat \<Rightarrow> callable \<Rightarrow> nat \<Rightarrow> int \<Rightarrow> world \<Rightarrow> world res" where
  "connect_observer sg c obj g w = rbind (connect sg c (Address obj) False g w) (\<lambda>w1.
     if obj \<in> set (dead w1) then Undefined
     else Ok (w1\<lparr>observing := observing w1 @ [(obj, length (slots w))]\<rparr>))"


section \<open>Disconnecting\<close>

text \<open>\<open>std::swap(slts[i], slts.back()); slts.pop_back();\<close>\<close>

definition swap_pop :: "nat \<Rightarrow> nat list \<Rightarrow> nat list" where
  "swap_pop i ss = butlast (ss[i := last ss, length ss - 1 := ss ! i])"

fun clean_groups :: "nat \<Rightarrow> nat \<Rightarrow> int \<Rightarrow> groups \<times> slot list \<Rightarrow> groups \<times> slot list" where
  "clean_groups s i g ([], sl) = ([], sl)"
| "clean_groups s i g (h # gs, sl) =
     (if gid h = g then
        (if i < length (slts h) \<and> slts h ! i = s
         then (h\<lparr>slts := swap_pop i (slts h)\<rparr> # gs, set_index (last (slts h)) i sl)
         else (h # gs, sl))
      else (case clean_groups s i g (gs, sl) of (gs1, sl1) \<Rightarrow> (h # gs1, sl1)))"

definition clean :: "nat \<Rightarrow> world \<Rightarrow> world res" where
  "clean s w = modify (cleaner (slots w ! s)) (clean_groups s (index (slots w ! s)) (in_group (slots w ! s))) w"

text \<open>\<open>slot_state::disconnect\<close>, which returns whether the slot was connected.\<close>

definition disconnect_slot :: "nat \<Rightarrow> world \<Rightarrow> (world \<times> bool) res" where
  "disconnect_slot s w =
     (if connected (slots w ! s)
      then rbind (clean s (w\<lparr>slots := (slots w)[s := (slots w ! s)\<lparr>connected := False\<rparr>]\<rparr>)) (\<lambda>w1. Ok (w1, True))
      else Ok (w, False))"

text \<open>The weak pointer of a connection: the slot lives while a payload contains it.\<close>

definition contains :: "nat \<Rightarrow> groups \<Rightarrow> bool" where
  "contains s gs = (\<exists>g \<in> set gs. s \<in> set (slts g))"

definition alive :: "world \<Rightarrow> nat \<Rightarrow> bool" where
  "alive w s = (\<exists>c \<in> set (cells w). case c of None \<Rightarrow> False | Some p \<Rightarrow> contains s (content p))"

definition lock :: "world \<Rightarrow> nat option \<Rightarrow> nat option" where
  "lock w c = (case c of None \<Rightarrow> None | Some s \<Rightarrow> if alive w s then Some s else None)"

definition slot_connected :: "world \<Rightarrow> nat \<Rightarrow> bool" where
  "slot_connected w s = (case ptr (slots w ! s) of
     Tracked obj \<Rightarrow> obj \<notin> set (dead w) \<and> connected (slots w ! s)
   | _ \<Rightarrow> connected (slots w ! s))"

definition conn_valid :: "nat option \<Rightarrow> world \<Rightarrow> bool" where
  "conn_valid c w = (lock w c \<noteq> None)"

definition conn_connected :: "nat option \<Rightarrow> world \<Rightarrow> bool" where
  "conn_connected c w = (case lock w c of None \<Rightarrow> False | Some s \<Rightarrow> slot_connected w s)"

definition conn_disconnect :: "nat option \<Rightarrow> world \<Rightarrow> (world \<times> bool) res" where
  "conn_disconnect c w = (case lock w c of None \<Rightarrow> Ok (w, False) | Some s \<Rightarrow> disconnect_slot s w)"

definition conn_blocked :: "nat option \<Rightarrow> world \<Rightarrow> bool" where
  "conn_blocked c w = (case lock w c of None \<Rightarrow> False | Some s \<Rightarrow> blocked (slots w ! s))"

definition conn_set_blocked :: "bool \<Rightarrow> nat option \<Rightarrow> world \<Rightarrow> world" where
  "conn_set_blocked v c w = (case lock w c of None \<Rightarrow> w
     | Some s \<Rightarrow> w\<lparr>slots := (slots w)[s := (slots w ! s)\<lparr>blocked := v\<rparr>]\<rparr>)"

text \<open>A \<open>scoped_connection\<close> that gets another one moved into it disconnects first, then
  swaps: the result holds the new state of both.\<close>

definition scoped_assign :: "nat option \<Rightarrow> nat option \<Rightarrow> world \<Rightarrow> (world \<times> nat option \<times> nat option) res" where
  "scoped_assign this other w = rbind (conn_disconnect this w) (\<lambda>(w1, _). Ok (w1, other, this))"

text \<open>\<open>observer_base::disconnect_all\<close>: clearing the vector destroys its scoped connections. Its
  destructor does the same to what is left.\<close>

definition observer_disconnect_all :: "nat \<Rightarrow> world \<Rightarrow> world res" where
  "observer_disconnect_all obj w = rbind
     (foreach (map snd (filter (\<lambda>c. fst c = obj) (observing w)))
        (\<lambda>s w1. rbind (conn_disconnect (Some s) w1) (\<lambda>r. Ok (fst r))) w)
     (\<lambda>w1. Ok (w1\<lparr>observing := filter (\<lambda>c. fst c \<noteq> obj) (observing w1)\<rparr>))"

text \<open>\<open>disconnect_if\<close>: the inner loop over one group, then all groups, with the number of
  slots it removed.\<close>

function remove_if :: "(slot \<Rightarrow> bool) \<Rightarrow> nat \<Rightarrow> nat list \<Rightarrow> slot list \<Rightarrow> nat \<Rightarrow> nat list \<times> slot list \<times> nat" where
  "remove_if c i ss sl n =
     (if i < length ss then
        (if c (sl ! (ss ! i)) then remove_if c i (swap_pop i ss) (set_index (last ss) i sl) (n + 1)
         else remove_if c (i + 1) ss sl n)
      else (ss, sl, n))"
  by pat_completeness auto
termination
  by (relation "measure (\<lambda>(c, i, ss, sl, n). length ss - i)") (auto simp: swap_pop_def)

declare remove_if.simps [simp del]

fun remove_groups :: "(slot \<Rightarrow> bool) \<Rightarrow> groups \<Rightarrow> slot list \<Rightarrow> nat \<Rightarrow> groups \<times> slot list \<times> nat" where
  "remove_groups c [] sl n = ([], sl, n)"
| "remove_groups c (h # gs) sl n =
     (case remove_if c 0 (slts h) sl n of (ss, sl1, n1) \<Rightarrow>
        (case remove_groups c gs sl1 n1 of (gs1, sl2, n2) \<Rightarrow> (h\<lparr>slts := ss\<rparr> # gs1, sl2, n2)))"

definition disconnect_if :: "nat \<Rightarrow> (slot \<Rightarrow> bool) \<Rightarrow> world \<Rightarrow> world res" where
  "disconnect_if sg c w = modify sg (\<lambda>(gs, sl). case remove_groups c gs sl 0 of (gs1, sl1, n) \<Rightarrow> (gs1, sl1)) w"

text \<open>\<open>has_callable\<close> also asks whether both comparisons are there, which is always so: \<open>operator bool\<close>
  tests the address of the union's own bytes.\<close>

definition has_callable :: "callable \<Rightarrow> slot \<Rightarrow> bool" where
  "has_callable c s = (bytes c = bytes (func s))"

definition has_full_callable :: "callable \<Rightarrow> slot \<Rightarrow> bool" where
  "has_full_callable c s = (has_callable c s \<and> (must_check_object c \<longrightarrow> type_id c = type_id (func s)))"

text \<open>\<open>get_object_ptr\<close>: the null pointer for a function object and for a weak pointer that
  has expired.\<close>

definition get_object_ptr :: "world \<Rightarrow> target \<Rightarrow> nat option" where
  "get_object_ptr w t = (case t of No_object \<Rightarrow> None | Address obj \<Rightarrow> Some obj
     | Tracked obj \<Rightarrow> if obj \<in> set (dead w) then None else Some obj)"

definition has_object :: "world \<Rightarrow> target \<Rightarrow> slot \<Rightarrow> bool" where
  "has_object w t s = (get_object_ptr w (ptr s) = get_object_ptr w t)"

fun clear_group :: "int \<Rightarrow> groups \<Rightarrow> groups" where
  "clear_group g [] = []"
| "clear_group g (h # gs) = (if gid h = g then h\<lparr>slts := []\<rparr> # gs else h # clear_group g gs)"

definition disconnect_group :: "nat \<Rightarrow> int \<Rightarrow> world \<Rightarrow> world res" where
  "disconnect_group sg g w = modify sg (\<lambda>(gs, sl). (clear_group g gs, sl)) w"

definition disconnect_all :: "nat \<Rightarrow> world \<Rightarrow> world res" where
  "disconnect_all sg w = modify sg (\<lambda>(gs, sl). ([], sl)) w"

definition slot_count :: "nat \<Rightarrow> world \<Rightarrow> nat res" where
  "slot_count sg w = rbind (deref (at sg (signals w))) (\<lambda>s. rbind (deref (at (m_slots s) (cells w)))
     (\<lambda>p. Ok (sum_list (map (\<lambda>g. length (slts g)) (content p)))))"


section \<open>Emitting\<close>

definition emit :: "nat \<Rightarrow> nat \<Rightarrow> world \<Rightarrow> world res" where
  "emit sg a w = rbind (deref (at sg (signals w))) (\<lambda>s.
     if m_block s then Ok w
     else rbind (acquire (m_slots s) w) (\<lambda>w1.
       Ok (w1\<lparr>running := running w1 @ [Some \<lparr>ref = m_slots s, at_group = 0, at_slot = 0, arguments = a\<rparr>]\<rparr>)))"

definition record_call :: "nat \<Rightarrow> nat \<Rightarrow> world \<Rightarrow> world" where
  "record_call s a w = w\<lparr>calls := calls w @
     [\<lparr>callee = s, own_connection = (if extended (slots w ! s) then Some s else None), called_with = a\<rparr>]\<rparr>"

definition call_slot :: "nat \<Rightarrow> nat \<Rightarrow> world \<Rightarrow> world res" where
  "call_slot s a w = (case ptr (slots w ! s) of
     No_object \<Rightarrow> Ok (record_call s a w)
   | Address obj \<Rightarrow> if obj \<in> set (dead w) then Undefined else Ok (record_call s a w)
   | Tracked obj \<Rightarrow>
       if obj \<in> set (dead w) then rbind (disconnect_slot s w) (\<lambda>(w1, _). Ok w1)
       else if connected (slots w ! s) then Ok (record_call s a w) else Ok w)"

text \<open>\<open>slot_base::operator()\<close>\<close>

definition invoke :: "nat \<Rightarrow> nat \<Rightarrow> world \<Rightarrow> world res" where
  "invoke s a w = (if connected (slots w ! s) \<and> \<not> blocked (slots w ! s) then call_slot s a w else Ok w)"

definition set_running :: "nat \<Rightarrow> emission option \<Rightarrow> world \<Rightarrow> world" where
  "set_running e f w = w\<lparr>running := (running w)[e := f]\<rparr>"

text \<open>One turn of the two loops of an emission: the next slot, the next group, or the end,
  which gives the payload back.\<close>

definition proceed :: "nat \<Rightarrow> world \<Rightarrow> world res" where
  "proceed e w = (case at e (running w) of None \<Rightarrow> Ok w | Some f \<Rightarrow>
     rbind (deref (at (ref f) (cells w))) (\<lambda>p.
       if at_group f < length (content p) then
         (let ss = slts (content p ! at_group f) in
          if at_slot f < length ss
          then invoke (ss ! at_slot f) (arguments f) (set_running e (Some (f\<lparr>at_slot := at_slot f + 1\<rparr>)) w)
          else Ok (set_running e (Some (f\<lparr>at_group := at_group f + 1, at_slot := 0\<rparr>)) w))
       else release (ref f) (set_running e None w)))"


section \<open>The life of a signal\<close>

definition create :: "bool \<Rightarrow> world \<Rightarrow> world" where
  "create b w = (let w1 = allocate [] w in
     w1\<lparr>signals := signals w1 @ [Some \<lparr>m_slots = length (cells w), m_block = b\<rparr>]\<rparr>)"

definition destroy :: "nat \<Rightarrow> world \<Rightarrow> world res" where
  "destroy sg w = rbind (disconnect_all sg w) (\<lambda>w1. rbind (deref (at sg (signals w1))) (\<lambda>s.
     release (m_slots s) (set_signal sg None w1)))"

definition swap_slots :: "nat \<Rightarrow> nat \<Rightarrow> world \<Rightarrow> world res" where
  "swap_slots x y w = rbind (deref (at x (signals w))) (\<lambda>s. rbind (deref (at y (signals w))) (\<lambda>t.
     Ok (set_signal y (Some (t\<lparr>m_slots := m_slots s\<rparr>))
          (set_signal x (Some (s\<lparr>m_slots := m_slots t\<rparr>)) w))))"

text \<open>Moving a signal, into a new one and into an existing one. Moving one into itself locks its
  mutex twice.\<close>

definition move_construct :: "nat \<Rightarrow> world \<Rightarrow> world res" where
  "move_construct o1 w = rbind (deref (at o1 (signals w))) (\<lambda>s.
     swap_slots (length (signals w)) o1 (create (m_block s) w))"

definition move_assign :: "nat \<Rightarrow> nat \<Rightarrow> world \<Rightarrow> world res" where
  "move_assign x y w = (if x = y then Undefined else rbind (swap_slots x y w) (\<lambda>w1.
     rbind (deref (at x (signals w1))) (\<lambda>s. rbind (deref (at y (signals w1))) (\<lambda>t.
       Ok (set_signal x (Some (s\<lparr>m_block := m_block t\<rparr>)) (set_signal y (Some (t\<lparr>m_block := m_block s\<rparr>)) w1))))))"

definition set_block :: "nat \<Rightarrow> bool \<Rightarrow> world \<Rightarrow> world res" where
  "set_block sg v w = rbind (deref (at sg (signals w))) (\<lambda>s. Ok (set_signal sg (Some (s\<lparr>m_block := v\<rparr>)) w))"

datatype event =
    Create | Destroy nat | Move_construct nat | Move_assign nat nat
  | Connect nat callable target bool int | Connect_observer nat callable nat int
  | Disconnect "nat option" | Disconnect_callable nat callable | Disconnect_object nat target
  | Disconnect_both nat callable target | Disconnect_group nat int | Disconnect_all nat
  | Observer_disconnects nat | Object_dies nat
  | Block_slot bool "nat option" | Block_signal bool nat
  | Emit nat nat | Proceed nat

fun step :: "world \<Rightarrow> event \<Rightarrow> world res" where
  "step w Create = Ok (create False w)"
| "step w (Destroy sg) = destroy sg w"
| "step w (Move_construct sg) = move_construct sg w"
| "step w (Move_assign x y) = move_assign x y w"
| "step w (Connect sg c p x g) = connect sg c p x g w"
| "step w (Connect_observer sg c obj g) = connect_observer sg c obj g w"
| "step w (Disconnect c) = rbind (conn_disconnect c w) (\<lambda>r. Ok (fst r))"
| "step w (Disconnect_callable sg c) = disconnect_if sg (has_full_callable c) w"
| "step w (Disconnect_object sg t) = disconnect_if sg (has_object w t) w"
| "step w (Disconnect_both sg c t) = disconnect_if sg (\<lambda>s. has_object w t s \<and> has_callable c s) w"
| "step w (Disconnect_group sg g) = disconnect_group sg g w"
| "step w (Disconnect_all sg) = disconnect_all sg w"
| "step w (Observer_disconnects obj) = observer_disconnect_all obj w"
| "step w (Object_dies obj) = observer_disconnect_all obj (w\<lparr>dead := obj # dead w\<rparr>)"
| "step w (Block_slot v c) = Ok (conn_set_blocked v c w)"
| "step w (Block_signal v sg) = set_block sg v w"
| "step w (Emit sg a) = emit sg a w"
| "step w (Proceed e) = proceed e w"


section \<open>Counted references\<close>

lemma at_update [simp]: "at i (xs[j := y]) = (if i = j \<and> j < length xs then y else at i xs)"
  by (simp add: at_def)

lemma at_append [simp]: "at i (xs @ [y]) = (if i = length xs then y else at i xs)"
  by (simp add: at_def nth_append)

lemma at_length [simp]: "at (length xs) xs = None"
  by (simp add: at_def)

lemma at_Some_length: "at i xs = Some x \<Longrightarrow> i < length xs"
  by (simp add: at_def split: if_splits)

lemma nth_update: "xs[i := x] ! j = (if i = j \<and> i < length xs then x else xs ! j)"
  by (cases "i < length xs") (auto simp: nth_list_update list_update_beyond)

lemma at_map: "at i (map (map_option f) xs) = map_option f (at i xs)"
  by (simp add: at_def)

lemma at_Some_set: "at i xs = Some x \<Longrightarrow> Some x \<in> set xs"
  by (metis at_def nth_mem option.distinct(1))

lemma set_at: "Some x \<in> set xs \<Longrightarrow> \<exists>i. at i xs = Some x"
  by (auto simp: in_set_conv_nth at_def)

lemma deref_simps [simp]: "deref None = Undefined" "deref (Some x) = Ok x"
  by (simp_all add: deref_def)

lemma deref_Ok [simp]: "deref p = Ok x \<longleftrightarrow> p = Some x"
  by (simp add: deref_def split: option.split)

lemma count_list_append: "count_list (xs @ ys) z = count_list xs z + count_list ys z"
  by (induction xs) auto

lemma count_update:
  "i < length xs \<Longrightarrow> count_list (xs[i := y]) z + (if xs ! i = z then 1 else 0) = count_list xs z + (if y = z then 1 else 0)"
proof (induction xs arbitrary: i)
  case Nil
  then show ?case by simp
next
  case (Cons x xs)
  show ?case
  proof (cases i)
    case 0
    then show ?thesis by simp
  next
    case (Suc j)
    with Cons.prems Cons.IH[of j] show ?thesis by (simp split: if_split_asm)
  qed
qed

lemma count_at:
  assumes "at i xs = Some x"
  shows "count_list (xs[i := y]) z + (if Some x = z then 1 else 0) = count_list xs z + (if y = z then 1 else 0)"
  using count_update[of i xs y z] assms by (auto simp: at_def split: if_splits)

text \<open>Who refers to payloads: signals and emissions.\<close>

definition owners :: "world \<Rightarrow> nat option list" where
  "owners w = map (map_option m_slots) (signals w) @ map (map_option ref) (running w)"

text \<open>How many references there are to a payload, with the further ones \<open>X\<close> that an operation
  holds on its way; and that every counter says so.\<close>

definition owed :: "nat list \<Rightarrow> world \<Rightarrow> nat \<Rightarrow> nat" where
  "owed X w a = count_list (owners w) (Some a) + count_list X a"

definition counted_with :: "nat list \<Rightarrow> world \<Rightarrow> bool" where
  "counted_with X w \<longleftrightarrow>
     (\<forall>a. map_option ref_count (at a (cells w)) = (if owed X w a = 0 then None else Some (owed X w a)))"

abbreviation counted :: "world \<Rightarrow> bool" where
  "counted \<equiv> counted_with []"

lemma counted_Some:
  "counted_with X w \<Longrightarrow> at a (cells w) = Some p \<Longrightarrow> ref_count p = owed X w a \<and> 0 < owed X w a"
  unfolding counted_with_def by (auto dest!: spec[of _ a] split: if_splits)

lemma counted_owed: "counted_with X w \<Longrightarrow> 0 < owed X w a \<Longrightarrow> \<exists>p. at a (cells w) = Some p"
  unfolding counted_with_def by (auto dest!: spec[of _ a])

definition groups_at :: "world \<Rightarrow> nat option \<Rightarrow> groups option" where
  "groups_at w a = (case a of None \<Rightarrow> None | Some b \<Rightarrow> map_option content (at b (cells w)))"

text \<open>The groups of a signal, and those an emission goes through.\<close>

definition groups_of :: "world \<Rightarrow> nat \<Rightarrow> groups option" where
  "groups_of w sg = groups_at w (map_option m_slots (at sg (signals w)))"

definition snapshot :: "world \<Rightarrow> nat \<Rightarrow> groups option" where
  "snapshot w e = groups_at w (map_option ref (at e (running w)))"

definition same_content :: "nat set \<Rightarrow> world \<Rightarrow> world \<Rightarrow> bool" where
  "same_content A w w1 \<longleftrightarrow> (\<forall>a \<in> A. map_option content (at a (cells w1)) = map_option content (at a (cells w)))"

lemma release_spec:
  assumes "counted_with (a # X) w"
  shows "\<exists>c. release a w = Ok (w\<lparr>cells := c\<rparr>) \<and> counted_with X (w\<lparr>cells := c\<rparr>)
     \<and> same_content {b. 0 < owed X w b} w (w\<lparr>cells := c\<rparr>)"
proof -
  have "0 < owed (a # X) w a" by (simp add: owed_def)
  with assms obtain p where p: "at a (cells w) = Some p" by (auto dest: counted_owed)
  with assms have n: "ref_count p = owed X w a + 1" by (auto dest: counted_Some simp: owed_def)
  from p have len: "a < length (cells w)" by (rule at_Some_length)
  let ?w = "w\<lparr>cells := (cells w)[a := if ref_count p - 1 = 0 then None else Some (p\<lparr>ref_count := ref_count p - 1\<rparr>)]\<rparr>"
  have r: "release a w = Ok ?w" by (simp add: release_def p)
  have o: "owed X ?w b = owed X w b" for b by (simp add: owed_def owners_def)
  have "counted_with X ?w"
    unfolding counted_with_def o
  proof
    fix b
    have "b \<noteq> a \<Longrightarrow> owed (a # X) w b = owed X w b" by (simp add: owed_def)
    with assms n len show "map_option ref_count (at b (cells ?w)) = (if owed X w b = 0 then None else Some (owed X w b))"
      by (cases "b = a") (simp_all add: counted_with_def)
  qed
  moreover have "same_content {b. 0 < owed X w b} w ?w"
    using len n p by (auto simp: same_content_def)
  ultimately show ?thesis using r by blast
qed

lemma acquire_spec:
  assumes "counted_with X w" "0 < owed X w a"
  shows "\<exists>c. acquire a w = Ok (w\<lparr>cells := c\<rparr>) \<and> counted_with (a # X) (w\<lparr>cells := c\<rparr>)
     \<and> same_content UNIV w (w\<lparr>cells := c\<rparr>)"
proof -
  from assms obtain p where p: "at a (cells w) = Some p" by (auto dest: counted_owed)
  with assms(1) have n: "ref_count p = owed X w a" by (auto dest: counted_Some)
  from p have len: "a < length (cells w)" by (rule at_Some_length)
  let ?w = "w\<lparr>cells := (cells w)[a := Some (p\<lparr>ref_count := ref_count p + 1\<rparr>)]\<rparr>"
  have "counted_with (a # X) ?w"
    unfolding counted_with_def
  proof
    fix b
    have "owed (a # X) ?w b = owed X w b + (if b = a then 1 else 0)" by (auto simp: owed_def owners_def)
    with assms n len show "map_option ref_count (at b (cells ?w))
        = (if owed (a # X) ?w b = 0 then None else Some (owed (a # X) ?w b))"
      by (cases "b = a") (simp_all add: counted_with_def)
  qed
  moreover have "same_content UNIV w ?w" using len p by (simp add: same_content_def)
  moreover have "acquire a w = Ok ?w" using p by (simp add: acquire_def)
  ultimately show ?thesis by blast
qed

lemma owners_set_signal:
  assumes "at sg (signals w) = Some s"
  shows "count_list (owners (set_signal sg t w)) z + (if Some (m_slots s) = z then 1 else 0)
       = count_list (owners w) z + (if map_option m_slots t = z then 1 else 0)"
  using assms count_at[of sg "map (map_option m_slots) (signals w)" "m_slots s" "map_option m_slots t" z]
  by (simp add: owners_def set_signal_def count_list_append map_update at_map)

lemma owed_signal: "at sg (signals w) = Some s \<Longrightarrow> 0 < owed X w (m_slots s)"
  using at_Some_set[of sg "signals w" s]
  by (force simp: owed_def owners_def count_list_0_iff intro!: gr0I)

lemma owed_running: "at e (running w) = Some f \<Longrightarrow> 0 < owed X w (ref f)"
  using at_Some_set[of e "running w" f]
  by (force simp: owed_def owners_def count_list_0_iff intro!: gr0I)


text \<open>What a write changes: the groups of one signal and the slots, and nothing else that
  anybody can see.\<close>

definition wrote :: "nat \<Rightarrow> groups \<Rightarrow> slot list \<Rightarrow> world \<Rightarrow> world \<Rightarrow> bool" where
  "wrote sg gs sl w w1 \<longleftrightarrow>
     (\<forall>x. groups_of w1 x = (if x = sg then Some gs else groups_of w x)) \<and>
     (\<forall>e. snapshot w1 e = snapshot w e) \<and>
     (\<forall>x. map_option m_block (at x (signals w1)) = map_option m_block (at x (signals w))) \<and>
     running w1 = running w \<and> dead w1 = dead w \<and> observing w1 = observing w \<and> calls w1 = calls w \<and> slots w1 = sl"

lemma groups_of_Some: "at sg (signals w) = Some s \<Longrightarrow> groups_of w sg = map_option content (at (m_slots s) (cells w))"
  by (simp add: groups_of_def groups_at_def)

lemma groups_exist: "counted_with X w \<Longrightarrow> at sg (signals w) = Some s \<Longrightarrow> \<exists>gs. groups_of w sg = Some gs"
  using counted_owed[OF _ owed_signal[of sg w s X]] by (auto simp: groups_of_Some)

lemma same_content_views:
  assumes "same_content {a. 0 < owed X w a} w w1" "signals w1 = signals w" "running w1 = running w"
  shows "groups_of w1 x = groups_of w x" "snapshot w1 e = snapshot w e"
  using assms owed_signal[of x w _ X] owed_running[of e w _ X]
  by (auto simp: same_content_def groups_of_def snapshot_def groups_at_def split: option.split)

lemma unshare_spec:
  assumes "counted w" "at sg (signals w) = Some s" "groups_of w sg = Some gs"
  shows "\<exists>w1 t. unshare sg w = Ok w1 \<and> counted w1 \<and> at sg (signals w1) = Some t \<and> owed [] w1 (m_slots t) = 1
     \<and> wrote sg gs (slots w) w w1"
proof -
  from assms obtain p where p: "at (m_slots s) (cells w) = Some p" "content p = gs"
    by (auto simp: groups_of_Some)
  show ?thesis
  proof (cases "ref_count p = 1")
    case True
    with assms p show ?thesis
      by (auto simp: unshare_def wrote_def dest: counted_Some)
  next
    case False
    let ?n = "length (cells w)"
    let ?w = "set_signal sg (Some (s\<lparr>m_slots := ?n\<rparr>)) (allocate gs w)"
    have sig: "at sg (signals (allocate gs w)) = Some s" using assms(2) by (simp add: allocate_def)
    have fresh: "owed [] w ?n = 0" using assms(1) unfolding counted_with_def by (auto dest!: spec[of _ ?n] split: if_splits)
    have cnt: "owed [m_slots s] ?w a = owed [] w a + (if a = ?n then 1 else 0)" for a
      using owners_set_signal[OF sig, of "Some (s\<lparr>m_slots := ?n\<rparr>)" "Some a"]
      by (auto simp: owed_def owners_def allocate_def split: if_splits)
    have "counted_with [m_slots s] ?w"
      unfolding counted_with_def cnt
    proof
      fix a
      show "map_option ref_count (at a (cells ?w)) = (if owed [] w a + (if a = ?n then 1 else 0) = 0 then None
          else Some (owed [] w a + (if a = ?n then 1 else 0)))"
        using assms(1) fresh by (cases "a = ?n") (simp_all add: allocate_def set_signal_def counted_with_def)
    qed
    from release_spec[OF this] obtain c where c: "release (m_slots s) ?w = Ok (?w\<lparr>cells := c\<rparr>)"
      "counted (?w\<lparr>cells := c\<rparr>)" "same_content {b. 0 < owed [] ?w b} ?w (?w\<lparr>cells := c\<rparr>)" by blast
    let ?w1 = "?w\<lparr>cells := c\<rparr>"
    let ?t = "s\<lparr>m_slots := ?n\<rparr>"
    from assms(2) have len: "sg < length (signals w)" by (rule at_Some_length)
    have views: "groups_of ?w1 x = groups_of ?w x" "snapshot ?w1 e = snapshot ?w e" for x e
      using c(3) by (auto intro!: same_content_views[of "[]"])
    have old: "a \<noteq> ?n" if "0 < owed [] w a" for a using that fresh by auto
    have "groups_of ?w x = (if x = sg then Some gs else groups_of w x)" for x
      using len old[OF owed_signal[of x w _ "[]"]]
      by (auto simp: groups_of_def groups_at_def set_signal_def allocate_def split: option.split)
    moreover have "snapshot ?w e = snapshot w e" for e
      using old[OF owed_running[of e w _ "[]"]]
      by (auto simp: snapshot_def groups_at_def set_signal_def allocate_def split: option.split)
    moreover have "owed [] ?w1 ?n = 1"
    proof -
      have "owed [] ?w1 ?n = owed [m_slots s] ?w ?n"
        using at_Some_length[OF p(1)] by (simp add: owed_def owners_def)
      with cnt[of ?n] fresh show ?thesis by simp
    qed
    ultimately have "wrote sg gs (slots w) w ?w1"
      using len assms(2) views by (simp add: wrote_def) (simp add: set_signal_def allocate_def)
    moreover have "unshare sg w = Ok ?w1" using c(1) assms(2) p False by (simp add: unshare_def)
    moreover have "at sg (signals ?w1) = Some ?t" using len by (simp add: set_signal_def allocate_def)
    moreover have "owed [] ?w1 (m_slots ?t) = 1" using \<open>owed [] ?w1 ?n = 1\<close> by simp
    ultimately show ?thesis using c(2) by blast
  qed
qed


lemma count_one:
  assumes "count_list xs (Some x) = 1" "at i xs = Some x" "at j xs = Some x"
  shows "j = i"
proof (rule ccontr)
  assume "j \<noteq> i"
  with assms(3) have "at j (xs[i := None]) = Some x" by simp
  then have "Some x \<in> set (xs[i := None])" by (rule at_Some_set)
  moreover have "count_list (xs[i := None]) (Some x) = 0"
    using count_at[OF assms(2), of None "Some x"] assms(1) by simp
  ultimately show False by (simp add: count_list_0_iff)
qed

text \<open>A payload that is unique belongs to one signal and to no emission.\<close>

lemma unique_owner:
  assumes "owed [] w (m_slots t) = 1" "at sg (signals w) = Some t"
  shows "at x (signals w) = Some s \<Longrightarrow> m_slots s = m_slots t \<Longrightarrow> x = sg"
    and "at e (running w) = Some f \<Longrightarrow> ref f \<noteq> m_slots t"
proof -
  let ?S = "map (map_option m_slots) (signals w)" and ?R = "map (map_option ref) (running w)"
  have S: "at sg ?S = Some (m_slots t)" using assms(2) by (simp add: at_map)
  then have "count_list ?S (Some (m_slots t)) \<noteq> 0" by (metis at_Some_set count_list_0_iff)
  with assms(1) have c: "count_list ?S (Some (m_slots t)) = 1" "count_list ?R (Some (m_slots t)) = 0"
    by (simp_all add: owed_def owners_def count_list_append)
  show "at x (signals w) = Some s \<Longrightarrow> m_slots s = m_slots t \<Longrightarrow> x = sg"
    using count_one[OF c(1) S, of x] by (simp add: at_map)
  show "ref f \<noteq> m_slots t" if "at e (running w) = Some f"
  proof
    assume "ref f = m_slots t"
    with that have "at e ?R = Some (m_slots t)" by (simp add: at_map)
    with c(2) show False by (metis at_Some_set count_list_0_iff)
  qed
qed

lemma modify_spec:
  assumes "counted w" "groups_of w sg = Some gs"
  shows "\<exists>w1. modify sg f w = Ok w1 \<and> counted w1 \<and> wrote sg (fst (f (gs, slots w))) (snd (f (gs, slots w))) w w1"
proof -
  from assms(2) obtain s where "at sg (signals w) = Some s"
    by (auto simp: groups_of_def groups_at_def split: option.splits)
  from unshare_spec[OF assms(1) this assms(2)] obtain w1 t where u: "unshare sg w = Ok w1" "counted w1"
    "at sg (signals w1) = Some t" "owed [] w1 (m_slots t) = 1" "wrote sg gs (slots w) w w1" by blast
  from u(2,4) obtain p where p: "at (m_slots t) (cells w1) = Some p" by (metis counted_owed zero_less_one)
  obtain gs1 sl1 where f: "f (gs, slots w) = (gs1, sl1)" by (cases "f (gs, slots w)")
  let ?w2 = "w1\<lparr>cells := (cells w1)[m_slots t := Some (p\<lparr>content := gs1\<rparr>)], slots := sl1\<rparr>"
  from u(5) have g: "groups_of w1 sg = Some gs" "slots w1 = slots w" by (simp_all add: wrote_def)
  with u(3) p have "content p = gs" by (simp add: groups_of_Some)
  with u(1,3) p f g have "modify sg f w = Ok ?w2" by (simp add: modify_def)
  moreover have "counted ?w2"
    unfolding counted_with_def
  proof
    fix a
    have o: "owed [] ?w2 a = owed [] w1 a" by (simp add: owed_def owners_def)
    have c: "map_option ref_count (at a (cells ?w2)) = map_option ref_count (at a (cells w1))"
      using p at_Some_length[OF p] by simp
    show "map_option ref_count (at a (cells ?w2)) = (if owed [] ?w2 a = 0 then None else Some (owed [] ?w2 a))"
      unfolding o c using u(2) unfolding counted_with_def by blast
  qed
  moreover have "groups_of ?w2 x = (if x = sg then Some gs1 else groups_of w1 x)" for x
  proof (cases "at x (signals w1)")
    case None
    with u(3) show ?thesis by (auto simp: groups_of_def groups_at_def)
  next
    case (Some s)
    with u(3) at_Some_length[OF p] unique_owner(1)[OF u(4,3) Some] show ?thesis
      by (cases "x = sg") (auto simp: groups_of_Some)
  qed
  moreover have "snapshot ?w2 e = snapshot w1 e" for e
    using unique_owner(2)[OF u(4,3), of e]
    by (auto simp: snapshot_def groups_at_def split: option.split)
  ultimately have "wrote sg gs1 sl1 w ?w2" using u(5) by (simp add: wrote_def)
  with \<open>modify sg f w = Ok ?w2\<close> \<open>counted ?w2\<close> f show ?thesis by auto
qed



section \<open>Where slots are\<close>

definition slot_set :: "groups \<Rightarrow> nat set" where
  "slot_set gs = (\<Union>h \<in> set gs. set (slts h))"

definition indexed :: "slot list \<Rightarrow> int \<Rightarrow> nat list \<Rightarrow> bool" where
  "indexed sl g ss \<longleftrightarrow>
     (\<forall>i < length ss. ss ! i < length sl \<and> in_group (sl ! (ss ! i)) = g \<and> index (sl ! (ss ! i)) = i)"

text \<open>The groups are in ascending order, each slot is in its group and knows its place there.\<close>

definition placed :: "slot list \<Rightarrow> groups \<Rightarrow> bool" where
  "placed sl gs \<longleftrightarrow> sorted_wrt (<) (map gid gs) \<and> (\<forall>h \<in> set gs. indexed sl (gid h) (slts h))"

text \<open>A change of the slots that only moves some of them.\<close>

definition reindexed :: "nat set \<Rightarrow> slot list \<Rightarrow> slot list \<Rightarrow> bool" where
  "reindexed A sl sl1 \<longleftrightarrow> length sl1 = length sl \<and> (\<forall>s. s \<notin> A \<longrightarrow> sl1 ! s = sl ! s)
     \<and> (\<forall>s. (sl1 ! s)\<lparr>index := 0\<rparr> = (sl ! s)\<lparr>index := 0\<rparr>)"

lemma slot_set_simps [simp]: "slot_set [] = {}" "slot_set (h # gs) = set (slts h) \<union> slot_set gs"
  by (simp_all add: slot_set_def)

lemma contains_slot_set: "contains s gs \<longleftrightarrow> s \<in> slot_set gs"
  by (simp add: contains_def slot_set_def)

lemma reindexed_refl [simp]: "reindexed A sl sl"
  by (simp add: reindexed_def)

lemma reindexed_trans: "reindexed A x y \<Longrightarrow> reindexed A y z \<Longrightarrow> reindexed A x z"
  by (simp add: reindexed_def)

lemma reindexed_mono: "reindexed A x y \<Longrightarrow> A \<subseteq> B \<Longrightarrow> reindexed B x y"
  by (auto simp: reindexed_def)

lemma reindexed_fields:
  assumes "reindexed A sl sl1"
  shows "connected (sl1 ! s) = connected (sl ! s)" "blocked (sl1 ! s) = blocked (sl ! s)"
    "ptr (sl1 ! s) = ptr (sl ! s)" "extended (sl1 ! s) = extended (sl ! s)" "cleaner (sl1 ! s) = cleaner (sl ! s)"
    "in_group (sl1 ! s) = in_group (sl ! s)" "func (sl1 ! s) = func (sl ! s)"
proof -
  have e: "(sl1 ! s)\<lparr>index := 0\<rparr> = (sl ! s)\<lparr>index := 0\<rparr>" using assms by (simp add: reindexed_def)
  show "connected (sl1 ! s) = connected (sl ! s)" using arg_cong[OF e, of connected] by simp
  show "blocked (sl1 ! s) = blocked (sl ! s)" using arg_cong[OF e, of blocked] by simp
  show "ptr (sl1 ! s) = ptr (sl ! s)" using arg_cong[OF e, of ptr] by simp
  show "extended (sl1 ! s) = extended (sl ! s)" using arg_cong[OF e, of extended] by simp
  show "cleaner (sl1 ! s) = cleaner (sl ! s)" using arg_cong[OF e, of cleaner] by simp
  show "in_group (sl1 ! s) = in_group (sl ! s)" using arg_cong[OF e, of in_group] by simp
  show "func (sl1 ! s) = func (sl ! s)" using arg_cong[OF e, of func] by simp
qed

lemma reindexed_set_index: "s \<in> A \<Longrightarrow> reindexed A sl (set_index s i sl)"
  by (cases "s < length sl") (auto simp: reindexed_def set_index_def nth_list_update list_update_beyond)

lemma indexed_other: "indexed sl g ss \<Longrightarrow> reindexed A sl sl1 \<Longrightarrow> set ss \<inter> A = {} \<Longrightarrow> indexed sl1 g ss"
  unfolding indexed_def reindexed_def by (metis disjoint_iff nth_mem)

lemma placed_other: "placed sl gs \<Longrightarrow> reindexed A sl sl1 \<Longrightarrow> slot_set gs \<inter> A = {} \<Longrightarrow> placed sl1 gs"
  unfolding placed_def slot_set_def by (blast intro: indexed_other)

lemma indexed_distinct: "indexed sl g ss \<Longrightarrow> distinct ss"
  unfolding indexed_def distinct_conv_nth by metis

lemma placed_Cons:
  "placed sl (h # gs) \<longleftrightarrow> indexed sl (gid h) (slts h) \<and> placed sl gs \<and> (\<forall>k \<in> set gs. gid h < gid k)"
  by (auto simp: placed_def)

lemma placed_group: "placed sl gs \<Longrightarrow> h \<in> set gs \<Longrightarrow> s \<in> set (slts h) \<Longrightarrow> in_group (sl ! s) = gid h \<and> s < length sl"
  unfolding placed_def indexed_def by (metis in_set_conv_nth)

lemma placed_range: "placed sl gs \<Longrightarrow> slot_set gs \<subseteq> {..<length sl}"
  unfolding slot_set_def by (auto dest: placed_group)

lemma placed_disjoint:
  assumes "placed sl (h # gs)"
  shows "set (slts h) \<inter> slot_set gs = {}"
proof (rule ccontr)
  assume "set (slts h) \<inter> slot_set gs \<noteq> {}"
  then obtain s k where "s \<in> set (slts h)" "k \<in> set gs" "s \<in> set (slts k)" by (auto simp: slot_set_def)
  with assms placed_group[OF assms, of h s] placed_group[OF assms, of k s] show False
    by (auto simp: placed_Cons)
qed

lemma swap_pop_mset:
  assumes "i < length ss"
  shows "mset (swap_pop i ss) = mset ss - {#ss ! i#}"
proof -
  let ?n = "length ss - 1"
  let ?u = "ss[i := last ss, ?n := ss ! i]"
  from assms have ne: "ss \<noteq> []" "?n < length ss" by auto
  then have l: "last ss = ss ! ?n" by (simp add: last_conv_nth)
  from mset_swap[OF ne(2) assms] l have "mset ?u = mset ss" by simp
  moreover have "last ?u = ss ! i" "?u \<noteq> []" using ne by (simp_all add: last_conv_nth)
  moreover have "mset ?u = mset (butlast ?u) + {#last ?u#}"
    using \<open>?u \<noteq> []\<close> by (metis append_butlast_last_id mset_append mset_single_iff)
  ultimately show ?thesis unfolding swap_pop_def by (metis add_diff_cancel_right')
qed

lemma length_swap_pop [simp]: "length (swap_pop i ss) = length ss - 1"
  by (simp add: swap_pop_def)

lemma swap_pop_nth:
  "i < length ss \<Longrightarrow> j < length ss - 1 \<Longrightarrow> swap_pop i ss ! j = (if j = i then last ss else ss ! j)"
  by (simp add: swap_pop_def nth_butlast)

lemma swap_pop_indexed:
  assumes "indexed sl g ss" "i < length ss"
  shows "indexed (set_index (last ss) i sl) g (swap_pop i ss)"
    and "set (swap_pop i ss) = set ss - {ss ! i}"
proof -
  from assms(2) have ne: "ss \<noteq> []" by auto
  then have l: "last ss = ss ! (length ss - 1)" by (rule last_conv_nth)
  have d: "distinct ss" by (rule indexed_distinct[OF assms(1)])
  have L: "last ss < length sl" using assms ne by (simp add: l indexed_def)
  show "indexed (set_index (last ss) i sl) g (swap_pop i ss)"
    unfolding indexed_def
  proof (intro allI impI)
    fix j assume "j < length (swap_pop i ss)"
    then have j: "j < length ss - 1" by simp
    have "ss ! j \<noteq> last ss" using d j ne by (auto simp: l nth_eq_iff_index_eq)
    with assms j L show "swap_pop i ss ! j < length (set_index (last ss) i sl)
      \<and> in_group (set_index (last ss) i sl ! (swap_pop i ss ! j)) = g
      \<and> index (set_index (last ss) i sl ! (swap_pop i ss ! j)) = j"
      by (auto simp: swap_pop_nth indexed_def set_index_def l nth_list_update)
  qed
  have "set_mset (mset (swap_pop i ss)) = set ss - {ss ! i}"
    using d assms(2) by (simp add: swap_pop_mset flip: mset_remove1)
  then show "set (swap_pop i ss) = set ss - {ss ! i}" by simp
qed


text \<open>What the disconnecting operations do to one list of groups.\<close>

definition shrinks :: "(nat \<Rightarrow> bool) \<Rightarrow> groups \<Rightarrow> slot list \<Rightarrow> groups \<Rightarrow> slot list \<Rightarrow> bool" where
  "shrinks r gs sl gs1 sl1 \<longleftrightarrow> placed sl1 gs1 \<and> map gid gs1 = map gid gs
     \<and> slot_set gs1 = {s \<in> slot_set gs. \<not> r s} \<and> reindexed (slot_set gs) sl sl1"

lemma shrinks_keep:
  "placed sl gs \<Longrightarrow> (\<And>s. s \<in> slot_set gs \<Longrightarrow> \<not> r s) \<Longrightarrow> shrinks r gs sl gs sl"
  by (auto simp: shrinks_def)

text \<open>One group shrinks, then the ones behind it.\<close>

lemma shrinks_Cons:
  assumes "placed sl (h # gs)" "indexed sl1 (gid h) ss" "set ss = {s \<in> set (slts h). \<not> r s}"
    "reindexed (set (slts h)) sl sl1" "shrinks r gs sl1 gs1 sl2"
  shows "shrinks r (h # gs) sl (h\<lparr>slts := ss\<rparr> # gs1) sl2"
proof -
  have d: "set (slts h) \<inter> slot_set gs = {}" by (rule placed_disjoint[OF assms(1)])
  from assms(5) have s: "placed sl2 gs1" "map gid gs1 = map gid gs" "slot_set gs1 = {s \<in> slot_set gs. \<not> r s}"
    "reindexed (slot_set gs) sl1 sl2" by (simp_all add: shrinks_def)
  have "indexed sl2 (gid h) ss"
    using indexed_other[OF assms(2) s(4)] d assms(3) by blast
  moreover have "\<forall>k \<in> set gs1. gid h < gid k"
    using assms(1) s(2) unfolding placed_Cons by (metis (no_types, lifting) image_iff list.set_map)
  moreover have "reindexed (slot_set (h # gs)) sl sl2"
    using reindexed_trans[OF reindexed_mono[OF assms(4)] reindexed_mono[OF s(4)]] by auto
  ultimately show ?thesis using s assms(3) by (auto simp: shrinks_def placed_Cons)
qed

lemma clean_groups_shrinks:
  assumes "placed sl gs" "s \<in> slot_set gs \<Longrightarrow> i = index (sl ! s) \<and> g = in_group (sl ! s)"
  shows "shrinks (\<lambda>x. x = s) gs sl (fst (clean_groups s i g (gs, sl))) (snd (clean_groups s i g (gs, sl)))"
  using assms
proof (induction gs)
  case Nil
  then show ?case by (simp add: shrinks_def placed_def)
next
  case (Cons h gs)
  from Cons.prems(1) have h: "indexed sl (gid h) (slts h)" "placed sl gs" by (simp_all add: placed_Cons)
  have d: "set (slts h) \<inter> slot_set gs = {}" by (rule placed_disjoint[OF Cons.prems(1)])
  show ?case
  proof (cases "gid h = g")
    case True
    show ?thesis
    proof (cases "i < length (slts h) \<and> slts h ! i = s")
      case found: True
      then have "slts h \<noteq> []" by auto
      then have "last (slts h) \<in> set (slts h)" by simp
      then have r: "reindexed (set (slts h)) sl (set_index (last (slts h)) i sl)" by (rule reindexed_set_index)
      have "placed (set_index (last (slts h)) i sl) gs"
        using h(2) r d by (auto intro: placed_other)
      then have "shrinks (\<lambda>x. x = s) gs (set_index (last (slts h)) i sl) gs (set_index (last (slts h)) i sl)"
        using found d by (intro shrinks_keep) (auto dest: nth_mem)
      with shrinks_Cons[OF Cons.prems(1) swap_pop_indexed(1)[OF h(1)] _ r, of "\<lambda>x. x = s" gs] found
        swap_pop_indexed(2)[OF h(1), of i] True
      show ?thesis by auto
    next
      case False
      have "s \<notin> slot_set (h # gs)"
      proof
        assume s: "s \<in> slot_set (h # gs)"
        with Cons.prems(2) have ig: "i = index (sl ! s)" "g = in_group (sl ! s)" by auto
        from s consider "s \<in> set (slts h)" | k where "k \<in> set gs" "s \<in> set (slts k)"
          by (auto simp: slot_set_def)
        then show False
        proof cases
          case 1
          then obtain j where "j < length (slts h)" "slts h ! j = s" by (auto simp: in_set_conv_nth)
          with h(1) ig False show False by (auto simp: indexed_def)
        next
          case 2
          with Cons.prems(1) True ig placed_group[OF h(2) 2] show False by (auto simp: placed_Cons)
        qed
      qed
      with True False Cons.prems(1) show ?thesis by (auto intro!: shrinks_keep)
    qed
  next
    case False
    obtain gs1 sl1 where r: "clean_groups s i g (gs, sl) = (gs1, sl1)" by (cases "clean_groups s i g (gs, sl)")
    have "s \<notin> set (slts h)"
      using Cons.prems False placed_group[OF Cons.prems(1), of h s] by auto
    moreover have "shrinks (\<lambda>x. x = s) gs sl gs1 sl1" using Cons.IH[OF h(2)] Cons.prems(2) r by simp
    ultimately have "shrinks (\<lambda>x. x = s) (h # gs) sl (h\<lparr>slts := slts h\<rparr> # gs1) sl1"
      using Cons.prems(1) h(1) by (intro shrinks_Cons[where ?sl1.0 = sl]) auto
    with False r show ?thesis by simp
  qed
qed


definition ignores_index :: "(slot \<Rightarrow> bool) \<Rightarrow> bool" where
  "ignores_index c \<longleftrightarrow> (\<forall>s i. c (s\<lparr>index := i\<rparr>) = c s)"

lemma ignores_reindexed: "ignores_index c \<Longrightarrow> reindexed A sl sl1 \<Longrightarrow> c (sl1 ! s) = c (sl ! s)"
  unfolding ignores_index_def reindexed_def by metis

lemma remove_if_spec:
  assumes "ignores_index c" "indexed sl g ss" "i \<le> length ss" "\<forall>j < i. \<not> c (sl ! (ss ! j))"
  shows "case remove_if c i ss sl n of (ss1, sl1, n1) \<Rightarrow> indexed sl1 g ss1
     \<and> set ss1 = {s \<in> set ss. \<not> c (sl ! s)} \<and> reindexed (set ss) sl sl1 \<and> n1 + length ss1 = n + length ss"
  using assms(2-4)
proof (induction "length ss - i" arbitrary: i ss sl n rule: less_induct)
  case less
  show ?case
  proof (cases "i < length ss")
    case False
    with less.prems have "\<forall>s \<in> set ss. \<not> c (sl ! s)" by (auto simp: in_set_conv_nth)
    with False less.prems show ?thesis by (subst remove_if.simps) auto
  next
    case True
    show ?thesis
    proof (cases "c (sl ! (ss ! i))")
      case False
      with less.prems True have "\<forall>j < i + 1. \<not> c (sl ! (ss ! j))" by (auto simp: less_Suc_eq)
      with less.hyps[of ss "i + 1" sl n] less.prems True False show ?thesis
        by (subst remove_if.simps) simp
    next
      case match: True
      let ?ss = "swap_pop i ss" and ?sl = "set_index (last ss) i sl"
      from True have "ss \<noteq> []" by auto
      then have r: "reindexed (set ss) sl ?sl" by (intro reindexed_set_index) simp
      note ix = swap_pop_indexed[OF less.prems(1) True]
      have "\<forall>j < i. \<not> c (?sl ! (?ss ! j))"
        using less.prems(3) True by (auto simp: swap_pop_nth ignores_reindexed[OF assms(1) r])
      with less.hyps[of ?ss i ?sl "n + 1"] ix(1) True
      have "case remove_if c i ?ss ?sl (n + 1) of (ss1, sl1, n1) \<Rightarrow> indexed sl1 g ss1
        \<and> set ss1 = {s \<in> set ?ss. \<not> c (?sl ! s)} \<and> reindexed (set ?ss) ?sl sl1 \<and> n1 + length ss1 = n + 1 + length ?ss"
        by simp
      moreover have "{s \<in> set ?ss. \<not> c (?sl ! s)} = {s \<in> set ss. \<not> c (sl ! s)}"
        using match by (auto simp: ix(2) ignores_reindexed[OF assms(1) r])
      moreover have "set ?ss \<subseteq> set ss" by (auto simp: ix(2))
      ultimately show ?thesis using True match r
        by (subst remove_if.simps) (auto split: prod.splits dest: reindexed_mono intro: reindexed_trans)
    qed
  qed
qed

lemma remove_groups_shrinks:
  assumes "ignores_index c" "placed sl gs"
  shows "case remove_groups c gs sl n of (gs1, sl1, n1) \<Rightarrow> shrinks (\<lambda>s. c (sl ! s)) gs sl gs1 sl1"
  using assms(2)
proof (induction gs arbitrary: sl n)
  case Nil
  then show ?case by (simp add: shrinks_def placed_def)
next
  case (Cons h gs)
  from Cons.prems have h: "indexed sl (gid h) (slts h)" "placed sl gs" by (simp_all add: placed_Cons)
  obtain ss sl1 n1 where a: "remove_if c 0 (slts h) sl n = (ss, sl1, n1)" by (metis prod_cases3)
  with remove_if_spec[OF assms(1) h(1), of 0 n] have ss: "indexed sl1 (gid h) ss"
    "set ss = {s \<in> set (slts h). \<not> c (sl ! s)}" "reindexed (set (slts h)) sl sl1" by simp_all
  have "placed sl1 gs" using placed_other[OF h(2) ss(3)] placed_disjoint[OF Cons.prems] by blast
  from Cons.IH[OF this, of n1] obtain gs1 sl2 n2 where b: "remove_groups c gs sl1 n1 = (gs1, sl2, n2)"
    "shrinks (\<lambda>s. c (sl1 ! s)) gs sl1 gs1 sl2" by (auto split: prod.splits)
  have "(\<lambda>s. c (sl1 ! s)) = (\<lambda>s. c (sl ! s))" using ignores_reindexed[OF assms(1) ss(3)] by auto
  with b(2) have "shrinks (\<lambda>s. c (sl ! s)) gs sl1 gs1 sl2" by simp
  from shrinks_Cons[OF Cons.prems ss this] a b(1) show ?case by simp
qed

lemma clear_group_shrinks:
  assumes "placed sl gs"
  shows "shrinks (\<lambda>s. in_group (sl ! s) = g) gs sl (clear_group g gs) sl"
  using assms
proof (induction gs)
  case Nil
  then show ?case by (simp add: shrinks_def placed_def)
next
  case (Cons h gs)
  from Cons.prems have h: "indexed sl (gid h) (slts h)" "placed sl gs" by (simp_all add: placed_Cons)
  have ih: "\<forall>s \<in> set (slts h). in_group (sl ! s) = gid h" using placed_group[OF Cons.prems] by auto
  show ?case
  proof (cases "gid h = g")
    case True
    have "in_group (sl ! s) \<noteq> g" if "s \<in> slot_set gs" for s
      using that True Cons.prems placed_group[OF h(2), of _ s] by (fastforce simp: slot_set_def placed_Cons)
    then have "shrinks (\<lambda>s. in_group (sl ! s) = g) gs sl gs sl" by (intro shrinks_keep[OF h(2)])
    with True ih show ?thesis
      by (auto intro!: shrinks_Cons[OF Cons.prems, where ?sl1.0 = sl] simp: indexed_def)
  next
    case False
    from False ih have "set (slts h) = {s \<in> set (slts h). in_group (sl ! s) \<noteq> g}" by auto
    from shrinks_Cons[OF Cons.prems h(1) this reindexed_refl Cons.IH[OF h(2)]]
    have "shrinks (\<lambda>s. in_group (sl ! s) = g) (h # gs) sl (h\<lparr>slts := slts h\<rparr> # clear_group g gs) sl" by auto
    with False show ?thesis by simp
  qed
qed

lemma insert_slot_placed:
  assumes "placed sl gs" "s < length sl" "in_group (sl ! s) = g" "s \<notin> slot_set gs"
  shows "placed (set_index s (insert_index g gs) sl) (insert_slot g s gs)"
    and "slot_set (insert_slot g s gs) = insert s (slot_set gs)"
proof -
  have r: "reindexed {s} sl (set_index s i sl)" for i by (rule reindexed_set_index) simp
  have other: "indexed (set_index s i sl) k ss" if "indexed sl k ss" "s \<notin> set ss" for i k ss
    using indexed_other[OF that(1) r] that(2) by auto
  show "slot_set (insert_slot g s gs) = insert s (slot_set gs)"
    by (induction g s gs rule: insert_slot.induct) auto
  have gids: "gid ` set (insert_slot g s gs) = insert g (gid ` set gs)" for gs
    by (induction g s gs rule: insert_slot.induct) auto
  show "placed (set_index s (insert_index g gs) sl) (insert_slot g s gs)"
    using assms(1,4)
  proof (induction gs)
    case Nil
    with assms show ?case by (simp add: placed_def indexed_def set_index_def)
  next
    case (Cons h gs)
    from Cons.prems have h: "indexed sl (gid h) (slts h)" "placed sl gs" "s \<notin> set (slts h)" "s \<notin> slot_set gs"
      by (simp_all add: placed_Cons)
    have pl: "placed (set_index s i sl) gs" for i using placed_other[OF h(2) r] h(4) by auto
    consider "gid h < g" | "g < gid h" | "gid h = g" by linarith
    then show ?case
    proof cases
      case 1
      have "\<forall>k \<in> set (insert_slot g s gs). gid h < gid k"
      proof
        fix k assume "k \<in> set (insert_slot g s gs)"
        then have "gid k \<in> insert g (gid ` set gs)" using gids[of gs] by blast
        with 1 Cons.prems(1) show "gid h < gid k" by (auto simp: placed_Cons)
      qed
      with 1 Cons.IH[OF h(2,4)] other[OF h(1,3)] show ?thesis by (simp add: placed_Cons)
    next
      case 2
      with Cons.prems assms other[OF h(1,3)] pl show ?thesis
        by (auto simp: placed_Cons) (auto simp: indexed_def set_index_def)
    next
      case 3
      have "indexed (set_index s (length (slts h)) sl) g (slts h @ [s])"
        using other[OF h(1,3), of "length (slts h)"] assms(2,3) 3
        by (auto simp: indexed_def nth_append less_Suc_eq) (auto simp: set_index_def)
      with 3 Cons.prems pl show ?thesis by (simp add: placed_Cons)
    qed
  qed
qed



section \<open>The invariant\<close>

definition well_formed :: "world \<Rightarrow> bool" where
  "well_formed w \<longleftrightarrow> counted w
     \<and> (\<forall>sg gs. groups_of w sg = Some gs \<longrightarrow> placed (slots w) gs)
     \<and> (\<forall>x y gs hs. x \<noteq> y \<longrightarrow> groups_of w x = Some gs \<longrightarrow> groups_of w y = Some hs \<longrightarrow> slot_set gs \<inter> slot_set hs = {})
     \<and> (\<forall>e gs. snapshot w e = Some gs \<longrightarrow> slot_set gs \<subseteq> {..<length (slots w)})"

lemma well_formedD:
  assumes "well_formed w"
  shows "counted w" "groups_of w sg = Some gs \<Longrightarrow> placed (slots w) gs"
    "x \<noteq> y \<Longrightarrow> groups_of w x = Some gs \<Longrightarrow> groups_of w y = Some hs \<Longrightarrow> slot_set gs \<inter> slot_set hs = {}"
    "snapshot w e = Some gs \<Longrightarrow> slot_set gs \<subseteq> {..<length (slots w)}"
  using assms unfolding well_formed_def by blast+

lemma well_formed_wrote:
  assumes "well_formed w" "groups_of w sg = Some gs" "counted w1" "wrote sg gs1 sl1 w w1" "placed sl1 gs1"
    "slot_set gs1 \<subseteq> slot_set gs \<union> N" "reindexed (slot_set gs \<union> N) (slots w) sl1"
    "\<And>x hs. groups_of w x = Some hs \<Longrightarrow> slot_set hs \<inter> N = {}"
  shows "well_formed w1"
proof -
  note wf = well_formedD[OF assms(1)]
  from assms(4) have g: "\<And>x. groups_of w1 x = (if x = sg then Some gs1 else groups_of w x)"
    and s: "\<And>e. snapshot w1 e = snapshot w e" and sl: "slots w1 = sl1" by (simp_all add: wrote_def)
  have "placed (slots w1) hs" if "groups_of w1 x = Some hs" for x hs
  proof (cases "x = sg")
    case True
    with that assms(5) show ?thesis by (simp add: g sl)
  next
    case False
    with that have x: "groups_of w x = Some hs" by (simp add: g)
    with wf(3)[OF False x assms(2)] assms(8)[OF x] have "slot_set hs \<inter> (slot_set gs \<union> N) = {}" by auto
    from placed_other[OF wf(2)[OF x] assms(7) this] show ?thesis by (simp add: sl)
  qed
  moreover have "slot_set hs \<inter> slot_set ks = {}" if "x \<noteq> y" "groups_of w1 x = Some hs" "groups_of w1 y = Some ks" for x y hs ks
  proof -
    consider "x = sg" | "y = sg" | "x \<noteq> sg" "y \<noteq> sg" by blast
    then show ?thesis
    proof cases
      case 1
      with that have "groups_of w y = Some ks" "hs = gs1" by (auto simp: g)
      with wf(3)[of sg y gs ks] that 1 assms(2,6) assms(8)[of y ks] show ?thesis by fast
    next
      case 2
      with that have "groups_of w x = Some hs" "ks = gs1" by (auto simp: g)
      with wf(3)[of x sg hs gs] that 2 assms(2,6) assms(8)[of x hs] show ?thesis by fast
    next
      case 3
      with that wf(3) show ?thesis by (simp add: g)
    qed
  qed
  moreover have "length (slots w1) = length (slots w)" using assms(7) by (simp add: sl reindexed_def)
  ultimately show ?thesis using assms(3) wf(4) unfolding well_formed_def s by simp
qed

text \<open>The slots may change in whatever does not place them, and there may be more.\<close>

lemma placed_slots:
  assumes "placed sl gs" "\<forall>s < length sl. s < length sl1 \<and> index (sl1 ! s) = index (sl ! s) \<and> in_group (sl1 ! s) = in_group (sl ! s)"
  shows "placed sl1 gs"
  using assms unfolding placed_def indexed_def by metis

lemma counted_slots [simp]:
  "counted_with X (w\<lparr>slots := sl\<rparr>) = counted_with X w" "groups_of (w\<lparr>slots := sl\<rparr>) = groups_of w"
  "snapshot (w\<lparr>slots := sl\<rparr>) = snapshot w"
  by (auto simp: counted_with_def owed_def owners_def groups_of_def snapshot_def groups_at_def fun_eq_iff
      split: option.split)

lemma well_formed_slots:
  assumes "well_formed w" "\<forall>s < length (slots w). s < length sl \<and> index (sl ! s) = index (slots w ! s)
    \<and> in_group (sl ! s) = in_group (slots w ! s)"
  shows "well_formed (w\<lparr>slots := sl\<rparr>)"
proof -
  have "length (slots w) \<le> length sl" using assms(2) by (meson linorder_not_le order_refl)
  then have "slot_set gs \<subseteq> {..<length sl}" if "snapshot w e = Some gs" for e gs
    using well_formedD(4)[OF assms(1) that] by auto
  with assms placed_slots[OF well_formedD(2)[OF assms(1)] assms(2)] show ?thesis
    unfolding well_formed_def by simp
qed

text \<open>A write that removes slots.\<close>

lemma modify_shrinks:
  assumes "well_formed w" "groups_of w sg = Some gs" "f (gs, slots w) = (gs1, sl1)" "shrinks r gs (slots w) gs1 sl1"
  shows "\<exists>w1. modify sg f w = Ok w1 \<and> well_formed w1 \<and> wrote sg gs1 sl1 w w1"
proof -
  from modify_spec[OF well_formedD(1)[OF assms(1)] assms(2), of f] assms(3) obtain w1 where
    w1: "modify sg f w = Ok w1" "counted w1" "wrote sg gs1 sl1 w w1" by auto
  have "well_formed w1"
    using well_formed_wrote[OF assms(1,2) w1(2,3), of "{}"] assms(4) by (auto simp: shrinks_def)
  with w1 show ?thesis by blast
qed

lemma modify_Ok: "modify sg f w = Ok w1 \<Longrightarrow> \<exists>s. at sg (signals w) = Some s"
  by (auto simp: modify_def unshare_def res_simps)

lemma modify_groups: "counted w \<Longrightarrow> modify sg f w = Ok w1 \<Longrightarrow> \<exists>gs. groups_of w sg = Some gs"
  by (auto dest!: modify_Ok intro: groups_exist)

lemma clean_spec:
  assumes "well_formed w" "groups_of w (cleaner (slots w ! s)) = Some gs"
  shows "\<exists>w1 gs1 sl1. clean s w = Ok w1 \<and> well_formed w1 \<and> wrote (cleaner (slots w ! s)) gs1 sl1 w w1
     \<and> shrinks (\<lambda>x. x = s) gs (slots w) gs1 sl1"
proof -
  let ?f = "clean_groups s (index (slots w ! s)) (in_group (slots w ! s))"
  obtain gs1 sl1 where f: "?f (gs, slots w) = (gs1, sl1)" by (cases "?f (gs, slots w)")
  have "shrinks (\<lambda>x. x = s) gs (slots w) gs1 sl1"
    using clean_groups_shrinks[OF well_formedD(2)[OF assms(1,2)],
      of s "index (slots w ! s)" "in_group (slots w ! s)"] f by simp
  with modify_shrinks[of w _ gs ?f, OF assms f this] show ?thesis unfolding clean_def by blast
qed


section \<open>What an operation can change\<close>

text \<open>A slot stays disconnected, only connected slots are called, and an emission goes through
  the payload it started with until it ends.\<close>

definition evolves :: "world \<Rightarrow> world \<Rightarrow> bool" where
  "evolves w w1 \<longleftrightarrow>
     length (slots w) \<le> length (slots w1) \<and> length (running w) \<le> length (running w1)
     \<and> (\<forall>s < length (slots w). connected (slots w1 ! s) \<longrightarrow> connected (slots w ! s))
     \<and> (\<exists>new. calls w1 = calls w @ new
          \<and> (\<forall>c \<in> set new. callee c < length (slots w) \<longrightarrow> connected (slots w ! callee c)))
     \<and> (\<forall>e < length (running w). snapshot w1 e \<noteq> None \<longrightarrow> snapshot w1 e = snapshot w e)"

lemma evolvesD:
  assumes "evolves w w1"
  shows "length (slots w) \<le> length (slots w1)" "length (running w) \<le> length (running w1)"
    "s < length (slots w) \<Longrightarrow> connected (slots w1 ! s) \<Longrightarrow> connected (slots w ! s)"
    "\<exists>new. calls w1 = calls w @ new \<and> (\<forall>c \<in> set new. callee c < length (slots w) \<longrightarrow> connected (slots w ! callee c))"
    "e < length (running w) \<Longrightarrow> snapshot w1 e \<noteq> None \<Longrightarrow> snapshot w1 e = snapshot w e"
  using assms unfolding evolves_def by blast+

lemma world_evolves_refl: "evolves w w"
  by (simp add: evolves_def)

lemma world_evolves_trans:
  assumes "evolves u v" "evolves v w"
  shows "evolves u w"
proof -
  note a = evolvesD[OF assms(1)] and b = evolvesD[OF assms(2)]
  from a(4) obtain m where m: "calls v = calls u @ m"
    "\<forall>c \<in> set m. callee c < length (slots u) \<longrightarrow> connected (slots u ! callee c)" by blast
  from b(4) obtain n where n: "calls w = calls v @ n"
    "\<forall>c \<in> set n. callee c < length (slots v) \<longrightarrow> connected (slots v ! callee c)" by blast
  have "\<forall>c \<in> set (m @ n). callee c < length (slots u) \<longrightarrow> connected (slots u ! callee c)"
    using m(2) n(2) a(1,3) by (auto dest: order.strict_trans2)
  moreover have "calls w = calls u @ (m @ n)" using m(1) n(1) by simp
  moreover have "\<forall>s < length (slots u). connected (slots w ! s) \<longrightarrow> connected (slots u ! s)"
    using a(1,3) b(3) by (meson order.strict_trans2)
  moreover have "\<forall>e < length (running u). snapshot w e \<noteq> None \<longrightarrow> snapshot w e = snapshot u e"
    using a(2,5) b(5) by (metis order.strict_trans2)
  ultimately show ?thesis
    using a(1,2) b(1,2) unfolding evolves_def by (meson order.trans)
qed

lemma wrote_evolves:
  assumes "wrote sg gs sl w w1" "length (slots w) \<le> length sl"
    "\<forall>s < length (slots w). connected (sl ! s) \<longrightarrow> connected (slots w ! s)"
  shows "evolves w w1"
  using assms unfolding evolves_def wrote_def by auto

lemma reindexed_evolves: "wrote sg gs sl w w1 \<Longrightarrow> reindexed A (slots w) sl \<Longrightarrow> evolves w w1"
  by (rule wrote_evolves) (auto simp: reindexed_fields, simp add: reindexed_def)

lemma shrinks_evolves: "wrote sg gs1 sl w w1 \<Longrightarrow> shrinks r gs (slots w) gs1 sl \<Longrightarrow> evolves w w1"
  by (auto intro: reindexed_evolves simp: shrinks_def)

lemma disconnect_slot_evolves:
  assumes "well_formed w" "disconnect_slot s w = Ok (w1, b)"
  shows "well_formed w1 \<and> evolves w w1"
proof (cases "connected (slots w ! s)")
  case False
  with assms show ?thesis by (simp add: disconnect_slot_def world_evolves_refl)
next
  case True
  let ?sl = "(slots w)[s := (slots w ! s)\<lparr>connected := False\<rparr>]"
  let ?w = "w\<lparr>slots := ?sl\<rparr>"
  have wf: "well_formed ?w"
    by (rule well_formed_slots[OF assms(1)]) (auto simp: nth_update)
  from True assms(2) have c: "clean s ?w = Ok w1" by (auto simp: disconnect_slot_def rbind_Ok_iff)
  then obtain gs where "groups_of ?w (cleaner (slots ?w ! s)) = Some gs"
    using modify_groups[OF well_formedD(1)[OF wf]] unfolding clean_def by blast
  from clean_spec[OF wf this] c have "well_formed w1" "evolves ?w w1"
    by (auto dest: shrinks_evolves)
  moreover have "evolves w ?w"
    by (simp add: evolves_def nth_update)
  ultimately show ?thesis by (blast intro: world_evolves_trans)
qed


lemma conn_disconnect_evolves:
  "well_formed w \<Longrightarrow> conn_disconnect c w = Ok (w1, b) \<Longrightarrow> well_formed w1 \<and> evolves w w1"
  by (auto simp: conn_disconnect_def world_evolves_refl split: option.splits dest: disconnect_slot_evolves)

lemma same_views:
  assumes "counted w1 = counted w" "groups_of w1 = groups_of w" "snapshot w1 = snapshot w" "slots w1 = slots w"
  shows "well_formed w1 = well_formed w"
  using assms by (simp add: well_formed_def)

lemma other_fields [simp]:
  "groups_of (w\<lparr>observing := x\<rparr>) = groups_of w" "snapshot (w\<lparr>observing := x\<rparr>) = snapshot w"
  "groups_of (w\<lparr>dead := d\<rparr>) = groups_of w" "snapshot (w\<lparr>dead := d\<rparr>) = snapshot w"
  "groups_of (w\<lparr>calls := c\<rparr>) = groups_of w" "snapshot (w\<lparr>calls := c\<rparr>) = snapshot w"
  "counted_with X (w\<lparr>observing := x\<rparr>) = counted_with X w" "counted_with X (w\<lparr>dead := d\<rparr>) = counted_with X w"
  "counted_with X (w\<lparr>calls := c\<rparr>) = counted_with X w"
  by (auto simp: counted_with_def owed_def owners_def groups_of_def snapshot_def groups_at_def fun_eq_iff
      split: option.split)

lemma observer_evolves:
  assumes "well_formed w" "observer_disconnect_all obj w = Ok w1"
  shows "well_formed w1 \<and> evolves w w1"
proof -
  let ?f = "\<lambda>s w1. rbind (conn_disconnect (Some s) w1) (\<lambda>r. Ok (fst r))"
  from assms(2) obtain v where v: "foreach (map snd (filter (\<lambda>c. fst c = obj) (observing w))) ?f w = Ok v"
    "w1 = v\<lparr>observing := filter (\<lambda>c. fst c \<noteq> obj) (observing v)\<rparr>"
    by (auto simp: observer_disconnect_all_def rbind_Ok_iff)
  have "well_formed v \<and> evolves w v"
    using v(1)
  proof (rule foreach_invariant[where P = "\<lambda>v. well_formed v \<and> evolves w v"])
    show "well_formed w \<and> evolves w w" using assms(1) by (simp add: world_evolves_refl)
  next
    fix x s s' assume "well_formed s \<and> evolves w s" "?f x s = Ok s'"
    then show "well_formed s' \<and> evolves w s'"
      by (auto simp: rbind_Ok_iff dest: conn_disconnect_evolves intro: world_evolves_trans)
  qed
  then show ?thesis unfolding v(2) by (simp add: well_formed_def evolves_def)
qed

lemma connect_evolves:
  assumes "well_formed w" "connect sg c p x g w = Ok w1"
  shows "well_formed w1 \<and> evolves w w1 \<and> length (slots w1) = length (slots w) + 1"
proof -
  let ?s = "length (slots w)"
  let ?sl = "slots w @ [make_slot sg c p x g]"
  let ?w = "w\<lparr>slots := ?sl\<rparr>"
  let ?f = "\<lambda>(gs, sl). (insert_slot (in_group (sl ! ?s)) ?s gs, set_index ?s (insert_index (in_group (sl ! ?s)) gs) sl)"
  have wf: "well_formed ?w" by (rule well_formed_slots[OF assms(1)]) (simp add: nth_append)
  from assms(2) have m: "modify sg ?f ?w = Ok w1" by (auto simp: connect_def add_slot_def rbind_Ok_iff)
  with modify_groups[OF well_formedD(1)[OF wf]] obtain gs where gs: "groups_of ?w sg = Some gs" by blast
  have fresh: "?s \<notin> slot_set hs" if "groups_of ?w y = Some hs" for y hs
    using placed_range[OF well_formedD(2)[OF assms(1)], of y hs] that by auto
  have gr: "in_group (?sl ! ?s) = g" by (simp add: make_slot_def)
  let ?sl1 = "set_index ?s (insert_index g gs) ?sl"
  from modify_spec[OF well_formedD(1)[OF wf] gs, of ?f] m gr
  have w1: "counted w1" "wrote sg (insert_slot g ?s gs) ?sl1 ?w w1" by auto
  note i = insert_slot_placed[OF well_formedD(2)[OF wf gs], of ?s g]
  have "well_formed w1"
    using well_formed_wrote[OF wf gs w1, of "{?s}"] i fresh gr fresh[OF gs]
    by (auto simp: reindexed_set_index)
  moreover have r: "reindexed {?s} ?sl ?sl1" by (rule reindexed_set_index) simp
  have "evolves ?w w1" using w1(2) r by (auto intro: reindexed_evolves)
  then have "evolves w w1"
    by (rule world_evolves_trans[rotated]) (simp add: evolves_def nth_append)
  moreover have "length (slots w1) = ?s + 1" using w1(2) r by (simp add: wrote_def reindexed_def)
  ultimately show ?thesis by blast
qed


lemma set_blocked_evolves:
  "well_formed w \<Longrightarrow> well_formed (conn_set_blocked v c w) \<and> evolves w (conn_set_blocked v c w)"
  by (auto simp: conn_set_blocked_def world_evolves_refl nth_update evolves_def split: option.splits
      intro!: well_formed_slots)

lemma modify_shrinks_evolves:
  assumes "well_formed w" "modify sg f w = Ok w1"
    and "\<And>gs. placed (slots w) gs \<Longrightarrow> \<exists>r gs1 sl1. f (gs, slots w) = (gs1, sl1) \<and> shrinks r gs (slots w) gs1 sl1"
  shows "well_formed w1 \<and> evolves w w1"
proof -
  from modify_groups[OF well_formedD(1)[OF assms(1)] assms(2)] obtain gs where gs: "groups_of w sg = Some gs" by blast
  with assms(3)[OF well_formedD(2)[OF assms(1) gs]] obtain r gs1 sl1 where
    "f (gs, slots w) = (gs1, sl1)" "shrinks r gs (slots w) gs1 sl1" by blast
  with modify_shrinks[of w sg gs f, OF assms(1) gs this] assms(2) show ?thesis
    by (auto dest: shrinks_evolves)
qed

lemma disconnect_if_evolves:
  assumes "well_formed w" "ignores_index c" "disconnect_if sg c w = Ok w1"
  shows "well_formed w1 \<and> evolves w w1"
proof (rule modify_shrinks_evolves[OF assms(1) assms(3)[unfolded disconnect_if_def]])
  fix gs assume "placed (slots w) gs"
  from remove_groups_shrinks[OF assms(2) this, of 0]
  show "\<exists>r gs1 sl1. (case (gs, slots w) of (gs, sl) \<Rightarrow> case remove_groups c gs sl 0 of (gs1, sl1, n) \<Rightarrow> (gs1, sl1)) = (gs1, sl1)
      \<and> shrinks r gs (slots w) gs1 sl1"
    by (auto split: prod.splits)
qed

lemma conditions_ignore_index [simp]:
  "ignores_index (has_full_callable c)" "ignores_index (has_object w t)"
  "ignores_index (\<lambda>s. has_object w t s \<and> has_callable c s)"
  by (simp_all add: ignores_index_def has_full_callable_def has_callable_def has_object_def)

lemma disconnect_group_evolves:
  assumes "well_formed w" "disconnect_group sg g w = Ok w1"
  shows "well_formed w1 \<and> evolves w w1"
  by (rule modify_shrinks_evolves[OF assms(1) assms(2)[unfolded disconnect_group_def]])
    (auto dest: clear_group_shrinks)

lemma disconnect_all_shrinks:
  assumes "well_formed w" "disconnect_all sg w = Ok w1"
  shows "well_formed w1 \<and> evolves w w1 \<and> groups_of w1 sg = Some [] \<and> slots w1 = slots w \<and> running w1 = running w"
proof -
  from modify_groups[OF well_formedD(1)[OF assms(1)] assms(2)[unfolded disconnect_all_def]] obtain gs where
    gs: "groups_of w sg = Some gs" by blast
  with modify_spec[OF well_formedD(1)[OF assms(1)] gs, of "\<lambda>(gs, sl). ([], sl)"] assms(2)
  have w1: "counted w1" "wrote sg [] (slots w) w w1" by (auto simp: disconnect_all_def)
  from well_formed_wrote[OF assms(1) gs w1, of "{}"] have "well_formed w1" by (simp add: placed_def)
  with w1 show ?thesis by (auto intro: wrote_evolves) (simp_all add: wrote_def)
qed

text \<open>An emission starts: one more reference to the payload.\<close>

lemma owed_running_append:
  "owed X (w\<lparr>running := running w @ [Some f]\<rparr>) a = owed X w a + (if ref f = a then 1 else 0)"
  by (simp add: owed_def owners_def count_list_append)

lemma emit_evolves:
  assumes "well_formed w" "emit sg a w = Ok w1"
  shows "well_formed w1 \<and> evolves w w1"
proof -
  from assms(2) obtain s where s: "at sg (signals w) = Some s" by (auto simp: emit_def rbind_Ok_iff)
  show ?thesis
  proof (cases "m_block s")
    case True
    with assms s show ?thesis by (simp add: emit_def world_evolves_refl)
  next
    case False
    let ?f = "\<lparr>ref = m_slots s, at_group = 0, at_slot = 0, arguments = a\<rparr>"
    from acquire_spec[OF well_formedD(1)[OF assms(1)] owed_signal[OF s]] obtain c where
      c: "acquire (m_slots s) w = Ok (w\<lparr>cells := c\<rparr>)" "counted_with [m_slots s] (w\<lparr>cells := c\<rparr>)"
      "same_content UNIV w (w\<lparr>cells := c\<rparr>)" by blast
    have w1: "w1 = w\<lparr>cells := c, running := running w @ [Some ?f]\<rparr>"
      using assms(2) s False c(1) by (simp add: emit_def)
    have "counted w1"
      using c(2) unfolding counted_with_def w1
      by (simp add: owed_def owners_def count_list_append)
    moreover have g: "groups_of w1 x = groups_of w x" for x
      using c(3) by (auto simp: w1 same_content_def groups_of_def groups_at_def split: option.split)
    moreover have sn: "snapshot w1 e = (if e = length (running w) then groups_of w sg else snapshot w e)" for e
      using c(3) s by (auto simp: w1 same_content_def snapshot_def groups_of_def groups_at_def split: option.split)
    moreover have "slot_set gs \<subseteq> {..<length (slots w)}" if "groups_of w sg = Some gs" for gs
      by (rule placed_range[OF well_formedD(2)[OF assms(1) that]])
    ultimately have "well_formed w1"
      using assms(1) unfolding well_formed_def by (simp add: w1)
    moreover have "evolves w w1" using sn by (simp add: evolves_def w1)
    ultimately show ?thesis by blast
  qed
qed


lemma invoke_evolves:
  assumes "well_formed w" "invoke s a w = Ok w1"
  shows "well_formed w1 \<and> evolves w w1"
proof -
  have "well_formed (record_call s a w) \<and> evolves w (record_call s a w)" if "connected (slots w ! s)"
    using assms(1) that by (simp add: record_call_def well_formed_def evolves_def)
  with assms show ?thesis
    by (auto simp: invoke_def call_slot_def world_evolves_refl rbind_Ok_iff
        split: if_splits target.splits dest: disconnect_slot_evolves)
qed

text \<open>An emission moves on within its payload, or gives it back.\<close>

lemma set_running_same:
  assumes "at e (running w) = Some f" "ref g = ref f"
  shows "counted_with X (set_running e (Some g) w) = counted_with X w"
    "groups_of (set_running e (Some g) w) = groups_of w" "snapshot (set_running e (Some g) w) = snapshot w"
proof -
  have "map (map_option ref) ((running w)[e := Some g]) = map (map_option ref) (running w)"
    using assms by (auto simp: list_eq_iff_nth_eq nth_update at_def split: if_splits)
  then show "counted_with X (set_running e (Some g) w) = counted_with X w"
    by (simp add: counted_with_def owed_def owners_def set_running_def)
  show "groups_of (set_running e (Some g) w) = groups_of w"
    by (auto simp: groups_of_def groups_at_def set_running_def split: option.split)
  show "snapshot (set_running e (Some g) w) = snapshot w"
    using assms at_Some_length[OF assms(1)]
    by (auto simp: snapshot_def groups_at_def set_running_def fun_eq_iff split: option.split)
qed

lemma running_moves:
  assumes "well_formed w" "at e (running w) = Some f" "ref g = ref f"
  shows "well_formed (set_running e (Some g) w) \<and> evolves w (set_running e (Some g) w)"
  using assms(1) set_running_same[OF assms(2,3)]
  by (simp add: well_formed_def evolves_def) (simp add: set_running_def)

lemma owed_set_running:
  assumes "at e (running w) = Some f"
  shows "owed X (set_running e None w) a + (if ref f = a then 1 else 0) = owed X w a"
  using count_at[of e "map (map_option ref) (running w)" "ref f" None "Some a"] assms
  by (simp add: owed_def owners_def set_running_def count_list_append map_update at_map)

lemma release_running:
  assumes "well_formed w" "at e (running w) = Some f"
  shows "\<exists>w1. release (ref f) (set_running e None w) = Ok w1 \<and> well_formed w1 \<and> evolves w w1
     \<and> groups_of w1 = groups_of w \<and> running w1 = (running w)[e := None] \<and> calls w1 = calls w"
proof -
  let ?w = "set_running e None w"
  have "owed [ref f] ?w a = owed [] w a" for a
    using owed_set_running[OF assms(2), of "[]" a] by (simp add: owed_def split: if_splits)
  moreover have "cells ?w = cells w" by (simp add: set_running_def)
  ultimately have "counted_with [ref f] ?w"
    using well_formedD(1)[OF assms(1)] by (simp add: counted_with_def)
  from release_spec[OF this] obtain c where c: "release (ref f) ?w = Ok (?w\<lparr>cells := c\<rparr>)"
    "counted (?w\<lparr>cells := c\<rparr>)" "same_content {b. 0 < owed [] ?w b} ?w (?w\<lparr>cells := c\<rparr>)" by blast
  let ?w1 = "?w\<lparr>cells := c\<rparr>"
  have len: "e < length (running w)" by (rule at_Some_length[OF assms(2)])
  have g: "groups_of ?w1 x = groups_of w x" for x
    using same_content_views(1)[OF c(3), of x] by (auto simp: groups_of_def groups_at_def set_running_def split: option.split)
  have sn: "snapshot ?w1 x = (if x = e then None else snapshot w x)" for x
    using same_content_views(2)[OF c(3), of x] len
    by (auto simp: snapshot_def groups_at_def set_running_def split: option.split)
  have "well_formed ?w1"
    using assms(1) c(2) unfolding well_formed_def by (simp add: g sn) (simp add: set_running_def)
  moreover have "evolves w ?w1"
    using sn by (simp add: evolves_def) (simp add: set_running_def)
  ultimately show ?thesis using c(1) g by (auto simp: fun_eq_iff set_running_def)
qed

lemma proceed_evolves:
  assumes "well_formed w" "proceed e w = Ok w1"
  shows "well_formed w1 \<and> evolves w w1"
proof (cases "at e (running w)")
  case None
  with assms show ?thesis by (simp add: proceed_def world_evolves_refl)
next
  case (Some f)
  let ?v = "set_running e (Some (f\<lparr>at_slot := at_slot f + 1\<rparr>)) w"
  from assms(2) Some obtain p where p: "at (ref f) (cells w) = Some p" by (auto simp: proceed_def rbind_Ok_iff)
  consider (call) "invoke (slts (content p ! at_group f) ! at_slot f) (arguments f) ?v = Ok w1"
    | (group) "w1 = set_running e (Some (f\<lparr>at_group := at_group f + 1, at_slot := 0\<rparr>)) w"
    | (ends) "release (ref f) (set_running e None w) = Ok w1"
    using assms(2) Some p by (auto simp: proceed_def Let_def split: if_splits)
  then show ?thesis
  proof cases
    case call
    from running_moves[OF assms(1) Some, of "f\<lparr>at_slot := at_slot f + 1\<rparr>"]
    have "well_formed ?v" "evolves w ?v" by simp_all
    with invoke_evolves[OF this(1) call] show ?thesis by (blast intro: world_evolves_trans)
  next
    case group
    with running_moves[OF assms(1) Some, of "f\<lparr>at_group := at_group f + 1, at_slot := 0\<rparr>"] show ?thesis by simp
  next
    case ends
    with release_running[OF assms(1) Some] show ?thesis by auto
  qed
qed


text \<open>Signals come, go and trade their slots.\<close>

lemma create_evolves:
  assumes "well_formed w"
  shows "well_formed (create b w) \<and> evolves w (create b w)
    \<and> (\<forall>x. groups_of (create b w) x = (if x = length (signals w) then Some [] else groups_of w x))"
proof -
  let ?n = "length (cells w)"
  have fresh: "owed [] w ?n = 0"
    using well_formedD(1)[OF assms] unfolding counted_with_def by (auto dest!: spec[of _ ?n] split: if_splits)
  have o: "owed [] (create b w) a = owed [] w a + (if a = ?n then 1 else 0)" for a
    by (simp add: owed_def owners_def create_def allocate_def Let_def count_list_append)
  have "counted (create b w)"
    unfolding counted_with_def o
  proof
    fix a
    show "map_option ref_count (at a (cells (create b w))) = (if owed [] w a + (if a = ?n then 1 else 0) = 0 then None
        else Some (owed [] w a + (if a = ?n then 1 else 0)))"
      using well_formedD(1)[OF assms] fresh
      by (cases "a = ?n") (simp_all add: create_def allocate_def Let_def counted_with_def)
  qed
  moreover have old: "a \<noteq> ?n" if "0 < owed [] w a" for a using that fresh by auto
  have g: "groups_of (create b w) x = (if x = length (signals w) then Some [] else groups_of w x)" for x
    using old[OF owed_signal[of x w _ "[]"]]
    by (auto simp: groups_of_def groups_at_def create_def allocate_def Let_def split: option.split)
  moreover have sn: "snapshot (create b w) e = snapshot w e" for e
    using old[OF owed_running[of e w _ "[]"]]
    by (auto simp: snapshot_def groups_at_def create_def allocate_def Let_def split: option.split)
  moreover have "slots (create b w) = slots w" "running (create b w) = running w" "calls (create b w) = calls w"
    by (simp_all add: create_def allocate_def Let_def)
  ultimately show ?thesis
    using assms unfolding well_formed_def evolves_def by (auto simp: placed_def)
qed

lemma destroy_evolves:
  assumes "well_formed w" "destroy sg w = Ok w1"
  shows "well_formed w1 \<and> evolves w w1"
proof -
  from assms(2) obtain v s where v: "disconnect_all sg w = Ok v" "at sg (signals v) = Some s"
    "release (m_slots s) (set_signal sg None v) = Ok w1"
    by (auto simp: destroy_def rbind_Ok_iff)
  from disconnect_all_shrinks[OF assms(1) v(1)] have wf: "well_formed v" "evolves w v" by simp_all
  let ?v = "set_signal sg None v"
  have "owed [m_slots s] ?v a = owed [] v a" for a
    using owners_set_signal[OF v(2), of None "Some a"] by (simp add: owed_def split: if_splits)
  moreover have "cells ?v = cells v" by (simp add: set_signal_def)
  ultimately have "counted_with [m_slots s] ?v"
    using well_formedD(1)[OF wf(1)] by (simp add: counted_with_def)
  from release_spec[OF this] v(3) obtain c where c: "w1 = ?v\<lparr>cells := c\<rparr>" "counted w1"
    "same_content {b. 0 < owed [] ?v b} ?v w1" by auto
  have len: "sg < length (signals v)" by (rule at_Some_length[OF v(2)])
  have g: "groups_of w1 x = (if x = sg then None else groups_of v x)" for x
    using same_content_views(1)[OF c(3), of x] len c(1)
    by (auto simp: groups_of_def groups_at_def set_signal_def split: option.split)
  have sn: "snapshot w1 e = snapshot v e" for e
    using same_content_views(2)[OF c(3), of e] c(1)
    by (auto simp: snapshot_def groups_at_def set_signal_def split: option.split)
  have r: "slots w1 = slots v" "running w1 = running v" "calls w1 = calls v" using c(1) by (simp_all add: set_signal_def)
  have "well_formed w1" using wf(1) c(2) unfolding well_formed_def by (simp add: g sn r)
  moreover have "evolves v w1" by (simp add: evolves_def sn r)
  ultimately show ?thesis using wf(2) by (blast intro: world_evolves_trans)
qed

lemma swap_evolves:
  assumes "well_formed w" "swap_slots x y w = Ok w1" "x \<noteq> y"
  shows "well_formed w1 \<and> evolves w w1"
proof -
  from assms(2) obtain s t where st: "at x (signals w) = Some s" "at y (signals w) = Some t"
    and w1: "w1 = set_signal y (Some (t\<lparr>m_slots := m_slots s\<rparr>)) (set_signal x (Some (s\<lparr>m_slots := m_slots t\<rparr>)) w)"
    by (auto simp: swap_slots_def rbind_Ok_iff)
  let ?v = "set_signal x (Some (s\<lparr>m_slots := m_slots t\<rparr>)) w"
  have len: "x < length (signals w)" "y < length (signals w)" using st by (auto dest: at_Some_length)
  have "at y (signals ?v) = Some t" using st assms(3) by (simp add: set_signal_def)
  from owners_set_signal[OF this, of "Some (t\<lparr>m_slots := m_slots s\<rparr>)"] owners_set_signal[OF st(1), of "Some (s\<lparr>m_slots := m_slots t\<rparr>)"]
  have "count_list (owners w1) z = count_list (owners w) z" for z
    unfolding w1 by (simp add: set_signal_def)
  then have "owed [] w1 a = owed [] w a" for a by (simp add: owed_def)
  moreover have "cells w1 = cells w" by (simp add: w1 set_signal_def)
  ultimately have "counted w1" using well_formedD(1)[OF assms(1)] by (simp add: counted_with_def)
  moreover have g: "groups_of w1 z = (if z = x then groups_of w y else if z = y then groups_of w x else groups_of w z)" for z
    using st len assms(3) by (auto simp: w1 groups_of_def groups_at_def set_signal_def split: option.split)
  moreover have sn: "snapshot w1 e = snapshot w e" for e
    by (auto simp: w1 snapshot_def groups_at_def set_signal_def split: option.split)
  moreover have r: "slots w1 = slots w" "running w1 = running w" "calls w1 = calls w" by (simp_all add: w1 set_signal_def)
  moreover have "slot_set hs \<inter> slot_set ks = {}"
    if "a \<noteq> b" "groups_of w1 a = Some hs" "groups_of w1 b = Some ks" for a b hs ks
  proof -
    let ?p = "\<lambda>z. if z = x then y else if z = y then x else z"
    have "?p a \<noteq> ?p b" using that(1) assms(3) by auto
    moreover have "groups_of w (?p a) = Some hs" "groups_of w (?p b) = Some ks" using that by (simp_all add: g split: if_splits)
    ultimately show ?thesis by (rule well_formedD(3)[OF assms(1)])
  qed
  ultimately show ?thesis
    using assms(1) unfolding well_formed_def evolves_def by (auto split: if_splits)
qed

lemma set_signal_block:
  assumes "well_formed w" "at sg (signals w) = Some s" "m_slots t = m_slots s"
  shows "well_formed (set_signal sg (Some t) w) \<and> evolves w (set_signal sg (Some t) w)"
proof -
  let ?w = "set_signal sg (Some t) w"
  have len: "sg < length (signals w)" by (rule at_Some_length[OF assms(2)])
  have "map (map_option m_slots) ((signals w)[sg := Some t]) = map (map_option m_slots) (signals w)"
    using assms(2,3) by (auto simp: list_eq_iff_nth_eq nth_update at_def split: if_splits)
  then have "counted ?w = counted w"
    by (simp add: counted_with_def owed_def owners_def set_signal_def)
  moreover have "groups_of ?w = groups_of w"
    using assms(2,3) len by (auto simp: groups_of_def groups_at_def set_signal_def fun_eq_iff split: option.split)
  moreover have "snapshot ?w = snapshot w"
    by (auto simp: snapshot_def groups_at_def set_signal_def split: option.split)
  moreover have "slots ?w = slots w" "running ?w = running w" "calls ?w = calls w" by (simp_all add: set_signal_def)
  ultimately show ?thesis using assms(1) by (simp add: well_formed_def evolves_def)
qed


lemma move_assign_evolves:
  assumes "well_formed w" "move_assign x y w = Ok w1"
  shows "well_formed w1 \<and> evolves w w1"
proof -
  from assms(2) obtain v s t where v: "x \<noteq> y" "swap_slots x y w = Ok v" "at x (signals v) = Some s" "at y (signals v) = Some t"
    "w1 = set_signal x (Some (s\<lparr>m_block := m_block t\<rparr>)) (set_signal y (Some (t\<lparr>m_block := m_block s\<rparr>)) v)"
    by (auto simp: move_assign_def rbind_Ok_iff split: if_splits)
  let ?u = "set_signal y (Some (t\<lparr>m_block := m_block s\<rparr>)) v"
  from swap_evolves[OF assms(1) v(2,1)] have "well_formed v" "evolves w v" by simp_all
  moreover from set_signal_block[OF this(1) v(4), of "t\<lparr>m_block := m_block s\<rparr>"] have "well_formed ?u" "evolves v ?u" by simp_all
  moreover from v(1,3) have "at x (signals ?u) = Some s" by (simp add: set_signal_def)
  from set_signal_block[OF \<open>well_formed ?u\<close> this, of "s\<lparr>m_block := m_block t\<rparr>"] have "well_formed w1" "evolves ?u w1"
    by (simp_all add: v(5))
  ultimately show ?thesis by (blast intro: world_evolves_trans)
qed

lemma move_construct_evolves:
  assumes "well_formed w" "move_construct o1 w = Ok w1"
  shows "well_formed w1 \<and> evolves w w1"
proof -
  from assms(2) obtain s where s: "at o1 (signals w) = Some s"
    "swap_slots (length (signals w)) o1 (create (m_block s) w) = Ok w1"
    by (auto simp: move_construct_def rbind_Ok_iff)
  have "length (signals w) \<noteq> o1" using at_Some_length[OF s(1)] by simp
  with create_evolves[OF assms(1), of "m_block s"] swap_evolves[OF _ s(2)] show ?thesis
    by (blast intro: world_evolves_trans)
qed

lemma connect_observer_evolves:
  assumes "well_formed w" "connect_observer sg c obj g w = Ok w1"
  shows "well_formed w1 \<and> evolves w w1"
proof -
  from assms(2) obtain v where v: "connect sg c (Address obj) False g w = Ok v"
    "w1 = v\<lparr>observing := observing v @ [(obj, length (slots w))]\<rparr>"
    by (auto simp: connect_observer_def rbind_Ok_iff split: if_splits)
  from connect_evolves[OF assms(1) v(1)] have "well_formed v" "evolves w v" by simp_all
  with v(2) show ?thesis by (simp add: well_formed_def evolves_def)
qed

lemma object_dies_evolves:
  assumes "well_formed w" "observer_disconnect_all obj (w\<lparr>dead := d\<rparr>) = Ok w1"
  shows "well_formed w1 \<and> evolves w w1"
proof -
  have "well_formed (w\<lparr>dead := d\<rparr>)" using assms(1) by (simp add: well_formed_def)
  from observer_evolves[OF this assms(2)] show ?thesis by (simp add: evolves_def)
qed

lemma step_evolves:
  assumes "well_formed w" "step w ev = Ok w1"
  shows "well_formed w1 \<and> evolves w w1"
proof (cases ev)
  case Create
  with assms create_evolves show ?thesis by auto
next
  case (Destroy sg)
  with assms destroy_evolves show ?thesis by auto
next
  case (Move_construct sg)
  with assms move_construct_evolves show ?thesis by auto
next
  case (Move_assign x y)
  with assms move_assign_evolves show ?thesis by auto
next
  case (Connect sg c p x g)
  with assms connect_evolves show ?thesis by auto
next
  case (Connect_observer sg c obj g)
  with assms connect_observer_evolves show ?thesis by auto
next
  case (Disconnect c)
  with assms conn_disconnect_evolves show ?thesis by (auto simp: rbind_Ok_iff)
next
  case (Disconnect_callable sg c)
  with assms(2) show ?thesis
    by (auto dest: disconnect_if_evolves[OF assms(1) conditions_ignore_index(1)])
next
  case (Disconnect_object sg t)
  with assms(2) show ?thesis
    by (auto dest: disconnect_if_evolves[OF assms(1) conditions_ignore_index(2)])
next
  case (Disconnect_both sg c t)
  with assms(2) show ?thesis
    by (auto dest: disconnect_if_evolves[OF assms(1) conditions_ignore_index(3)])
next
  case (Disconnect_group sg g)
  with assms disconnect_group_evolves show ?thesis by auto
next
  case (Disconnect_all sg)
  with assms disconnect_all_shrinks show ?thesis by auto
next
  case (Observer_disconnects obj)
  with assms observer_evolves show ?thesis by auto
next
  case (Object_dies obj)
  with assms object_dies_evolves show ?thesis by auto
next
  case (Block_slot v c)
  with assms set_blocked_evolves show ?thesis by auto
next
  case (Block_signal v sg)
  with assms set_signal_block show ?thesis by (auto simp: set_block_def rbind_Ok_iff)
next
  case (Emit sg a)
  with assms emit_evolves show ?thesis by auto
next
  case (Proceed e)
  with assms proceed_evolves show ?thesis by auto
qed

interpretation slots: state_machine "step :: world \<Rightarrow> event \<Rightarrow> world res" well_formed
  by unfold_locales (blast dest: step_evolves)

lemma start_well_formed: "well_formed start"
  by (simp add: well_formed_def start_def counted_with_def owed_def owners_def groups_of_def snapshot_def groups_at_def at_def)

lemma run_evolves:
  assumes "well_formed w" "run_events step w es = Ok w1"
  shows "evolves w w1"
  using assms
proof (induction es arbitrary: w)
  case Nil
  then show ?case by (simp add: world_evolves_refl)
next
  case (Cons e es)
  then obtain v where "step w e = Ok v" "run_events step v es = Ok w1" by (auto simp: rbind_Ok_iff)
  with Cons.IH step_evolves[OF Cons.prems(1)] show ?case by (blast intro: world_evolves_trans)
qed

end
