(* ===== verification/Signal_Guarantees.thy ===== *)
theory Signal_Guarantees
  imports Signal_Slot
begin

text \<open>
  What a component of the program may rely on when it connects to a signal, emits one or
  disconnects from one (utils/signal.hpp, modelled in \<open>Signal_Slot\<close>), and where the library
  has an edge that its users have to stay clear of.
\<close>

section \<open>What components rely on\<close>

lemma owed_owner:
  assumes "0 < owed [] w a"
  obtains sg s where "at sg (signals w) = Some s" "m_slots s = a" | e f where "at e (running w) = Some f" "ref f = a"
proof -
  from assms have "Some a \<in> set (owners w)" by (simp add: owed_def) (metis count_list_0_iff less_numeral_extra(3))
  then consider "Some a \<in> set (map (map_option m_slots) (signals w))" | "Some a \<in> set (map (map_option ref) (running w))"
    by (auto simp: owners_def)
  then show ?thesis
  proof cases
    case 1
    then obtain s where "Some s \<in> set (signals w)" "m_slots s = a" by (auto simp: eq_commute[of "Some a"])
    with that(1) show ?thesis by (auto dest: set_at)
  next
    case 2
    then obtain f where "Some f \<in> set (running w)" "ref f = a" by (auto simp: eq_commute[of "Some a"])
    with that(2) show ?thesis by (auto dest: set_at)
  qed
qed

text \<open>A connection is valid while a signal has the slot or an emission is going to reach it.\<close>

lemma alive_iff:
  assumes "well_formed w"
  shows "alive w s \<longleftrightarrow> (\<exists>sg gs. groups_of w sg = Some gs \<and> contains s gs) \<or> (\<exists>e gs. snapshot w e = Some gs \<and> contains s gs)"
proof
  assume "alive w s"
  then obtain a p where p: "at a (cells w) = Some p" "contains s (content p)"
    by (auto simp: alive_def split: option.splits dest: set_at)
  from counted_Some[OF well_formedD(1)[OF assms] p(1)] have "0 < owed [] w a" by simp
  then show "(\<exists>sg gs. groups_of w sg = Some gs \<and> contains s gs) \<or> (\<exists>e gs. snapshot w e = Some gs \<and> contains s gs)"
  proof (cases rule: owed_owner)
    case (1 sg t)
    with p have "groups_of w sg = Some (content p)" by (simp add: groups_of_Some)
    with p show ?thesis by blast
  next
    case (2 e f)
    with p have "snapshot w e = Some (content p)" by (simp add: snapshot_def groups_at_def)
    with p show ?thesis by blast
  qed
next
  have live: "alive w s" if "groups_at w a = Some gs" "contains s gs" for a gs
  proof -
    from that obtain b p where "at b (cells w) = Some p" "content p = gs"
      by (auto simp: groups_at_def split: option.splits)
    with that(2) at_Some_set[of b "cells w" p] show ?thesis
      by (auto simp: alive_def intro!: bexI[of _ "Some p"])
  qed
  assume "(\<exists>sg gs. groups_of w sg = Some gs \<and> contains s gs) \<or> (\<exists>e gs. snapshot w e = Some gs \<and> contains s gs)"
  then show "alive w s" unfolding groups_of_def snapshot_def by (blast intro: live)
qed

lemma alive_range: "well_formed w \<Longrightarrow> alive w s \<Longrightarrow> s < length (slots w)"
  using well_formedD(4)[of w] placed_range[OF well_formedD(2)[of w]]
  by (fastforce simp: alive_iff contains_slot_set)

lemma disconnect_slot_gone:
  assumes "well_formed w" "s < length (slots w)" "disconnect_slot s w = Ok (w1, True)"
  shows "\<not> connected (slots w1 ! s) \<and> cleaner (slots w1 ! s) = cleaner (slots w ! s)
     \<and> (\<forall>gs. groups_of w1 (cleaner (slots w ! s)) = Some gs \<longrightarrow> \<not> contains s gs)"
proof -
  let ?sl = "(slots w)[s := (slots w ! s)\<lparr>connected := False\<rparr>]"
  let ?w = "w\<lparr>slots := ?sl\<rparr>"
  have wf: "well_formed ?w" by (rule well_formed_slots[OF assms(1)]) (auto simp: nth_update)
  from assms(3) have c: "clean s ?w = Ok w1" by (auto simp: disconnect_slot_def rbind_Ok_iff split: if_splits)
  then obtain gs where gs: "groups_of ?w (cleaner (slots ?w ! s)) = Some gs"
    using modify_groups[OF well_formedD(1)[OF wf]] unfolding clean_def by blast
  from clean_spec[OF wf gs] c obtain gs1 sl1 where
    w: "wrote (cleaner (slots ?w ! s)) gs1 sl1 ?w w1" "shrinks (\<lambda>x. x = s) gs ?sl gs1 sl1" by auto
  from w(2) have r: "reindexed (slot_set gs) ?sl sl1" "s \<notin> slot_set gs1" by (auto simp: shrinks_def)
  from w(1) have "slots w1 = sl1" "groups_of w1 (cleaner (slots w ! s)) = Some gs1"
    using assms(2) by (simp_all add: wrote_def)
  with r assms(2) show ?thesis
    using reindexed_fields[OF r(1), of s] by (simp add: contains_slot_set)
qed

lemma disconnected_silent_gone:
  assumes "run_events step start es = Ok w" "conn_disconnect (Some s) w = Ok (w1, True)"
    and "run_events step w1 fs = Ok w2"
  shows "\<exists>new. calls w2 = calls w1 @ new \<and> (\<forall>c \<in> set new. callee c \<noteq> s)"
    and "groups_of w1 (cleaner (slots w ! s)) = Some gs \<Longrightarrow> \<not> contains s gs"
proof -
  have wf: "well_formed w" by (rule slots.run_inv[OF start_well_formed assms(1)])
  from assms(2) have a: "alive w s" "disconnect_slot s w = Ok (w1, True)"
    by (auto simp: conn_disconnect_def lock_def split: if_splits)
  have len: "s < length (slots w)" by (rule alive_range[OF wf a(1)])
  note gone = disconnect_slot_gone[OF wf len a(2)]
  from conn_disconnect_evolves[OF wf assms(2)] have wf1: "well_formed w1" "length (slots w) \<le> length (slots w1)"
    by (simp_all add: evolves_def)
  from evolvesD(4)[OF run_evolves[OF wf1(1) assms(3)]] gone len wf1(2)
  show "\<exists>new. calls w2 = calls w1 @ new \<and> (\<forall>c \<in> set new. callee c \<noteq> s)" by fastforce
  show "groups_of w1 (cleaner (slots w ! s)) = Some gs \<Longrightarrow> \<not> contains s gs" using gone by blast
qed

text \<open>C13. A slot that was disconnected through its connection is never called again: not by
  later emissions, not by those that are running, from whichever thread, and whatever else
  happens. Its signal does not hold it any more.\<close>

theorem disconnected_stays_silent:
  assumes "run_events step start es = Ok w" "conn_disconnect (Some s) w = Ok (w1, True)"
    and "run_events step w1 fs = Ok w2"
  shows "(\<exists>new. calls w2 = calls w1 @ new \<and> (\<forall>c \<in> set new. callee c \<noteq> s))
    \<and> (\<forall>gs. groups_of w1 (cleaner (slots w ! s)) = Some gs \<longrightarrow> \<not> contains s gs)"
  using disconnected_silent_gone[OF assms] by blast


definition sample_callable :: callable where
  "sample_callable = \<lparr>bytes = 0, type_id = 0, must_check_object = True\<rparr>"

abbreviation plain :: "nat \<Rightarrow> int \<Rightarrow> event" where
  "plain sg g \<equiv> Connect sg sample_callable No_object False g"

theorem disconnected_stays_silent_witness:
  "\<exists>w w1 w2 new. run_events step start [Create, plain 0 0, plain 0 0, Emit 0 7] = Ok w
     \<and> conn_disconnect (Some 1) w = Ok (w1, True) \<and> run_events step w1 [Proceed 0, Proceed 0, Emit 0 8, Proceed 1] = Ok w2
     \<and> calls w2 = calls w1 @ new \<and> length new = 2 \<and> (\<forall>c \<in> set new. callee c \<noteq> 1)"
proof -
  have "ran (run_events step start [Create, plain 0 0, plain 0 0, Emit 0 7]) (\<lambda>w.
     ran (conn_disconnect (Some 1) w) (\<lambda>(w1, b). b \<and>
       ran (run_events step w1 [Proceed 0, Proceed 0, Emit 0 8, Proceed 1]) (\<lambda>w2.
         length (calls w2) = length (calls w1) + 2)))"
    by code_simp
  then obtain w w1 w2 where r: "run_events step start [Create, plain 0 0, plain 0 0, Emit 0 7] = Ok w"
    "conn_disconnect (Some 1) w = Ok (w1, True)" "run_events step w1 [Proceed 0, Proceed 0, Emit 0 8, Proceed 1] = Ok w2"
    "length (calls w2) = length (calls w1) + 2"
    by (auto dest!: ranD)
  from disconnected_stays_silent[OF r(1-3)] obtain new where "calls w2 = calls w1 @ new" "\<forall>c \<in> set new. callee c \<noteq> 1"
    by blast
  with r show ?thesis by fastforce
qed


section \<open>An emission that nobody disturbs\<close>





















section \<open>Everything else that happens meanwhile\<close>

lemma unshare_calls: "unshare sg w = Ok w1 \<Longrightarrow> calls w1 = calls w"
  by (auto simp: unshare_def release_def allocate_def set_signal_def rbind_Ok_iff split: if_splits)

lemma modify_calls:
  assumes "modify sg f w = Ok w1"
  shows "calls w1 = calls w"
proof -
  from assms obtain v s p where v: "unshare sg w = Ok v" "at sg (signals v) = Some s" "at (m_slots s) (cells v) = Some p"
    by (auto simp: modify_def rbind_Ok_iff)
  obtain gs sl where "f (content p, slots v) = (gs, sl)" by (cases "f (content p, slots v)")
  with assms v unshare_calls[OF v(1)] show ?thesis by (auto simp: modify_def)
qed

lemma disconnect_slot_calls: "disconnect_slot s v = Ok (u, b) \<Longrightarrow> calls u = calls v"
  by (auto simp: disconnect_slot_def clean_def rbind_Ok_iff split: if_splits dest: modify_calls)

lemma proceed_calls:
  assumes "well_formed w" "proceed e w = Ok w1"
  shows "\<exists>new. calls w1 = calls w @ new \<and> (\<forall>c \<in> set new. \<exists>gs. snapshot w e = Some gs \<and> contains (callee c) gs)"
proof (cases "at e (running w)")
  case None
  with assms show ?thesis by (simp add: proceed_def)
next
  case (Some f)
  from assms(2) Some obtain p where p: "at (ref f) (cells w) = Some p" by (auto simp: proceed_def rbind_Ok_iff)
  let ?s = "slts (content p ! at_group f) ! at_slot f"
  let ?v = "set_running e (Some (f\<lparr>at_slot := at_slot f + 1\<rparr>)) w"
  have sn: "snapshot w e = Some (content p)" using Some p by (simp add: snapshot_def groups_at_def)
  consider (call) "at_group f < length (content p)" "at_slot f < length (slts (content p ! at_group f))"
      "invoke ?s (arguments f) ?v = Ok w1"
    | (group) "calls w1 = calls w"
    | (ends) "release (ref f) (set_running e None w) = Ok w1"
    using assms(2) Some p by (auto simp: proceed_def Let_def set_running_def split: if_splits)
  then show ?thesis
  proof cases
    case call
    then have c: "contains ?s (content p)" by (auto simp: contains_def intro!: bexI[of _ "content p ! at_group f"])
    have "calls w1 = calls w \<or> (\<exists>x. calls w1 = calls w @ [x] \<and> callee x = ?s)"
      using call(3) by (auto simp: invoke_def call_slot_def record_call_def set_running_def rbind_Ok_iff
          split: if_splits target.splits dest!: disconnect_slot_calls)
    with c sn show ?thesis by (elim disjE exE) auto
  next
    case group
    then show ?thesis by simp
  next
    case ends
    then have "calls w1 = calls w" by (auto simp: release_def set_running_def rbind_Ok_iff)
    then show ?thesis by simp
  qed
qed

lemma snapshot_length: "snapshot w e \<noteq> None \<Longrightarrow> e < length (running w)"
  by (auto simp: snapshot_def groups_at_def at_def split: option.splits if_splits)

text \<open>An emission is not disturbed by what happens while it runs: whoever connects, moves, swaps or
  destroys signals in the meantime, from a slot or from another thread, it only calls slots that its
  signal had when it started. A slot that is connected later is not called by it.\<close>

theorem emission_ignores_later_slots:
  assumes "run_events step start es = Ok w" "e < length (running w)"
    and "run_events step w fs = Ok w1" "step w1 (Proceed e) = Ok w2"
  shows "\<exists>new. calls w2 = calls w1 @ new
    \<and> (\<forall>c \<in> set new. callee c < length (slots w) \<and> (\<exists>gs. snapshot w e = Some gs \<and> contains (callee c) gs))"
proof -
  have wf: "well_formed w" by (rule slots.run_inv[OF start_well_formed assms(1)])
  have wf1: "well_formed w1" by (rule slots.run_inv[OF wf assms(3)])
  from proceed_calls[OF wf1, of e w2] assms(4) obtain new where new: "calls w2 = calls w1 @ new"
    "\<forall>c \<in> set new. \<exists>gs. snapshot w1 e = Some gs \<and> contains (callee c) gs"
    unfolding step.simps by blast
  have "callee c < length (slots w) \<and> (\<exists>gs. snapshot w e = Some gs \<and> contains (callee c) gs)" if c: "c \<in> set new" for c
  proof -
    from new(2) c obtain gs where gs: "snapshot w1 e = Some gs" "contains (callee c) gs" by blast
    with evolvesD(5)[OF run_evolves[OF wf assms(3)] assms(2)] have "snapshot w e = Some gs" by simp
    with well_formedD(4)[OF wf this] gs(2) show ?thesis by (auto simp: contains_slot_set)
  qed
  with new(1) show ?thesis by blast
qed

theorem emission_ignores_later_slots_witness:
  "\<exists>w w1 w2 new. run_events step start [Create, plain 0 0, Emit 0 7, Proceed 0] = Ok w
    \<and> run_events step w [plain 0 0] = Ok w1 \<and> step w1 (Proceed 0) = Ok w2 \<and> calls w2 = calls w1 @ new
    \<and> (\<forall>c \<in> set new. callee c < 1) \<and> groups_of w1 0 = Some [\<lparr>gid = 0, slts = [0, 1]\<rparr>]"
proof -
  have "ran (run_events step start [Create, plain 0 0, Emit 0 7, Proceed 0]) (\<lambda>w.
     0 < length (running w) \<and> length (slots w) = 1 \<and> ran (run_events step w [plain 0 0]) (\<lambda>w1.
       groups_of w1 0 = Some [\<lparr>gid = 0, slts = [0, 1]\<rparr>] \<and> ran (step w1 (Proceed 0)) (\<lambda>w2. True)))"
    by code_simp
  then obtain w w1 w2 where r: "run_events step start [Create, plain 0 0, Emit 0 7, Proceed 0] = Ok w"
    "0 < length (running w)" "run_events step w [plain 0 0] = Ok w1" "step w1 (Proceed 0) = Ok w2" "length (slots w) = 1"
    "groups_of w1 0 = Some [\<lparr>gid = 0, slts = [0, 1]\<rparr>]"
    by (auto dest!: ranD)
  from emission_ignores_later_slots[OF r(1-4)] r show ?thesis by (metis (no_types, lifting))
qed

lemma slot_lists_facts:
  assumes "run_events step start es = Ok w"
  shows "groups_of w sg = Some gs \<Longrightarrow> sorted_wrt (<) (map gid gs)"
    and "groups_of w sg = Some gs \<Longrightarrow> h \<in> set gs \<Longrightarrow> i < length (slts h) \<Longrightarrow>
      index (slots w ! (slts h ! i)) = i \<and> in_group (slots w ! (slts h ! i)) = gid h"
    and "x \<noteq> y \<Longrightarrow> groups_of w x = Some gs \<Longrightarrow> groups_of w y = Some hs \<Longrightarrow> contains s gs \<Longrightarrow> \<not> contains s hs"
    and "at a (cells w) = Some p \<Longrightarrow>
      ref_count p = length (filter (\<lambda>o1. map_option m_slots o1 = Some a) (signals w))
        + length (filter (\<lambda>o1. map_option ref o1 = Some a) (running w))"
proof -
  have wf: "well_formed w" by (rule slots.run_inv[OF start_well_formed assms])
  show "groups_of w sg = Some gs \<Longrightarrow> sorted_wrt (<) (map gid gs)"
    using well_formedD(2)[OF wf] by (simp add: placed_def)
  show "groups_of w sg = Some gs \<Longrightarrow> h \<in> set gs \<Longrightarrow> i < length (slts h) \<Longrightarrow>
      index (slots w ! (slts h ! i)) = i \<and> in_group (slots w ! (slts h ! i)) = gid h"
    using well_formedD(2)[OF wf] by (simp add: placed_def indexed_def)
  show "x \<noteq> y \<Longrightarrow> groups_of w x = Some gs \<Longrightarrow> groups_of w y = Some hs \<Longrightarrow> contains s gs \<Longrightarrow> \<not> contains s hs"
    using well_formedD(3)[OF wf, of x y gs hs] by (auto simp: contains_slot_set)
  have count: "count_list (map f xs) z = length (filter (\<lambda>x. f x = z) xs)" for f :: "'x \<Rightarrow> 'y" and xs z
    by (induction xs) auto
  show "at a (cells w) = Some p \<Longrightarrow>
      ref_count p = length (filter (\<lambda>o1. map_option m_slots o1 = Some a) (signals w))
        + length (filter (\<lambda>o1. map_option ref o1 = Some a) (running w))"
    using counted_Some[OF well_formedD(1)[OF wf], of a p]
    by (simp only: owed_def owners_def count_list_append count) simp
qed

text \<open>C14. What the lists of slots look like after any run: groups in ascending order, every slot in
  its own group and with its place in \<open>index\<close>, no slot in two signals, and every payload counts
  exactly the signals and emissions that hold it. So disconnecting finds the slot in one look.\<close>

theorem slot_lists_consistent:
  assumes "run_events step start es = Ok w"
  shows "(\<forall>sg gs. groups_of w sg = Some gs \<longrightarrow> sorted_wrt (<) (map gid gs)
        \<and> (\<forall>h \<in> set gs. \<forall>i < length (slts h).
             index (slots w ! (slts h ! i)) = i \<and> in_group (slots w ! (slts h ! i)) = gid h))
    \<and> (\<forall>x y gs hs s. x \<noteq> y \<and> groups_of w x = Some gs \<and> groups_of w y = Some hs \<and> contains s gs \<longrightarrow> \<not> contains s hs)
    \<and> (\<forall>a p. at a (cells w) = Some p \<longrightarrow>
         ref_count p = length (filter (\<lambda>o1. map_option m_slots o1 = Some a) (signals w))
           + length (filter (\<lambda>o1. map_option ref o1 = Some a) (running w)))"
  using slot_lists_facts[OF assms] by blast


theorem slot_lists_consistent_witness:
  "\<exists>w. run_events step start [Create, Create, plain 0 3, plain 0 1, plain 0 3, Emit 0 1, Disconnect (Some 0)] = Ok w
    \<and> groups_of w 0 = Some [\<lparr>gid = 1, slts = [1]\<rparr>, \<lparr>gid = 3, slts = [2]\<rparr>] \<and> index (slots w ! 2) = 0
    \<and> sorted_wrt (<) [1::int, 3] \<and> groups_of w 1 = Some [] \<and> \<not> contains 1 []
    \<and> (\<exists>p. at 0 (cells w) = Some p \<and> ref_count p = 1)"
proof -
  let ?gs = "[\<lparr>gid = 1, slts = [1]\<rparr>, \<lparr>gid = 3, slts = [2]\<rparr>]"
  have "ran (run_events step start [Create, Create, plain 0 3, plain 0 1, plain 0 3, Emit 0 1, Disconnect (Some 0)])
    (\<lambda>w. groups_of w 0 = Some ?gs \<and> groups_of w 1 = Some [] \<and> (\<exists>p \<in> set (cells w). at 0 (cells w) = p \<and> p \<noteq> None)
      \<and> length (filter (\<lambda>o1. map_option m_slots o1 = Some 0) (signals w))
        + length (filter (\<lambda>o1. map_option ref o1 = Some 0) (running w)) = 1)"
    by code_simp
  then obtain w p where w: "run_events step start [Create, Create, plain 0 3, plain 0 1, plain 0 3, Emit 0 1, Disconnect (Some 0)] = Ok w"
    "groups_of w 0 = Some ?gs" "groups_of w 1 = Some []" "at 0 (cells w) = Some p"
    "length (filter (\<lambda>o1. map_option m_slots o1 = Some 0) (signals w))
        + length (filter (\<lambda>o1. map_option ref o1 = Some 0) (running w)) = 1"
    by (auto dest!: ranD)
  note s = slot_lists_consistent[OF w(1)]
  from s w(2) have gs: "sorted_wrt (<) (map gid ?gs)"
    "\<forall>h \<in> set ?gs. \<forall>i < length (slts h). index (slots w ! (slts h ! i)) = i" by blast+
  from s w(2,3) have c: "\<not> contains 1 []" by (simp add: contains_def)
  from s w(4) have "ref_count p = length (filter (\<lambda>o1. map_option m_slots o1 = Some 0) (signals w))
      + length (filter (\<lambda>o1. map_option ref o1 = Some 0) (running w))" by blast
  with w(5) have "ref_count p = 1" by (simp only:)
  with gs c w(1-4) show ?thesis by (simp del: run_events.simps)
qed

text \<open>What a handler must not do: destroying the signal that is calling it. The emission goes on, since it
  holds the slots, but they refer to a signal that is gone, and the first one to be disconnected, by a scoped
  connection that goes out of scope for instance, makes it clean up there.\<close>

theorem disconnect_after_destroy_undefined:
  assumes "run_events step start es = Ok w" "snapshot w e = Some gs" "contains s gs" "connected (slots w ! s)"
    and "step w (Destroy (cleaner (slots w ! s))) = Ok w1" "at e (running w1) = at e (running w)"
  shows "step w1 (Disconnect (Some s)) = Undefined"
proof -
  let ?sg = "cleaner (slots w ! s)"
  have wf: "well_formed w" by (rule slots.run_inv[OF start_well_formed assms(1)])
  from assms(5) obtain v t where v: "disconnect_all ?sg w = Ok v" "at ?sg (signals v) = Some t"
    "release (m_slots t) (set_signal ?sg None v) = Ok w1" by (auto simp: destroy_def rbind_Ok_iff)
  have sl: "slots w1 = slots w"
    using disconnect_all_shrinks[OF wf v(1)] v(3) by (auto simp: release_def set_signal_def rbind_Ok_iff)
  have gone: "at ?sg (signals w1) = None"
    using v(2,3) at_Some_length[OF v(2)] by (auto simp: release_def set_signal_def rbind_Ok_iff)
  from step_evolves[OF wf assms(5)] have wf1: "well_formed w1" "evolves w w1" by simp_all
  have "snapshot w1 e \<noteq> None"
  proof -
    from assms(2) obtain f where f: "at e (running w) = Some f" by (auto simp: snapshot_def groups_at_def split: option.splits)
    with assms(6) have "at e (running w1) = Some f" by simp
    with counted_owed[OF well_formedD(1)[OF wf1(1)] owed_running[OF this]] show ?thesis
      by (auto simp: snapshot_def groups_at_def)
  qed
  with evolvesD(5)[OF wf1(2) _ this] snapshot_length[of w e] assms(2) have "snapshot w1 e = Some gs" by simp
  with assms(3) have "alive w1 s" by (auto simp: alive_iff[OF wf1(1)])
  moreover have "s < length (slots w)"
    using well_formedD(4)[OF wf assms(2)] assms(3) by (auto simp: contains_slot_set)
  ultimately show ?thesis
    using gone assms(4) by (simp add: conn_disconnect_def lock_def disconnect_slot_def clean_def modify_def unshare_def sl)
qed

theorem disconnect_after_destroy_undefined_witness:
  "\<exists>w w1. run_events step start [Create, plain 0 0, plain 0 0, Emit 0 7, Proceed 0] = Ok w
    \<and> step w (Destroy 0) = Ok w1 \<and> step w1 (Disconnect (Some 1)) = Undefined"
proof -
  let ?es = "[Create, plain 0 0, plain 0 0, Emit 0 7, Proceed 0]"
  have "ran (run_events step start ?es) (\<lambda>w. snapshot w 0 = Some [\<lparr>gid = 0, slts = [0, 1]\<rparr>] \<and> contains 1 [\<lparr>gid = 0, slts = [0, 1]\<rparr>]
     \<and> connected (slots w ! 1) \<and> cleaner (slots w ! 1) = 0
     \<and> ran (step w (Destroy 0)) (\<lambda>w1. at 0 (running w1) = at 0 (running w)))"
    by code_simp
  then obtain w w1 where w: "run_events step start ?es = Ok w" "snapshot w 0 = Some [\<lparr>gid = 0, slts = [0, 1]\<rparr>]"
    "contains 1 [\<lparr>gid = 0, slts = [0, 1]\<rparr>]" "connected (slots w ! 1)" "cleaner (slots w ! 1) = 0"
    "step w (Destroy 0) = Ok w1" "at 0 (running w1) = at 0 (running w)"
    by (auto dest!: ranD)
  with disconnect_after_destroy_undefined[OF w(1-4)] show ?thesis by metis
qed


text \<open>Three more edges, on concrete runs. Disconnecting a group (or a callable, an object, or all) does not
  stop an emission from calling its slots, and their connections still call themselves connected. Asking to
  disconnect an object that has expired disconnects every slot that has no object. After a signal was
  moved, disconnecting a slot leaves it in the list.\<close>

lemma group_disconnect_still_calls:
  "ran (run_events step start [Create, plain 0 0, plain 0 0, Emit 0 7, Proceed 0, Disconnect_group 0 0, Proceed 0])
     (\<lambda>w. map callee (calls w) = [0, 1] \<and> conn_connected (Some 1) w \<and> slot_count 0 w = Ok 0)"
  by code_simp

lemma expired_object_disconnects_functions:
  "ran (run_events step start [Create, plain 0 0, Connect 0 sample_callable (Tracked 5) False 0, Object_dies 5,
      plain 0 0, Disconnect_object 0 (Tracked 5)]) (\<lambda>w. slot_count 0 w = Ok 0)"
  by code_simp

lemma moved_signal_keeps_slot:
  "ran (run_events step start [Create, plain 0 0, Move_construct 0, Disconnect (Some 0), Emit 1 7, Proceed 0])
     (\<lambda>w. slot_count 1 w = Ok 1 \<and> \<not> conn_connected (Some 0) w \<and> calls w = [])"
  by code_simp

end
