(* ===== verification/Own_Controls.thy ===== *)
theory Own_Controls
  imports Desktop_Sharing Media_Control Complex_Main
begin

text \<open>
  The controls of the own media: app/own\_media\_model.cpp and app/share\_desktop\_model.cpp,
  on top of the camera and the sharing (\<open>Desktop_Sharing\<close>) and of the volumes and the
  microphone test (\<open>Media_Control\<close>), which they call and listen to.

  What a control shows is a member of its own, set when the user moves it and, for the
  camera only, when the thing it controls says so. The theorems compare the two.
\<close>

section \<open>Sound levels\<close>

text \<open>\<open>static_cast<int>\<close> cuts off what is behind the point.\<close>

definition cast_int :: "rat \<Rightarrow> int" where
  "cast_int x = (if x \<ge> 0 then \<lfloor>x\<rfloor> else \<lceil>x\<rceil>)"

definition shown_level :: "rat \<Rightarrow> int" where
  "shown_level level = min 127 (cast_int (level * 127))"

lemma own_level_bounds: "0 \<le> level \<Longrightarrow> 0 \<le> shown_level level \<and> shown_level level \<le> 127"
  by (simp add: shown_level_def cast_int_def)


section \<open>Muting, deafening and the microphone test\<close>

text \<open>\<open>told_controls\<close> are the signals of the properties, by their names.\<close>

datatype control = Muted bool | Deafed bool | Loopback bool

record 'v own_controls =
  tester :: "'v microphone_tester"
  shown_muted :: bool
  shown_deafed :: bool
  told_controls :: "control list"

definition new_controls :: "'v microphone_tester \<Rightarrow> 'v own_controls" where
  "new_controls s = \<lparr> tester = s, shown_muted = muted_self s, shown_deafed = deafned s, told_controls = [] \<rparr>"

definition tells :: "control \<Rightarrow> 'v own_controls \<Rightarrow> 'v own_controls" where
  "tells c s = s\<lparr> told_controls := told_controls s @ [c] \<rparr>"

definition set_muted :: "bool \<Rightarrow> 'v own_controls \<Rightarrow> 'v own_controls" where
  "set_muted m s = tells (Muted m) (s\<lparr> shown_muted := m, tester := mute_self m (tester s) \<rparr>)"

definition set_deafed :: "bool \<Rightarrow> ('v :: one) own_controls \<Rightarrow> 'v own_controls" where
  "set_deafed d s = tells (Deafed d) (s\<lparr> shown_deafed := d, tester := deafen d (tester s) \<rparr>)"

definition get_started :: "'v microphone_tester \<Rightarrow> bool" where
  "get_started s = get_enable_loopback (tester_loopback s)"

definition set_loopback_audio :: "build \<Rightarrow> bool \<Rightarrow> ('v :: one) own_controls \<Rightarrow> 'v own_controls res" where
  "set_loopback_audio b c s =
     (if c = get_started (tester s) then Ok s
      else rbind (if c then tester_start b (tester s) else tester_stop b (tester s)) (\<lambda>t.
        Ok (tells (Loopback c) (s\<lparr> tester := t \<rparr>))))"

datatype control_event = Set_muted bool | Set_deafed bool | Set_loopback bool

fun control_step :: "build \<Rightarrow> ('v :: one) own_controls \<Rightarrow> control_event \<Rightarrow> 'v own_controls res" where
  "control_step b s (Set_muted m) = Ok (set_muted m s)"
| "control_step b s (Set_deafed d) = Ok (set_deafed d s)"
| "control_step b s (Set_loopback c) = set_loopback_audio b c s"

lemma mute_self_simps [simp]:
  "muted_self (mute_self m s) = m" "deafned (mute_self m s) = deafned s"
  by (simp_all add: mute_self_def Let_def update_self_muted_def)

lemma mute_self_tester [simp]:
  "tester_loopback (mute_self m s) = tester_loopback s" "did_deafen (mute_self m s) = did_deafen s"
  by (simp_all add: mute_self_def Let_def update_self_muted_def)

lemma tester_stop_result:
  "\<exists>t. tester_stop b s = Ok t \<and> deafned t = (deafned s \<and> \<not> did_deafen s) \<and> \<not> get_started t \<and> \<not> did_deafen t
     \<and> muted_self t = muted_self s"
proof -
  obtain l where "enable_loopback b False (tester_loopback s) = Ok l" "\<not> get_enable_loopback l"
    using enable_loopback_total by blast
  then show ?thesis by (auto simp: tester_stop_def Let_def get_started_def)
qed

text \<open>The switch for muting always says what is. The one for deafening says it too, unless a
  microphone test is running, which deafens on its own account.\<close>

definition controls_inv :: "('v :: one) own_controls \<Rightarrow> bool" where
  "controls_inv s \<longleftrightarrow> shown_muted s = muted_self (tester s)
     \<and> (did_deafen (tester s) \<longrightarrow> get_started (tester s))"

definition deaf_inv :: "('v :: one) own_controls \<Rightarrow> bool" where
  "deaf_inv s \<longleftrightarrow> controls_inv s \<and> deafned (tester s) = (shown_deafed s \<or> did_deafen (tester s))
     \<and> (did_deafen (tester s) \<longrightarrow> \<not> shown_deafed s)"

lemma loopback_result:
  assumes "controls_inv s"
  shows "\<exists>t. set_loopback_audio b c s = Ok t \<and> controls_inv t \<and> get_started (tester t) = c
    \<and> shown_deafed t = shown_deafed s
    \<and> (c \<longrightarrow> \<not> get_started (tester s) \<longrightarrow> deafned (tester t) \<and> did_deafen (tester t) = (\<not> deafned (tester s)))
    \<and> (\<not> c \<longrightarrow> get_started (tester s) \<longrightarrow> deafned (tester t) = (deafned (tester s) \<and> \<not> did_deafen (tester s)) \<and> \<not> did_deafen (tester t))
    \<and> (c = get_started (tester s) \<longrightarrow> t = s)"
proof (cases "c = get_started (tester s)")
  case True
  with assms show ?thesis by (auto simp: set_loopback_audio_def)
next
  case False
  show ?thesis
  proof (cases c)
    case True
    from tester_start_result[of b "tester s"] obtain t where "tester_start b (tester s) = Ok t" "deafned t"
      "get_enable_loopback (tester_loopback t)" "did_deafen t = (did_deafen (tester s) \<or> \<not> deafned (tester s))"
      "muted_self t = muted_self (tester s)" by blast
    with True False assms show ?thesis by (auto simp: set_loopback_audio_def tells_def controls_inv_def get_started_def)
  next
    case stop: False
    from tester_stop_result[of b "tester s"] obtain t where "tester_stop b (tester s) = Ok t"
      "deafned t = (deafned (tester s) \<and> \<not> did_deafen (tester s))" "\<not> get_started t" "\<not> did_deafen t"
      "muted_self t = muted_self (tester s)" by blast
    with stop False assms show ?thesis by (auto simp: set_loopback_audio_def tells_def controls_inv_def)
  qed
qed


interpretation controls: total_machine "control_step b :: ('v :: one) own_controls \<Rightarrow> control_event \<Rightarrow> 'v own_controls res"
    controls_inv "\<lambda>e. True" for b
proof
  fix s t :: "'v own_controls" and e
  assume inv: "controls_inv s" and step: "control_step b s e = Ok t"
  show "controls_inv t"
  proof (cases e)
    case (Set_loopback c)
    with loopback_result[OF inv, of b c] step show ?thesis by auto
  qed (use inv step in \<open>auto simp: controls_inv_def set_muted_def set_deafed_def tells_def get_started_def\<close>)
next
  fix s :: "'v own_controls" and e
  assume "controls_inv s"
  then show "\<exists>t. control_step b s e = Ok t"
    using loopback_result[of s b] by (cases e) auto
qed

lemma deaf_step:
  assumes "deaf_inv s" "control_step b s e = Ok t" "\<And>d. e \<noteq> Set_deafed d"
  shows "deaf_inv t"
proof (cases e)
  case (Set_muted m)
  with assms show ?thesis by (auto simp: deaf_inv_def controls_inv_def set_muted_def tells_def get_started_def)
next
  case (Set_deafed d)
  with assms(3)[of d] show ?thesis by simp
next
  case (Set_loopback c)
  from assms(1) have "did_deafen (tester s) \<longrightarrow> get_started (tester s)" by (simp add: deaf_inv_def controls_inv_def)
  with Set_loopback loopback_result[of s b c] assms(1,2) show ?thesis by (cases c) (auto simp: deaf_inv_def)
qed

lemma new_controls_inv: "\<not> did_deafen s \<Longrightarrow> controls_inv (new_controls s) \<and> deaf_inv (new_controls s)"
  by (simp add: controls_inv_def deaf_inv_def new_controls_def)

text \<open>The switches of the microphone and of deafening, whatever the user does with them and with the
  microphone test: nothing asserts, and the switch for muting always shows what is. If he leaves the one
  for deafening alone it shows what is too, outside of a test.\<close>

theorem switches_show_state:
  assumes "\<not> did_deafen s"
  shows "\<exists>t. run_events (control_step b) (new_controls s) es = Ok t \<and> shown_muted t = muted_self (tester t)
    \<and> (shown_deafed t = deafned (tester t) \<or> (\<exists>d. Set_deafed d \<in> set es) \<or> get_started (tester t))"
proof -
  from new_controls_inv[OF assms] have inv: "controls_inv (new_controls s)" "deaf_inv (new_controls s)" by blast+
  from controls.run_ok[OF inv(1), of es b] obtain t where t: "run_events (control_step b) (new_controls s) es = Ok t" "controls_inv t"
    by auto
  have "deaf_inv v" if "run_events (control_step b) u es = Ok v" "deaf_inv u" "\<forall>d. Set_deafed d \<notin> set es" for es u v
    using that
  proof (induction es arbitrary: u)
    case Nil
    then show ?case by simp
  next
    case (Cons e es)
    then obtain x where "control_step b u e = Ok x" "run_events (control_step b) x es = Ok v" by (auto simp: rbind_Ok_iff)
    with Cons.IH[of x] deaf_step[of u b e x] Cons.prems show ?case by auto
  qed
  from this[OF t(1) inv(2)] t show ?thesis by (auto simp: deaf_inv_def controls_inv_def)
qed

definition sample_tester :: "nat microphone_tester" where
  "sample_tester = audio_volume.extend fresh_volume
     \<lparr> tester_loopback = \<lparr> delegate = None, told_tracks = 0 \<rparr>, did_deafen = False \<rparr>"

lemma switches_show_state_witness:
  "\<exists>t. run_events (control_step Debug) (new_controls sample_tester) [Set_muted True, Set_loopback True, Set_loopback False] = Ok t
    \<and> shown_muted t = muted_self (tester t)"
proof -
  have "\<not> did_deafen sample_tester" by (simp add: sample_tester_def audio_volume.defs)
  from switches_show_state[OF this] show ?thesis by blast
qed

text \<open>A user who deafens himself during a microphone test is heard to be deaf and is not: the end of the test
  takes back the deafening of the test, which is all there is, and the switch stays on.\<close>

theorem deafening_lost_after_test:
  assumes "run_events (control_step b) (new_controls s0) es = Ok s" "\<not> did_deafen s0"
    and "\<not> deafned (tester s)" "\<not> get_started (tester s)"
  shows "\<exists>t. run_events (control_step b) s [Set_loopback True, Set_deafed True, Set_loopback False] = Ok t
    \<and> shown_deafed t \<and> \<not> deafned (tester t)"
proof -
  from controls.run_inv[OF _ assms(1)] new_controls_inv[OF assms(2)] have inv: "controls_inv s" by blast
  from loopback_result[OF inv, of b True] assms(3,4) obtain t where t: "set_loopback_audio b True s = Ok t" "controls_inv t"
    "get_started (tester t)" "deafned (tester t)" "did_deafen (tester t)" by auto
  let ?u = "set_deafed True t"
  have u: "controls_inv ?u" "get_started (tester ?u)" "did_deafen (tester ?u)" "shown_deafed ?u"
    using t by (simp_all add: set_deafed_def tells_def controls_inv_def get_started_def)
  from loopback_result[OF u(1), of b False] u(2,3,4) obtain v where "set_loopback_audio b False ?u = Ok v"
    "\<not> deafned (tester v)" "shown_deafed v" by auto
  with t(1) show ?thesis by auto
qed

lemma deafening_lost_after_test_witness:
  "\<exists>t. run_events (control_step Debug) (new_controls sample_tester) [Set_loopback True, Set_deafed True, Set_loopback False] = Ok t
    \<and> shown_deafed t \<and> \<not> deafned (tester t)"
proof -
  have s: "run_events (control_step Debug) (new_controls sample_tester) [] = Ok (new_controls sample_tester)" by simp
  have d: "\<not> did_deafen sample_tester" "\<not> deafned (tester (new_controls sample_tester))"
    "\<not> get_started (tester (new_controls sample_tester))"
    by (simp_all add: sample_tester_def audio_volume.defs new_controls_def fresh_volume_def get_started_def get_enable_loopback_def)
  show ?thesis by (rule deafening_lost_after_test[OF s d])
qed


section \<open>The switch of the camera\<close>

text \<open>The model of the own media next to the camera and the sharing. It hears the signals of the video
  settings: \<open>None\<close> of \<open>told_video\<close> is a new source, \<open>Some p\<close> is paused or not. Of several new sources in one
  operation only the last is seen here; those in between show what the next replaces.\<close>

record 'c camera_ui =
  desk :: "'c desktop"
  video_disabled :: bool
  shown_video :: "string option"
  told_disabled :: "bool list"

definition update_video :: "build \<Rightarrow> 'c camera_ui \<Rightarrow> 'c camera_ui res" where
  "update_video b s = (case own_videos (video_own (desk s)) of [] \<Rightarrow> Ok (s\<lparr> shown_video := None \<rparr>)
     | v # vs \<Rightarrow> rbind (boost_assert b (length (v # vs) = 1)) (\<lambda>u. Ok (s\<lparr> shown_video := Some v \<rparr>)))"

definition on_paused :: "bool \<Rightarrow> 'c camera_ui \<Rightarrow> 'c camera_ui" where
  "on_paused p s = (if video_disabled s = p then s
     else s\<lparr> video_disabled := p, told_disabled := told_disabled s @ [p] \<rparr>)"

fun hears_video :: "build \<Rightarrow> bool option list \<Rightarrow> 'c camera_ui \<Rightarrow> 'c camera_ui res" where
  "hears_video b [] s = Ok s"
| "hears_video b (None # ns) s = rbind (update_video b s) (hears_video b ns)"
| "hears_video b (Some p # ns) s = hears_video b ns (on_paused p s)"

definition takes_desk :: "build \<Rightarrow> 'c desktop \<Rightarrow> 'c camera_ui \<Rightarrow> 'c camera_ui res" where
  "takes_desk b t s = hears_video b (drop (length (told_video (desk s))) (told_video t)) (s\<lparr> desk := t \<rparr>)"

definition new_camera_ui :: "build \<Rightarrow> 'c desktop \<Rightarrow> 'c camera_ui res" where
  "new_camera_ui b d = update_video b \<lparr> desk = d, video_disabled = False, shown_video = None, told_disabled = [] \<rparr>"

text \<open>When the settings throw, nothing is told; the exception goes to the event loop.\<close>

definition set_video_disabled :: "build \<Rightarrow> (string \<Rightarrow> bool) \<Rightarrow> bool \<Rightarrow> 'c camera_ui \<Rightarrow> 'c camera_ui res" where
  "set_video_disabled b opens d s =
     (if video_disabled s = d then Ok s
      else (case settings_pause b opens d (desk s) of (t, r) \<Rightarrow>
        (case r of Ok u \<Rightarrow> rbind (takes_desk b t (s\<lparr> video_disabled := d \<rparr>)) (\<lambda>s.
             Ok (s\<lparr> told_disabled := told_disabled s @ [d] \<rparr>))
         | Throw x \<Rightarrow> takes_desk b t (s\<lparr> video_disabled := d \<rparr>)
         | Assert_failed \<Rightarrow> Assert_failed | Undefined \<Rightarrow> Undefined)))"

datatype ui_event = Switch_camera bool "string \<Rightarrow> bool" | Happens desktop_event

fun ui_step :: "build \<Rightarrow> 'c camera_ui \<Rightarrow> ui_event \<Rightarrow> 'c camera_ui res" where
  "ui_step b s (Switch_camera d opens) = set_video_disabled b opens d s"
| "ui_step b s (Happens e) = rbind (desktop_step b (desk s) e) (\<lambda>t. takes_desk b t s)"

text \<open>There is at most one own video from the camera, so the assertion holds and the video shown is that.\<close>

definition ui_inv :: "'c list \<Rightarrow> 'c camera_ui \<Rightarrow> bool" where
  "ui_inv cs s \<longleftrightarrow> stays cs (desk s)"

lemma own_videos_camera: "desktop_ok d \<Longrightarrow> own_videos (video_own d) = (case capture_device d of None \<Rightarrow> [] | Some v \<Rightarrow> [v])"
  by (auto simp: desktop_ok_def video_ok_def video_inv_def split: option.splits)

lemma update_video_result:
  "desktop_ok (desk s) \<Longrightarrow> update_video b s = Ok (s\<lparr> shown_video := capture_device (desk s) \<rparr>)"
  by (simp add: update_video_def own_videos_camera split: option.split)

lemma hears_video_result:
  assumes "desktop_ok (desk s)"
  shows "\<exists>t. hears_video b ns s = Ok t \<and> desk t = desk s
    \<and> (None \<in> set ns \<longrightarrow> shown_video t = capture_device (desk s)) \<and> (None \<notin> set ns \<longrightarrow> shown_video t = shown_video s)
    \<and> video_disabled t = fold (\<lambda>n d. case n of None \<Rightarrow> d | Some p \<Rightarrow> p) ns (video_disabled s)"
  using assms
proof (induction ns arbitrary: s)
  case Nil
  then show ?case by simp
next
  case (Cons n ns)
  show ?case
  proof (cases n)
    case None
    let ?s = "s\<lparr> shown_video := capture_device (desk s) \<rparr>"
    from Cons.IH[of ?s] Cons.prems obtain t where "hears_video b ns ?s = Ok t" "desk t = desk s"
      "None \<in> set ns \<longrightarrow> shown_video t = capture_device (desk s)" "None \<notin> set ns \<longrightarrow> shown_video t = capture_device (desk s)"
      "video_disabled t = fold (\<lambda>n d. case n of None \<Rightarrow> d | Some p \<Rightarrow> p) ns (video_disabled s)" by auto
    with None update_video_result[OF Cons.prems] show ?thesis by (cases "None \<in> set ns") auto
  next
    case (Some p)
    have p: "desk (on_paused p s) = desk s" "shown_video (on_paused p s) = shown_video s" "video_disabled (on_paused p s) = p"
      by (simp_all add: on_paused_def)
    with Cons.IH[of "on_paused p s"] Cons.prems Some show ?thesis by simp
  qed
qed


lemma takes_desk_result:
  "desktop_ok t \<Longrightarrow> \<exists>u. takes_desk b t s = Ok u \<and> desk u = t \<and> video_disabled u =
     fold (\<lambda>n d. case n of None \<Rightarrow> d | Some p \<Rightarrow> p) (drop (length (told_video (desk s))) (told_video t)) (video_disabled s)"
  using hears_video_result[of "s\<lparr> desk := t \<rparr>" b "drop (length (told_video (desk s))) (told_video t)"]
  by (auto simp: takes_desk_def)

lemma settings_pause_outcome:
  assumes "stays cs s"
  shows "\<exists>t r. settings_pause b opens d s = (t, r) \<and> stays cs t \<and> (r = Ok () \<or> (\<exists>x. r = Throw x))"
proof -
  from assms have ok: "desktop_ok s" "connections (video_tracks s) = cs" by (simp_all add: stays_def)
  from desktop_prog_result[OF ok(1), of "Camera_pause d opens" b] obtain t r where
    t: "settings_pause b opens d s = (t, r)" "desktop_ok t" "r = Ok () \<or> (\<exists>x. r = Throw x)" by auto
  with keeps_onD[OF settings_pause_connections ok(2) t(1)] show ?thesis by (auto simp: stays_def)
qed

lemma ui_step_result:
  assumes "ui_inv cs s"
  shows "\<exists>t. ui_step b s e = Ok t \<and> ui_inv cs t"
proof (cases e)
  case (Happens d)
  from sharing_step[of cs "desk s" b d] assms obtain t where "desktop_step b (desk s) d = Ok t" "stays cs t"
    by (auto simp: ui_inv_def)
  with takes_desk_result[of t b s] Happens show ?thesis by (auto simp: ui_inv_def stays_def)
next
  case (Switch_camera d opens)
  from settings_pause_outcome[of cs "desk s" b opens d] assms obtain t r where
    t: "settings_pause b opens d (desk s) = (t, r)" "stays cs t" "r = Ok () \<or> (\<exists>x. r = Throw x)"
    by (auto simp: ui_inv_def)
  from takes_desk_result[of t b "s\<lparr> video_disabled := d \<rparr>"] t(2) obtain u where
    "takes_desk b t (s\<lparr> video_disabled := d \<rparr>) = Ok u" "desk u = t" by (auto simp: stays_def)
  with t assms Switch_camera show ?thesis by (auto simp: set_video_disabled_def ui_inv_def)
qed

interpretation camera_switch: total_machine "ui_step b :: 'c camera_ui \<Rightarrow> ui_event \<Rightarrow> 'c camera_ui res" "ui_inv cs" "\<lambda>e. True" for b cs
proof
  fix s t :: "'c camera_ui" and e
  assume "ui_inv cs s" "ui_step b s e = Ok t"
  with ui_step_result[of cs s b e] show "ui_inv cs t" by auto
next
  fix s :: "'c camera_ui" and e
  assume "ui_inv cs s"
  with ui_step_result[of cs s b e] show "\<exists>t. ui_step b s e = Ok t" by auto
qed

abbreviation all_open :: "string \<Rightarrow> bool" where
  "all_open \<equiv> \<lambda>i. True"

text \<open>What the user's switch does.\<close>

lemma told_disabled_simps [simp]: "desk (s\<lparr> told_disabled := x \<rparr>) = desk s" "video_disabled (s\<lparr> told_disabled := x \<rparr>) = video_disabled s"
  by simp_all

lemma new_ui:
  assumes "distinct cs" "new_camera_ui b (fresh_desktop cs ds) = Ok s0"
  shows "ui_inv cs s0"
proof -
  have "desktop_ok (fresh_desktop cs ds)" using stays_fresh[OF assms(1)] by (simp add: stays_def)
  with assms stays_fresh[OF assms(1)] show ?thesis
    by (auto simp: new_camera_ui_def update_video_result ui_inv_def)
qed

text \<open>Operations that say nothing about pausing.\<close>

definition quietly :: "nat \<Rightarrow> 'c desktop \<Rightarrow> bool" where
  "quietly n s \<longleftrightarrow> n \<le> length (told_video s) \<and> (\<forall>p. Some p \<notin> set (drop n (told_video s)))"

lemma quietly_start: "quietly (length (told_video s)) s"
  by (simp add: quietly_def)

lemma quiet_programs:
  "keeps_on (quietly n) (reset_current_video b)" "keeps_on (quietly n) (change_to_device b opens i)"
  "keeps_on (quietly n) (on_video_devices_changed b)" "keeps_on (quietly n) (stop_or_reset b)"
  unfolding reset_current_video_def reset_current_video_capture_def change_to_device_def on_video_devices_changed_def
    stop_or_reset_def on_stopped_def reset_instance_def source_changed_def add_new_track_def remove_track_def on_tracks_def
    on_own_def on_part_def
  by (intro keeps keeps_update; simp add: quietly_def)+

lemma fold_quietly:
  "quietly (length (told_video s)) t \<Longrightarrow>
   fold (\<lambda>n d. case n of None \<Rightarrow> d | Some p \<Rightarrow> p) (drop (length (told_video s)) (told_video t)) d = d"
proof -
  have "\<forall>p. Some p \<notin> set ns \<Longrightarrow> fold (\<lambda>n d. case n of None \<Rightarrow> d | Some p \<Rightarrow> p) ns d = d" for ns :: "bool option list" and d
    by (induction ns arbitrary: d) (auto split: option.split)
  then show "quietly (length (told_video s)) t \<Longrightarrow>
    fold (\<lambda>n d. case n of None \<Rightarrow> d | Some p \<Rightarrow> p) (drop (length (told_video s)) (told_video t)) d = d"
    by (simp add: quietly_def)
qed

lemma happens_quietly:
  assumes "desktop_step b (desk s) e = Ok t" "desktop_ok t" "quietly (length (told_video (desk s))) t"
  shows "\<exists>u. ui_step b s (Happens e) = Ok u \<and> desk u = t \<and> video_disabled u = video_disabled s"
  using takes_desk_result[OF assms(2), of b s] assms(1) fold_quietly[OF assms(3)] by auto

lemma devices_gone:
  assumes "desktop_ok s"
  shows "\<exists>t. desktop_step b s (Camera_devices []) = Ok t \<and> desktop_ok t \<and> last_device_id t = None \<and> capture_device t = None
    \<and> video_paused t = video_paused s \<and> did_pause t = did_pause s \<and> set_capturer t = set_capturer s
    \<and> quietly (length (told_video s)) t"
proof -
  let ?s = "s\<lparr> enumerated := [] \<rparr>"
  have ok: "desktop_ok ?s" "video_inv ?s"
    using assms by (auto simp: desktop_ok_def desktop_inv_def video_ok_def video_inv_def other_adders_def split: option.splits)
  show ?thesis
  proof (cases "last_device_id s")
    case None
    with assms have "capture_device s = None"
      by (auto simp: desktop_ok_def video_ok_def video_inv_def split: option.splits)
    with None ok show ?thesis
      by (intro exI[of _ ?s]) (simp add: desktop_step_def on_video_devices_changed_def prog_eval handled_def quietly_def)
  next
    case (Some i)
    obtain t where t: "reset_current_video b ?s = (t, Ok ())" "video_inv t" "same_rest ?s t" "capture_device t = None"
      "last_device_id t = None" "video_paused t = video_paused ?s"
      using reset_video_result[OF ok(2)] by blast
    have "desktop_ok t" using camera_ok_desktop[of t ?s] t ok(1) by (simp add: video_ok_def desktop_ok_def)
    moreover have "quietly (length (told_video s)) t"
      by (rule keeps_onD[OF quiet_programs(1) _ t(1)]) (simp add: quietly_def)
    moreover have "desktop_step b s (Camera_devices []) = Ok t"
      using Some t(1) by (simp add: desktop_step_def on_video_devices_changed_def prog_eval handled_def)
    ultimately show ?thesis using t same_rest_desktop[OF t(3)] by auto
  qed
qed

lemma unshare_without_camera:
  assumes "desktop_ok s" "set_capturer s \<noteq> None" "did_pause s" "video_paused s" "last_device_id s = None"
  shows "\<exists>t. desktop_step b s (Unshare opens) = Ok t \<and> desktop_ok t \<and> \<not> video_paused t \<and> capture_device t = None
    \<and> quietly (length (told_video s)) t"
proof -
  from assms(2) obtain i c where "set_capturer s = Some (i, c)" by auto
  from stop_or_reset_result[OF assms(1) this, of b] obtain u where
    u: "stop_or_reset b s = (u, Ok ())" "desktop_ok u" "set_capturer u = None" "did_pause u = did_pause s" "same_camera s u" by blast
  have q: "quietly (length (told_video s)) u"
    by (rule keeps_onD[OF quiet_programs(4) quietly_start u(1)])
  let ?t = "u\<lparr> did_pause := False, video_paused := False \<rparr>"
  have "desktop_reset (settings_pause b opens) b s = (?t, Ok ())"
    using u(1,4,5) assms(3-5) by (simp add: desktop_reset_def sthen_Pair unpause_video_def prog_eval settings_pause_def
        video_pause_def Let_def same_camera_def)
  moreover have "desktop_ok ?t" "capture_device ?t = None" "quietly (length (told_video s)) ?t"
    using u(2,3,5) assms(1,4) q by (auto simp: desktop_ok_def desktop_inv_def video_ok_def video_inv_def same_camera_def quietly_def
        other_adders_def split: option.splits)
  ultimately show ?thesis using assms(2) by (auto simp: desktop_step_simps handled_def)
qed

lemma change_quietly:
  assumes "desktop_ok s" "\<not> video_paused s" "opens d"
  shows "\<exists>t. desktop_step b s (Camera_change d opens) = Ok t \<and> desktop_ok t \<and> capture_device t = Some d
    \<and> quietly (length (told_video s)) t"
proof -
  from assms(1) have v: "video_ok s" "desktop_inv s" by (simp_all add: desktop_ok_def)
  from change_device_result[OF v(1), of b opens d] assms(2,3) obtain t where
    t: "change_to_device b opens d s = (t, Ok ())" "video_ok t" "same_rest s t" "capture_device t = Some d" by auto
  have "quietly (length (told_video s)) t" by (rule keeps_onD[OF quiet_programs(2) quietly_start t(1)])
  with t camera_ok_desktop[OF t(2,3) v(2)] show ?thesis by (auto simp: desktop_step_simps handled_def)
qed

text \<open>Pausing tells nothing but that, and so does unpausing.\<close>

definition tells_only :: "bool \<Rightarrow> nat \<Rightarrow> 'c desktop \<Rightarrow> bool" where
  "tells_only d n s \<longleftrightarrow> n \<le> length (told_video s) \<and> Some (\<not> d) \<notin> set (drop n (told_video s))"

lemma pause_tells:
  "keeps_on (tells_only d n) (settings_pause b opens d)"
proof -
  have base: "keeps_on (tells_only d n) (change_to_device b opens i)" "keeps_on (tells_only d n) (reset_current_video_capture b)"
    "keeps_on (tells_only d n) (stop_or_reset b)" for i
    unfolding reset_current_video_def reset_current_video_capture_def change_to_device_def stop_or_reset_def on_stopped_def
      reset_instance_def source_changed_def add_new_track_def remove_track_def on_tracks_def on_own_def on_part_def
    by (intro keeps keeps_update; simp add: tells_only_def)+
  have slot: "keeps_on (tells_only d n) (on_video_paused (pause_nested 0 b opens) b d)"
    unfolding on_video_paused_def desktop_reset_def unpause_video_def
    by (intro keeps keeps_update base; auto simp: tells_only_def intro: keeps)
  show ?thesis
    unfolding settings_pause_def One_nat_def pause_nested.simps video_pause_def Let_def source_changed_def
    by (intro keeps keeps_update base slot[unfolded pause_nested.simps]; simp add: tells_only_def)
qed

lemma fold_tells_only:
  "tells_only d (length (told_video s)) t \<Longrightarrow>
   fold (\<lambda>n d. case n of None \<Rightarrow> d | Some p \<Rightarrow> p) (drop (length (told_video s)) (told_video t)) d = d"
proof -
  have "Some (\<not> d) \<notin> set ns \<Longrightarrow> fold (\<lambda>n d. case n of None \<Rightarrow> d | Some p \<Rightarrow> p) ns d = d" for ns
  proof (induction ns)
    case (Cons n ns)
    from Cons.prems have "n = None \<or> n = Some d" by (cases n) auto
    with Cons show ?case by auto
  qed simp
  then show "tells_only d (length (told_video s)) t \<Longrightarrow>
    fold (\<lambda>n d. case n of None \<Rightarrow> d | Some p \<Rightarrow> p) (drop (length (told_video s)) (told_video t)) d = d"
    by (simp add: tells_only_def)
qed

lemma switch_result:
  assumes "settings_pause b opens d (desk s) = (t, r)" "desktop_ok t" "video_disabled s \<noteq> d" "r = Ok () \<or> (\<exists>x. r = Throw x)"
  shows "\<exists>u. ui_step b s (Switch_camera d opens) = Ok u \<and> desk u = t \<and> video_disabled u = d"
proof -
  let ?s = "s\<lparr> video_disabled := d \<rparr>"
  have "tells_only d (length (told_video (desk s))) t"
    by (rule keeps_onD[OF pause_tells _ assms(1)]) (simp add: tells_only_def)
  from takes_desk_result[OF assms(2), of b ?s] fold_tells_only[OF this] obtain u where
    "takes_desk b t ?s = Ok u" "desk u = t" "video_disabled u = d" by auto
  with assms show ?thesis by (auto simp: set_video_disabled_def)
qed

lemma switch_moved:
  assumes "distinct cs" "new_camera_ui b (fresh_desktop cs ds) = Ok s0" "run_events (ui_step b) s0 es = Ok s"
  shows "\<not> video_disabled s \<Longrightarrow> \<exists>t. ui_step b s (Switch_camera True opens) = Ok t \<and> video_disabled t
      \<and> video_paused (desk t) \<and> capture_device (desk t) = None"
    and "video_disabled s \<Longrightarrow> \<exists>t. ui_step b s (Switch_camera False opens) = Ok t \<and> \<not> video_disabled t
      \<and> \<not> video_paused (desk t)
      \<and> (\<forall>i. video_paused (desk s) \<longrightarrow> last_device_id (desk s) = Some i \<longrightarrow>
            capture_device (desk t) = (if opens i then Some i else None))"
proof -
  have ok: "desktop_ok (desk s)"
    using camera_switch.run_inv[OF new_ui[OF assms(1,2)] assms(3)] by (simp add: ui_inv_def stays_def)
  show "\<exists>t. ui_step b s (Switch_camera True opens) = Ok t \<and> video_disabled t
      \<and> video_paused (desk t) \<and> capture_device (desk t) = None" if "\<not> video_disabled s"
  proof (cases "video_paused (desk s)")
    case True
    then have "settings_pause b opens True (desk s) = (desk s, Ok ())"
      by (simp add: settings_pause_def video_pause_def prog_eval)
    from switch_result[OF this ok] that True ok show ?thesis by (auto simp: desktop_ok_def video_ok_def)
  next
    case False
    from settings_pause_True[OF ok False, of b opens] obtain t where
      t: "settings_pause b opens True (desk s) = (t, Ok ())" "desktop_ok t" "video_paused t" "capture_device t = None" by blast
    from switch_result[OF t(1,2)] that t show ?thesis by auto
  qed
  show "\<exists>t. ui_step b s (Switch_camera False opens) = Ok t \<and> \<not> video_disabled t \<and> \<not> video_paused (desk t)
      \<and> (\<forall>i. video_paused (desk s) \<longrightarrow> last_device_id (desk s) = Some i \<longrightarrow>
            capture_device (desk t) = (if opens i then Some i else None))" if "video_disabled s"
  proof (cases "video_paused (desk s)")
    case False
    then have "settings_pause b opens False (desk s) = (desk s, Ok ())"
      by (simp add: settings_pause_def video_pause_def prog_eval)
    from switch_result[OF this ok] that False show ?thesis by auto
  next
    case True
    from settings_pause_False[OF ok True, of b opens] obtain t r where
      t: "settings_pause b opens False (desk s) = (t, r)" "desktop_ok t" "\<not> video_paused t"
      and r: "case last_device_id (desk s) of
       None \<Rightarrow> r = Ok () \<and> same_rest (desk s) t \<and> capture_device t = None
     | Some i \<Rightarrow>
         if opens i then r = Ok () \<and> capture_device t = Some i \<and> last_device_id t = Some i \<and> set_capturer t = None \<and>
           \<not> did_pause t \<and> connections (video_tracks t) = connections (video_tracks (desk s))
         else r = Throw Runtime_error \<and> same_rest (desk s) t \<and> capture_device t = None"
      by blast
    from r have "r = Ok () \<or> (\<exists>x. r = Throw x)" by (auto split: option.splits if_splits)
    from switch_result[OF t(1,2) _ this] that t r show ?thesis by (auto split: option.splits if_splits)
  qed
qed

text \<open>C38. The user's switch of the camera, whatever happened before to camera and sharing: moved to off, the
  camera does not capture and is paused; moved to on, the camera that was used last captures again if it
  opens, and the switch is on in any case, even when that throws.\<close>

theorem camera_switch_obeyed:
  assumes "distinct cs" "new_camera_ui b (fresh_desktop cs ds) = Ok s0" "run_events (ui_step b) s0 es = Ok s"
  shows "(\<not> video_disabled s \<longrightarrow> (\<exists>t. ui_step b s (Switch_camera True opens) = Ok t \<and> video_disabled t
      \<and> video_paused (desk t) \<and> capture_device (desk t) = None))
    \<and> (video_disabled s \<longrightarrow> (\<exists>t. ui_step b s (Switch_camera False opens) = Ok t \<and> \<not> video_disabled t
      \<and> \<not> video_paused (desk t)
      \<and> (\<forall>i. video_paused (desk s) \<longrightarrow> last_device_id (desk s) = Some i \<longrightarrow>
            capture_device (desk t) = (if opens i then Some i else None))))"
  using switch_moved[OF assms] by blast

theorem camera_switch_obeyed_witness:
  "\<exists>s0 s t u. new_camera_ui Debug (fresh_desktop [1 :: nat] [''cam'']) = Ok s0
    \<and> run_events (ui_step Debug) s0 [Happens (Camera_change ''cam'' all_open)] = Ok s
    \<and> ui_step Debug s (Switch_camera True all_open) = Ok t \<and> video_disabled t \<and> capture_device (desk t) = None
    \<and> ui_step Debug t (Switch_camera False all_open) = Ok u \<and> capture_device (desk u) = Some ''cam''"
proof -
  let ?es = "[Happens (Camera_change ''cam'' all_open)]"
  let ?fs = "?es @ [Switch_camera True all_open]"
  have d: "distinct [1 :: nat]" by simp
  have "ran (new_camera_ui Debug (fresh_desktop [1 :: nat] [''cam''])) (\<lambda>s0. ran (run_events (ui_step Debug) s0 ?es)
      (\<lambda>s. \<not> video_disabled s \<and> ran (run_events (ui_step Debug) s0 ?fs) (\<lambda>t. video_disabled t \<and> video_paused (desk t)
        \<and> last_device_id (desk t) = Some ''cam'')))"
    by code_simp
  then obtain s0 s t where s: "new_camera_ui Debug (fresh_desktop [1 :: nat] [''cam'']) = Ok s0"
    "run_events (ui_step Debug) s0 ?es = Ok s" "\<not> video_disabled s" "run_events (ui_step Debug) s0 ?fs = Ok t"
    "video_disabled t" "video_paused (desk t)" "last_device_id (desk t) = Some ''cam''" by (auto dest!: ranD)
  from s(2,4) have st: "ui_step Debug s (Switch_camera True all_open) = Ok t"
    unfolding run_events_append by (simp del: ui_step.simps)
  from camera_switch_obeyed[OF d s(1,2), of all_open] s(3) st have "capture_device (desk t) = None" by simp
  with camera_switch_obeyed[OF d s(1,4), of all_open] s st show ?thesis by auto
qed

text \<open>The camera can be on while its switch shows it off. A shared screen switches the camera off; the camera
  is unplugged meanwhile; the end of the sharing takes the pause back, but finds no camera and tells nobody; the
  next camera that is chosen starts. The switch still says off, and moving it to off does nothing.\<close>

theorem camera_on_while_shown_off:
  assumes "distinct cs" "new_camera_ui b (fresh_desktop cs ds) = Ok s0" "run_events (ui_step b) s0 es = Ok s"
    and "set_capturer (desk s) \<noteq> None" "did_pause (desk s)" "video_paused (desk s)" "video_disabled s" "opens d"
  shows "\<exists>t. run_events (ui_step b) s [Happens (Camera_devices []), Happens (Unshare opens), Happens (Camera_change d opens)] = Ok t
    \<and> capture_device (desk t) = Some d \<and> video_disabled t \<and> ui_step b t (Switch_camera True opens) = Ok t"
proof -
  have ok: "desktop_ok (desk s)"
    using camera_switch.run_inv[OF new_ui[OF assms(1,2)] assms(3)] by (simp add: ui_inv_def stays_def)
  from devices_gone[OF ok, of b] obtain t1 where t1: "desktop_step b (desk s) (Camera_devices []) = Ok t1" "desktop_ok t1"
    "last_device_id t1 = None" "video_paused t1" "did_pause t1" "set_capturer t1 \<noteq> None"
    "quietly (length (told_video (desk s))) t1" using assms(4-6) by auto
  from happens_quietly[OF t1(1,2,7)] assms(7) obtain s1 where s1: "ui_step b s (Happens (Camera_devices [])) = Ok s1"
    "desk s1 = t1" "video_disabled s1" by auto
  from unshare_without_camera[OF t1(2,6,5,4,3), of b opens] obtain t2 where t2: "desktop_step b (desk s1) (Unshare opens) = Ok t2"
    "desktop_ok t2" "\<not> video_paused t2" "quietly (length (told_video (desk s1))) t2" by (auto simp: s1)
  from happens_quietly[OF t2(1,2,4)] s1(3) obtain s2 where s2: "ui_step b s1 (Happens (Unshare opens)) = Ok s2"
    "desk s2 = t2" "video_disabled s2" by auto
  from change_quietly[of "desk s2" opens d b] assms(8) t2 obtain t3 where t3:
    "desktop_step b (desk s2) (Camera_change d opens) = Ok t3" "desktop_ok t3" "capture_device t3 = Some d"
    "quietly (length (told_video (desk s2))) t3" by (auto simp: s2)
  from happens_quietly[OF t3(1,2,4)] s2(3) obtain s3 where s3: "ui_step b s2 (Happens (Camera_change d opens)) = Ok s3"
    "desk s3 = t3" "video_disabled s3" by auto
  have "ui_step b s3 (Switch_camera True opens) = Ok s3" using s3(3) by (simp add: set_video_disabled_def)
  with s1(1) s2(1) s3 t3(3) show ?thesis by (simp del: ui_step.simps)
qed

theorem camera_on_while_shown_off_witness:
  "\<exists>s0 s t. new_camera_ui Debug (fresh_desktop [1 :: nat] [''cam'']) = Ok s0
    \<and> run_events (ui_step Debug) s0 [Happens (Camera_change ''cam'' all_open),
        Happens (Share 7 (\<lambda>i. True) one_screen one_screen all_open)] = Ok s
    \<and> run_events (ui_step Debug) s [Happens (Camera_devices []), Happens (Unshare all_open),
        Happens (Camera_change ''other'' all_open)] = Ok t
    \<and> capture_device (desk t) = Some ''other'' \<and> video_disabled t"
proof -
  let ?es = "[Happens (Camera_change ''cam'' all_open), Happens (Share 7 (\<lambda>i. True) one_screen one_screen all_open)]"
  have "ran (new_camera_ui Debug (fresh_desktop [1 :: nat] [''cam''])) (\<lambda>s0. ran (run_events (ui_step Debug) s0 ?es)
      (\<lambda>s. set_capturer (desk s) \<noteq> None \<and> did_pause (desk s) \<and> video_paused (desk s) \<and> video_disabled s))"
    by code_simp
  then obtain s0 s where s: "new_camera_ui Debug (fresh_desktop [1 :: nat] [''cam'']) = Ok s0"
    "run_events (ui_step Debug) s0 ?es = Ok s" "set_capturer (desk s) \<noteq> None" "did_pause (desk s)" "video_paused (desk s)"
    "video_disabled s" by (auto dest!: ranD)
  from camera_on_while_shown_off[where opens = all_open and d = "''other''", OF _ s] s show ?thesis by auto
qed



section \<open>Choosing what to share\<close>

text \<open>The two lists of previews, and whether the button says that something is shared. A row is known by
  the identity of its source.\<close>

record share_view =
  screen_rows :: "int list"
  window_rows :: "int list"
  active :: bool
  told_active :: "bool list"

definition rows_of :: "source_type \<Rightarrow> share_view \<Rightarrow> int list" where
  "rows_of k v = (case k of Screen \<Rightarrow> screen_rows v | Window \<Rightarrow> window_rows v)"

definition set_rows :: "source_type \<Rightarrow> int list \<Rightarrow> share_view \<Rightarrow> share_view" where
  "set_rows k xs v = (case k of Screen \<Rightarrow> v\<lparr> screen_rows := xs \<rparr> | Window \<Rightarrow> v\<lparr> window_rows := xs \<rparr>)"

definition add_row :: "source_type \<Rightarrow> int \<Rightarrow> share_view \<Rightarrow> share_view" where
  "add_row k i v = set_rows k (rows_of k v @ [i]) v"

definition remove_row :: "build \<Rightarrow> source_type \<Rightarrow> int \<Rightarrow> share_view \<Rightarrow> share_view res" where
  "remove_row b k i v = (case find_index (\<lambda>x. x = i) (rows_of k v) of
     None \<Rightarrow> rbind (boost_assert b False) (\<lambda>u. Ok v)
   | Some n \<Rightarrow> Ok (set_rows k (erase_at n (rows_of k v)) v))"

fun hears_previews :: "build \<Rightarrow> (bool \<times> source_type \<times> int) list \<Rightarrow> share_view \<Rightarrow> share_view res" where
  "hears_previews b [] v = Ok v"
| "hears_previews b ((added, k, i) # ns) v =
     (if added then hears_previews b ns (add_row k i v) else rbind (remove_row b k i v) (hears_previews b ns))"

text \<open>\<open>shared\<close> is whether the sharing has a source at that moment.\<close>

definition update_active :: "bool \<Rightarrow> share_view \<Rightarrow> share_view" where
  "update_active shared v = (if shared = active v then v
     else v\<lparr> active := shared, told_active := told_active v @ [shared] \<rparr>)"

definition new_share_view :: share_view where
  "new_share_view = \<lparr> screen_rows = [], window_rows = [], active = False, told_active = [] \<rparr>"

text \<open>What a category is asked for: the identity of the row, and its title.\<close>

definition preview_data :: "(int \<Rightarrow> string) \<Rightarrow> source_type \<Rightarrow> nat \<Rightarrow> share_view \<Rightarrow> (int \<times> string) res" where
  "preview_data title k row v =
     (if row < length (rows_of k v) then Ok (rows_of k v ! row, title (rows_of k v ! row)) else Undefined)"

datatype preview_event =
    Start_previews "int \<times> string \<Rightarrow> capturer res" sources sources
  | Enumerate_previews "int \<times> string \<Rightarrow> capturer res" sources sources
  | Stop_previews
  | Capturer_stopped int "unit res"

fun preview_action :: "build \<Rightarrow> previews \<Rightarrow> preview_event \<Rightarrow> previews res" where
  "preview_action b p (Start_previews made ss ws) = previews_start b made ss ws p"
| "preview_action b p (Enumerate_previews made ss ws) = enumerate_previews b made ss ws p"
| "preview_action b p Stop_previews = previews_stop b p"
| "preview_action b p (Capturer_stopped i r) = Ok (on_capturer_stopped i r p)"

definition preview_step :: "build \<Rightarrow> previews \<times> share_view \<Rightarrow> preview_event \<Rightarrow> (previews \<times> share_view) res" where
  "preview_step b s e = rbind (preview_action b (fst s) e) (\<lambda>p.
     rbind (hears_previews b (drop (length (preview_log (fst s))) (preview_log p)) (snd s)) (\<lambda>v. Ok (p, v)))"

definition rows_mirror :: "previews \<Rightarrow> share_view \<Rightarrow> bool" where
  "rows_mirror p v \<longleftrightarrow> (\<forall>k. rows_of k v = map fst (previews_of k p))"

text \<open>What an operation on the previews says of itself keeps the rows in step.\<close>

definition said :: "build \<Rightarrow> previews \<Rightarrow> previews \<Rightarrow> bool" where
  "said b p q \<longleftrightarrow> (\<exists>ns. preview_log q = preview_log p @ ns
     \<and> (\<forall>v. rows_mirror p v \<longrightarrow> (\<exists>w. hears_previews b ns v = Ok w \<and> rows_mirror q w)))"

lemma hears_previews_append:
  "hears_previews b (xs @ ys) v = rbind (hears_previews b xs v) (hears_previews b ys)"
proof (induction xs arbitrary: v)
  case (Cons x xs)
  obtain added k i where "x = (added, k, i)" by (cases x)
  with Cons show ?case by (cases "remove_row b k i v") simp_all
qed simp

lemma said_refl: "said b p p"
  by (simp add: said_def)

lemma said_trans:
  assumes "said b p q" "said b q r"
  shows "said b p r"
proof -
  from assms(1) obtain ms where m: "preview_log q = preview_log p @ ms"
    "\<And>v. rows_mirror p v \<Longrightarrow> \<exists>w. hears_previews b ms v = Ok w \<and> rows_mirror q w" unfolding said_def by blast
  from assms(2) obtain ns where n: "preview_log r = preview_log q @ ns"
    "\<And>v. rows_mirror q v \<Longrightarrow> \<exists>w. hears_previews b ns v = Ok w \<and> rows_mirror r w" unfolding said_def by blast
  have "\<exists>w. hears_previews b (ms @ ns) v = Ok w \<and> rows_mirror r w" if v: "rows_mirror p v" for v
  proof -
    from m(2)[OF v] obtain u where u: "hears_previews b ms v = Ok u" "rows_mirror q u" by blast
    from n(2)[OF u(2)] u(1) show ?thesis by (auto simp: hears_previews_append)
  qed
  with m(1) n(1) show ?thesis unfolding said_def by (intro exI[of _ "ms @ ns"]) simp
qed

lemma said_nothing:
  "preview_log q = preview_log p \<Longrightarrow> (\<And>k. map fst (previews_of k q) = map fst (previews_of k p)) \<Longrightarrow> said b p q"
  by (simp add: said_def rows_mirror_def)

lemma rows_of_set [simp]: "rows_of j (set_rows k xs v) = (if j = k then xs else rows_of j v)"
  by (simp add: rows_of_def set_rows_def split: source_type.split)

lemma add_previews_said: "add_previews b made k xs p = Ok q \<Longrightarrow> said b p q"
proof (induction xs arbitrary: p)
  case Nil
  then show ?case by (simp add: said_refl)
next
  case (Cons x xs)
  then obtain d where d: "add_previews b made k xs ((set_previews k (previews_of k p @ [(fst x, d)]) p)
      \<lparr> preview_log := preview_log p @ [(True, k, fst x)] \<rparr>) = Ok q"
    by (auto simp: res_simps create_preview_def start_preview_def)
  have "said b p ((set_previews k (previews_of k p @ [(fst x, d)]) p)\<lparr> preview_log := preview_log p @ [(True, k, fst x)] \<rparr>)"
    unfolding said_def by (intro exI[of _ "[(True, k, fst x)]"]) (simp add: rows_mirror_def add_row_def)
  with Cons.IH[OF d] show ?case by (rule said_trans[rotated])
qed

lemma enumerate_said:
  assumes "enumerate_previews b made ss ws p = Ok q"
  shows "said b p q"
proof -
  from assms obtain e r where r: "create_previews b made Screen (p\<lparr> preview_sources := e \<rparr>) = Ok r"
    "create_previews b made Window r = Ok q" by (auto simp: enumerate_previews_def res_simps)
  have "said b p (p\<lparr> preview_sources := e \<rparr>)" by (rule said_nothing) simp_all
  moreover from r(1) have "said b (p\<lparr> preview_sources := e \<rparr>) r"
    unfolding create_previews_def Let_def by (rule add_previews_said)
  moreover from r(2) have "said b r q" unfolding create_previews_def Let_def by (rule add_previews_said)
  ultimately show ?thesis by (blast intro: said_trans)
qed

lemma each_preview_ids:
  "each_preview f xs = Ok ys \<Longrightarrow> (\<And>x y. f x = Ok y \<Longrightarrow> fst y = fst x) \<Longrightarrow> map fst ys = map fst xs"
  by (induction xs arbitrary: ys) (auto simp: res_simps)

lemma started_ids: "start_preview b x = Ok y \<Longrightarrow> fst y = fst x" "stop_preview b x = Ok y \<Longrightarrow> fst y = fst x"
  by (auto simp: start_preview_def stop_preview_def res_simps)

lemma each_ids:
  "each_preview (start_preview b) xs = Ok ys \<Longrightarrow> map fst ys = map fst xs"
  "each_preview (stop_preview b) xs = Ok ys \<Longrightarrow> map fst ys = map fst xs"
  by (erule each_preview_ids; simp add: started_ids)+

lemma erased_said:
  assumes "i \<in> fst ` set (previews_of k p)" "previews_of k q = erase_first (\<lambda>x. fst x = i) (previews_of k p)"
    and "\<And>j. j \<noteq> k \<Longrightarrow> previews_of j q = previews_of j p" "preview_log q = preview_log p @ [(False, k, i)]"
  shows "said b p q"
proof -
  have ix: "find_index (\<lambda>x. x = i) (map fst xs) = find_index (\<lambda>x. fst x = i) xs" for xs :: "(int \<times> capturer) list"
    by (induction xs) auto
  from assms(1) have "find_index (\<lambda>x. fst x = i) (previews_of k p) \<noteq> None" by (auto simp: find_index_None)
  then obtain n where n: "find_index (\<lambda>x. fst x = i) (previews_of k p) = Some n" by blast
  have "hears_previews b [(False, k, i)] v = Ok (set_rows k (erase_at n (rows_of k v)) v)" if "rows_mirror p v" for v
    using that n by (simp add: rows_mirror_def remove_row_def ix)
  moreover have "rows_mirror q (set_rows k (erase_at n (rows_of k v)) v)" if "rows_mirror p v" for v
    using that n assms(2,3) by (auto simp: rows_mirror_def erase_first_def map_erase_at)
  ultimately show ?thesis using assms(4) unfolding said_def by blast
qed

lemma preview_action_said:
  assumes "preview_action b p e = Ok q"
  shows "said b p q"
proof (cases e)
  case (Start_previews made ss ws)
  with assms obtain wp sp r t where r: "each_preview (start_preview b) (window_previews p) = Ok wp"
    "each_preview (start_preview b) (screen_previews p) = Ok sp"
    "enumerate_previews b made ss ws (p\<lparr> window_previews := wp, screen_previews := sp \<rparr>) = Ok r" "q = r\<lparr> preview_timer := t \<rparr>"
    by (auto simp: previews_start_def res_simps)
  have "said b p (p\<lparr> window_previews := wp, screen_previews := sp \<rparr>)"
    using r(1,2) by (intro said_nothing) (auto simp: previews_of_def dest: each_ids split: source_type.split)
  moreover have "said b r q" unfolding r(4) by (rule said_nothing) (auto simp: previews_of_def split: source_type.split)
  ultimately show ?thesis using enumerate_said[OF r(3)] by (blast intro: said_trans)
next
  case (Enumerate_previews made ss ws)
  with assms show ?thesis by (auto dest: enumerate_said)
next
  case Stop_previews
  with assms obtain t wp sp where r: "each_preview (stop_preview b) (window_previews p) = Ok wp"
    "each_preview (stop_preview b) (screen_previews p) = Ok sp"
    "q = p\<lparr> preview_timer := t, window_previews := wp, screen_previews := sp \<rparr>"
    by (auto simp: previews_stop_def res_simps)
  then show ?thesis by (intro said_nothing) (auto simp: previews_of_def dest: each_ids split: source_type.split)
next
  case (Capturer_stopped i r)
  consider "q = p" | "r \<noteq> Ok ()" "i \<in> fst ` set (window_previews p)"
    | "r \<noteq> Ok ()" "i \<notin> fst ` set (window_previews p)" "i \<in> fst ` set (screen_previews p)"
    using assms Capturer_stopped by (fastforce simp: on_capturer_stopped_def)
  then show ?thesis
  proof cases
    case 1
    then show ?thesis by (simp add: said_refl)
  next
    case 2
    with assms Capturer_stopped show ?thesis
      by (intro erased_said[of i Window]) (auto simp: on_capturer_stopped_def previews_of_def split: source_type.split)
  next
    case 3
    with assms Capturer_stopped show ?thesis
      by (intro erased_said[of i Screen]) (auto simp: on_capturer_stopped_def previews_of_def split: source_type.split)
  qed
qed

lemma preview_step_mirrors:
  assumes "rows_mirror (fst s) (snd s)" "preview_action b (fst s) e = Ok p"
  shows "\<exists>v. preview_step b s e = Ok (p, v) \<and> rows_mirror p v"
  using preview_action_said[OF assms(2)] assms by (auto simp: said_def preview_step_def)

interpretation preview_lists: state_machine
  "preview_step b :: previews \<times> share_view \<Rightarrow> preview_event \<Rightarrow> (previews \<times> share_view) res" "\<lambda>s. rows_mirror (fst s) (snd s)" for b
proof
  fix s t :: "previews \<times> share_view" and e
  assume inv: "rows_mirror (fst s) (snd s)" and step: "preview_step b s e = Ok t"
  from step obtain p where "preview_action b (fst s) e = Ok p" by (auto simp: preview_step_def res_simps)
  from preview_step_mirrors[OF inv this] step show "rows_mirror (fst t) (snd t)" by auto
qed


lemma rows_mirror_facts:
  assumes "run_events (preview_step b) (p0, new_share_view) es = Ok (p, v)" "screen_previews p0 = []" "window_previews p0 = []"
  shows "screen_rows v = map fst (screen_previews p)" "window_rows v = map fst (window_previews p)"
    and "preview_action b p e = Ok q \<Longrightarrow> \<exists>w. preview_step b (p, v) e = Ok (q, w)"
proof -
  have "rows_mirror p0 new_share_view"
    using assms(2,3) by (simp add: rows_mirror_def rows_of_def previews_of_def new_share_view_def split: source_type.split)
  with preview_lists.run_inv[OF _ assms(1)] have m: "rows_mirror p v" by simp
  from m[unfolded rows_mirror_def, rule_format, of Screen] show "screen_rows v = map fst (screen_previews p)"
    by (simp add: rows_of_def previews_of_def)
  from m[unfolded rows_mirror_def, rule_format, of Window] show "window_rows v = map fst (window_previews p)"
    by (simp add: rows_of_def previews_of_def)
  show "preview_action b p e = Ok q \<Longrightarrow> \<exists>w. preview_step b (p, v) e = Ok (q, w)"
    using preview_step_mirrors[of "(p, v)" b e q] m by auto
qed

text \<open>The two lists of previews mirror the previews: after whatever starting, enumerating, stopping and
  losing of sources succeeds, the screens and the windows listed are those that have a preview, in their order,
  and no row is removed that is not there.\<close>

theorem preview_rows_mirror:
  assumes "run_events (preview_step b) (p0, new_share_view) es = Ok (p, v)" "screen_previews p0 = []" "window_previews p0 = []"
  shows "screen_rows v = map fst (screen_previews p) \<and> window_rows v = map fst (window_previews p)
    \<and> (\<forall>e q. preview_action b p e = Ok q \<longrightarrow> (\<exists>w. preview_step b (p, v) e = Ok (q, w)))"
  using rows_mirror_facts[OF assms] by blast

definition no_previews :: previews where
  "no_previews = \<lparr> preview_timer = fresh_interval, preview_sources = \<lparr> screens = [], windows = [] \<rparr>,
     screen_previews = [], window_previews = [], preview_log = [] \<rparr>"


theorem preview_rows_mirror_witness:
  "\<exists>p v q w. run_events (preview_step Debug) (no_previews, new_share_view)
      [Start_previews (\<lambda>x. Ok fresh_capturer) (Some [(7, ''a''), (8, ''b'')]) (Some [(3, ''w'')]),
       Capturer_stopped 7 (Throw Runtime_error)] = Ok (p, v)
    \<and> screen_rows v = [8] \<and> window_rows v = [3] \<and> preview_action Debug p Stop_previews = Ok q
    \<and> preview_step Debug (p, v) Stop_previews = Ok (q, w)"
proof -
  let ?es = "[Start_previews (\<lambda>x. Ok fresh_capturer) (Some [(7, ''a''), (8, ''b'')]) (Some [(3, ''w'')]),
       Capturer_stopped 7 (Throw Runtime_error)]"
  have "ran (run_events (preview_step Debug) (no_previews, new_share_view) ?es) (\<lambda>(p, v).
     map fst (screen_previews p) = [8] \<and> map fst (window_previews p) = [3] \<and> ran (preview_action Debug p Stop_previews) (\<lambda>q. True))"
    by code_simp
  then obtain p v q where r: "run_events (preview_step Debug) (no_previews, new_share_view) ?es = Ok (p, v)"
    "map fst (screen_previews p) = [8]" "map fst (window_previews p) = [3]" "preview_action Debug p Stop_previews = Ok q"
    by (auto dest!: ranD)
  have e: "screen_previews no_previews = []" "window_previews no_previews = []" by (simp_all add: no_previews_def)
  note m = preview_rows_mirror[OF r(1) e]
  from m r(4) obtain w where "preview_step Debug (p, v) Stop_previews = Ok (q, w)" by blast
  with r m show ?thesis by (simp del: run_events.simps)
qed

end
