(* ===== verification/Screens.thy ===== *)
theory Screens
  imports Prelude
begin

text \<open>
  From the first screen into a room and back: client/rooms.cpp and client/leaver.cpp, the end
  of client/joiner.cpp, and the models rooms\_model, join\_model, leave\_model and error\_model
  in app; and the language in app/language\_settings\_model.cpp.

  What happens inside of joining and leaving is in \<open>Participants\<close>. Here both are requests
  that end at some time, with a room or with an exception, and the question is what the
  screens are told. All the continuations run inline, in the event that ends the request.
\<close>

section \<open>Errors\<close>

datatype error_type = Could_not_connect_to_backend | Failed_to_start_camera

text \<open>The signals the models send to QML, in their order.\<close>

datatype ui_signal =
    Technical_changed string | Text_changed string | Error
  | Room_changed "string option" | Joined | Join_failed | Left int

record error_model =
  error_text :: string
  technical :: string

definition type_to_string :: "error_type \<Rightarrow> string" where
  "type_to_string t = (case t of
     Could_not_connect_to_backend \<Rightarrow> ''Could not connect to backend services. Please verify that you can access '' @
       ''<a href='https://fubble.io'>https://fubble.io</a>''
   | Failed_to_start_camera \<Rightarrow> ''Could not initialize camera.'')"

definition set_error_text :: "string \<Rightarrow> string \<Rightarrow> error_model \<Rightarrow> error_model \<times> ui_signal list" where
  "set_error_text description diagnostic e =
     (e\<lparr>technical := diagnostic, error_text := description\<rparr>, [Technical_changed diagnostic, Text_changed description, Error])"

definition set_error :: "error_type \<Rightarrow> string \<Rightarrow> error_model \<Rightarrow> error_model \<times> ui_signal list" where
  "set_error t diagnostic e =
     (e\<lparr>technical := diagnostic, error_text := type_to_string t\<rparr>,
      [Technical_changed diagnostic, Text_changed (type_to_string t), Error])"


section \<open>Joining and leaving\<close>

text \<open>How a request to join ends: with a room, with \<open>update_required\<close> (the minimum version and
  the diagnostic information), with another \<open>std::exception\<close>, or with anything else.\<close>

datatype join_result = Room string | Outdated string string | Failed string | Unknown

text \<open>\<open>requested\<close> counts the requests to join that have not ended, \<open>to_leave\<close> holds the rooms
  being left.\<close>

record screens =
  set_room :: "string option"
  shown_room :: "string option"
  requested :: nat
  to_leave :: "string list"
  errors :: error_model
  ui :: "ui_signal list"

definition first_screen :: screens where
  "first_screen = \<lparr>set_room = None, shown_room = None, requested = 0, to_leave = [],
     errors = \<lparr>error_text = [], technical = []\<rparr>, ui = []\<rparr>"

definition says :: "ui_signal list \<Rightarrow> screens \<Rightarrow> screens" where
  "says xs s = s\<lparr>ui := ui s @ xs\<rparr>"

text \<open>\<open>deleteLater\<close> on the null pointer is undefined.\<close>

definition on_room_set :: "build \<Rightarrow> screens \<Rightarrow> screens res" where
  "on_room_set b s = rbind (boost_assert b (set_room s = None \<and> shown_room s \<noteq> None \<or> set_room s \<noteq> None \<and> shown_room s = None))
     (\<lambda>u. case set_room s of
        Some r \<Rightarrow> Ok (says [Room_changed (Some r)] (s\<lparr>shown_room := Some r\<rparr>))
      | None \<Rightarrow> if shown_room s = None then Undefined else Ok (says [Room_changed None] (s\<lparr>shown_room := None\<rparr>)))"

definition set_rooms :: "build \<Rightarrow> string option \<Rightarrow> screens \<Rightarrow> screens res" where
  "set_rooms b r s = on_room_set b (s\<lparr>set_room := r\<rparr>)"

definition start_join :: "screens \<Rightarrow> screens" where
  "start_join s = s\<lparr>requested := requested s + 1\<rparr>"

definition outdated_text :: "string \<Rightarrow> string" where
  "outdated_text minimum = ''The version you are using to connect is outdated. The minimum required version is ''
     @ [CHR 0x27] @ minimum @ [CHR 0x27] @ ''. Please visit <a href=\"https://fubble.io\">https://fubble.io</a> to get the newest version.''"

definition show_error :: "(error_model \<Rightarrow> error_model \<times> ui_signal list) \<Rightarrow> screens \<Rightarrow> screens" where
  "show_error f s = (case f (errors s) of (e, xs) \<Rightarrow> says xs (s\<lparr>errors := e\<rparr>))"

definition on_join_answered :: "build \<Rightarrow> join_result \<Rightarrow> screens \<Rightarrow> screens res" where
  "on_join_answered b r s = (case r of
     Room i \<Rightarrow> Ok (says [Joined] s)
   | Outdated m d \<Rightarrow> Ok (says [Join_failed] (show_error (set_error_text (outdated_text m) d) s))
   | Failed w \<Rightarrow> Ok (says [Join_failed] (show_error (set_error Could_not_connect_to_backend w) s))
   | Unknown \<Rightarrow> rbind (boost_assert b False) (\<lambda>u. Ok (says [Join_failed] s)))"

text \<open>The end of a request: \<open>joiner::on_joined\<close> and then \<open>join_model::on_joined\<close>.\<close>

definition join_ends :: "build \<Rightarrow> join_result \<Rightarrow> screens \<Rightarrow> screens res" where
  "join_ends b r s = (let t = s\<lparr>requested := requested s - 1\<rparr> in
     rbind (case r of Room i \<Rightarrow> set_rooms b (Some i) t | _ \<Rightarrow> Ok t) (on_join_answered b r))"

definition leave :: "build \<Rightarrow> screens \<Rightarrow> screens res" where
  "leave b s = rbind (boost_assert b (set_room s \<noteq> None)) (\<lambda>u. case set_room s of
     None \<Rightarrow> Undefined
   | Some r \<Rightarrow> Ok (s\<lparr>to_leave := to_leave s @ [r]\<rparr>))"

text \<open>The end of leaving: \<open>leaver::on_left\<close>, \<open>leave_model::on_left\<close>. What went wrong is only
  logged, and the reason is always the normal one.\<close>

definition leave_ends :: "build \<Rightarrow> unit res \<Rightarrow> screens \<Rightarrow> screens res" where
  "leave_ends b result s = rbind (set_rooms b None (s\<lparr>to_leave := tl (to_leave s)\<rparr>)) (\<lambda>t. Ok (says [Left 0] t))"

datatype screen_event = Join | Join_ends join_result | Leave | Leave_ends "unit res"

fun handle :: "build \<Rightarrow> screens \<Rightarrow> screen_event \<Rightarrow> screens res" where
  "handle b s Join = Ok (start_join s)"
| "handle b s (Join_ends r) = (if requested s = 0 then Ok s else join_ends b r s)"
| "handle b s Leave = leave b s"
| "handle b s (Leave_ends r) = (if to_leave s = [] then Ok s else leave_ends b r s)"

section \<open>What the user sees\<close>


definition error_signals :: "string \<Rightarrow> string \<Rightarrow> ui_signal list" where
  "error_signals diagnostic message = [Technical_changed diagnostic, Text_changed message, Error, Join_failed]"






lemmas screen_defs = set_rooms_def on_room_set_def start_join_def join_ends_def on_join_answered_def leave_def leave_ends_def
  says_def show_error_def set_error_def set_error_text_def error_signals_def








lemma unknown_exception_asserts:
  "run_events (handle Debug) first_screen [Join, Join_ends Unknown] = Assert_failed"
  by (simp add: first_screen_def screen_defs boost_assert_def)

text \<open>Nothing but the popup keeps a room from being left twice, and the second end of leaving takes
  back a room that is not there any more.\<close>

lemma leaving_twice:
  assumes "set_room s = Some r" "shown_room s = Some r" "to_leave s = []"
  shows "run_events (handle Debug) s [Leave, Leave, Leave_ends x, Leave_ends y] = Assert_failed
    \<and> run_events (handle Release) s [Leave, Leave, Leave_ends x, Leave_ends y] = Undefined"
  using assms by (simp add: screen_defs boost_assert_def)


section \<open>The language\<close>

text \<open>\<open>stored\<close> is the entry in the settings, \<open>ui_language\<close> what the engine was told.\<close>

record language =
  selected :: int
  stored :: "string option"
  ui_language :: "string option"
  told_selected :: "int list"

definition set_language :: "string \<Rightarrow> language \<Rightarrow> language" where
  "set_language l s = s\<lparr>ui_language := Some l, stored := if l = [] then None else Some l\<rparr>"

definition language_settings :: "string option \<Rightarrow> language" where
  "language_settings entry = (let s = \<lparr>selected = 0, stored = entry, ui_language = None, told_selected = []\<rparr> in
     case entry of None \<Rightarrow> s
     | Some l \<Rightarrow> let i = if l = ''de'' then 2 else if l = ''en'' then 1 else 0 in
         set_language l (s\<lparr>selected := i, told_selected := [i]\<rparr>))"

definition set_selected :: "int \<Rightarrow> language \<Rightarrow> language" where
  "set_selected change s = (if change = selected s then s
     else set_language (if change = 2 then ''de'' else if change = 1 then ''en'' else []) (s\<lparr>selected := change\<rparr>))"

definition language_names :: "string list" where
  "language_names = [''System Language'', ''English'', ''Deutsch'']"

definition language_inv :: "language \<Rightarrow> bool" where
  "language_inv s \<longleftrightarrow> (0 \<le> selected s \<and> selected s < int (length language_names) \<longrightarrow>
     selected (language_settings (stored s)) = selected s)
   \<and> (selected s \<in> {1, 2} \<longrightarrow> ui_language s = stored s)"

lemma language_settings_inv: "language_inv (language_settings e)"
  by (auto simp: language_inv_def language_settings_def set_language_def Let_def split: option.splits)

lemma set_selected_inv: "language_inv s \<Longrightarrow> language_inv (set_selected c s)"
  by (auto simp: language_inv_def language_settings_def set_selected_def set_language_def language_names_def Let_def)

text \<open>The language that was chosen last from the list is the one selected after a restart, whatever the
  settings held before and whatever else was chosen in between.\<close>

theorem language_survives_restart:
  assumes "s = fold set_selected cs (language_settings e)" "0 \<le> selected s" "selected s < int (length language_names)"
  shows "selected (language_settings (stored s)) = selected s"
proof -
  have "language_inv (fold set_selected cs t)" if "language_inv t" for t
    using that by (induction cs arbitrary: t) (simp_all add: set_selected_inv)
  with language_settings_inv assms show ?thesis by (auto simp: language_inv_def)
qed

theorem language_survives_restart_witness:
  "selected (language_settings (stored (fold set_selected [1, 2] (language_settings (Some ''fr''))))) = 2"
proof -
  have "selected (fold set_selected [1, 2] (language_settings (Some ''fr''))) = 2"
    by (simp add: set_selected_def language_settings_def set_language_def)
  with language_survives_restart[OF refl, of "[1, 2]" "Some ''fr''"] show ?thesis by (simp add: language_names_def)
qed

end
