(* ===== verification/Sound_Devices.thy ===== *)
theory Sound_Devices
  imports Stateful
begin

text \<open>
  Microphones and speakers: rtc/google/audio\_devices.cpp on the audio device module of the
  media library, client/audio\_device\_settings.cpp on top of it, and what the settings dialog
  shows of both (the audio half of app/audio\_video\_settings\_model.cpp, and
  app/audio\_video\_settings\_devices\_model.hpp).

  The audio device module is a parameter. Its recording and its playout have the same
  interface, which is a record of functions on the module's state; the two functions of the
  code that switch a device are the same but for their names, and are \<open>switch_device\<close> with one
  or the other. An \<open>int\<close> that is not zero is a failure of the module.
\<close>

section \<open>The audio device module\<close>

record 'm port =
  device_count :: "'m \<Rightarrow> int"
  device_name :: "int \<Rightarrow> 'm \<Rightarrow> int \<times> string"
  is_initialized :: "'m \<Rightarrow> bool"
  stop_port :: "'m \<Rightarrow> 'm \<times> int"
  choose_device :: "int \<Rightarrow> 'm \<Rightarrow> 'm \<times> int"
  init_port :: "'m \<Rightarrow> 'm \<times> int"
  start_port :: "'m \<Rightarrow> 'm \<times> int"
  mute_available :: "'m \<Rightarrow> bool"
  set_mute :: "bool \<Rightarrow> 'm \<Rightarrow> 'm \<times> int"
  get_mute :: "'m \<Rightarrow> int \<times> bool"

type_synonym devices = "(int \<times> string) list"

record 'm audio_devices =
  module :: 'm
  recording_devices :: devices
  playout_devices :: devices

text \<open>\<open>check_result\<close> of a call to the module.\<close>

definition checked :: "('m \<Rightarrow> 'm \<times> int) \<Rightarrow> ('m, unit) prog" where
  "checked f m = (case f m of (t, result) \<Rightarrow> (t, if result = 0 then Ok () else Throw Runtime_error))"

definition switch_device :: "'m port \<Rightarrow> int \<Rightarrow> ('m, unit) prog" where
  "switch_device P i = sbind (gets (is_initialized P)) (\<lambda>was_initialized.
     sthen (if was_initialized then checked (stop_port P) else ret ())
    (sthen (checked (choose_device P i))
     (if \<not> was_initialized then ret () else sthen (checked (init_port P)) (checked (start_port P)))))"

definition switch_logged :: "build \<Rightarrow> 'm port \<Rightarrow> int \<Rightarrow> ('m, unit) prog" where
  "switch_logged b P i = try_catch (switch_device P i) (\<lambda>e. sassert b False)"

text \<open>From the module to what holds it.\<close>

definition on_module :: "('m, unit) prog \<Rightarrow> ('m, 'z) audio_devices_scheme \<Rightarrow> ('m, 'z) audio_devices_scheme res" where
  "on_module p s = (case p (module s) of (m, r) \<Rightarrow> rbind r (\<lambda>u. Ok (s\<lparr>module := m\<rparr>)))"

definition set_recording_device :: "build \<Rightarrow> 'm port \<Rightarrow> int \<Rightarrow> ('m, 'z) audio_devices_scheme \<Rightarrow> ('m, 'z) audio_devices_scheme res" where
  "set_recording_device b rec i = on_module (switch_logged b rec i)"

definition set_output_device :: "build \<Rightarrow> 'm port \<Rightarrow> int \<Rightarrow> ('m, 'z) audio_devices_scheme \<Rightarrow> ('m, 'z) audio_devices_scheme res" where
  "set_output_device b out i = on_module (switch_logged b out i)"

text \<open>One loop of \<open>enumerate_on_thread\<close>: a device whose name can not be had is left out.\<close>

function name_devices :: "build \<Rightarrow> (int \<Rightarrow> int \<times> string) \<Rightarrow> int \<Rightarrow> int \<Rightarrow> devices \<Rightarrow> devices res" where
  "name_devices b name count index ds =
     (if index < count then
        (case name index of (result, n) \<Rightarrow> rbind (boost_assert b (result = 0)) (\<lambda>u.
           name_devices b name count (index + 1) (if result \<noteq> 0 then ds else ds @ [(index, n)])))
      else Ok ds)"
  by pat_completeness auto
termination
  by (relation "measure (\<lambda>(b, name, count, index, ds). nat (count - index))") auto

declare name_devices.simps [simp del]

definition enumerate_devices :: "build \<Rightarrow> 'm port \<Rightarrow> 'm \<Rightarrow> devices res" where
  "enumerate_devices b P m = name_devices b (\<lambda>i. device_name P i m) (device_count P m) 0 []"

definition enumerate_on_thread :: "build \<Rightarrow> 'm port \<Rightarrow> 'm port \<Rightarrow>
    ('m, 'z) audio_devices_scheme \<Rightarrow> ('m, 'z) audio_devices_scheme res" where
  "enumerate_on_thread b rec out s = rbind (enumerate_devices b out (module s)) (\<lambda>ps.
     rbind (enumerate_devices b rec (module s)) (\<lambda>rs. Ok (s\<lparr>playout_devices := ps, recording_devices := rs\<rparr>)))"

text \<open>Muting, of the speaker (\<open>out\<close>) and of the microphone (\<open>rec\<close>). Only a Debug build asks whether
  it is available; a failure is logged.\<close>

definition set_muted_port :: "build \<Rightarrow> 'm port \<Rightarrow> bool \<Rightarrow> ('m, 'z) audio_devices_scheme \<Rightarrow> ('m, 'z) audio_devices_scheme res" where
  "set_muted_port b P mute s = rbind (boost_assert b (mute_available P (module s))) (\<lambda>u.
     case set_mute P mute (module s) of (m, result) \<Rightarrow>
       rbind (boost_assert b (result = 0)) (\<lambda>u. Ok (s\<lparr>module := m\<rparr>)))"

definition mute_speaker where "mute_speaker b out = set_muted_port b out"

definition mute_microphone where "mute_microphone b rec = set_muted_port b rec"

definition is_muted_port :: "build \<Rightarrow> 'm port \<Rightarrow> ('m, 'z) audio_devices_scheme \<Rightarrow> bool res" where
  "is_muted_port b P s = (case get_mute P (module s) of (result, muted) \<Rightarrow>
     rbind (boost_assert b (result = 0)) (\<lambda>u. Ok muted))"

definition is_speaker_muted where "is_speaker_muted b out = is_muted_port b out"

definition is_microphone_muted where "is_microphone_muted b rec = is_muted_port b rec"

definition start_recording :: "build \<Rightarrow> 'm port \<Rightarrow> ('m, 'z) audio_devices_scheme \<Rightarrow> ('m, 'z) audio_devices_scheme res" where
  "start_recording b rec s = (case start_port rec (module s) of (m, result) \<Rightarrow>
     rbind (boost_assert b (result = 0)) (\<lambda>u. Ok (s\<lparr>module := m\<rparr>)))"


section \<open>The settings and the dialog\<close>

text \<open>The settings remember the numbers they were given, whatever the module makes of them. A
  list of the dialog: its rows, and whether it was told to be available.\<close>

record 'm device_settings = "'m audio_devices" +
  current_recording_device :: int
  current_output_device :: int

definition settings_set_recording :: "build \<Rightarrow> 'm port \<Rightarrow> int \<Rightarrow> ('m, 'z) device_settings_scheme \<Rightarrow> ('m, 'z) device_settings_scheme res" where
  "settings_set_recording b rec i s = set_recording_device b rec i (s\<lparr>current_recording_device := i\<rparr>)"

definition settings_set_output :: "build \<Rightarrow> 'm port \<Rightarrow> int \<Rightarrow> ('m, 'z) device_settings_scheme \<Rightarrow> ('m, 'z) device_settings_scheme res" where
  "settings_set_output b out i s = set_output_device b out i (s\<lparr>current_output_device := i\<rparr>)"

record device_list =
  rows :: devices
  available :: bool

datatype dialog_signal = Input_available bool | Output_available bool | Input_index int | Output_index int

record 'm dialog = "'m device_settings" +
  input_list :: device_list
  output_list :: device_list
  audio_input_device_index :: int
  audio_output_device_index :: int
  watching :: bool
  dialog_told :: "dialog_signal list"

definition refresh_list :: "devices \<Rightarrow> device_list \<Rightarrow> device_list" where
  "refresh_list new l = (if new = rows l then l else l\<lparr>rows := new, available := True\<rparr>)"

definition told_available :: "(bool \<Rightarrow> dialog_signal) \<Rightarrow> device_list \<Rightarrow> device_list \<Rightarrow> dialog_signal list" where
  "told_available f l k = (if available k = available l then [] else [f (available k)])"

definition refresh_output :: "('m, 'z) dialog_scheme \<Rightarrow> ('m, 'z) dialog_scheme" where
  "refresh_output s = (let l = refresh_list (playout_devices s) (output_list s) in
     s\<lparr>output_list := l, dialog_told := dialog_told s @ told_available Output_available (output_list s) l\<rparr>)"

definition refresh_input :: "('m, 'z) dialog_scheme \<Rightarrow> ('m, 'z) dialog_scheme" where
  "refresh_input s = (let l = refresh_list (recording_devices s) (input_list s) in
     s\<lparr>input_list := l, dialog_told := dialog_told s @ told_available Input_available (input_list s) l\<rparr>)"

definition update_indices :: "('m, 'z) dialog_scheme \<Rightarrow> ('m, 'z) dialog_scheme" where
  "update_indices s = s\<lparr>audio_output_device_index := current_output_device s,
     audio_input_device_index := current_recording_device s,
     dialog_told := dialog_told s
       @ (if current_output_device s \<noteq> audio_output_device_index s then [Output_index (current_output_device s)] else [])
       @ (if current_recording_device s \<noteq> audio_input_device_index s then [Input_index (current_recording_device s)] else [])\<rparr>"

definition update_audio_devices :: "build \<Rightarrow> 'm port \<Rightarrow> 'm port \<Rightarrow> ('m, 'z) dialog_scheme \<Rightarrow> ('m, 'z) dialog_scheme res" where
  "update_audio_devices b rec out s = rbind (enumerate_on_thread b rec out s) (\<lambda>t.
     Ok (update_indices (refresh_input (refresh_output t))))"

text \<open>The row of a list that is not available shows a text instead of a device.\<close>

definition list_data :: "build \<Rightarrow> nat \<Rightarrow> device_list \<Rightarrow> (int \<times> string) option res" where
  "list_data b row l = (if \<not> available l then Ok None
     else rbind (boost_assert b (row < length (rows l))) (\<lambda>u.
       if row < length (rows l) then Ok (Some (rows l ! row)) else Undefined))"

definition new_dialog :: "build \<Rightarrow> 'm port \<Rightarrow> 'm port \<Rightarrow> 'm device_settings \<Rightarrow> 'm dialog res" where
  "new_dialog b rec out s = update_audio_devices b rec out (device_settings.extend s
     \<lparr>input_list = \<lparr>rows = [], available = False\<rparr>, output_list = \<lparr>rows = [], available = False\<rparr>,
      audio_input_device_index = 0, audio_output_device_index = 0, watching = False, dialog_told = []\<rparr>)"

text \<open>\<open>Plugged\<close> is anything that happens to the module from outside; \<open>Tick\<close> is the timer.\<close>

datatype 'm dialog_event =
    Input_activated int | Output_activated int | Watch bool | Tick | Plugged "'m \<Rightarrow> 'm"

fun dialog_step :: "build \<Rightarrow> 'm port \<Rightarrow> 'm port \<Rightarrow> 'm dialog \<Rightarrow> 'm dialog_event \<Rightarrow> 'm dialog res" where
  "dialog_step b rec out s (Input_activated i) = settings_set_recording b rec i s"
| "dialog_step b rec out s (Output_activated i) = settings_set_output b out i s"
| "dialog_step b rec out s (Watch w) = Ok (s\<lparr>watching := w\<rparr>)"
| "dialog_step b rec out s Tick = (if watching s then update_audio_devices b rec out s else Ok s)"
| "dialog_step b rec out s (Plugged f) = Ok (s\<lparr>module := f (module s)\<rparr>)"


section \<open>The lists show the devices\<close>

definition named :: "(int \<Rightarrow> int \<times> string) \<Rightarrow> int list \<Rightarrow> devices" where
  "named name is = map (\<lambda>i. (i, snd (name i))) (filter (\<lambda>i. fst (name i) = 0) is)"

lemma name_devices_result:
  "name_devices b name count index ds =
     (if b = Debug \<and> (\<exists>i. index \<le> i \<and> i < count \<and> fst (name i) \<noteq> 0) then Assert_failed
      else Ok (ds @ named name [index..count - 1]))"
proof (induction b name count index ds rule: name_devices.induct)
  case (1 b name count index ds)
  show ?case
  proof (cases "index < count")
    case True
    obtain r n where n: "(r, n) = name index" by (metis surj_pair)
    have split: "(\<exists>i. index \<le> i \<and> i < count \<and> fst (name i) \<noteq> 0) \<longleftrightarrow>
        r \<noteq> 0 \<or> (\<exists>i. index + 1 \<le> i \<and> i < count \<and> fst (name i) \<noteq> 0)"
      using True n by (metis add1_zle_eq fst_conv order_le_less)
    have upto: "[index..count - 1] = index # [index + 1..count - 1]" using True by (simp add: upto_rec1)
    show ?thesis
    proof (cases "b = Debug \<and> r \<noteq> 0")
      case bad: True
      then have "name_devices b name count index ds = Assert_failed"
        using True n[symmetric] by (subst name_devices.simps) (simp add: boost_assert_def)
      with bad split show ?thesis by simp
    next
      case False
      then have "name_devices b name count index ds = name_devices b name count (index + 1) (if r \<noteq> 0 then ds else ds @ [(index, n)])"
        using True n[symmetric] by (subst name_devices.simps) (simp add: boost_assert_def)
      with 1[OF True n] False split upto n[symmetric] show ?thesis by (auto simp: named_def)
    qed
  next
    case False
    then show ?thesis by (subst name_devices.simps) (auto simp: named_def)
  qed
qed

text \<open>The devices a port has a name for, and whether it has one for each.\<close>

definition port_devices :: "'m port \<Rightarrow> 'm \<Rightarrow> devices" where
  "port_devices P m = named (\<lambda>i. device_name P i m) [0..device_count P m - 1]"

definition all_named :: "'m port \<Rightarrow> 'm \<Rightarrow> bool" where
  "all_named P m \<longleftrightarrow> (\<forall>i. 0 \<le> i \<and> i < device_count P m \<longrightarrow> fst (device_name P i m) = 0)"

lemma enumerate_result:
  "enumerate_devices b P m = (if b = Debug \<and> \<not> all_named P m then Assert_failed else Ok (port_devices P m))"
  by (auto simp: enumerate_devices_def name_devices_result all_named_def port_devices_def)

lemma all_named_rows:
  assumes "all_named P m" "k < length (port_devices P m)"
  shows "fst (port_devices P m ! k) = int k"
proof -
  have "filter (\<lambda>i. fst (device_name P i m) = 0) [0..device_count P m - 1] = [0..device_count P m - 1]"
    using assms(1) by (auto simp: all_named_def intro: filter_True)
  with assms(2) show ?thesis by (simp add: port_devices_def named_def)
qed

definition lists_ok :: "'m dialog \<Rightarrow> bool" where
  "lists_ok s \<longleftrightarrow> (rows (input_list s) \<noteq> [] \<longrightarrow> available (input_list s))
     \<and> (rows (output_list s) \<noteq> [] \<longrightarrow> available (output_list s))"

definition dialog_inv :: "'m dialog \<Rightarrow> bool" where
  "dialog_inv s \<longleftrightarrow> lists_ok s \<and> rows (input_list s) = recording_devices s \<and> rows (output_list s) = playout_devices s"

definition up_to_date :: "'m port \<Rightarrow> 'm port \<Rightarrow> 'm dialog \<Rightarrow> bool" where
  "up_to_date rec out s \<longleftrightarrow> recording_devices s = port_devices rec (module s)
     \<and> playout_devices s = port_devices out (module s)
     \<and> audio_input_device_index s = current_recording_device s \<and> audio_output_device_index s = current_output_device s"

lemma refresh_list_simps:
  "rows (refresh_list d l) = d"
  "(rows l \<noteq> [] \<longrightarrow> available l) \<Longrightarrow> d \<noteq> [] \<longrightarrow> available (refresh_list d l)"
  by (auto simp: refresh_list_def)

lemma update_result:
  assumes "update_audio_devices b rec out s = Ok t" "lists_ok s"
  shows "dialog_inv t \<and> up_to_date rec out t \<and> module t = module s"
proof -
  from assms(1) have "t = update_indices (refresh_input (refresh_output
      (s\<lparr>playout_devices := port_devices out (module s), recording_devices := port_devices rec (module s)\<rparr>)))"
    by (simp add: update_audio_devices_def enumerate_on_thread_def enumerate_result rbind_Ok_iff split: if_splits)
  with assms(2) show ?thesis
    by (simp add: dialog_inv_def lists_ok_def up_to_date_def update_indices_def refresh_input_def refresh_output_def
      Let_def refresh_list_simps)
qed

lemma on_module_fields:
  assumes "on_module p s = Ok t"
  shows "\<exists>m. t = s\<lparr>module := m\<rparr> \<and> p (module s) = (m, Ok ())"
  using assms by (auto simp: on_module_def rbind_Ok_iff split: prod.splits)

lemma dialog_step_inv:
  assumes "dialog_inv s" "dialog_step b rec out s e = Ok t"
  shows "dialog_inv t"
proof (cases e)
  case (Input_activated i)
  with assms(2) obtain m where "t = s\<lparr>current_recording_device := i, module := m\<rparr>"
    by (auto simp: settings_set_recording_def set_recording_device_def dest: on_module_fields)
  with assms(1) show ?thesis by (simp add: dialog_inv_def lists_ok_def)
next
  case (Output_activated i)
  with assms(2) obtain m where "t = s\<lparr>current_output_device := i, module := m\<rparr>"
    by (auto simp: settings_set_output_def set_output_device_def dest: on_module_fields)
  with assms(1) show ?thesis by (simp add: dialog_inv_def lists_ok_def)
next
  case Tick
  with assms update_result[of b rec out s t] show ?thesis by (auto simp: dialog_inv_def split: if_splits)
next
  case (Watch w)
  with assms show ?thesis by (auto simp: dialog_inv_def lists_ok_def)
next
  case (Plugged f)
  with assms show ?thesis by (auto simp: dialog_inv_def lists_ok_def)
qed

interpretation dialog: state_machine "dialog_step b rec out" dialog_inv for b rec out
  by unfold_locales (rule dialog_step_inv)

lemma new_dialog_inv:
  assumes "new_dialog b rec out s = Ok t"
  shows "dialog_inv t"
  using update_result[OF assms[unfolded new_dialog_def]]
  by (simp add: lists_ok_def device_settings.defs dialog.defs)

text \<open>The two lists of the dialog, after whatever the user and the devices have done: the next
  tick of the timer shows the devices the module has names for, in their order, and the devices that
  were chosen last. A row is only ever asked for within them, and if every device has a name, the
  number of a row is the number of its device, which is what activating it passes on.\<close>

theorem lists_show_devices:
  assumes "new_dialog b rec out s0 = Ok s" "run_events (dialog_step b rec out) s es = Ok t"
  shows "(\<forall>u. watching t \<and> dialog_step b rec out t Tick = Ok u \<longrightarrow> up_to_date rec out u \<and> module u = module t
        \<and> rows (input_list u) = port_devices rec (module t) \<and> rows (output_list u) = port_devices out (module t)
        \<and> (all_named rec (module t) \<longrightarrow> (\<forall>k < length (rows (input_list u)). fst (rows (input_list u) ! k) = int k))
        \<and> (all_named out (module t) \<longrightarrow> (\<forall>k < length (rows (output_list u)). fst (rows (output_list u) ! k) = int k)))
    \<and> (\<forall>k < length (rows (input_list t)). list_data b k (input_list t) = Ok (Some (rows (input_list t) ! k)))
    \<and> (\<forall>k < length (rows (output_list t)). list_data b k (output_list t) = Ok (Some (rows (output_list t) ! k)))"
proof -
  have inv: "dialog_inv t" by (rule dialog.run_inv[OF new_dialog_inv[OF assms(1)] assms(2)])
  then have ok: "lists_ok t" by (simp add: dialog_inv_def)
  have tick: "up_to_date rec out u \<and> module u = module t
      \<and> rows (input_list u) = port_devices rec (module t) \<and> rows (output_list u) = port_devices out (module t)"
    if "watching t \<and> dialog_step b rec out t Tick = Ok u" for u
    using that update_result[of b rec out t u] ok by (auto simp: dialog_inv_def up_to_date_def)
  have data: "list_data b k l = Ok (Some (rows l ! k))" if "k < length (rows l)" "rows l \<noteq> [] \<longrightarrow> available l" for k l
    using that by (auto simp: list_data_def)
  show ?thesis
  proof (intro conjI allI impI)
    fix u assume u: "watching t \<and> dialog_step b rec out t Tick = Ok u"
    note t = tick[OF u]
    from t show "up_to_date rec out u" "module u = module t" "rows (input_list u) = port_devices rec (module t)"
      "rows (output_list u) = port_devices out (module t)" by simp_all
    show "fst (rows (input_list u) ! k) = int k" if "all_named rec (module t)" "k < length (rows (input_list u))" for k
      using all_named_rows[OF that(1), of k] that(2) t by simp
    show "fst (rows (output_list u) ! k) = int k" if "all_named out (module t)" "k < length (rows (output_list u))" for k
      using all_named_rows[OF that(1), of k] that(2) t by simp
  qed (use ok in \<open>simp_all add: data lists_ok_def\<close>)
qed


section \<open>Switching while recording\<close>

text \<open>What the code relies on, for the devices that are \<open>present\<close>: a port is initialised or not
  and runs only if it is; stopping takes that back, if it succeeds; a port that is not initialised takes
  exactly the devices that are there, and is not initialised by that. \<open>start_laws\<close>: it can be stopped,
  initialised and started.\<close>

definition port_laws :: "'m port \<Rightarrow> ('m \<Rightarrow> int set) \<Rightarrow> ('m \<Rightarrow> int) \<Rightarrow> ('m \<Rightarrow> bool) \<Rightarrow> bool" where
  "port_laws P present chosen runs \<longleftrightarrow> (\<forall>m.
     (runs m \<longrightarrow> is_initialized P m)
   \<and> (is_initialized P m \<longrightarrow> (case stop_port P m of (t, r) \<Rightarrow> r = 0 \<longrightarrow> \<not> is_initialized P t \<and> present t = present m))
   \<and> (\<not> is_initialized P m \<longrightarrow> (\<forall>i. case choose_device P i m of (t, r) \<Rightarrow> (r = 0 \<longleftrightarrow> i \<in> present m)
        \<and> (r = 0 \<longrightarrow> chosen t = i) \<and> \<not> is_initialized P t)))"

definition start_laws :: "'m port \<Rightarrow> ('m \<Rightarrow> int) \<Rightarrow> ('m \<Rightarrow> bool) \<Rightarrow> bool" where
  "start_laws P chosen runs \<longleftrightarrow> (\<forall>m.
     (is_initialized P m \<longrightarrow> snd (stop_port P m) = 0)
   \<and> (\<not> is_initialized P m \<longrightarrow> (case init_port P m of (t, r) \<Rightarrow> r = 0 \<and> is_initialized P t \<and> chosen t = chosen m))
   \<and> (is_initialized P m \<longrightarrow> (case start_port P m of (t, r) \<Rightarrow> r = 0 \<and> runs t \<and> chosen t = chosen m)))"

lemma port_lawsD:
  assumes "port_laws P present chosen runs"
  shows "runs m \<Longrightarrow> is_initialized P m"
    and "is_initialized P m \<Longrightarrow> snd (stop_port P m) = 0 \<Longrightarrow>
      \<exists>t. stop_port P m = (t, 0) \<and> \<not> is_initialized P t \<and> present t = present m"
    and "\<not> is_initialized P m \<Longrightarrow> \<exists>t r. choose_device P i m = (t, r) \<and> (r = 0 \<longleftrightarrow> i \<in> present m)
        \<and> (r = 0 \<longrightarrow> chosen t = i) \<and> \<not> is_initialized P t"
proof -
  note a = assms[unfolded port_laws_def, THEN spec, of m]
  show "runs m \<Longrightarrow> is_initialized P m" using a by blast
  show "is_initialized P m \<Longrightarrow> snd (stop_port P m) = 0 \<Longrightarrow>
      \<exists>t. stop_port P m = (t, 0) \<and> \<not> is_initialized P t \<and> present t = present m"
    using a by (cases "stop_port P m") simp
  show "\<not> is_initialized P m \<Longrightarrow> \<exists>t r. choose_device P i m = (t, r) \<and> (r = 0 \<longleftrightarrow> i \<in> present m)
        \<and> (r = 0 \<longrightarrow> chosen t = i) \<and> \<not> is_initialized P t"
    using a[THEN conjunct2, THEN conjunct2, rule_format, of i] by (cases "choose_device P i m") simp
qed

lemma start_lawsD:
  assumes "start_laws P chosen runs"
  shows "is_initialized P m \<Longrightarrow> snd (stop_port P m) = 0"
    and "\<not> is_initialized P m \<Longrightarrow> \<exists>t. init_port P m = (t, 0) \<and> is_initialized P t \<and> chosen t = chosen m"
    and "is_initialized P m \<Longrightarrow> \<exists>t. start_port P m = (t, 0) \<and> runs t \<and> chosen t = chosen m"
proof -
  note a = assms[unfolded start_laws_def, THEN spec, of m]
  show "is_initialized P m \<Longrightarrow> snd (stop_port P m) = 0" using a by blast
  show "\<not> is_initialized P m \<Longrightarrow> \<exists>t. init_port P m = (t, 0) \<and> is_initialized P t \<and> chosen t = chosen m"
    using a by (cases "init_port P m") simp
  show "is_initialized P m \<Longrightarrow> \<exists>t. start_port P m = (t, 0) \<and> runs t \<and> chosen t = chosen m"
    using a by (cases "start_port P m") simp
qed

text \<open>A port that does not record is told the device, and stays as it is.\<close>

lemma switch_idle:
  assumes "port_laws P present chosen runs" "\<not> is_initialized P m"
  shows "\<exists>t. switch_logged b P i m = (t, if b = Debug \<and> i \<notin> present m then Assert_failed else Ok ())
    \<and> \<not> is_initialized P t \<and> (i \<in> present m \<longrightarrow> chosen t = i)"
proof -
  from port_lawsD(3)[OF assms(1,2), of i] obtain t r where t: "choose_device P i m = (t, r)" "r = 0 \<longleftrightarrow> i \<in> present m"
    "r = 0 \<longrightarrow> chosen t = i" "\<not> is_initialized P t" by blast
  with assms(2) show ?thesis
    by (cases b; cases "i \<in> present m")
      (auto simp: switch_logged_def switch_device_def checked_def prog_eval sassert_def boost_assert_def)
qed

lemma switch_present:
  assumes "port_laws P present chosen runs" "start_laws P chosen runs" "i \<in> present m"
  shows "\<exists>t. switch_logged b P i m = (t, Ok ()) \<and> chosen t = i \<and> (runs t \<longleftrightarrow> is_initialized P m)"
proof (cases "is_initialized P m")
  case True
  note laws = port_lawsD[OF assms(1)] and starts = start_lawsD[OF assms(2)]
  from laws(2)[OF True starts(1)[OF True]] obtain t where t: "stop_port P m = (t, 0)" "\<not> is_initialized P t"
    "present t = present m" by blast
  from laws(3)[OF t(2), of i] t(3) assms(3) obtain u where u: "choose_device P i t = (u, 0)" "chosen u = i"
    "\<not> is_initialized P u" by auto
  from starts(2)[OF u(3)] obtain v where v: "init_port P u = (v, 0)" "is_initialized P v" "chosen v = chosen u" by blast
  from starts(3)[OF v(2)] obtain w where "start_port P v = (w, 0)" "runs w" "chosen w = chosen v" by blast
  with True t u v show ?thesis by (simp add: switch_logged_def switch_device_def checked_def prog_eval)
next
  case False
  with switch_idle[OF assms(1) False, of b i] assms(3) port_lawsD(1)[OF assms(1)] show ?thesis by auto
qed

lemma switch_absent:
  assumes "port_laws P present chosen runs" "i \<notin> present m" "is_initialized P m \<longrightarrow> snd (stop_port P m) = 0"
  shows "\<exists>t. switch_logged b P i m = (t, if b = Debug then Assert_failed else Ok ()) \<and> \<not> is_initialized P t"
proof (cases "is_initialized P m")
  case True
  note laws = port_lawsD[OF assms(1)]
  from laws(2)[OF True] assms(3) True obtain t where t: "stop_port P m = (t, 0)" "\<not> is_initialized P t"
    "present t = present m" by blast
  from laws(3)[OF t(2), of i] t(3) assms(2) obtain u r where "choose_device P i t = (u, r)" "r \<noteq> 0" "\<not> is_initialized P u"
    by auto
  with True t show ?thesis
    by (cases b) (simp_all add: switch_logged_def switch_device_def checked_def prog_eval sassert_def boost_assert_def)
next
  case False
  from switch_idle[OF assms(1) False, of b i] assms(2) show ?thesis by auto
qed

lemma input_activated:
  "dialog_step b rec out s (Input_activated i) = (case switch_logged b rec i (module s) of (m, r) \<Rightarrow>
     rbind r (\<lambda>u. Ok (s\<lparr>current_recording_device := i, module := m\<rparr>)))"
  by (simp add: settings_set_recording_def set_recording_device_def on_module_def)

text \<open>Choosing a microphone that is there: the module records from it, if and only if it was set up
  to record before, and the settings remember it.\<close>

theorem microphone_switched:
  assumes "port_laws rec present chosen runs" "start_laws rec chosen runs" "i \<in> present (module s)"
  shows "\<exists>t. dialog_step b rec out s (Input_activated i) = Ok t \<and> chosen (module t) = i
    \<and> (runs (module t) \<longleftrightarrow> is_initialized rec (module s)) \<and> current_recording_device t = i"
  using switch_present[OF assms, of b] by (auto simp: input_activated simp del: dialog_step.simps)

text \<open>What the user does with the microphones in the dialog, and the device that was chosen last.\<close>

definition mic_event :: "'m dialog_event \<Rightarrow> bool" where
  "mic_event e \<longleftrightarrow> (\<exists>i. e = Input_activated i) \<or> (\<exists>w. e = Watch w) \<or> e = Tick"

definition last_chosen :: "int \<Rightarrow> 'm dialog_event list \<Rightarrow> int" where
  "last_chosen i es = foldl (\<lambda>i e. case e of Input_activated j \<Rightarrow> j | _ \<Rightarrow> i) i es"

definition silent :: "'m port \<Rightarrow> int \<Rightarrow> 'm dialog \<Rightarrow> bool" where
  "silent rec i s \<longleftrightarrow> \<not> is_initialized rec (module s) \<and> current_recording_device s = i"

lemma tick_shows:
  "\<exists>t. update_audio_devices Release rec out s = Ok t \<and> module t = module s
     \<and> current_recording_device t = current_recording_device s \<and> audio_input_device_index t = current_recording_device s"
  by (simp add: update_audio_devices_def enumerate_on_thread_def enumerate_result update_indices_def refresh_input_def
    refresh_output_def Let_def)

lemma silent_step:
  assumes "port_laws rec present chosen runs" "silent rec i s" "mic_event e"
  shows "\<exists>t. dialog_step Release rec out s e = Ok t \<and> silent rec (last_chosen i [e]) t"
proof -
  consider (input) j where "e = Input_activated j" | (watch) w where "e = Watch w" | (tick) "e = Tick"
    using assms(3) by (auto simp: mic_event_def)
  then show ?thesis
  proof cases
    case input
    from assms(2) have "\<not> is_initialized rec (module s)" by (simp add: silent_def)
    from switch_idle[OF assms(1) this, of Release j] input show ?thesis
      by (auto simp: input_activated silent_def last_chosen_def simp del: dialog_step.simps)
  next
    case watch
    with assms(2) show ?thesis by (simp add: silent_def last_chosen_def)
  next
    case tick
    from tick_shows[of rec out s] assms(2) tick show ?thesis
      by (auto simp: silent_def last_chosen_def)
  qed
qed

lemma silent_run:
  assumes "port_laws rec present chosen runs" "silent rec i s" "\<forall>e \<in> set es. mic_event e"
  shows "\<exists>t. run_events (dialog_step Release rec out) s es = Ok t \<and> silent rec (last_chosen i es) t"
  using assms(2,3)
proof (induction es arbitrary: s i)
  case Nil
  then show ?case by (simp add: last_chosen_def)
next
  case (Cons e es)
  with silent_step[OF assms(1), of i s e out] obtain u where u: "dialog_step Release rec out s e = Ok u"
    "silent rec (last_chosen i [e]) u" by auto
  with Cons.IH[OF u(2)] Cons.prems(2) show ?case
    by (auto simp: last_chosen_def simp del: dialog_step.simps)
qed

text \<open>C39. Choosing a microphone that is gone, which is in the list until the next tick, silences the user. A
  Debug build fails an assertion. In a Release build the recording is stopped, the module refuses
  the device, and nothing starts the recording again: no microphone that is chosen afterwards is recorded
  from, while the dialog shows, with every tick, the device that was chosen last as the one in use. (As far as
  the dialog and its microphones go, and if the module lets the recording be stopped; whether it could be
  started again does not matter, it is not asked to.)\<close>

theorem refused_microphone_silences:
  assumes "port_laws rec present chosen runs" "i \<notin> present (module s)"
    and "is_initialized rec (module s) \<longrightarrow> snd (stop_port rec (module s)) = 0" "\<forall>e \<in> set es. mic_event e"
  shows "dialog_step Debug rec out s (Input_activated i) = Assert_failed
    \<and> (\<exists>t u. run_events (dialog_step Release rec out) s (Input_activated i # es) = Ok t \<and> \<not> runs (module t)
         \<and> run_events (dialog_step Release rec out) t [Watch True, Tick] = Ok u \<and> \<not> runs (module u)
         \<and> audio_input_device_index u = last_chosen i es)"
proof -
  from switch_absent[OF assms(1-3), of Release] obtain v where v: "dialog_step Release rec out s (Input_activated i) = Ok v"
    "silent rec i v" by (auto simp: input_activated silent_def simp del: dialog_step.simps)
  from silent_run[OF assms(1) v(2) assms(4), of out] obtain t where
    t: "run_events (dialog_step Release rec out) v es = Ok t" "silent rec (last_chosen i es) t" by blast
  let ?t = "t\<lparr>watching := True\<rparr>"
  from tick_shows[of rec out ?t] obtain u where u: "update_audio_devices Release rec out ?t = Ok u" "module u = module ?t"
    "audio_input_device_index u = current_recording_device ?t" by blast
  with t(2) have "run_events (dialog_step Release rec out) t [Watch True, Tick] = Ok u" "\<not> is_initialized rec (module u)"
    "audio_input_device_index u = last_chosen i es" by (simp_all add: silent_def)
  moreover have "run_events (dialog_step Release rec out) s (Input_activated i # es) = Ok t"
    using v(1) t(1) by (simp del: dialog_step.simps)
  moreover have "\<not> is_initialized rec (module t)" using t(2) by (simp add: silent_def)
  moreover have "dialog_step Debug rec out s (Input_activated i) = Assert_failed"
    using switch_absent[OF assms(1-3), of Debug] by (auto simp: input_activated simp del: dialog_step.simps)
  ultimately show ?thesis using port_lawsD(1)[OF assms(1)] by blast
qed


text \<open>A module with two microphones, any of which can be taken away.\<close>

record sample_module =
  sample_present :: "int list"
  sample_chosen :: int
  sample_initialized :: bool
  sample_runs :: bool
  sample_muted :: bool

definition sample_port :: "sample_module port" where
  "sample_port = \<lparr>device_count = (\<lambda>m. int (length (sample_present m))),
     device_name = (\<lambda>i m. if i \<in> set (sample_present m) then (0, ''mic'') else (-1, [])),
     is_initialized = sample_initialized,
     stop_port = (\<lambda>m. (m\<lparr>sample_initialized := False, sample_runs := False\<rparr>, 0)),
     choose_device = (\<lambda>i m. if \<not> sample_initialized m \<and> i \<in> set (sample_present m) then (m\<lparr>sample_chosen := i\<rparr>, 0) else (m, -1)),
     init_port = (\<lambda>m. (m\<lparr>sample_initialized := True\<rparr>, 0)),
     start_port = (\<lambda>m. if sample_initialized m then (m\<lparr>sample_runs := True\<rparr>, 0) else (m, -1)),
     mute_available = (\<lambda>m. True), set_mute = (\<lambda>x m. (m\<lparr>sample_muted := x\<rparr>, 0)), get_mute = (\<lambda>m. (0, sample_muted m))\<rparr>"

definition sample_running :: "sample_module \<Rightarrow> bool" where
  "sample_running m \<longleftrightarrow> sample_initialized m \<and> sample_runs m"

lemma sample_port_laws:
  "port_laws sample_port (\<lambda>m. set (sample_present m)) sample_chosen sample_running"
  "start_laws sample_port sample_chosen sample_running"
  by (simp_all add: port_laws_def start_laws_def sample_port_def sample_running_def)

definition sample_settings :: "sample_module device_settings" where
  "sample_settings = \<lparr>module = \<lparr>sample_present = [0, 1], sample_chosen = 0, sample_initialized = True, sample_runs = True,
      sample_muted = False\<rparr>, recording_devices = [], playout_devices = [], current_recording_device = 0, current_output_device = 0\<rparr>"

definition sample_dialog :: "build \<Rightarrow> sample_module dialog res" where
  "sample_dialog b = new_dialog b sample_port sample_port sample_settings"

definition sample_step :: "build \<Rightarrow> sample_module dialog \<Rightarrow> sample_module dialog_event \<Rightarrow> sample_module dialog res" where
  "sample_step b = dialog_step b sample_port sample_port"

theorem lists_show_devices_witness:
  "\<exists>s t u. sample_dialog Debug = Ok s
    \<and> run_events (sample_step Debug) s [Watch True, Input_activated 1, Plugged (\<lambda>m. m\<lparr>sample_present := [0]\<rparr>)] = Ok t
    \<and> sample_step Debug t Tick = Ok u \<and> rows (input_list u) = [(0, ''mic'')] \<and> audio_input_device_index u = 1
    \<and> list_data Debug 1 (input_list t) = Ok (Some (1, ''mic''))"
proof -
  have "ran (sample_dialog Debug) (\<lambda>s.
      ran (run_events (sample_step Debug) s [Watch True, Input_activated 1, Plugged (\<lambda>m. m\<lparr>sample_present := [0]\<rparr>)]) (\<lambda>t.
      ran (sample_step Debug t Tick) (\<lambda>u. watching t \<and> current_recording_device u = 1
        \<and> port_devices sample_port (module t) = [(0, ''mic'')]
        \<and> 1 < length (rows (input_list t)) \<and> rows (input_list t) ! 1 = (1, ''mic''))))"
    by code_simp
  then obtain s t u where r: "sample_dialog Debug = Ok s"
    "run_events (sample_step Debug) s [Watch True, Input_activated 1, Plugged (\<lambda>m. m\<lparr>sample_present := [0]\<rparr>)] = Ok t"
    "sample_step Debug t Tick = Ok u" "watching t" "current_recording_device u = 1"
    "port_devices sample_port (module t) = [(0, ''mic'')]"
    "1 < length (rows (input_list t))" "rows (input_list t) ! 1 = (1, ''mic'')"
    by (auto dest!: ranD)
  note l = lists_show_devices[OF r(1)[unfolded sample_dialog_def] r(2)[unfolded sample_step_def]]
  from l r(3,4) have u: "up_to_date sample_port sample_port u" "rows (input_list u) = [(0, ''mic'')]"
    unfolding r(6) sample_step_def by blast+
  from u(1) r(5) have "audio_input_device_index u = 1" by (simp add: up_to_date_def)
  moreover from l r(7,8) have "list_data Debug 1 (input_list t) = Ok (Some (1, ''mic''))" by simp
  ultimately show ?thesis using r(1-3) u(2) by blast
qed

theorem microphone_switched_witness:
  "\<exists>s t. sample_dialog Debug = Ok s \<and> sample_step Debug s (Input_activated 1) = Ok t \<and> sample_chosen (module t) = 1
    \<and> sample_running (module t)"
proof -
  have "ran (sample_dialog Debug) (\<lambda>s. 1 \<in> set (sample_present (module s)) \<and> is_initialized sample_port (module s))" by code_simp
  then obtain s where s: "sample_dialog Debug = Ok s"
    "1 \<in> set (sample_present (module s))" "is_initialized sample_port (module s)" by (auto dest!: ranD)
  from microphone_switched[OF sample_port_laws s(2), of Debug sample_port] s show ?thesis
    unfolding sample_step_def by blast
qed

theorem refused_microphone_silences_witness:
  "\<exists>s t u. sample_dialog Release = Ok s \<and> sample_running (module s)
    \<and> run_events (sample_step Release) s [Input_activated 7, Input_activated 0] = Ok t
    \<and> run_events (sample_step Release) t [Watch True, Tick] = Ok u \<and> \<not> sample_running (module u)
    \<and> audio_input_device_index u = 0"
proof -
  have "ran (sample_dialog Release) (\<lambda>s. 7 \<notin> set (sample_present (module s)) \<and> sample_running (module s))" by code_simp
  then obtain s where s: "sample_dialog Release = Ok s"
    "7 \<notin> set (sample_present (module s))" "sample_running (module s)" by (auto dest!: ranD)
  have "is_initialized sample_port (module s) \<longrightarrow> snd (stop_port sample_port (module s)) = 0"
    "\<forall>e \<in> set [Input_activated 0]. mic_event e" by (simp_all add: sample_port_def mic_event_def)
  from refused_microphone_silences[OF sample_port_laws(1), OF s(2) this, of sample_port]
  have "\<exists>t u. run_events (sample_step Release) s [Input_activated 7, Input_activated 0] = Ok t
    \<and> run_events (sample_step Release) t [Watch True, Tick] = Ok u \<and> \<not> sample_running (module u)
    \<and> audio_input_device_index u = last_chosen 7 [Input_activated 0 :: sample_module dialog_event]"
    unfolding sample_step_def by blast
  with s show ?thesis by (auto simp: last_chosen_def simp del: run_events.simps)
qed

text \<open>With \<open>NDEBUG\<close>, a device without a name shifts the rows behind it: the first row shows the device 1, and
  activating it chooses the device 0.\<close>

lemma unnamed_device_shifts_rows:
  assumes "device_count P m = 2" "fst (device_name P 0 m) \<noteq> 0" "device_name P 1 m = (0, n)"
  shows "enumerate_devices Release P m = Ok [(1, n)]"
proof -
  have "[0..1] = [0, 1 :: int]" by (simp add: upto_rec1)
  with assms show ?thesis by (simp add: enumerate_result port_devices_def named_def)
qed

end
