(* ===== verification/Camera_Choice.thy ===== *)
theory Camera_Choice
  imports Video_Sharing Screens
begin

text \<open>
  The camera in the settings dialog: the video half of app/audio\_video\_settings\_model.cpp,
  \<open>video_devices_model\<close> in app/audio\_video\_settings\_devices\_model.hpp and the preview in
  client/ui/frame\_provider\_google\_video\_device.cpp, on top of the camera (\<open>Video_Sharing\<close>).

  The list shows the enumerated cameras, activating a row changes the camera that is used and
  makes a preview of it; what can not be opened is shown as an error (\<open>Screens\<close>). The capture
  library is a parameter of each event: \<open>opens\<close> tells which cameras can be started for the
  conference, \<open>exists\<close> which can be created for the preview and \<open>plays\<close> which can be started for it.
\<close>

section \<open>Data and operations\<close>

datatype choice_signal = Video_changed "string option" | Rows_available bool | Of_error ui_signal

text \<open>\<open>preview\<close> is the camera that is previewed and whether it plays.\<close>

record 'c camera_choice =
  camera :: "'c video"
  camera_rows :: "string list"
  rows_available :: bool
  video_device_index :: int
  preview :: "(string \<times> bool) option"
  shown_error :: error_model
  choice_told :: "choice_signal list"

definition tells_choice :: "choice_signal list \<Rightarrow> 'c camera_choice \<Rightarrow> 'c camera_choice" where
  "tells_choice xs s = s\<lparr>choice_told := choice_told s @ xs\<rparr>"

definition update_rows_available :: "bool \<Rightarrow> 'c camera_choice \<Rightarrow> 'c camera_choice" where
  "update_rows_available a s =
     (if a = rows_available s then s else tells_choice [Rows_available a] (s\<lparr>rows_available := a\<rparr>))"

definition refresh_rows :: "'c camera_choice \<Rightarrow> 'c camera_choice" where
  "refresh_rows s = (let ds = enumerated (camera s) in
     if ds = camera_rows s then s else update_rows_available (ds \<noteq> []) (s\<lparr>camera_rows := ds\<rparr>))"

definition row_count :: "'c camera_choice \<Rightarrow> int" where
  "row_count s = max (int (length (camera_rows s))) 1"

text \<open>Without a camera there is one row, with a text.\<close>

definition row_data :: "build \<Rightarrow> nat \<Rightarrow> 'c camera_choice \<Rightarrow> string option res" where
  "row_data b row s = (if \<not> rows_available s then Ok None
     else rbind (boost_assert b (row < length (camera_rows s))) (\<lambda>u.
       if row < length (camera_rows s) then Ok (Some (camera_rows s ! row)) else Undefined))"

definition get_id_by_index :: "build \<Rightarrow> int \<Rightarrow> 'c camera_choice \<Rightarrow> string res" where
  "get_id_by_index b i s = rbind (boost_assert b (0 \<le> i)) (\<lambda>u.
     rbind (boost_assert b (i < int (length (camera_rows s)))) (\<lambda>u.
       if 0 \<le> i \<and> i < int (length (camera_rows s)) then Ok (camera_rows s ! nat i) else Undefined))"

definition reset_video :: "'c camera_choice \<Rightarrow> 'c camera_choice" where
  "reset_video s = tells_choice [Video_changed None] (s\<lparr>preview := None\<rparr>)"

definition start_failed :: "'c camera_choice \<Rightarrow> 'c camera_choice" where
  "start_failed s = (let t = reset_video s in
     case set_error Failed_to_start_camera [] (shown_error t) of (e, xs) \<Rightarrow>
       tells_choice (map Of_error xs) (t\<lparr>shown_error := e\<rparr>))"

definition get_playing :: "'c camera_choice \<Rightarrow> bool" where
  "get_playing s = (case preview s of None \<Rightarrow> False | Some (i, p) \<Rightarrow> p)"

definition on_video_device_activated ::
    "build \<Rightarrow> (string \<Rightarrow> bool) \<Rightarrow> (string \<Rightarrow> bool) \<Rightarrow> (string \<Rightarrow> bool) \<Rightarrow> int \<Rightarrow> 'c camera_choice \<Rightarrow> 'c camera_choice res" where
  "on_video_device_activated b opens exists plays i s =
     (if camera_rows s = [] then Ok (reset_video s)
      else if row_count s \<le> i then rbind (boost_assert b False) (\<lambda>u. Ok s)
      else let was_playing = get_playing s; t = s\<lparr>preview := None\<rparr> in
        rbind (get_id_by_index b i t) (\<lambda>d.
          case change_to_device b opens d (camera t) of (c, r) \<Rightarrow>
            let t = t\<lparr>camera := c\<rparr> in
            (case r of
               Ok u \<Rightarrow> if exists d \<and> (was_playing \<longrightarrow> plays d)
                 then Ok (tells_choice [Video_changed (Some d)] (t\<lparr>preview := Some (d, was_playing)\<rparr>))
                 else Ok (start_failed t)
             | Throw x \<Rightarrow> Ok (start_failed t) | Assert_failed \<Rightarrow> Assert_failed | Undefined \<Rightarrow> Undefined)))"

definition update_video_device_index :: "'c camera_choice \<Rightarrow> 'c camera_choice" where
  "update_video_device_index s = (case last_device_id (camera s) of
     None \<Rightarrow> s
   | Some d \<Rightarrow> (case find_index (\<lambda>x. x = d) (enumerated (camera s)) of
        None \<Rightarrow> s
      | Some n \<Rightarrow> s\<lparr>video_device_index := int n\<rparr>))"

definition new_choice :: "build \<Rightarrow> (string \<Rightarrow> bool) \<Rightarrow> (string \<Rightarrow> bool) \<Rightarrow> 'c video \<Rightarrow> 'c camera_choice res" where
  "new_choice b opens exists c =
     (let s = update_video_device_index (refresh_rows \<lparr>camera = c, camera_rows = [], rows_available = False,
        video_device_index = 0, preview = None, shown_error = \<lparr>error_text = [], technical = []\<rparr>, choice_told = []\<rparr>) in
      if camera_rows s \<noteq> [] then on_video_device_activated b opens exists (\<lambda>i. True) (video_device_index s) s else Ok s)"

text \<open>A camera that can not be started for the preview throws into QML.\<close>

definition play_preview :: "(string \<Rightarrow> bool) \<Rightarrow> 'c camera_choice \<Rightarrow> 'c camera_choice res" where
  "play_preview plays s = (case preview s of
     None \<Rightarrow> Ok s
   | Some (d, p) \<Rightarrow> if p \<or> plays d then Ok (s\<lparr>preview := Some (d, True)\<rparr>) else Throw Runtime_error)"

definition stop_preview :: "'c camera_choice \<Rightarrow> 'c camera_choice" where
  "stop_preview s = s\<lparr>preview := map_option (\<lambda>(d, p). (d, False)) (preview s)\<rparr>"

text \<open>The camera hears of changed devices before the list does.\<close>

datatype choice_event =
    Activated int "string \<Rightarrow> bool" "string \<Rightarrow> bool" "string \<Rightarrow> bool" | Of_camera video_event
  | Play "string \<Rightarrow> bool" | Stop

fun choice_step :: "build \<Rightarrow> 'c camera_choice \<Rightarrow> choice_event \<Rightarrow> 'c camera_choice res" where
  "choice_step b s (Activated i opens exists plays) = on_video_device_activated b opens exists plays i s"
| "choice_step b s (Of_camera e) = rbind (video_step b (camera s) e) (\<lambda>c. Ok (refresh_rows (s\<lparr>camera := c\<rparr>)))"
| "choice_step b s (Play plays) = play_preview plays s"
| "choice_step b s Stop = Ok (stop_preview s)"


section \<open>What is chosen is used and previewed\<close>

definition choice_inv :: "'c list \<Rightarrow> 'c camera_choice \<Rightarrow> bool" where
  "choice_inv cs s \<longleftrightarrow> camera_inv cs (camera s) \<and> camera_rows s = enumerated (camera s)
     \<and> rows_available s = (camera_rows s \<noteq> [])"

lemma tells_choice_simps [simp]:
  "camera (tells_choice xs s) = camera s" "camera_rows (tells_choice xs s) = camera_rows s"
  "rows_available (tells_choice xs s) = rows_available s" "preview (tells_choice xs s) = preview s"
  "shown_error (tells_choice xs s) = shown_error s" "video_device_index (tells_choice xs s) = video_device_index s"
  by (simp_all add: tells_choice_def)

lemma refresh_rows_simps:
  "camera (refresh_rows s) = camera s" "camera_rows (refresh_rows s) = enumerated (camera s)"
  "rows_available s = (camera_rows s \<noteq> []) \<Longrightarrow> rows_available (refresh_rows s) = (enumerated (camera s) \<noteq> [])"
  "preview (refresh_rows s) = preview s" "video_device_index (refresh_rows s) = video_device_index s"
  by (auto simp: refresh_rows_def update_rows_available_def Let_def)

lemma start_failed_simps:
  "camera (start_failed s) = camera s" "camera_rows (start_failed s) = camera_rows s"
  "rows_available (start_failed s) = rows_available s" "preview (start_failed s) = None"
  "error_text (shown_error (start_failed s)) = type_to_string Failed_to_start_camera"
  by (simp_all add: start_failed_def reset_video_def set_error_def)

definition used :: "(string \<Rightarrow> bool) \<Rightarrow> string \<Rightarrow> 'c video \<Rightarrow> bool" where
  "used opens d c \<longleftrightarrow> opens d \<or> video_paused c \<or> capture_device c = Some d"

lemma change_used:
  assumes "camera_inv cs c"
  shows "\<exists>k r. change_to_device b opens d c = (k, r) \<and> camera_inv cs k \<and> enumerated k = enumerated c \<and>
    (if used opens d c then r = Ok () \<and> last_device_id k = Some d \<and> capture_device k = (if video_paused c then None else Some d)
     else r = Throw Runtime_error \<and> capture_device k = None \<and> last_device_id k = None)"
proof -
  from assms have ok: "video_ok c" by (simp add: camera_inv_def)
  from change_device_result[OF ok, of b opens d] obtain k r where k: "change_to_device b opens d c = (k, r)"
    "video_ok k" "same_rest c k" "video_paused k = video_paused c" and
    r: "r = Ok () \<and> last_device_id k = Some d \<and> (\<not> video_paused c \<longrightarrow> capture_device k = Some d) \<or>
     r = Throw Runtime_error \<and> \<not> opens d \<and> \<not> video_paused c \<and> capture_device k = None \<and> last_device_id k = None"
    by blast
  have same: "k = c \<and> r = Ok ()" if "capture_device c = Some d"
    using that k(1) by (simp add: change_to_device_def prog_eval)
  have "r \<noteq> Ok ()" if "\<not> used opens d c"
  proof (cases "capture_device c")
    case None
    with that change_device_fails[of c opens d b] k(1) show ?thesis by (auto simp: used_def)
  next
    case (Some e)
    from ok have inv: "video_inv c" by (simp add: video_ok_def)
    from reset_video_result[OF inv, of b] obtain u where "reset_current_video b c = (u, Ok ())" "video_paused u = video_paused c"
      by blast
    with that Some k(1) show ?thesis
      by (auto simp: used_def change_to_device_def sthen_Pair source_changed_def prog_eval split: prod.splits)
  qed
  moreover have "capture_device k = None" if "video_paused c"
    using that k(2,4) by (simp add: video_ok_def)
  moreover have "camera_inv cs k" "enumerated k = enumerated c"
    using camera_inv_rest[OF assms k(2,3)] k(3) by (simp_all add: same_rest_def)
  ultimately show ?thesis using k(1) r same by (auto simp: used_def)
qed

lemma activated_result:
  assumes "choice_inv cs s" "0 \<le> i" "i < int (length (camera_rows s))"
  shows "\<exists>t. on_video_device_activated b opens exists plays i s = Ok t \<and> choice_inv cs t
    \<and> video_device_index t = video_device_index s
    \<and> (let d = camera_rows s ! nat i in
       last_device_id (camera t) = (if used opens d (camera s) then Some d else None)
     \<and> capture_device (camera t) = (if used opens d (camera s) \<and> \<not> video_paused (camera s) then Some d else None)
     \<and> (if used opens d (camera s) \<and> exists d \<and> (get_playing s \<longrightarrow> plays d)
        then preview t = Some (d, get_playing s) \<and> shown_error t = shown_error s
        else preview t = None \<and> error_text (shown_error t) = type_to_string Failed_to_start_camera))"
proof -
  let ?d = "camera_rows s ! nat i"
  from assms(1) have "camera_inv cs (camera s)" by (simp add: choice_inv_def)
  from change_used[OF this, of b opens ?d] obtain k r where k: "change_to_device b opens ?d (camera s) = (k, r)"
    "camera_inv cs k" "enumerated k = enumerated (camera s)"
    "if used opens ?d (camera s) then r = Ok () \<and> last_device_id k = Some ?d
       \<and> capture_device k = (if video_paused (camera s) then None else Some ?d)
     else r = Throw Runtime_error \<and> capture_device k = None \<and> last_device_id k = None" by blast
  have run: "on_video_device_activated b opens exists plays i s =
      (if used opens ?d (camera s) \<and> exists ?d \<and> (get_playing s \<longrightarrow> plays ?d)
       then Ok (tells_choice [Video_changed (Some ?d)] (s\<lparr>camera := k, preview := Some (?d, get_playing s)\<rparr>))
       else Ok (start_failed (s\<lparr>preview := None, camera := k\<rparr>)))"
    using assms(2,3) k(1,4)
    by (cases "used opens ?d (camera s)")
      (auto simp: on_video_device_activated_def get_id_by_index_def row_count_def Let_def)
  have index: "video_device_index (start_failed u) = video_device_index u" for u :: "'c camera_choice"
    by (simp add: start_failed_def reset_video_def set_error_def)
  show ?thesis
    using assms(1) k(2,3,4) unfolding run
    by (auto simp: Let_def choice_inv_def start_failed_simps index)
qed

definition choice_ok :: "choice_event \<Rightarrow> bool" where
  "choice_ok e = (case e of Play plays \<Rightarrow> \<forall>d. plays d | _ \<Rightarrow> True)"

lemma choice_step_inv:
  assumes "choice_inv cs s" "choice_step b s e = Ok t"
  shows "choice_inv cs t"
proof (cases e)
  case (Activated i opens exists plays)
  show ?thesis
  proof (cases "camera_rows s = [] \<or> row_count s \<le> i")
    case True
    with assms Activated show ?thesis
      by (auto simp: on_video_device_activated_def choice_inv_def reset_video_def boost_assert_def split: if_splits)
  next
    case False
    show ?thesis
    proof (cases "0 \<le> i")
      case True
      with False have "i < int (length (camera_rows s))" by (cases "camera_rows s") (auto simp: row_count_def)
      with activated_result[OF assms(1) True this, of b opens exists plays] assms(2) Activated show ?thesis by auto
    next
      case neg: False
      with assms(2) Activated False have False
        by (auto simp: on_video_device_activated_def get_id_by_index_def boost_assert_def Let_def split: if_splits)
      then show ?thesis ..
    qed
  qed
next
  case (Of_camera v)
  with assms(2) obtain c where c: "video_step b (camera s) v = Ok c" "t = refresh_rows (s\<lparr>camera := c\<rparr>)"
    by (auto simp: rbind_Ok_iff)
  with camera.step_inv[of cs "camera s" b v c] assms(1) show ?thesis
    by (simp add: choice_inv_def refresh_rows_simps)
next
  case (Play plays)
  with assms show ?thesis by (auto simp: play_preview_def choice_inv_def split: option.splits if_splits)
next
  case Stop
  with assms show ?thesis by (auto simp: stop_preview_def choice_inv_def)
qed

interpretation choice: state_machine "choice_step b :: 'c camera_choice \<Rightarrow> choice_event \<Rightarrow> 'c camera_choice res" "choice_inv cs" for b cs
  by unfold_locales (rule choice_step_inv)

lemma new_choice_result:
  assumes "camera_inv cs c"
  shows "\<exists>s. new_choice b opens exists c = Ok s \<and> choice_inv cs s"
proof -
  let ?s = "update_video_device_index (refresh_rows \<lparr>camera = c, camera_rows = [], rows_available = False,
        video_device_index = 0, preview = None, shown_error = \<lparr>error_text = [], technical = []\<rparr>, choice_told = []\<rparr>)"
  have s: "choice_inv cs ?s" "camera_rows ?s = enumerated c"
    using assms by (auto simp: update_video_device_index_def choice_inv_def refresh_rows_simps split: option.splits)
  show ?thesis
  proof (cases "enumerated c = []")
    case True
    with s show ?thesis by (simp add: new_choice_def Let_def)
  next
    case False
    then have "0 \<le> video_device_index ?s" "video_device_index ?s < int (length (camera_rows ?s))"
      unfolding s(2)
      by (auto simp: update_video_device_index_def refresh_rows_simps split: option.splits dest: find_index_Some)
    from activated_result[OF s(1) this, of b opens exists "\<lambda>i. True"] False s show ?thesis
      by (auto simp: new_choice_def Let_def)
  qed
qed

text \<open>The camera that is activated in the dialog, after whatever happened to cameras and dialog: the list shows
  the cameras there are; the one of the row that is activated becomes the camera of the
  conference, or is remembered while that is paused, and is previewed, playing if the last preview
  played. If it can not be opened, no camera and no preview is left, and the user is told why.\<close>

theorem activated_camera_used:
  assumes "camera_inv cs c" "new_choice b opens0 exists0 c = Ok s0" "run_events (choice_step b) s0 es = Ok s"
    and "0 \<le> i" "i < int (length (camera_rows s))" "d = camera_rows s ! nat i"
  shows "camera_rows s = enumerated (camera s) \<and>
    (\<exists>t. choice_step b s (Activated i opens exists plays) = Ok t
     \<and> last_device_id (camera t) = (if used opens d (camera s) then Some d else None)
     \<and> capture_device (camera t) = (if used opens d (camera s) \<and> \<not> video_paused (camera s) then Some d else None)
     \<and> (if used opens d (camera s) \<and> exists d \<and> (get_playing s \<longrightarrow> plays d)
        then preview t = Some (d, get_playing s)
        else preview t = None \<and> error_text (shown_error t) = type_to_string Failed_to_start_camera))"
proof -
  from new_choice_result[OF assms(1), of b opens0 exists0] assms(2) have "choice_inv cs s0" by simp
  with assms(3) have inv: "choice_inv cs s" by (blast intro: choice.run_inv)
  from activated_result[OF inv assms(4,5), of b opens exists plays] inv assms(6) show ?thesis
    by (auto simp: Let_def choice_inv_def)
qed

definition two_cameras :: "nat video" where
  "two_cameras = fst (setup_initial_device Debug (\<lambda>i. True) [''a'', ''b''] (fresh_video [1] [''a'', ''b'']))"

lemma two_cameras_inv: "camera_inv [1] two_cameras"
proof -
  have fresh: "camera_inv [1 :: nat] (fresh_video [1] [''a'', ''b''])"
    by (simp add: camera_inv_def video_ok_def video_inv_def adder_inv_def fresh_video_def other_adders_def)
  from setup_result[of "fresh_video [1 :: nat] [''a'', ''b'']" Debug "\<lambda>i. True" "[''a'', ''b'']"] fresh obtain t where
    "setup_initial_device Debug (\<lambda>i. True) [''a'', ''b''] (fresh_video [1 :: nat] [''a'', ''b'']) = (t, Ok ())"
    "video_ok t" "same_rest (fresh_video [1 :: nat] [''a'', ''b'']) t"
    by (auto simp: camera_inv_def fresh_video_def)
  with camera_inv_rest[OF fresh] show ?thesis by (simp add: two_cameras_def)
qed

theorem activated_camera_used_witness:
  "\<exists>s0 s t. new_choice Debug (\<lambda>i. True) (\<lambda>i. True) two_cameras = Ok s0
    \<and> run_events (choice_step Debug) s0 [Play (\<lambda>i. True)] = Ok s
    \<and> choice_step Debug s (Activated 1 (\<lambda>i. True) (\<lambda>i. True) (\<lambda>i. True)) = Ok t
    \<and> capture_device (camera t) = Some ''b'' \<and> preview t = Some (''b'', True)"
proof -
  have "ran (new_choice Debug (\<lambda>i. True) (\<lambda>i. True) two_cameras) (\<lambda>s0.
      ran (run_events (choice_step Debug) s0 [Play (\<lambda>i. True)]) (\<lambda>s.
        camera_rows s = [''a'', ''b''] \<and> \<not> video_paused (camera s) \<and> get_playing s))"
    by code_simp
  then obtain s0 s where s: "new_choice Debug (\<lambda>i. True) (\<lambda>i. True) two_cameras = Ok s0"
    "run_events (choice_step Debug) s0 [Play (\<lambda>i. True)] = Ok s" "camera_rows s = [''a'', ''b'']"
    "\<not> video_paused (camera s)" "get_playing s"
    by (auto dest!: ranD)
  note used = activated_camera_used[OF two_cameras_inv s(1,2), of 1 "''b''" "\<lambda>i. True" "\<lambda>i. True" "\<lambda>i. True"]
  have "\<exists>t. choice_step Debug s (Activated 1 (\<lambda>i. True) (\<lambda>i. True) (\<lambda>i. True)) = Ok t
      \<and> capture_device (camera t) = Some ''b'' \<and> preview t = Some (''b'', True)"
    using used[unfolded used_def s(3)] s(4,5) by (simp, blast)
  with s(1,2) show ?thesis by blast
qed

text \<open>The dialog does not follow cameras that come and go: when the first of two is unplugged while the
  second is used, the index that is shown is behind the end of the list, and the preview of a
  camera that is gone stays.\<close>

lemma index_not_followed:
  assumes "choice_inv cs s" "camera_rows s = [d, e]" "video_device_index s = 1"
  shows "\<exists>t. choice_step b s (Of_camera (Devices_changed [e])) = Ok t \<and> camera_rows t = [e] \<and> video_device_index t = 1
    \<and> preview t = preview s"
proof -
  from assms(1) have "camera_inv cs (camera s)" by (simp add: choice_inv_def)
  then obtain c where c: "video_step b (camera s) (Devices_changed [e]) = Ok c" "camera_inv cs c"
    using camera_step[of cs "camera s" b "Devices_changed [e]"] by blast
  have "enumerated c = [e]"
  proof -
    let ?v = "camera s\<lparr>enumerated := [e]\<rparr>"
    have "video_inv ?v"
      using \<open>camera_inv cs (camera s)\<close> by (auto simp: camera_inv_def video_ok_def video_inv_def split: option.splits)
    from reset_video_result[OF this, of b] obtain u where "reset_current_video b ?v = (u, Ok ())" "same_rest ?v u" by blast
    with c(1) show ?thesis
      by (auto simp: on_video_devices_changed_def handled_def prog_eval same_rest_def split: option.splits if_splits)
  qed
  with c(1) assms(3) show ?thesis by (simp add: refresh_rows_simps)
qed

end
