(* ===== verification/Websocket_Setup.thy ===== *)
theory Websocket_Setup
  imports Prelude "HOL-Library.Multiset"
begin

text \<open>
  How a websocket comes about: websocket/connector.cpp on the side that connects, and
  websocket/acceptor.cpp on the one that is connected to. What goes over the connection
  is in \<open>Websocket\<close>.

  Every asynchronous operation of the network library completes with an error code (\<open>None\<close> when
  it is clear), also when the object it belongs to is destroyed: then with
  \<open>operation_aborted\<close>, and later. The handlers capture the object by its address, so
  a completion after the end of the object is \<open>Undefined\<close>.
\<close>

section \<open>Connecting\<close>

datatype stage = Resolving | Connecting | Securing | Handshaking

record connector =
  use_ssl :: bool
  retrieved :: bool
  outstanding :: "stage option"
  has_connection :: bool
  finished :: bool
  result :: "unit res option"
  destroyed :: bool

definition new_connector :: "bool \<Rightarrow> connector" where
  "new_connector ssl = \<lparr>use_ssl = ssl, retrieved = False, outstanding = None, has_connection = False, finished = False,
     result = None, destroyed = False\<rparr>"

text \<open>A promise takes one result.\<close>

definition set_result :: "unit res \<Rightarrow> connector \<Rightarrow> connector res" where
  "set_result r s = (if result s = None then Ok (s\<lparr>result := Some r\<rparr>) else Throw Runtime_error)"

definition check_error :: "exn option \<Rightarrow> connector \<Rightarrow> (connector \<times> bool) res" where
  "check_error error s = (case error of
     None \<Rightarrow> Ok (s, False)
   | Some e \<Rightarrow> rbind (set_result (Throw e) (s\<lparr>finished := True\<rparr>)) (\<lambda>t. Ok (t, True)))"

definition begin_stage :: "stage \<Rightarrow> connector \<Rightarrow> connector" where
  "begin_stage g s = s\<lparr>outstanding := Some g\<rparr>"

definition connect_websocket :: "connector \<Rightarrow> connector res" where
  "connect_websocket s = (if retrieved s then Throw Runtime_error else Ok (begin_stage Resolving (s\<lparr>retrieved := True\<rparr>)))"

definition connect_to_endpoints :: "connector \<Rightarrow> connector" where
  "connect_to_endpoints s = begin_stage Connecting (s\<lparr>has_connection := True\<rparr>)"

definition on_resolved :: "exn option \<Rightarrow> connector \<Rightarrow> connector res" where
  "on_resolved error s = rbind (check_error error s) (\<lambda>(t, failed). Ok (if failed then t else connect_to_endpoints t))"

definition handshake :: "connector \<Rightarrow> connector" where
  "handshake s = begin_stage Handshaking s"

text \<open>Setting the name of the server for TLS is taken to succeed; what becomes of a failure is in
  \<open>Http.secure_connection\<close>.\<close>

definition on_tcp_connected :: "exn option \<Rightarrow> connector \<Rightarrow> connector res" where
  "on_tcp_connected error s = rbind (check_error error s) (\<lambda>(t, failed).
     Ok (if failed then t else if use_ssl t then begin_stage Securing t else handshake t))"

text \<open>Only a \<open>system_error\<close> is caught; what else is thrown is lost with the future of the
  continuation.\<close>

definition on_secured :: "exn option \<Rightarrow> connector \<Rightarrow> connector res" where
  "on_secured error s = (case error of
     None \<Rightarrow> Ok (handshake s)
   | Some e \<Rightarrow> if e \<in> {System_error, Operation_aborted} then rbind (check_error (Some e) s) (\<lambda>r. Ok (fst r)) else Ok s)"

definition on_handshake :: "exn option \<Rightarrow> connector \<Rightarrow> connector res" where
  "on_handshake error s = rbind (check_error error s) (\<lambda>(t, failed).
     if failed then Ok t else set_result (Ok ()) (t\<lparr>finished := True, has_connection := False\<rparr>))"

definition destroy_connector :: "connector \<Rightarrow> connector res" where
  "destroy_connector s = rbind (if finished s then Ok (s, False) else check_error (Some Operation_aborted) s)
     (\<lambda>(t, _). Ok (t\<lparr>destroyed := True\<rparr>))"

datatype connector_event = Connect | Completed "exn option" | Destroy

definition completed :: "exn option \<Rightarrow> connector \<Rightarrow> connector res" where
  "completed error s = (case outstanding s of
     None \<Rightarrow> Ok s
   | Some g \<Rightarrow> if destroyed s then Undefined
       else (let t = s\<lparr>outstanding := None\<rparr> in case g of
          Resolving \<Rightarrow> on_resolved error t | Connecting \<Rightarrow> on_tcp_connected error t
        | Securing \<Rightarrow> on_secured error t | Handshaking \<Rightarrow> on_handshake error t))"

fun connector_step :: "connector \<Rightarrow> connector_event \<Rightarrow> connector res" where
  "connector_step s Connect = (if destroyed s then Undefined else connect_websocket s)"
| "connector_step s (Completed error) = completed error s"
| "connector_step s Destroy = (if destroyed s then Undefined else destroy_connector s)"

text \<open>How many operations are still to complete.\<close>

definition stages_left :: "bool \<Rightarrow> stage \<Rightarrow> nat" where
  "stages_left ssl g = (case g of Resolving \<Rightarrow> if ssl then 4 else 3 | Connecting \<Rightarrow> if ssl then 3 else 2
     | Securing \<Rightarrow> 2 | Handshaking \<Rightarrow> 1)"

definition connector_inv :: "connector \<Rightarrow> bool" where
  "connector_inv s \<longleftrightarrow> finished s = (result s \<noteq> None) \<and> (\<not> retrieved s \<longrightarrow> outstanding s = None \<and> (\<not> destroyed s \<longrightarrow> \<not> finished s))
     \<and> (outstanding s \<noteq> None \<and> \<not> destroyed s \<longrightarrow> \<not> finished s) \<and> (destroyed s \<longrightarrow> finished s)
     \<and> (outstanding s = Some Securing \<longrightarrow> use_ssl s)"

lemmas connector_defs = set_result_def check_error_def begin_stage_def connect_websocket_def connect_to_endpoints_def
  on_resolved_def handshake_def on_tcp_connected_def on_secured_def on_handshake_def destroy_connector_def completed_def

lemma connector_step_inv:
  assumes "connector_inv s" "connector_step s e = Ok t"
  shows "connector_inv t"
proof (cases e)
  case Connect
  with assms show ?thesis by (auto simp: connector_inv_def connector_defs split: if_splits)
next
  case (Completed error)
  show ?thesis
  proof (cases "outstanding s")
    case None
    with Completed assms show ?thesis by (simp add: completed_def)
  next
    case (Some g)
    with Completed assms(2) have "\<not> destroyed s" by (auto simp: completed_def)
    with Completed assms Some show ?thesis
      by (cases g; cases error; cases "result s")
        (auto simp: connector_inv_def connector_defs Let_def split: if_splits)
  qed
next
  case Destroy
  with assms show ?thesis by (auto simp: connector_inv_def connector_defs rbind_Ok_iff split: if_splits)
qed

interpretation connector: state_machine connector_step connector_inv
  by unfold_locales (rule connector_step_inv)

lemma new_connector_inv: "connector_inv (new_connector ssl)"
  by (simp add: connector_inv_def new_connector_def)

definition first_error :: "exn option list \<Rightarrow> unit res" where
  "first_error es = (case find_first (\<lambda>e. e \<noteq> None) es of Some (Some e) \<Rightarrow> Throw e | _ \<Rightarrow> Ok ())"

lemma first_error_simps [simp]:
  "first_error [] = Ok ()" "first_error (None # es) = first_error es" "first_error (Some e # es) = Throw e"
  by (simp_all add: first_error_def)

lemma completed_idle: "outstanding s = None \<Longrightarrow> run_events connector_step s (map Completed es) = Ok s"
  by (induction es) (simp_all add: completed_def)

lemma stages_complete:
  assumes "connector_inv s" "outstanding s = Some g" "\<not> destroyed s" "stages_left (use_ssl s) g \<le> length es"
    and "\<forall>e. Some e \<in> set es \<longrightarrow> e \<in> {System_error, Operation_aborted}"
  shows "\<exists>t. run_events connector_step s (map Completed es) = Ok t
    \<and> result t = Some (first_error (take (stages_left (use_ssl s) g) es)) \<and> outstanding t = None"
  using assms
proof (induction es arbitrary: s g)
  case Nil
  then show ?case by (auto simp: stages_left_def split: stage.splits if_splits)
next
  case (Cons e es)
  from Cons.prems(1-3) have fresh: "result s = None" by (auto simp: connector_inv_def)
  show ?case
  proof (cases e)
    case (Some x)
    with Cons.prems(5) have "x \<in> {System_error, Operation_aborted}" by auto
    with Cons.prems(2,3) Some fresh have step: "connector_step s (Completed e)
        = Ok (s\<lparr>outstanding := None, finished := True, result := Some (Throw x)\<rparr>)"
      by (cases g) (auto simp: connector_defs)
    moreover have "0 < stages_left (use_ssl s) g" by (simp add: stages_left_def split: stage.splits)
    ultimately show ?thesis
      using Some completed_idle[of "s\<lparr>outstanding := None, finished := True, result := Some (Throw x)\<rparr>" es]
      by (cases "stages_left (use_ssl s) g") (simp_all del: connector_step.simps)
  next
    case None
    show ?thesis
    proof (cases "g = Handshaking")
      case True
      with None Cons.prems(2,3) fresh have step: "connector_step s (Completed e)
          = Ok (s\<lparr>outstanding := None, finished := True, has_connection := False, result := Some (Ok ())\<rparr>)"
        by (simp add: connector_defs)
      with None True completed_idle[of "s\<lparr>outstanding := None, finished := True, has_connection := False, result := Some (Ok ())\<rparr>" es]
      show ?thesis by (simp add: stages_left_def del: connector_step.simps)
    next
      case False
      have "\<exists>t h. connector_step s (Completed e) = Ok t \<and> outstanding t = Some h \<and> \<not> destroyed t \<and> use_ssl t = use_ssl s
        \<and> stages_left (use_ssl s) g = Suc (stages_left (use_ssl s) h)"
        using False None Cons.prems(1-3)
        by (cases g; cases "use_ssl s") (simp_all add: connector_defs stages_left_def connector_inv_def Let_def)
      then obtain t h where t: "connector_step s (Completed e) = Ok t"
        "outstanding t = Some h" "\<not> destroyed t" "use_ssl t = use_ssl s"
        "stages_left (use_ssl s) g = Suc (stages_left (use_ssl s) h)" by blast
      from Cons.IH[OF connector_step_inv[OF Cons.prems(1) t(1)] t(2,3)] t(4,5) Cons.prems(4,5) None
      obtain u where "run_events connector_step t (map Completed es) = Ok u" "outstanding u = None"
        "result u = Some (first_error (take (stages_left (use_ssl s) h) es))"
        by auto
      with t(1,5) None show ?thesis by (simp del: connector_step.simps)
    qed
  qed
qed

text \<open>C40. Connecting ends: the future gets the connection after three operations, or four with TLS, have
  succeeded, and the first error otherwise. Nothing that completes later changes it, and no promise
  is kept twice.\<close>

theorem connecting_ends:
  assumes "(if ssl then 4 else 3) \<le> length es" "\<forall>e. Some e \<in> set es \<longrightarrow> e \<in> {System_error, Operation_aborted}"
  shows "\<exists>t. run_events connector_step (new_connector ssl) (Connect # map Completed es) = Ok t
    \<and> result t = Some (first_error (take (if ssl then 4 else 3) es)) \<and> outstanding t = None"
proof -
  let ?s = "(new_connector ssl)\<lparr>retrieved := True, outstanding := Some Resolving\<rparr>"
  have step: "connector_step (new_connector ssl) Connect = Ok ?s" by (simp add: connector_defs new_connector_def)
  have "use_ssl ?s = ssl" "\<not> destroyed ?s" "outstanding ?s = Some Resolving" by (simp_all add: new_connector_def)
  with stages_complete[OF connector_step_inv[OF new_connector_inv step], of Resolving es] assms step show ?thesis
    by (auto simp: stages_left_def simp del: connector_step.simps)
qed

theorem connecting_ends_witness:
  "\<exists>t. run_events connector_step (new_connector True)
      (Connect # map Completed [None, None, None, Some System_error, None]) = Ok t \<and> result t = Some (Throw System_error)"
proof -
  have "first_error (take 4 [None, None, None, Some System_error, None]) = Throw System_error" by simp
  moreover have "\<forall>e. Some e \<in> set [None, None, None, Some System_error, None] \<longrightarrow> e \<in> {System_error, Operation_aborted}" by simp
  ultimately show ?thesis using connecting_ends[of True "[None, None, None, Some System_error, None]"] by fastforce
qed

text \<open>A connector that is destroyed while it connects tells so to its caller, and the operation that is
  outstanding then completes on the destroyed object.\<close>

theorem destroyed_while_connecting:
  assumes "run_events connector_step (new_connector ssl) es = Ok s" "outstanding s = Some g" "\<not> destroyed s"
  shows "\<exists>t. connector_step s Destroy = Ok t \<and> result t = Some (Throw Operation_aborted)
    \<and> connector_step t (Completed (Some Operation_aborted)) = Undefined"
proof -
  from connector.run_inv[OF new_connector_inv assms(1)] assms(2,3) have "result s = None" "\<not> finished s"
    by (auto simp: connector_inv_def)
  with assms(2,3) show ?thesis by (simp add: connector_defs)
qed

theorem destroyed_while_connecting_witness:
  "\<exists>s t. run_events connector_step (new_connector False) [Connect, Completed None] = Ok s
    \<and> connector_step s Destroy = Ok t \<and> connector_step t (Completed (Some Operation_aborted)) = Undefined"
proof -
  have "ran (run_events connector_step (new_connector False) [Connect, Completed None])
     (\<lambda>s. outstanding s = Some Connecting \<and> \<not> destroyed s)" by code_simp
  then obtain s where s: "run_events connector_step (new_connector False) [Connect, Completed None] = Ok s"
    "outstanding s = Some Connecting" "\<not> destroyed s" by (auto dest!: ranD)
  with destroyed_while_connecting[OF s] show ?thesis by blast
qed


section \<open>Accepting\<close>

text \<open>Connections have numbers; \<open>accepting\<close> is the one that the outstanding accept will fill,
  \<open>handshakes\<close> those that are negotiating, \<open>announced\<close> those told by \<open>on_connection\<close>.\<close>

record acceptor =
  accepting :: "nat option"
  handshakes :: "nat list"
  next_connection :: nat
  announced :: "nat list"
  refused :: "nat list"

definition accept_next :: "acceptor \<Rightarrow> acceptor" where
  "accept_next s = s\<lparr>accepting := Some (next_connection s), next_connection := next_connection s + 1\<rparr>"

definition new_acceptor :: "exn option \<Rightarrow> acceptor res" where
  "new_acceptor bind_error = (case bind_error of
     Some e \<Rightarrow> Throw e
   | None \<Rightarrow> Ok (accept_next \<lparr>accepting = None, handshakes = [], next_connection = 0, announced = [], refused = []\<rparr>))"

definition successful_tcp :: "nat \<Rightarrow> acceptor \<Rightarrow> acceptor" where
  "successful_tcp c s = s\<lparr>handshakes := handshakes s @ [c]\<rparr>"

definition on_accepted :: "exn option \<Rightarrow> acceptor \<Rightarrow> acceptor" where
  "on_accepted error s = (case accepting s of
     None \<Rightarrow> s
   | Some c \<Rightarrow> (let t = s\<lparr>accepting := None\<rparr> in
       if error = None then successful_tcp c (accept_next t) else t))"

definition on_accept_handshake :: "nat \<Rightarrow> exn option \<Rightarrow> acceptor \<Rightarrow> acceptor" where
  "on_accept_handshake c error s = (if c \<notin> set (handshakes s) then s
     else (let t = s\<lparr>handshakes := remove1 c (handshakes s)\<rparr> in
       if error = None then t\<lparr>announced := announced t @ [c]\<rparr> else t\<lparr>refused := refused t @ [c]\<rparr>))"

datatype acceptor_event = Accepted "exn option" | Negotiated nat "exn option"

fun acceptor_step :: "acceptor \<Rightarrow> acceptor_event \<Rightarrow> acceptor res" where
  "acceptor_step s (Accepted error) = Ok (on_accepted error s)"
| "acceptor_step s (Negotiated c error) = Ok (on_accept_handshake c error s)"

definition connections_of :: "acceptor \<Rightarrow> nat list" where
  "connections_of s = handshakes s @ announced s @ refused s"

definition accept_errors :: "acceptor_event list \<Rightarrow> exn option list" where
  "accept_errors es = List.map_filter (\<lambda>e. case e of Accepted x \<Rightarrow> Some x | Negotiated c x \<Rightarrow> None) es"

definition accepted_before_error :: "acceptor_event list \<Rightarrow> nat" where
  "accepted_before_error es = length (takeWhile (\<lambda>x. x = None) (accept_errors es))"

definition accounts :: "acceptor_event list \<Rightarrow> acceptor \<Rightarrow> bool" where
  "accounts es s \<longleftrightarrow> mset (connections_of s) = mset [0..<accepted_before_error es]
     \<and> (if \<forall>x \<in> set (accept_errors es). x = None
        then accepting s = Some (accepted_before_error es) \<and> next_connection s = Suc (accepted_before_error es)
        else accepting s = None)"

lemma accept_errors_append: "accept_errors (es @ [e]) = accept_errors es @ (case e of Accepted x \<Rightarrow> [x] | _ \<Rightarrow> [])"
  by (cases e) (simp_all add: accept_errors_def map_filter_def)

lemma negotiated_connections: "mset (connections_of (on_accept_handshake c x s)) = mset (connections_of s)"
  by (auto simp: on_accept_handshake_def connections_of_def Let_def)

lemma accounts_step:
  assumes "accounts es s" "acceptor_step s e = Ok t"
  shows "accounts (es @ [e]) t"
proof (cases e)
  case (Negotiated c x)
  with assms have "t = on_accept_handshake c x s" by simp
  then have "accepting t = accepting s" "next_connection t = next_connection s"
    "mset (connections_of t) = mset (connections_of s)"
    by (simp_all add: negotiated_connections) (simp_all add: on_accept_handshake_def Let_def)
  with assms(1) Negotiated show ?thesis by (simp add: accounts_def accepted_before_error_def accept_errors_append)
next
  case (Accepted x)
  with assms(2) have t: "t = on_accepted x s" by simp
  show ?thesis
  proof (cases "\<forall>y \<in> set (accept_errors es). y = None")
    case True
    then have "takeWhile (\<lambda>x. x = None) (accept_errors es) = accept_errors es" by simp
    with assms(1) Accepted True t show ?thesis
      by (cases x) (auto simp: accounts_def accepted_before_error_def accept_errors_append on_accepted_def accept_next_def
        successful_tcp_def connections_of_def Let_def)
  next
    case False
    then obtain y where "y \<in> set (accept_errors es)" "y \<noteq> None" by blast
    then have "takeWhile (\<lambda>x. x = None) (accept_errors es @ [x]) = takeWhile (\<lambda>x. x = None) (accept_errors es)"
      by (rule takeWhile_append1)
    with assms(1) Accepted False t show ?thesis
      by (auto simp: accounts_def accepted_before_error_def accept_errors_append on_accepted_def)
  qed
qed

lemma accounts_run:
  assumes "new_acceptor None = Ok s0" "run_events acceptor_step s0 es = Ok s"
  shows "accounts es s"
  using assms(2)
proof (induction es arbitrary: s rule: rev_induct)
  case Nil
  with assms(1) show ?case
    by (auto simp: accounts_def new_acceptor_def accept_next_def accepted_before_error_def accept_errors_def connections_of_def
      map_filter_def)
next
  case (snoc e es)
  then obtain t where "run_events acceptor_step s0 es = Ok t" "acceptor_step t e = Ok s"
    by (auto simp: run_events_append rbind_Ok_iff)
  with snoc.IH show ?case by (blast intro: accounts_step)
qed

text \<open>What becomes of the connections to a server: each that was accepted is negotiating, announced or refused, and
  only one of these; the next one is waited for as long as accepting succeeds. After the first error,
  which may be no more than a client that gave up or too many open files, no connection is ever
  accepted again, and nobody is told.\<close>

theorem acceptor_accounts:
  assumes "new_acceptor None = Ok s0" "run_events acceptor_step s0 es = Ok s"
  shows "mset (handshakes s) + mset (announced s) + mset (refused s) = mset [0..<accepted_before_error es]
    \<and> accepting s = (if \<forall>x \<in> set (accept_errors es). x = None then Some (accepted_before_error es) else None)
    \<and> (\<forall>x fs t. x \<in> set (accept_errors es) \<and> x \<noteq> None \<and> run_events acceptor_step s fs = Ok t \<longrightarrow>
         mset (handshakes t) + mset (announced t) + mset (refused t) = mset [0..<accepted_before_error es])"
proof -
  note a = accounts_run[OF assms]
  have more: "mset (handshakes t) + mset (announced t) + mset (refused t) = mset [0..<accepted_before_error es]"
    if "x \<in> set (accept_errors es)" "x \<noteq> None" "run_events acceptor_step s fs = Ok t" for x fs t
  proof -
    from assms(2) that(3) have "run_events acceptor_step s0 (es @ fs) = Ok t" by (simp add: run_events_append)
    note b = accounts_run[OF assms(1) this]
    have "accept_errors (es @ fs) = accept_errors es @ accept_errors fs" by (simp add: accept_errors_def map_filter_def)
    with that(1,2) have "accepted_before_error (es @ fs) = accepted_before_error es"
      by (simp add: accepted_before_error_def)
    with b show ?thesis by (simp add: accounts_def connections_of_def add.assoc)
  qed
  from a have "mset (handshakes s) + mset (announced s) + mset (refused s) = mset [0..<accepted_before_error es]"
    "accepting s = (if \<forall>x \<in> set (accept_errors es). x = None then Some (accepted_before_error es) else None)"
    unfolding accounts_def connections_of_def by (simp_all only: mset_append add.assoc if_splits(1)) auto
  with more show ?thesis by blast
qed

theorem acceptor_accounts_witness:
  "\<exists>s0 s t. new_acceptor None = Ok s0 \<and> run_events acceptor_step s0 [Accepted None, Accepted None, Negotiated 1 None,
      Accepted (Some System_error)] = Ok s \<and> accepting s = None \<and> run_events acceptor_step s [Accepted None, Negotiated 0 None] = Ok t
    \<and> mset (handshakes t) + mset (announced t) + mset (refused t) = mset [0, 1]"
proof -
  let ?es = "[Accepted None, Accepted None, Negotiated 1 None, Accepted (Some System_error)]"
  have "ran (new_acceptor None) (\<lambda>s0. ran (run_events acceptor_step s0 ?es)
      (\<lambda>s. ran (run_events acceptor_step s [Accepted None, Negotiated 0 None]) (\<lambda>t. True)))" by code_simp
  then obtain s0 s t where s: "new_acceptor None = Ok s0" "run_events acceptor_step s0 ?es = Ok s"
    "run_events acceptor_step s [Accepted None, Negotiated 0 None] = Ok t" by (auto dest!: ranD)
  have e: "Some System_error \<in> set (accept_errors ?es)" "accepted_before_error ?es = 2"
    by (simp_all add: accept_errors_def accepted_before_error_def map_filter_def)
  have two: "[0..<2] = [0, 1 :: nat]" by (simp add: upt_rec)
  note a = acceptor_accounts[OF s(1,2)]
  from a e(1) have "accepting s = None" by (auto simp del: run_events.simps)
  moreover from a e(1) s(3) have "mset (handshakes t) + mset (announced t) + mset (refused t) = mset [0..<accepted_before_error ?es]"
    by blast
  ultimately show ?thesis using s unfolding e(2) two by blast
qed

end
