(* ===== verification/Descriptions.thy ===== *)
theory Descriptions
  imports Prelude
begin

text \<open>
  Session descriptions asked of the media library: the interface of rtc/connection.hpp and its
  implementation in rtc/google/connection.cpp, with the data channels of
  rtc/google/data\_channel.cpp. The implementation with GStreamer is in \<open>Gst_Connection\<close>.
  What the program does with the descriptions is in \<open>Negotiation\<close>, the tracks are in
  \<open>Rtc_Connection\<close>.

  Creating an offer or an answer and setting a description are asynchronous: the caller gets a
  future, the media library gets an observer with the promise, and calls it back once. The
  futures are numbered in the order they were handed out.
\<close>

section \<open>Futures and observers\<close>

datatype description_type = Offer | Answer

datatype description_value = Description description_type string | Description_set

datatype request_kind = Create_description description_type | Set_description

record requests =
  futures :: "description_value res option list"
  waiting :: "(nat \<times> request_kind) list"

definition ask :: "request_kind \<Rightarrow> 'a requests_scheme \<Rightarrow> 'a requests_scheme" where
  "ask k s = s\<lparr>futures := futures s @ [None], waiting := waiting s @ [(length (futures s), k)]\<rparr>"

definition answer_at_once :: "description_value res \<Rightarrow> 'a requests_scheme \<Rightarrow> 'a requests_scheme" where
  "answer_at_once x s = s\<lparr>futures := futures s @ [Some x]\<rparr>"

definition settle :: "nat \<Rightarrow> description_value res \<Rightarrow> 'a requests_scheme \<Rightarrow> 'a requests_scheme" where
  "settle i x s = s\<lparr>futures := (futures s)[i := Some x], waiting := filter (\<lambda>w. fst w \<noteq> i) (waiting s)\<rparr>"

text \<open>The contract: the futures that have no answer are exactly those with an observer, and an
  answer is never taken back.\<close>

definition balanced :: "'a requests_scheme \<Rightarrow> bool" where
  "balanced s \<longleftrightarrow> distinct (map fst (waiting s))
     \<and> (\<forall>i. i \<in> fst ` set (waiting s) \<longleftrightarrow> i < length (futures s) \<and> futures s ! i = None)"

definition answers_kept :: "'a requests_scheme \<Rightarrow> 'b requests_scheme \<Rightarrow> bool" where
  "answers_kept s t \<longleftrightarrow> length (futures s) \<le> length (futures t)
     \<and> (\<forall>i < length (futures s). futures s ! i \<noteq> None \<longrightarrow> futures t ! i = futures s ! i)"

lemma answers_kept_refl: "answers_kept s s"
  by (simp add: answers_kept_def)

lemma answers_kept_trans: "answers_kept s t \<Longrightarrow> answers_kept t u \<Longrightarrow> answers_kept s u"
  by (force simp: answers_kept_def)

lemma ask_balanced: "balanced s \<Longrightarrow> balanced (ask k s) \<and> answers_kept s (ask k s)"
  by (auto simp: balanced_def ask_def answers_kept_def nth_append less_Suc_eq)

lemma at_once_balanced: "balanced s \<Longrightarrow> balanced (answer_at_once x s) \<and> answers_kept s (answer_at_once x s)"
  by (auto simp: balanced_def answer_at_once_def answers_kept_def nth_append less_Suc_eq)

lemma settle_balanced:
  assumes "balanced s" "map_of (waiting s) i = Some k"
  shows "balanced (settle i x s) \<and> answers_kept s (settle i x s) \<and> futures (settle i x s) ! i = Some x"
proof -
  from assms(2) have "i \<in> fst ` set (waiting s)" by (metis map_of_eq_None_iff option.distinct(1))
  with assms(1) have i: "i < length (futures s)" "futures s ! i = None" by (auto simp: balanced_def)
  have "fst ` set (waiting (settle i x s)) = fst ` set (waiting s) - {i}" by (auto simp: settle_def)
  moreover have "distinct (map fst (waiting (settle i x s)))"
    using assms(1) by (simp add: balanced_def settle_def distinct_map_filter)
  ultimately have "balanced (settle i x s)"
    using assms(1) i by (auto simp: balanced_def settle_def nth_list_update)
  with i show ?thesis by (auto simp: settle_def answers_kept_def nth_list_update)
qed

lemma balanced_fields: "futures t = futures s \<Longrightarrow> waiting t = waiting s \<Longrightarrow> balanced t = balanced s"
  by (simp add: balanced_def)

lemma kept_fields: "futures t = futures s \<Longrightarrow> answers_kept s t"
  by (simp add: answers_kept_def)

locale description_requests = state_machine step inv
  for step :: "'s \<Rightarrow> 'e \<Rightarrow> 's res" and inv :: "'s \<Rightarrow> bool" +
  fixes view :: "'s \<Rightarrow> requests"
  assumes inv_balanced: "inv s \<Longrightarrow> balanced (view s)"
    and step_keeps: "inv s \<Longrightarrow> step s e = Ok t \<Longrightarrow> answers_kept (view s) (view t)"
begin

lemma run_keeps: "inv s \<Longrightarrow> run_events step s es = Ok t \<Longrightarrow> answers_kept (view s) (view t)"
proof (induction es arbitrary: s)
  case Nil
  then show ?case by (simp add: answers_kept_refl)
next
  case (Cons e es)
  then obtain u where "step s e = Ok u" "run_events step u es = Ok t" by (auto simp: rbind_Ok_iff)
  with Cons step_inv[of s e u] step_keeps[of s e u] show ?case by (blast intro: answers_kept_trans)
qed

lemma unanswered_waits: "inv s \<Longrightarrow> i < length (futures (view s)) \<Longrightarrow> futures (view s) ! i = None \<Longrightarrow> i \<in> fst ` set (waiting (view s))"
  using inv_balanced[of s] by (simp add: balanced_def)

end


section \<open>The peer connection\<close>

record offer_options =
  offer_to_receive_audio :: bool
  offer_to_receive_video :: bool
  voice_activity_detection :: bool

record candidate =
  candidate_line :: int
  candidate_mid :: string
  candidate_sdp :: string

text \<open>What is asked of the media library and what the connection tells its users.\<close>

datatype native_call =
    Native_create_offer offer_options | Native_create_answer
  | Native_set_local description_type string | Native_set_remote description_type string
  | Native_add_candidate candidate | Native_close

datatype connection_signal = Negotiation_needed | Candidate_found candidate | Channel_opened nat

record peer = requests +
  initialised :: bool
  native_calls :: "native_call list"
  data_channels :: "nat list"
  peer_told :: "connection_signal list"

definition new_peer :: peer where
  "new_peer = \<lparr>futures = [], waiting = [], initialised = False, native_calls = [], data_channels = [], peer_told = []\<rparr>"

definition initialise :: "build \<Rightarrow> bool \<Rightarrow> peer \<Rightarrow> peer res" where
  "initialise b given s = rbind (boost_assert b (\<not> initialised s)) (\<lambda>u. rbind (boost_assert b given) (\<lambda>u.
     Ok (s\<lparr>initialised := given\<rparr>)))"

text \<open>Every call goes through the native connection.\<close>

definition native :: "native_call \<Rightarrow> peer \<Rightarrow> peer res" where
  "native c s = (if initialised s then Ok (s\<lparr>native_calls := native_calls s @ [c]\<rparr>) else Undefined)"

definition create_offer :: "offer_options \<Rightarrow> peer \<Rightarrow> peer res" where
  "create_offer opts s = native (Native_create_offer opts) (ask (Create_description Offer) s)"

definition create_answer :: "peer \<Rightarrow> peer res" where
  "create_answer s = native Native_create_answer (ask (Create_description Answer) s)"

text \<open>\<open>parses\<close> is what the media library says of the text.\<close>

definition set_local_description :: "bool \<Rightarrow> description_type \<Rightarrow> string \<Rightarrow> peer \<Rightarrow> peer res" where
  "set_local_description parses t text s =
     (if parses then native (Native_set_local t text) (ask Set_description s)
      else Ok (answer_at_once (Throw Runtime_error) s))"

definition set_remote_description :: "bool \<Rightarrow> description_type \<Rightarrow> string \<Rightarrow> peer \<Rightarrow> peer res" where
  "set_remote_description parses t text s =
     (if parses then native (Native_set_remote t text) (ask Set_description s)
      else Ok (answer_at_once (Throw Runtime_error) s))"

text \<open>How an observer is called back: with success, and the text of the description if it is one that
  was created and has a text; or with an error.\<close>

datatype callback = Success "string option" | Failure

definition created_text :: "build \<Rightarrow> string option \<Rightarrow> string res" where
  "created_text b text = (case text of Some x \<Rightarrow> Ok x | None \<Rightarrow> rbind (boost_assert b False) (\<lambda>u. Ok []))"

definition called_back :: "build \<Rightarrow> nat \<Rightarrow> callback \<Rightarrow> peer \<Rightarrow> peer res" where
  "called_back b i r s = (case map_of (waiting s) i of
     None \<Rightarrow> Ok s
   | Some k \<Rightarrow> (case r of
        Failure \<Rightarrow> Ok (settle i (Throw Runtime_error) s)
      | Success text \<Rightarrow> (case k of
          Set_description \<Rightarrow> Ok (settle i (Ok Description_set) s)
        | Create_description t \<Rightarrow> rbind (created_text b text) (\<lambda>x. Ok (settle i (Ok (Description t x)) s)))))"

definition on_renegotiation_needed :: "peer \<Rightarrow> peer" where
  "on_renegotiation_needed s = s\<lparr>peer_told := peer_told s @ [Negotiation_needed]\<rparr>"

definition on_ice_candidate :: "candidate \<Rightarrow> peer \<Rightarrow> peer" where
  "on_ice_candidate c s = s\<lparr>peer_told := peer_told s @ [Candidate_found c]\<rparr>"

text \<open>Data channels are kept for the life of the connection; \<open>None\<close> is an error of the media
  library.\<close>

definition create_data_channel :: "nat option \<Rightarrow> peer \<Rightarrow> peer res" where
  "create_data_channel created s = (if \<not> initialised s then Undefined
     else (case created of None \<Rightarrow> Throw Runtime_error | Some c \<Rightarrow> Ok (s\<lparr>data_channels := data_channels s @ [c]\<rparr>)))"

definition on_data_channel :: "nat \<Rightarrow> peer \<Rightarrow> peer" where
  "on_data_channel c s = s\<lparr>data_channels := data_channels s @ [c], peer_told := peer_told s @ [Channel_opened c]\<rparr>"

definition close :: "peer \<Rightarrow> peer res" where
  "close s = native Native_close s"

datatype peer_event =
    Initialise | Ask_offer offer_options | Ask_answer
  | Ask_local bool description_type string | Ask_remote bool description_type string
  | Called_back nat callback | Needs_negotiation | Found_candidate candidate
  | Ask_channel "nat option" | Got_channel nat | Close

fun peer_step :: "build \<Rightarrow> peer \<Rightarrow> peer_event \<Rightarrow> peer res" where
  "peer_step b s Initialise = initialise b True s"
| "peer_step b s (Ask_offer opts) = create_offer opts s"
| "peer_step b s Ask_answer = create_answer s"
| "peer_step b s (Ask_local p t x) = set_local_description p t x s"
| "peer_step b s (Ask_remote p t x) = set_remote_description p t x s"
| "peer_step b s (Called_back i r) = called_back b i r s"
| "peer_step b s Needs_negotiation = Ok (on_renegotiation_needed s)"
| "peer_step b s (Found_candidate c) = Ok (on_ice_candidate c s)"
| "peer_step b s (Ask_channel c) = create_data_channel c s"
| "peer_step b s (Got_channel c) = Ok (on_data_channel c s)"
| "peer_step b s Close = close s"

definition peer_view :: "peer \<Rightarrow> requests" where
  "peer_view s = \<lparr>futures = futures s, waiting = waiting s\<rparr>"

lemma peer_view_simps [simp]: "futures (peer_view s) = futures s" "waiting (peer_view s) = waiting s"
  "balanced (peer_view s) = balanced s" "answers_kept (peer_view s) (peer_view t) = answers_kept s t"
  by (simp_all add: peer_view_def balanced_def answers_kept_def)

lemma native_fields: "native c s = Ok t \<Longrightarrow> futures t = futures s \<and> waiting t = waiting s"
  by (auto simp: native_def split: if_splits)

lemma same_requests:
  "balanced s \<Longrightarrow> futures t = futures s \<Longrightarrow> waiting t = waiting s \<Longrightarrow> balanced t \<and> answers_kept s t"
  by (simp add: balanced_def answers_kept_def)

lemma native_asks:
  assumes "balanced s" "native c (ask k s) = Ok t"
  shows "balanced t \<and> answers_kept s t"
proof -
  from native_fields[OF assms(2)] have "futures t = futures (ask k s)" "waiting t = waiting (ask k s)" by simp_all
  with ask_balanced[OF assms(1), of k] show ?thesis by (simp add: balanced_def answers_kept_def)
qed

lemma called_back_result:
  assumes "balanced s" "called_back b i r s = Ok t"
  shows "balanced t \<and> answers_kept s t"
  using assms settle_balanced[OF assms(1), of i]
  by (auto simp: called_back_def answers_kept_refl rbind_Ok_iff split: option.splits callback.splits request_kind.splits)

lemma peer_step_balanced:
  assumes "balanced s" "peer_step b s e = Ok t"
  shows "balanced t \<and> answers_kept s t"
proof (cases e)
  case (Ask_local p d x)
  with assms native_asks[OF assms(1), of _ Set_description t] at_once_balanced[OF assms(1)] show ?thesis
    by (auto simp: set_local_description_def split: if_splits)
next
  case (Ask_remote p d x)
  with assms native_asks[OF assms(1), of _ Set_description t] at_once_balanced[OF assms(1)] show ?thesis
    by (auto simp: set_remote_description_def split: if_splits)
next
  case (Called_back i r)
  with called_back_result[OF assms(1)] assms(2) show ?thesis by auto
next
  case Close
  with assms native_fields[of Native_close s t] same_requests[OF assms(1), of t] show ?thesis by (simp add: close_def)
next
  case (Ask_channel c)
  with assms(2) have "futures t = futures s \<and> waiting t = waiting s"
    by (auto simp: create_data_channel_def split: if_splits option.splits)
  with same_requests[OF assms(1)] show ?thesis by blast
next
  case Initialise
  with assms(2) have "futures t = futures s \<and> waiting t = waiting s" by (auto simp: initialise_def rbind_Ok_iff)
  with same_requests[OF assms(1)] show ?thesis by blast
qed (use assms native_asks[OF assms(1)] same_requests[OF assms(1), of t] in \<open>auto simp: create_offer_def create_answer_def
    on_renegotiation_needed_def on_ice_candidate_def on_data_channel_def\<close>)

interpretation peer: description_requests "peer_step b" balanced peer_view for b
proof
  fix s t :: peer and e
  show "balanced s \<Longrightarrow> balanced (peer_view s)" by simp
  assume "balanced s" "peer_step b s e = Ok t"
  from peer_step_balanced[OF this] show "balanced t" "answers_kept (peer_view s) (peer_view t)" by simp_all
qed

text \<open>What an observer's call means for its future.\<close>

definition expected :: "request_kind \<Rightarrow> callback \<Rightarrow> description_value res" where
  "expected k r = (case r of
     Failure \<Rightarrow> Throw Runtime_error
   | Success text \<Rightarrow> (case k of Set_description \<Rightarrow> Ok Description_set | Create_description t \<Rightarrow> Ok (Description t (the text))))"

text \<open>C25. Whatever is asked of a peer connection and whenever the media library answers: a future that has no answer
  has exactly one observer, the call of the observer answers it, with a description of the type that
  was asked for and the text of the library or with an exception if the library failed, and this
  answer stays.\<close>

theorem descriptions_answered_once:
  assumes "run_events (peer_step b) new_peer es = Ok s"
  shows "distinct (map fst (waiting s))
    \<and> (\<forall>i < length (futures s). futures s ! i = None \<longrightarrow> (\<exists>k. (i, k) \<in> set (waiting s)))
    \<and> (\<forall>i k r. (i, k) \<in> set (waiting s) \<and> (\<forall>t. (k, r) \<noteq> (Create_description t, Success None)) \<longrightarrow>
         (\<exists>t. peer_step b s (Called_back i r) = Ok t \<and> futures t ! i = Some (expected k r)
          \<and> (\<forall>fs u. run_events (peer_step b) t fs = Ok u \<longrightarrow> futures u ! i = Some (expected k r))))"
proof -
  have "balanced new_peer" by (simp add: balanced_def new_peer_def)
  then have bal: "balanced s" by (rule peer.run_inv[OF _ assms])
  have call: "\<exists>t. peer_step b s (Called_back i r) = Ok t \<and> futures t ! i = Some (expected k r)
      \<and> (\<forall>fs u. run_events (peer_step b) t fs = Ok u \<longrightarrow> futures u ! i = Some (expected k r))"
    if ik: "(i, k) \<in> set (waiting s)" and r: "\<forall>t. (k, r) \<noteq> (Create_description t, Success None)" for i k r
  proof -
    from bal have "distinct (map fst (waiting s))" by (simp add: balanced_def)
    with ik have m: "map_of (waiting s) i = Some k" by simp
    note st = settle_balanced[OF bal m, of "expected k r"]
    have run: "peer_step b s (Called_back i r) = Ok (settle i (expected k r) s)"
      using r m by (cases r; cases k) (auto simp: called_back_def expected_def created_text_def split: option.split)
    have "i < length (futures (settle i (expected k r) s))"
      using bal ik by (force simp: balanced_def settle_def)
    with peer.run_keeps[of "settle i (expected k r) s" b] st
    have "futures u ! i = Some (expected k r)" if "run_events (peer_step b) (settle i (expected k r) s) fs = Ok u" for fs u
      using that by (auto simp: answers_kept_def)
    with run st show ?thesis by blast
  qed
  from bal have "distinct (map fst (waiting s))" "\<forall>i < length (futures s). futures s ! i = None \<longrightarrow> (\<exists>k. (i, k) \<in> set (waiting s))"
    unfolding balanced_def by (simp, metis imageE prod.collapse)
  with call show ?thesis by blast
qed

theorem descriptions_answered_once_witness:
  "\<exists>s t u. run_events (peer_step Debug) new_peer [Initialise, Ask_answer, Ask_local True Answer ''a''] = Ok s
    \<and> peer_step Debug s (Called_back 0 (Success (Some ''x''))) = Ok t \<and> futures t ! 0 = Some (Ok (Description Answer ''x''))
    \<and> run_events (peer_step Debug) t [Called_back 1 Failure, Called_back 0 Failure] = Ok u
    \<and> futures u ! 0 = Some (Ok (Description Answer ''x''))"
proof -
  have "ran (run_events (peer_step Debug) new_peer [Initialise, Ask_answer, Ask_local True Answer ''a'']) (\<lambda>s.
      waiting s = [(0, Create_description Answer), (1, Set_description)]
      \<and> ran (run_events (peer_step Debug) s [Called_back 0 (Success (Some ''x'')), Called_back 1 Failure, Called_back 0 Failure]) (\<lambda>u. True))"
    by code_simp
  then obtain s u where s: "run_events (peer_step Debug) new_peer [Initialise, Ask_answer, Ask_local True Answer ''a''] = Ok s"
    "waiting s = [(0, Create_description Answer), (1, Set_description)]"
    "run_events (peer_step Debug) s [Called_back 0 (Success (Some ''x'')), Called_back 1 Failure, Called_back 0 Failure] = Ok u"
    by (auto dest!: ranD)
  have e: "expected (Create_description Answer) (Success (Some ''x'')) = Ok (Description Answer ''x'')" by (simp add: expected_def)
  have "(0, Create_description Answer) \<in> set (waiting s)" using s(2) by simp
  with descriptions_answered_once[OF s(1), THEN conjunct2, THEN conjunct2, rule_format,
      of 0 "Create_description Answer" "Success (Some ''x'')"]
  obtain t where t: "peer_step Debug s (Called_back 0 (Success (Some ''x''))) = Ok t"
    "futures t ! 0 = Some (Ok (Description Answer ''x''))"
    "\<And>fs u. run_events (peer_step Debug) t fs = Ok u \<Longrightarrow> futures u ! 0 = Some (Ok (Description Answer ''x''))"
    unfolding e by (metis callback.inject(1) option.distinct(1) prod.inject)
  from s(3) t(1) have "run_events (peer_step Debug) t [Called_back 1 Failure, Called_back 0 Failure] = Ok u"
    by (simp del: peer_step.simps)
  with s(1) t show ?thesis by blast
qed


section \<open>Data channels\<close>

datatype channel_state = Channel_connecting | Channel_open | Channel_closing | Channel_closed

record channel_message =
  is_binary :: bool
  bytes :: "8 word list"

datatype channel_signal = Opened | Received channel_message

record data_channel =
  native_state :: channel_state
  observed :: bool
  sent_buffers :: "(bool \<times> 8 word list) list"
  channel_told :: "channel_signal list"

definition state_name :: "channel_state \<Rightarrow> string" where
  "state_name c = (case c of Channel_closed \<Rightarrow> ''closed'' | Channel_closing \<Rightarrow> ''closing''
     | Channel_connecting \<Rightarrow> ''connecting'' | Channel_open \<Rightarrow> ''open'')"

definition new_data_channel :: "channel_state \<Rightarrow> data_channel" where
  "new_data_channel c = \<lparr>native_state = c, observed = True, sent_buffers = [], channel_told = []\<rparr>"

definition destroy_data_channel :: "data_channel \<Rightarrow> data_channel" where
  "destroy_data_channel s = s\<lparr>observed := False\<rparr>"

definition channel_send :: "build \<Rightarrow> bool \<Rightarrow> channel_message \<Rightarrow> data_channel \<Rightarrow> data_channel res" where
  "channel_send b success m s = rbind (boost_assert b success) (\<lambda>u.
     Ok (if success then s\<lparr>sent_buffers := sent_buffers s @ [(is_binary m, bytes m)]\<rparr> else s))"

definition on_state_change :: "channel_state \<Rightarrow> data_channel \<Rightarrow> data_channel" where
  "on_state_change c s = (let t = s\<lparr>native_state := c\<rparr> in
     if c = Channel_open then t\<lparr>channel_told := channel_told t @ [Opened]\<rparr> else t)"

definition on_buffer :: "bool \<times> 8 word list \<Rightarrow> data_channel \<Rightarrow> data_channel" where
  "on_buffer d s = s\<lparr>channel_told := channel_told s @ [Received \<lparr>is_binary = fst d, bytes = snd d\<rparr>]\<rparr>"

text \<open>What is sent over a channel that takes everything is told at the other end, if the
  buffers arrive as they were sent.\<close>

lemma channel_delivers:
  assumes "foreach ms (channel_send b True) (s\<lparr>sent_buffers := []\<rparr>) = Ok t"
  shows "channel_told (fold on_buffer (sent_buffers t) r) = channel_told r @ map Received ms"
proof -
  have sent: "sent_buffers v = sent_buffers u @ map (\<lambda>m. (is_binary m, bytes m)) ms"
    if "foreach ms (channel_send b True) u = Ok v" for u v ms
    using that by (induction ms arbitrary: u) (auto simp: rbind_Ok_iff channel_send_def)
  have told: "channel_told (fold on_buffer (map (\<lambda>m. (is_binary m, bytes m)) ms) r) = channel_told r @ map Received ms" for ms r
    by (induction ms arbitrary: r) (simp_all add: on_buffer_def)
  from sent[OF assms] show ?thesis by (simp add: told)
qed

end
