(* ===== verification/Gst_Connection.thy ===== *)
theory Gst_Connection
  imports Descriptions
begin

text \<open>
  The peer connection with GStreamer: rtc/gstreamer/connection.cpp, which implements the same
  interface as \<open>Descriptions\<close>.

  GStreamer calls back on its own threads. Two kinds of callbacks keep more than they need: the promises
  of the descriptions, which are given away to the library (\<open>waiting\<close>), and the address of the
  connection, which is captured by the tasks it submits to the executor and by the watch on the
  bus of its pipeline. A callback on a connection that is gone is \<open>Undefined\<close>.
\<close>

section \<open>The states of webrtcbin\<close>

datatype state = State_new | State_connecting | State_connected | State_disconnected | State_failed | State_closed

datatype gst_signaling_state =
    Gst_stable | Gst_signaling_closed | Gst_have_local_offer | Gst_have_remote_offer | Gst_have_local_pranswer | Gst_have_remote_pranswer

datatype gathering_state = Gathering_new | Gathering | Gathering_complete

datatype gst_ice_state =
    Gst_ice_new | Gst_ice_checking | Gst_ice_connected | Gst_ice_completed | Gst_ice_failed | Gst_ice_disconnected | Gst_ice_closed

text \<open>Each getter reads a number and casts it; for a number it does not know it asserts, and a Release build
  takes the last or the first.\<close>

definition cast_number :: "build \<Rightarrow> 'a list \<Rightarrow> 'a \<Rightarrow> int \<Rightarrow> 'a res" where
  "cast_number b states otherwise cast =
     (if 0 \<le> cast \<and> cast < int (length states) then Ok (states ! nat cast)
      else rbind (boost_assert b False) (\<lambda>u. Ok otherwise))"

definition get_state :: "build \<Rightarrow> int \<Rightarrow> state res" where
  "get_state b = cast_number b [State_new, State_connecting, State_connected, State_disconnected, State_failed, State_closed] State_closed"

definition get_signaling_state :: "build \<Rightarrow> int \<Rightarrow> gst_signaling_state res" where
  "get_signaling_state b = cast_number b [Gst_stable, Gst_signaling_closed, Gst_have_local_offer, Gst_have_remote_offer,
     Gst_have_local_pranswer, Gst_have_remote_pranswer] Gst_signaling_closed"

definition get_ice_gathering_state :: "build \<Rightarrow> int \<Rightarrow> gathering_state res" where
  "get_ice_gathering_state b = cast_number b [Gathering_new, Gathering, Gathering_complete] Gathering_new"

definition get_ice_connection_state :: "build \<Rightarrow> int \<Rightarrow> gst_ice_state res" where
  "get_ice_connection_state b = cast_number b [Gst_ice_new, Gst_ice_checking, Gst_ice_connected, Gst_ice_completed,
     Gst_ice_failed, Gst_ice_disconnected, Gst_ice_closed] Gst_ice_new"


section \<open>The connection\<close>

datatype pipeline_state = Pipeline_null | Pipeline_ready | Pipeline_playing

datatype state_change = Change_success | Change_async | Change_no_preroll | Change_failure

text \<open>What is submitted to the executor, and what the connection tells.\<close>

datatype task = Tell_negotiation | Tell_candidate candidate

datatype gst_signal = Gst_negotiation_needed | Gst_candidate candidate | Gst_closed

record gst = requests +
  pipeline :: pipeline_state
  signal_connections :: "nat list"
  watched :: bool
  tasks :: "task list"
  gst_gone :: bool
  linked :: "nat list"
  gst_told :: "gst_signal list"

definition connect_signal :: "nat \<Rightarrow> gst \<Rightarrow> gst" where
  "connect_signal i s = s\<lparr>signal_connections := signal_connections s @ [i]\<rparr>"

definition connect_signals :: "build \<Rightarrow> gst \<Rightarrow> gst res" where
  "connect_signals b s = rbind (boost_assert b (signal_connections s = [])) (\<lambda>u. Ok (connect_signal 2 (connect_signal 1 s)))"

definition disconnect_signals :: "gst \<Rightarrow> gst" where
  "disconnect_signals s = s\<lparr>signal_connections := []\<rparr>"

definition new_gst :: "build \<Rightarrow> gst res" where
  "new_gst b = rbind (connect_signals b \<lparr>futures = [], waiting = [], pipeline = Pipeline_null, signal_connections = [],
     watched = False, tasks = [], gst_gone = False, linked = [], gst_told = []\<rparr>) (\<lambda>s. Ok (s\<lparr>watched := True\<rparr>))"

definition set_gst_state :: "build \<Rightarrow> state_change \<Rightarrow> pipeline_state \<Rightarrow> gst \<Rightarrow> gst res" where
  "set_gst_state b r p s = rbind (boost_assert b (r \<noteq> Change_async)) (\<lambda>u.
     rbind (boost_assert b (r = Change_success)) (\<lambda>u.
       if r = Change_failure then Throw Runtime_error else Ok (s\<lparr>pipeline := p\<rparr>)))"

definition run :: "build \<Rightarrow> state_change \<Rightarrow> state_change \<Rightarrow> gst \<Rightarrow> gst res" where
  "run b ready playing s = rbind (set_gst_state b ready Pipeline_ready s) (set_gst_state b playing Pipeline_playing)"

definition gst_close :: "build \<Rightarrow> state_change \<Rightarrow> gst \<Rightarrow> gst res" where
  "gst_close b r s = set_gst_state b r Pipeline_null (disconnect_signals s)"

text \<open>The destructor closes, and logs what that throws. The watch on the bus stays.\<close>

definition gst_destroy :: "build \<Rightarrow> state_change \<Rightarrow> gst \<Rightarrow> gst res" where
  "gst_destroy b r s = (case gst_close b r s of
     Ok t \<Rightarrow> Ok (t\<lparr>gst_gone := True\<rparr>)
   | Throw e \<Rightarrow> Ok (disconnect_signals s\<lparr>gst_gone := True\<rparr>)
   | Assert_failed \<Rightarrow> Assert_failed | Undefined \<Rightarrow> Undefined)"

definition gst_set_description :: "bool \<Rightarrow> gst \<Rightarrow> gst" where
  "gst_set_description parses s = (if parses then ask Set_description s else answer_at_once (Throw Runtime_error) s)"

text \<open>The reply to a promise of a description: the text that was created, if there is one; whether there is a
  reply at all, which means an error, for one that was set.\<close>

datatype reply = Created "string option" | Was_set bool

definition on_created :: "description_type \<Rightarrow> nat \<Rightarrow> string option \<Rightarrow> gst \<Rightarrow> gst res" where
  "on_created t i text s = (case text of None \<Rightarrow> Undefined | Some x \<Rightarrow> Ok (settle i (Ok (Description t x)) s))"

definition on_description_set :: "build \<Rightarrow> nat \<Rightarrow> bool \<Rightarrow> gst \<Rightarrow> gst res" where
  "on_description_set b i error s = rbind (boost_assert b (\<not> error)) (\<lambda>u. Ok (settle i (Ok Description_set) s))"

definition on_reply :: "build \<Rightarrow> nat \<Rightarrow> reply \<Rightarrow> gst \<Rightarrow> gst res" where
  "on_reply b i r s = (case map_of (waiting s) i of
     None \<Rightarrow> Ok s
   | Some (Create_description t) \<Rightarrow> (case r of Created x \<Rightarrow> on_created t i x s | _ \<Rightarrow> Ok s)
   | Some Set_description \<Rightarrow> (case r of Was_set error \<Rightarrow> on_description_set b i error s | _ \<Rightarrow> Ok s))"

definition on_gst_negotiation_needed :: "gst \<Rightarrow> gst" where
  "on_gst_negotiation_needed s = (if signal_connections s = [] then s else s\<lparr>tasks := tasks s @ [Tell_negotiation]\<rparr>)"

definition on_gst_ice_candidate :: "int \<Rightarrow> string \<Rightarrow> gst \<Rightarrow> gst" where
  "on_gst_ice_candidate line text s = (if signal_connections s = [] then s
     else s\<lparr>tasks := tasks s @ [Tell_candidate \<lparr>candidate_line = line, candidate_mid = [], candidate_sdp = text\<rparr>]\<rparr>)"

definition run_task :: "gst \<Rightarrow> gst res" where
  "run_task s = (case tasks s of
     [] \<Rightarrow> Ok s
   | t # ts \<Rightarrow> if gst_gone s then Undefined
       else Ok (s\<lparr>tasks := ts, gst_told := gst_told s @ [case t of Tell_negotiation \<Rightarrow> Gst_negotiation_needed | Tell_candidate c \<Rightarrow> Gst_candidate c]\<rparr>))"

datatype bus_message = Bus_error | Bus_eos | Bus_other

text \<open>A pipeline that is stopped flushes its bus.\<close>

definition on_pipe_bus_message :: "bus_message \<Rightarrow> gst \<Rightarrow> gst res" where
  "on_pipe_bus_message m s = (if \<not> watched s \<or> pipeline s = Pipeline_null then Ok s
     else if gst_gone s then Undefined
     else if m = Bus_eos then Ok (s\<lparr>gst_told := gst_told s @ [Gst_closed]\<rparr>) else Ok s)"

text \<open>A track that is no video track of GStreamer is a null pointer after the cast.\<close>

definition gst_add_track :: "build \<Rightarrow> nat option \<Rightarrow> gst \<Rightarrow> gst res" where
  "gst_add_track b t s = rbind (boost_assert b (t \<noteq> None)) (\<lambda>u.
     case t of None \<Rightarrow> Undefined | Some v \<Rightarrow> Ok (s\<lparr>linked := linked s @ [v]\<rparr>))"

text \<open>Data channels, statistics and removing tracks.\<close>

definition not_implemented :: "build \<Rightarrow> gst \<Rightarrow> gst res" where
  "not_implemented b s = rbind (boost_assert b False) (\<lambda>u. Ok s)"

datatype gst_event =
    Run state_change state_change | Gst_close state_change | Gst_destroy state_change
  | Gst_ask description_type | Gst_set bool | Reply nat reply
  | Gst_needs_negotiation | Gst_found int string | Run_task | Bus_message bus_message
  | Gst_add_track "nat option" | Not_implemented

text \<open>Nobody calls a method of a connection that is gone; what GStreamer and the executor still hold can
  come at any time.\<close>

fun gst_step :: "build \<Rightarrow> gst \<Rightarrow> gst_event \<Rightarrow> gst res" where
  "gst_step b s (Run r p) = (if gst_gone s then Ok s else run b r p s)"
| "gst_step b s (Gst_close r) = (if gst_gone s then Ok s else gst_close b r s)"
| "gst_step b s (Gst_destroy r) = (if gst_gone s then Ok s else gst_destroy b r s)"
| "gst_step b s (Gst_ask t) = Ok (if gst_gone s then s else ask (Create_description t) s)"
| "gst_step b s (Gst_set p) = Ok (if gst_gone s then s else gst_set_description p s)"
| "gst_step b s (Reply i r) = on_reply b i r s"
| "gst_step b s Gst_needs_negotiation = Ok (on_gst_negotiation_needed s)"
| "gst_step b s (Gst_found l t) = Ok (on_gst_ice_candidate l t s)"
| "gst_step b s Run_task = run_task s"
| "gst_step b s (Bus_message m) = on_pipe_bus_message m s"
| "gst_step b s (Gst_add_track t) = (if gst_gone s then Ok s else gst_add_track b t s)"
| "gst_step b s Not_implemented = (if gst_gone s then Ok s else not_implemented b s)"

definition gst_inv :: "gst \<Rightarrow> bool" where
  "gst_inv s \<longleftrightarrow> balanced s \<and> watched s \<and> (gst_gone s \<longrightarrow> signal_connections s = [])"

definition gst_view :: "gst \<Rightarrow> requests" where
  "gst_view s = \<lparr>futures = futures s, waiting = waiting s\<rparr>"

lemma gst_view_simps [simp]: "futures (gst_view s) = futures s" "waiting (gst_view s) = waiting s"
  "balanced (gst_view s) = balanced s" "answers_kept (gst_view s) (gst_view t) = answers_kept s t"
  by (simp_all add: gst_view_def balanced_def answers_kept_def)

lemma other_fields_ask [simp]:
  "watched (ask k s) = watched s" "gst_gone (ask k s) = gst_gone s" "signal_connections (ask k s) = signal_connections s"
  "watched (answer_at_once x s) = watched s" "gst_gone (answer_at_once x s) = gst_gone s"
  "signal_connections (answer_at_once x s) = signal_connections s"
  "watched (settle i x s) = watched s" "gst_gone (settle i x s) = gst_gone s"
  "signal_connections (settle i x s) = signal_connections s"
  by (simp_all add: ask_def answer_at_once_def settle_def)

definition calm :: "gst \<Rightarrow> gst \<Rightarrow> bool" where
  "calm s t \<longleftrightarrow> futures t = futures s \<and> waiting t = waiting s \<and> watched t = watched s
     \<and> (signal_connections t = signal_connections s \<and> gst_gone t = gst_gone s \<or> signal_connections t = [])"

lemma calm_inv: "gst_inv s \<Longrightarrow> calm s t \<Longrightarrow> gst_inv t \<and> answers_kept s t"
  by (auto simp: gst_inv_def calm_def balanced_def answers_kept_def)

lemma set_gst_state_calm: "set_gst_state b r p s = Ok t \<Longrightarrow> t = s\<lparr>pipeline := p\<rparr>"
  by (auto simp: set_gst_state_def rbind_Ok_iff split: if_splits)

lemma reply_result:
  assumes "gst_inv s" "on_reply b i r s = Ok t"
  shows "gst_inv t \<and> answers_kept s t"
proof (cases "map_of (waiting s) i")
  case None
  with assms show ?thesis by (simp add: on_reply_def answers_kept_refl)
next
  case (Some k)
  from assms(1) have "balanced s" by (simp add: gst_inv_def)
  note st = settle_balanced[OF this Some]
  have "t = s \<or> (\<exists>x. t = settle i x s)"
    using assms(2) Some
    by (auto simp: on_reply_def on_created_def on_description_set_def rbind_Ok_iff
      split: request_kind.splits reply.splits option.splits)
  with st assms(1) show ?thesis by (auto simp: gst_inv_def answers_kept_refl)
qed

lemma gst_step_result:
  assumes "gst_inv s" "gst_step b s e = Ok t"
  shows "gst_inv t \<and> answers_kept s t"
proof -
  from assms(1) have bal: "balanced s" by (simp add: gst_inv_def)
  have c: ?thesis if "calm s t" using calm_inv[OF assms(1) that] .
  show ?thesis
  proof (cases e)
    case (Run r p)
    with assms(2) have "t = s \<or> (\<exists>u. u = s\<lparr>pipeline := Pipeline_ready\<rparr> \<and> t = u\<lparr>pipeline := Pipeline_playing\<rparr>)"
      by (auto simp: run_def rbind_Ok_iff dest!: set_gst_state_calm split: if_splits)
    then show ?thesis by (intro c) (auto simp: calm_def)
  next
    case (Gst_close r)
    with assms(2) have "t = s \<or> t = disconnect_signals s\<lparr>pipeline := Pipeline_null\<rparr>"
      by (auto simp: gst_close_def dest!: set_gst_state_calm split: if_splits)
    then show ?thesis by (intro c) (auto simp: calm_def disconnect_signals_def)
  next
    case (Gst_destroy r)
    with assms(2) have "t = s \<or> t = disconnect_signals s\<lparr>gst_gone := True\<rparr> \<or> t = disconnect_signals s\<lparr>pipeline := Pipeline_null, gst_gone := True\<rparr>"
      by (auto simp: gst_destroy_def gst_close_def dest!: set_gst_state_calm split: if_splits res.splits)
    then show ?thesis by (intro c) (auto simp: calm_def disconnect_signals_def)
  next
    case (Gst_ask d)
    with assms ask_balanced[OF bal, of "Create_description d"] show ?thesis
      by (auto simp: gst_inv_def answers_kept_refl split: if_splits)
  next
    case (Gst_set p)
    with assms ask_balanced[OF bal, of Set_description] at_once_balanced[OF bal] show ?thesis
      by (auto simp: gst_inv_def gst_set_description_def answers_kept_refl split: if_splits)
  next
    case (Reply i r)
    with reply_result[OF assms(1)] assms(2) show ?thesis by auto
  next
    case Run_task
    with assms(2) show ?thesis by (intro c) (auto simp: calm_def run_task_def split: list.splits if_splits)
  next
    case (Bus_message m)
    with assms(2) show ?thesis by (intro c) (auto simp: calm_def on_pipe_bus_message_def split: if_splits)
  next
    case (Gst_add_track v)
    with assms(2) show ?thesis
      by (intro c) (auto simp: calm_def gst_add_track_def rbind_Ok_iff split: if_splits option.splits)
  next
    case Not_implemented
    with assms(2) show ?thesis by (intro c) (auto simp: calm_def not_implemented_def rbind_Ok_iff split: if_splits)
  next
    case Gst_needs_negotiation
    with assms(2) have "t = on_gst_negotiation_needed s" by simp
    then show ?thesis by (intro c) (simp add: calm_def on_gst_negotiation_needed_def)
  next
    case (Gst_found l m)
    with assms(2) have "t = on_gst_ice_candidate l m s" by simp
    then show ?thesis by (intro c) (simp add: calm_def on_gst_ice_candidate_def)
  qed
qed

interpretation gst: description_requests "gst_step b" gst_inv gst_view for b
proof
  fix s t :: gst and e
  show "gst_inv s \<Longrightarrow> balanced (gst_view s)" by (simp add: gst_inv_def)
  assume "gst_inv s" "gst_step b s e = Ok t"
  from gst_step_result[OF this] show "gst_inv t" "answers_kept (gst_view s) (gst_view t)" by simp_all
qed

lemma new_gst_inv: "new_gst b = Ok s \<Longrightarrow> gst_inv s"
  by (auto simp: new_gst_def connect_signals_def connect_signal_def gst_inv_def balanced_def rbind_Ok_iff)


section \<open>What GStreamer reports\<close>

text \<open>With GStreamer too a future has at most one answer and keeps it. But a failure is not an answer: an offer or answer
  that can not be created is a null pointer, and a description that can not be set fails an assertion, or in a
  Release build is reported as set, and stays so.\<close>

theorem refused_description_reported_set:
  assumes "new_gst b0 = Ok s0" "run_events (gst_step Release) s0 es = Ok s" "(i, k) \<in> set (waiting s)"
  shows "case k of
     Create_description t \<Rightarrow> gst_step Release s (Reply i (Created None)) = Undefined
   | Set_description \<Rightarrow> gst_step Debug s (Reply i (Was_set True)) = Assert_failed
       \<and> (\<exists>t. gst_step Release s (Reply i (Was_set True)) = Ok t
          \<and> (\<forall>fs u. run_events (gst_step Release) t fs = Ok u \<longrightarrow> futures u ! i = Some (Ok Description_set)))"
proof -
  have inv: "gst_inv s" by (rule gst.run_inv[OF new_gst_inv[OF assms(1)] assms(2)])
  then have bal: "balanced s" by (simp add: gst_inv_def)
  with assms(3) have m: "map_of (waiting s) i = Some k" by (simp add: balanced_def)
  show ?thesis
  proof (cases k)
    case (Create_description t)
    with m show ?thesis by (simp add: on_reply_def on_created_def)
  next
    case Set_description
    note st = settle_balanced[OF bal m, of "Ok Description_set"]
    have run: "gst_step Release s (Reply i (Was_set True)) = Ok (settle i (Ok Description_set) s)"
      using m Set_description by (simp add: on_reply_def on_description_set_def)
    have "i < length (futures (settle i (Ok Description_set) s))"
      using bal assms(3) by (force simp: balanced_def settle_def)
    with gst.run_keeps[of "settle i (Ok Description_set) s" Release] gst.step_inv[OF inv run] st
    have "futures u ! i = Some (Ok Description_set)" if "run_events (gst_step Release) (settle i (Ok Description_set) s) fs = Ok u" for fs u
      using that by (auto simp: answers_kept_def)
    moreover have "gst_step Debug s (Reply i (Was_set True)) = Assert_failed"
      using m Set_description by (simp add: on_reply_def on_description_set_def boost_assert_def)
    ultimately show ?thesis using run Set_description by auto
  qed
qed

theorem refused_description_reported_set_witness:
  "\<exists>s0 s t. new_gst Release = Ok s0 \<and> run_events (gst_step Release) s0 [Gst_set True] = Ok s
    \<and> gst_step Debug s (Reply 0 (Was_set True)) = Assert_failed
    \<and> gst_step Release s (Reply 0 (Was_set True)) = Ok t \<and> futures t ! 0 = Some (Ok Description_set)"
proof -
  have "ran (new_gst Release) (\<lambda>s0. ran (run_events (gst_step Release) s0 [Gst_set True])
      (\<lambda>s. waiting s = [(0, Set_description)]))" by code_simp
  then obtain s0 s where s: "new_gst Release = Ok s0" "run_events (gst_step Release) s0 [Gst_set True] = Ok s"
    "waiting s = [(0, Set_description)]" by (auto dest!: ranD)
  then have "(0, Set_description) \<in> set (waiting s)" by simp
  from refused_description_reported_set[OF s(1,2) this] obtain t where
    t: "gst_step Debug s (Reply 0 (Was_set True)) = Assert_failed" "gst_step Release s (Reply 0 (Was_set True)) = Ok t"
    "\<And>fs u. run_events (gst_step Release) t fs = Ok u \<Longrightarrow> futures u ! 0 = Some (Ok Description_set)"
    by (auto simp del: gst_step.simps)
  from t(3)[of "[]" t] t(1,2) s(1,2) show ?thesis by auto
qed

text \<open>A connection that is destroyed is still called: by every task it submitted and that has not run, and, since
  nothing removes the watch on the bus, by any message of a pipeline that could not be stopped. GStreamer
  itself does not call it any more.\<close>

theorem destroyed_connection_called:
  assumes "new_gst b = Ok s0" "run_events (gst_step b) s0 es = Ok s" "gst_gone s"
  shows "gst_step b s (Bus_message m) = (if pipeline s = Pipeline_null then Ok s else Undefined)
    \<and> gst_step b s Run_task = (if tasks s = [] then Ok s else Undefined)
    \<and> on_gst_negotiation_needed s = s \<and> on_gst_ice_candidate l x s = s"
proof -
  have "gst_inv s" by (rule gst.run_inv[OF new_gst_inv[OF assms(1)] assms(2)])
  with assms(3) show ?thesis
    by (auto simp: gst_inv_def on_pipe_bus_message_def run_task_def on_gst_negotiation_needed_def on_gst_ice_candidate_def
      split: list.split)
qed

theorem destroyed_connection_called_witness:
  "\<exists>s0 s. new_gst Debug = Ok s0
    \<and> run_events (gst_step Debug) s0 [Run Change_success Change_success, Gst_needs_negotiation, Gst_destroy Change_success] = Ok s
    \<and> gst_step Debug s (Bus_message Bus_eos) = Ok s \<and> gst_step Debug s Run_task = Undefined"
proof -
  have "ran (new_gst Debug) (\<lambda>s0. ran (run_events (gst_step Debug) s0
      [Run Change_success Change_success, Gst_needs_negotiation, Gst_destroy Change_success])
      (\<lambda>s. gst_gone s \<and> pipeline s = Pipeline_null \<and> tasks s \<noteq> []))" by code_simp
  then obtain s0 s where s: "new_gst Debug = Ok s0"
    "run_events (gst_step Debug) s0 [Run Change_success Change_success, Gst_needs_negotiation, Gst_destroy Change_success] = Ok s"
    "gst_gone s" "pipeline s = Pipeline_null" "tasks s \<noteq> []"
    by (auto dest!: ranD)
  with destroyed_connection_called[OF s(1-3)] show ?thesis by (auto simp del: run_events.simps gst_step.simps)
qed

text \<open>Closing twice, which the destructor does, is closing once.\<close>

lemma close_twice:
  "gst_close b r s = Ok t \<Longrightarrow> gst_close b Change_success t = Ok t"
  by (auto simp: gst_close_def disconnect_signals_def set_gst_state_def rbind_Ok_iff split: if_splits)

end
