(* ===== verification/Signaling_Clients.thy ===== *)
theory Signaling_Clients
  imports Signaling_Client
begin

text \<open>
  The signaling clients of a conference together: signaling/client\_module.cpp,
  \<open>factory_reconnecting\<close> and the destructor of \<open>reconnecting_client\<close> in
  signaling/client/client.cpp, client/peer\_creator.cpp.

  Each remote participant has a \<open>reconnecting_client\<close> of its own, from one factory. The
  factory hands one timer to all of them, so what \<open>Signaling_Client\<close> says of a
  client and its timer holds as long as there is one client. Here the clients use the
  shared timer: a client runs with an idle timer, and if it starts that one, the
  shared timer is started with the client as its callback.
\<close>

section \<open>Clients that share a timer\<close>

text \<open>A client that was destroyed is \<open>None\<close>; the callback of the timer is \<open>reconnect\<close> of the client
  with that number.\<close>

record signaling_clients =
  clients :: "reconnecting_client option list"
  reconnect_timer :: "nat one_shot"


definition client_at :: "nat \<Rightarrow> signaling_clients \<Rightarrow> reconnecting_client option" where
  "client_at i s = (if i < length (clients s) then clients s ! i else None)"

definition put_client :: "nat \<Rightarrow> reconnecting_client option \<Rightarrow> signaling_clients \<Rightarrow> signaling_clients" where
  "put_client i c s = s\<lparr>clients := (clients s)[i := c]\<rparr>"

definition create_client :: "connect_information \<Rightarrow> signaling_clients \<Rightarrow> signaling_clients" where
  "create_client info s = s\<lparr>clients := clients s @ [Some (fresh_client info)]\<rparr>"

definition idle :: "unit one_shot" where
  "idle = \<lparr>callback = None, pending = False\<rparr>"

definition use_timer :: "build \<Rightarrow> nat \<Rightarrow> reconnecting_client \<Rightarrow> signaling_clients \<Rightarrow> signaling_clients res" where
  "use_timer b i c s =
     (if pending (timer c) then rbind (one_shot_start b i (reconnect_timer s)) (\<lambda>t.
        Ok (put_client i (Some (c\<lparr>timer := idle\<rparr>)) (s\<lparr>reconnect_timer := t\<rparr>)))
      else Ok (put_client i (Some c) s))"

definition of_client :: "build \<Rightarrow> nat \<Rightarrow> client_event \<Rightarrow> signaling_clients \<Rightarrow> signaling_clients res" where
  "of_client b i e s = (case client_at i s of
     None \<Rightarrow> Ok s
   | Some c \<Rightarrow> if e = Timer_expired then Ok s else rbind (client_step b c e) (\<lambda>c. use_timer b i c s))"

definition destroy_client :: "nat \<Rightarrow> signaling_clients \<Rightarrow> signaling_clients" where
  "destroy_client i s = (if client_at i s = None then s
     else put_client i None (s\<lparr>reconnect_timer := one_shot_stop (reconnect_timer s)\<rparr>))"

text \<open>The callback captures the client by its address.\<close>

definition timeout :: "build \<Rightarrow> signaling_clients \<Rightarrow> signaling_clients res" where
  "timeout b s = (if \<not> pending (reconnect_timer s) then Ok s
     else rbind (one_shot_timeout b (\<lambda>i. Ok) (reconnect_timer s)) (\<lambda>t.
       case callback (reconnect_timer s) of None \<Rightarrow> Ok s
       | Some i \<Rightarrow> (case client_at i s of None \<Rightarrow> Undefined
          | Some c \<Rightarrow> rbind (reconnect b c) (\<lambda>c. Ok (put_client i (Some c) (s\<lparr>reconnect_timer := t\<rparr>))))))"

datatype clients_event = Create | Of nat client_event | Destroy nat | Timeout

fun clients_step :: "build \<Rightarrow> connect_information \<Rightarrow> signaling_clients \<Rightarrow> clients_event \<Rightarrow> signaling_clients res" where
  "clients_step b info s Create = Ok (create_client info s)"
| "clients_step b info s (Of i e) = of_client b i e s"
| "clients_step b info s (Destroy i) = Ok (destroy_client i s)"
| "clients_step b info s Timeout = timeout b s"


section \<open>What is true of them\<close>

lemma client_at_put:
  "client_at j (put_client i c s) = (if j = i \<and> i < length (clients s) then c else client_at j s)"
  by (simp add: client_at_def put_client_def)

lemma client_at_timer [simp]: "client_at i (s\<lparr>reconnect_timer := t\<rparr>) = client_at i s"
  by (simp add: client_at_def)

lemma client_at_Some: "client_at i s = Some c \<Longrightarrow> i < length (clients s)"
  by (simp add: client_at_def split: if_splits)

lemma put_timer [simp]: "reconnect_timer (put_client i c s) = reconnect_timer s"
  by (simp add: put_client_def)

lemma length_put [simp]: "length (clients (put_client i c s)) = length (clients s)"
  by (simp add: put_client_def)

lemma client_at_create:
  "client_at j (create_client info s) = (if j = length (clients s) then Some (fresh_client info) else client_at j s)"
  by (auto simp: client_at_def create_client_def nth_append)

text \<open>A step of one client uses its timer only to start it, and then it has given up its connection.\<close>

definition starts_at_most :: "reconnecting_client \<Rightarrow> reconnecting_client \<Rightarrow> bool" where
  "starts_at_most c d \<longleftrightarrow> timer d = timer c \<or> pending (timer d) \<and> delegate d = None \<and> shall_reconnect d"

lemma send_cache_timer: "rc_send_cache b s = Ok t \<Longrightarrow> timer t = timer s"
proof -
  have one: "rc_send_ice_candidate b x s = Ok t \<Longrightarrow> timer t = timer s" for x s t
    by (auto simp: rc_send_ice_candidate_def impl_send_def connection_send_def split: if_splits option.splits)
  have all: "foreach xs (rc_send_ice_candidate b) s = Ok t \<Longrightarrow> timer t = timer s" for xs s t
    by (erule foreach_invariant[where P = "\<lambda>t. timer t = timer s"]) (simp, metis one)
  have "rc_send_offer b x s = Ok t \<Longrightarrow> timer t = timer s" "rc_send_answer b y s = Ok t \<Longrightarrow> timer t = timer s"
    "rc_send_want_to_negotiate b s = Ok t \<Longrightarrow> timer t = timer s" for x y s t
    by (auto simp: rc_send_offer_def rc_send_answer_def rc_send_want_to_negotiate_def impl_send_def connection_send_def
      split: if_splits option.splits)
  note rest = this
  assume "rc_send_cache b s = Ok t"
  then show ?thesis
    by (fastforce simp: rc_send_cache_def rbind_Ok_iff dest!: all rest split: option.splits if_splits)
qed

lemma reconnect_timer_kept: "reconnect b s = Ok t \<Longrightarrow> timer t = timer s"
  by (auto simp: reconnect_def impl_connect_def Let_def split: if_splits option.splits)

lemma client_step_timer:
  assumes "client_step b c e = Ok d" "e \<noteq> Timer_expired"
  shows "starts_at_most c d"
proof (cases "\<exists>r. e = Run_done r")
  case True
  with assms show ?thesis
    by (auto simp: starts_at_most_def run_done_def reconnect_after_timeout_def one_shot_start_def rbind_Ok_iff
      split: option.splits if_splits)
next
  case False
  with assms have "timer d = timer c"
    by (cases e)
      (auto simp: rc_connect_def rc_close_def impl_close_def rc_send_offer_def rc_send_answer_def
        rc_send_ice_candidate_def rc_send_want_to_negotiate_def impl_send_def connection_send_def connected_def
        incoming_def got_registered_def Let_def rbind_Ok_iff
        dest!: send_cache_timer reconnect_timer_kept split: if_splits option.splits attempt.splits message.splits)
  then show ?thesis by (simp add: starts_at_most_def)
qed

text \<open>Private timers are idle, and the client the shared timer will call is there and waits.\<close>

definition waits :: "reconnecting_client \<Rightarrow> bool" where
  "waits c \<longleftrightarrow> delegate c = None"

definition clients_inv :: "signaling_clients \<Rightarrow> bool" where
  "clients_inv s \<longleftrightarrow> (\<forall>i c. client_at i s = Some c \<longrightarrow> timer c = idle)
     \<and> (pending (reconnect_timer s) \<longrightarrow> (\<exists>i c. callback (reconnect_timer s) = Some i \<and> client_at i s = Some c))"

lemma clients_step_inv:
  assumes "clients_inv s" "clients_step b info s e = Ok t"
  shows "clients_inv t"
proof (cases e)
  case Create
  with assms(2) have t: "t = create_client info s" by simp
  have "reconnect_timer t = reconnect_timer s" by (simp add: t create_client_def)
  moreover have "client_at i t = Some c" if "client_at i s = Some c" for i c
    using that client_at_Some[OF that] by (simp add: t client_at_create)
  moreover have "timer c = idle" if "client_at i t = Some c" for i c
    using that assms(1) by (auto simp: t client_at_create clients_inv_def fresh_client_def idle_def split: if_splits)
  ultimately show ?thesis using assms(1) by (fastforce simp: clients_inv_def)
next
  case (Of i f)
  show ?thesis
  proof (cases "client_at i s")
    case None
    with Of assms show ?thesis by (simp add: of_client_def)
  next
    case (Some c)
    show ?thesis
    proof (cases "f = Timer_expired")
      case True
      with Of Some assms show ?thesis by (simp add: of_client_def)
    next
      case False
      with Of Some assms(2) obtain d where d: "client_step b c f = Ok d" "use_timer b i d s = Ok t"
        by (auto simp: of_client_def rbind_Ok_iff)
      from assms(1) Some have "timer c = idle" by (simp add: clients_inv_def)
      with client_step_timer[OF d(1) False] have "pending (timer d) \<or> timer d = idle"
        by (auto simp: starts_at_most_def)
      with d(2) assms(1) client_at_Some[OF Some] show ?thesis
        by (auto simp: use_timer_def clients_inv_def client_at_put one_shot_start_def idle_def rbind_Ok_iff split: if_splits)
    qed
  qed
next
  case (Destroy i)
  with assms show ?thesis
    by (auto simp: destroy_client_def clients_inv_def client_at_put one_shot_stop_def split: if_splits)
next
  case Timeout
  show ?thesis
  proof (cases "pending (reconnect_timer s)")
    case False
    with Timeout assms show ?thesis by (simp add: timeout_def)
  next
    case True
    with assms(1) obtain i c where c: "callback (reconnect_timer s) = Some i" "client_at i s = Some c"
      by (auto simp: clients_inv_def)
    with Timeout True assms(2) obtain d where d: "reconnect b c = Ok d"
      "t = put_client i (Some d) (s\<lparr>reconnect_timer := (reconnect_timer s)\<lparr>pending := False, callback := None\<rparr>\<rparr>)"
      by (auto simp: timeout_def one_shot_timeout_def rbind_Ok_iff)
    with assms(1) c reconnect_timer_kept[OF d(1)] show ?thesis by (auto simp: clients_inv_def client_at_put)
  qed
qed

interpretation clients: state_machine "clients_step b info" clients_inv for b info
  by unfold_locales (rule clients_step_inv)







text \<open>A client that waits for the timer, and what lets it down: another client that loses its connection, or
  that is destroyed.\<close>

definition waiting_for_timer :: "nat \<Rightarrow> signaling_clients \<Rightarrow> bool" where
  "waiting_for_timer i s \<longleftrightarrow> pending (reconnect_timer s) \<and> callback (reconnect_timer s) = Some i
     \<and> (\<exists>c. client_at i s = Some c \<and> delegate c = None)"






lemma waiting_client_reconnects:
  assumes "waiting_for_timer i s" "client_at i s = Some c" "shall_reconnect c" "signal_connections c = 0"
  shows "\<exists>t d. clients_step b info s Timeout = Ok t \<and> client_at i t = Some d
    \<and> log d = log c @ [Connecting (factory_information c)] \<and> \<not> pending (reconnect_timer t)"
  using assms client_at_Some[OF assms(2)]
  by (auto simp: waiting_for_timer_def timeout_def one_shot_timeout_def reconnect_def impl_connect_def create_impl_def
    Let_def client_at_put emit_def)

lemma let_down_asserts:
  assumes "waiting_for_timer i s" "client_at j s = Some x" "delegate x = Some d" "running d" "shall_reconnect x" "timer x = idle"
  shows "clients_step Debug info s (Of j (Run_done Run_stopped)) = Assert_failed"
  using assms
  by (auto simp: waiting_for_timer_def of_client_def run_done_def reconnect_after_timeout_def one_shot_start_def idle_def
    use_timer_def)

end
