(* ===== verification/Wiring.thy ===== *)
theory Wiring
  imports Main "HOL-Library.Multiset"
begin

text \<open>
  How the program is put together: the module classes (utils/executor\_module.cpp,
  http/client\_module.cpp, temporary\_room/client\_module.cpp, version/client\_module.cpp,
  matrix/module.cpp, signaling/client\_module.cpp, rtc/google/module.cpp and, in client,
  session\_module.cpp, audio\_module.cpp, audio\_settings\_module.cpp, video\_module.cpp and
  desktop\_sharing\_module.cpp), app/core\_module.cpp, and the program that asks them,
  app/gui.cpp with the constructor of app/ui\_module.cpp.

  A getter of a module returns its part, and creates it first if it is not there, from
  other parts which it gets in the same way. The parts the getters need are a table for each
  module; C++ leaves the order open in which the arguments of a constructor are
  evaluated, so the getters are a relation. The state is the list of the objects created so
  far, in their order, each with the objects it was given; a getter returns a place in it.
  Configurations and what the parts do is in the other theories.
\<close>

section \<open>Parts and what they need\<close>





















section \<open>Getting a part\<close>










section \<open>What getting does\<close>





























end
