(* ===== verification/Sign_In.thy ===== *)
theory Sign_In
  imports Matrix_Client Participants
begin

text \<open>
  The two services that are asked before a room can be joined: the version server
  (version/server.cpp, version/getter.cpp) and the homeserver's registration and login
  (matrix/authentification.cpp); and joining with their answers
  (client/joiner.cpp, \<open>Participants\<close>).

  A request is what goes to the HTTP client, an answer what its future holds: a status and a
  JSON document, or an exception. The documents are those of \<open>json_ops\<close>.
\<close>

section \<open>Versions\<close>

record version_config =
  version_address :: string
  version_port :: int
  current_version :: string
  minimum_version :: string

text \<open>\<open>installed\<close> is the version the program was built with.\<close>

definition default_config :: "string \<Rightarrow> version_config" where
  "default_config installed = \<lparr>version_address = ''0.0.0.0'', version_port = 0, current_version = installed,
     minimum_version = installed\<rparr>"

text \<open>The server serialises its answer once, when it starts, and binds to its port; \<open>bound\<close> is the port the
  system gave it.\<close>

record 't version_server =
  served :: version_config
  response_body :: 't
  server_port :: int

definition start_server :: "('t, 'j) json_ops \<Rightarrow> int \<Rightarrow> version_config \<Rightarrow> 't version_server res" where
  "start_server J bound c = rbind (json_dump J (json_object J
       [(''minimum_version'', json_of_string J (minimum_version c)),
        (''current_version'', json_of_string J (current_version c))]))
     (\<lambda>body. Ok \<lparr>served = c, response_body = body, server_port = bound\<rparr>)"

definition get_port :: "build \<Rightarrow> 't version_server \<Rightarrow> int res" where
  "get_port b s = rbind (boost_assert b (server_port s \<noteq> 0)) (\<lambda>u. Ok (server_port s))"

text \<open>Every request has the same answer, which the HTTP client parses.\<close>

definition version_answer :: "('t, 'j) json_ops \<Rightarrow> 't version_server \<Rightarrow> 'j answer" where
  "version_answer J s = rbind (json_parse J (response_body s)) (\<lambda>j. Ok (200, j))"

record version_result =
  told_minimum :: string
  told_current :: string

text \<open>The status is not looked at.\<close>

definition got_version :: "('t, 'j) json_ops \<Rightarrow> 'j answer \<Rightarrow> version_result res" where
  "got_version J r = rbind r (\<lambda>(code, j).
     rbind (json_at J j ''current_version'') (\<lambda>c. rbind (json_to_string J c) (\<lambda>c.
     rbind (json_at J j ''minimum_version'') (\<lambda>m. rbind (json_to_string J m) (\<lambda>m.
     Ok \<lparr>told_minimum = m, told_current = c\<rparr>)))))"

lemma json_two_fields:
  assumes "json_laws J" "distinct (map fst kvs)" "map_of kvs k = Some (json_of_string J s)"
  shows "rbind (json_at J (json_object J kvs) k) (json_to_string J) = Ok s"
  using assms by (simp add: json_laws_def)

lemma version_read_back:
  assumes "json_laws J" "start_server J p c = Ok s"
  shows "got_version J (version_answer J s) = Ok \<lparr>told_minimum = minimum_version c, told_current = current_version c\<rparr>"
  using assms by (auto simp: start_server_def version_answer_def got_version_def json_laws_def rbind_Ok_iff)


section \<open>Registration and login\<close>

record user_information =
  username :: string
  password :: string
  wanted_device :: "string option"

record client_information =
  access_token :: string
  signed_in_user :: string
  signed_in_device :: string

definition dummy_auth :: "('t, 'j) json_ops \<Rightarrow> string \<times> 'j" where
  "dummy_auth J = (''auth'', json_object J [(''type'', json_of_string J ''m.login.dummy'')])"

definition device_field :: "('t, 'j) json_ops \<Rightarrow> string option \<Rightarrow> (string \<times> 'j) list" where
  "device_field J d = (case d of None \<Rightarrow> [] | Some i \<Rightarrow> [(''device_id'', json_of_string J i)])"

definition register_as_guest :: "('t, 'j) json_ops \<Rightarrow> 'j request" where
  "register_as_guest J = Post ''register?kind=guest'' (json_object J [dummy_auth J])"

definition register_as_user :: "'j \<Rightarrow> 'j request" where
  "register_as_user content = Post ''register?kind=user'' content"

definition register_user :: "('t, 'j) json_ops \<Rightarrow> user_information \<Rightarrow> 'j request" where
  "register_user J i = register_as_user (json_object J
     ([dummy_auth J, (''username'', json_of_string J (username i)), (''password'', json_of_string J (password i))]
      @ device_field J (wanted_device i)))"

text \<open>\<open>generated\<close> is a fresh UUID.\<close>

definition register_anonymously :: "('t, 'j) json_ops \<Rightarrow> string \<Rightarrow> 'j request" where
  "register_anonymously J generated =
     register_as_user (json_object J [dummy_auth J, (''password'', json_of_string J generated)])"

definition login :: "('t, 'j) json_ops \<Rightarrow> user_information \<Rightarrow> 'j request" where
  "login J i = Post ''login'' (json_object J
     ([(''type'', json_of_string J ''m.login.password''), (''user'', json_of_string J (username i)),
       (''password'', json_of_string J (password i))] @ device_field J (wanted_device i)
      @ [(''identifier'', json_object J [(''type'', json_of_string J ''m.id.user'')])]))"

text \<open>The same for all of them. A document without a field has null there, which is no string.\<close>

definition make_client_from_response :: "('t, 'j) json_ops \<Rightarrow> 'j answer \<Rightarrow> client_information res" where
  "make_client_from_response J r = rbind r (\<lambda>(code, j).
     rbind (if code \<noteq> 200 then check_matrix_response code else Ok ()) (\<lambda>u.
     rbind (json_at J j ''access_token'') (\<lambda>t. rbind (json_to_string J t) (\<lambda>t.
     rbind (json_at J j ''user_id'') (\<lambda>i. rbind (json_to_string J i) (\<lambda>i.
     rbind (json_at J j ''device_id'') (\<lambda>d. rbind (json_to_string J d) (\<lambda>d.
     Ok \<lparr>access_token = t, signed_in_user = i, signed_in_device = d\<rparr>))))))))"

lemma refused_sign_in: "code \<noteq> 200 \<Longrightarrow> make_client_from_response J (Ok (code, j)) = Throw Response_error"
  by (simp add: make_client_from_response_def check_matrix_response_def)

definition accepted :: "('t, 'j) json_ops \<Rightarrow> client_information \<Rightarrow> 'j answer" where
  "accepted J c = Ok (200, json_object J
     [(''access_token'', json_of_string J (access_token c)), (''user_id'', json_of_string J (signed_in_user c)),
      (''device_id'', json_of_string J (signed_in_device c))])"

lemma accepted_sign_in: "json_laws J \<Longrightarrow> make_client_from_response J (accepted J c) = Ok c"
  by (simp add: make_client_from_response_def accepted_def json_laws_def)


section \<open>Joining with the two services\<close>

definition services ::
    "('t, 'j) json_ops \<Rightarrow> 't version_server \<Rightarrow> 'j answer \<Rightarrow> unit res \<Rightarrow> string res \<Rightarrow> string res \<Rightarrow> join_services" where
  "services J v registered named temporary room = \<lparr>
     version_result = rbind (got_version J (version_answer J v)) (\<lambda>r. Ok (told_minimum r)),
     register_result = rbind (make_client_from_response J registered) (\<lambda>c. Ok (signed_in_user c)),
     name_result = named, temporary_result = temporary, room_result = room\<rparr>"

text \<open>C28. The version server decides who comes in. A client whose version is less than the configured
  minimum in the order of words, character by character up to the first dash of each, asks for nothing else and fails; any
  other registers, and if the homeserver accepts or refuses it, goes on as exactly the user that was registered, or fails
  with the refusal. (The order is not that of versions: \<open>1.10\<close> is less than \<open>1.9\<close>, so a newer client
  can be refused and an older one let in, see \<open>newer_version_refused\<close> in \<open>Participants\<close>.)\<close>

theorem version_decides:
  assumes "json_laws J" "start_server J p c = Ok v"
  shows "joiner_join installed name place (services J v registered named temporary room) [] =
    (if string_less (cut_version installed) (cut_version (minimum_version c)) then ([Get_version], Throw Runtime_error)
     else case make_client_from_response J registered of
       Ok i \<Rightarrow> joiner_join installed name place \<lparr>version_result = Ok installed, register_result = Ok (signed_in_user i),
         name_result = named, temporary_result = temporary, room_result = room\<rparr> []
     | Throw e \<Rightarrow> ([Get_version, Register_anonymously], Throw e)
     | Assert_failed \<Rightarrow> ([Get_version, Register_anonymously], Assert_failed)
     | Undefined \<Rightarrow> ([Get_version, Register_anonymously], Undefined))"
proof -
  have irrefl: "\<not> string_less x x" for x
    by (induction x) simp_all
  have "version_result (services J v registered named temporary room) = Ok (minimum_version c)"
    by (simp add: services_def version_read_back[OF assms])
  then show ?thesis
    by (cases "make_client_from_response J registered")
      (simp_all add: joiner_join_def asked_def prog_eval on_version_def irrefl services_def version_read_back[OF assms])
qed

theorem version_decides_witness:
  "\<exists>v. start_server plain_json 80 \<lparr>version_address = ''a'', version_port = 0, current_version = ''1.3.0'', minimum_version = ''1.2.0''\<rparr> = Ok v
    \<and> joiner_join ''1.1.9-rc1'' ''Anna'' ''room'' (services plain_json v (Ok (403, JNull)) (Ok ()) (Ok ''!r'') (Ok ''!r'')) [] =
      ([Get_version], Throw Runtime_error)
    \<and> joiner_join ''1.2.0-dev'' ''Anna'' ''room'' (services plain_json v (Ok (403, JNull)) (Ok ()) (Ok ''!r'') (Ok ''!r'')) [] =
      ([Get_version, Register_anonymously], Throw Response_error)"
proof -
  let ?c = "\<lparr>version_address = ''a'', version_port = 0, current_version = ''1.3.0'', minimum_version = ''1.2.0''\<rparr>"
  obtain v where v: "start_server plain_json 80 ?c = Ok v" by (auto simp: start_server_def plain_json_def)
  note g = version_decides[OF plain_json_laws v]
  have less: "string_less (cut_version ''1.1.9-rc1'') (cut_version ''1.2.0'')"
    "\<not> string_less (cut_version ''1.2.0-dev'') (cut_version ''1.2.0'')" by code_simp+
  have no: "make_client_from_response plain_json (Ok (403, JNull)) = Throw Response_error"
    by (rule refused_sign_in) simp
  show ?thesis using v g[of "''1.1.9-rc1''"] g[of "''1.2.0-dev''"] less no by auto
qed

end
