(* ===== verification/Program_Settings.thy ===== *)
theory Program_Settings
  imports Descriptions
begin

text \<open>
  Settings and what is made from them: the words of the command line (rtc/google/settings.cpp,
  utils/logging/severity.cpp), the servers and options (app/core\_module.cpp, app/gui\_options.cpp,
  app/gui.cpp), and the factory of the media library that is created with them
  (rtc/google/factory.cpp).

  A stream of characters is a string; reading a word skips white space and stops at white
  space. The media library is known by what it can create.
\<close>

section \<open>Words\<close>

datatype layer =
    Default | Windows_core | Windows_core2 | Linux_alsa | Linux_pulse | Android_java | Android_open_sles
  | Android_java_input_and_open_sles_output | Android_aaudio | Android_java_input_and_aaudio_output | Dummy

fun show_layer :: "layer \<Rightarrow> string" where
  "show_layer Default = ''default''"
| "show_layer Windows_core = ''windows_core''"
| "show_layer Windows_core2 = ''windows_core2''"
| "show_layer Linux_alsa = ''linux_alsa''"
| "show_layer Linux_pulse = ''linux_pulse''"
| "show_layer Android_java = ''android_java''"
| "show_layer Android_open_sles = ''android_open_sles''"
| "show_layer Android_java_input_and_open_sles_output = ''android_java_input_and_open_sles_output''"
| "show_layer Android_aaudio = ''android_aaudio''"
| "show_layer Android_java_input_and_aaudio_output = ''android_java_input_and_aaudio_output''"
| "show_layer Dummy = ''dummy''"

definition is_space :: "char \<Rightarrow> bool" where
  "is_space c \<longleftrightarrow> c \<in> set [CHR '' '', CHR 0x09, CHR 0x0A, CHR 0x0B, CHR 0x0C, CHR 0x0D]"

definition read_word :: "string \<Rightarrow> string \<times> string" where
  "read_word s = (let t = dropWhile is_space s in (takeWhile (\<lambda>c. \<not> is_space c) t, dropWhile (\<lambda>c. \<not> is_space c) t))"

definition parse_layer :: "string \<Rightarrow> layer res" where
  "parse_layer word =
     (if word = ''default'' then Ok Default
      else if word = ''windows_core'' then Ok Windows_core
      else if word = ''windows_core2'' then Ok Windows_core2
      else if word = ''linux_alsa'' then Ok Linux_alsa
      else if word = ''linux_pulse'' then Ok Linux_pulse
      else if word = ''android_java'' then Ok Android_java
      else if word = ''android_open_sles'' then Ok Android_open_sles
      else if word = ''android_java_input_and_open_sles_output'' then Ok Android_java_input_and_open_sles_output
      else if word = ''android_aaudio'' then Ok Android_aaudio
      else if word = ''android_java_input_and_aaudio_output'' then Ok Android_java_input_and_aaudio_output
      else if word = ''dummy'' then Ok Dummy
      else Throw Runtime_error)"

definition read_layer :: "string \<Rightarrow> (layer \<times> string) res" where
  "read_layer s = (case read_word s of (w, rest) \<Rightarrow> rbind (parse_layer w) (\<lambda>l. Ok (l, rest)))"

datatype severity = Trace | Debugging | Info | Warning | Severe | Fatal

fun show_severity :: "severity \<Rightarrow> string" where
  "show_severity Trace = ''trace''"
| "show_severity Debugging = ''debug''"
| "show_severity Info = ''info''"
| "show_severity Warning = ''warning''"
| "show_severity Severe = ''error''"
| "show_severity Fatal = ''fatal''"

text \<open>A word that is none of these only fails an assertion; without it the variable keeps its value.\<close>

definition parse_severity :: "build \<Rightarrow> severity \<Rightarrow> string \<Rightarrow> severity res" where
  "parse_severity b old word =
     (if word = ''trace'' then Ok Trace
      else if word = ''debug'' then Ok Debugging
      else if word = ''info'' then Ok Info
      else if word = ''warning'' then Ok Warning
      else if word = ''error'' then Ok Severe
      else if word = ''fatal'' then Ok Fatal
      else rbind (boost_assert b False) (\<lambda>u. Ok old))"

definition read_severity :: "build \<Rightarrow> severity \<Rightarrow> string \<Rightarrow> (severity \<times> string) res" where
  "read_severity b old s = (case read_word s of (w, rest) \<Rightarrow> rbind (parse_severity b old w) (\<lambda>v. Ok (v, rest)))"

lemma read_word_append:
  assumes "w \<noteq> []" "\<forall>c \<in> set w. \<not> is_space c" "rest = [] \<or> is_space (hd rest)"
  shows "read_word (w @ rest) = (w, rest)"
proof -
  have "dropWhile is_space (w @ rest) = w @ rest" using assms(1,2) by (cases w) auto
  moreover have "takeWhile (\<lambda>c. \<not> is_space c) rest = []" "dropWhile (\<lambda>c. \<not> is_space c) rest = rest"
    using assms(3) by (cases rest; simp)+
  ultimately show ?thesis using assms(2) by (simp add: read_word_def takeWhile_append2 dropWhile_append2)
qed

lemma parse_show_layer: "parse_layer (show_layer l) = Ok l"
  by (cases l) (simp_all add: parse_layer_def)

lemma parse_show_severity: "parse_severity b old (show_severity v) = Ok v"
  by (cases v) (simp_all add: parse_severity_def)

lemma layer_word: "show_layer l \<noteq> [] \<and> (\<forall>c \<in> set (show_layer l). \<not> is_space c)"
  by (cases l) (simp_all add: is_space_def)

lemma severity_word: "show_severity v \<noteq> [] \<and> (\<forall>c \<in> set (show_severity v). \<not> is_space c)"
  by (cases v) (simp_all add: is_space_def)

text \<open>What is printed is read back: a layer and a severity are words of their own, whatever follows after white
  space, and the reading stops before it.\<close>

theorem words_read_back:
  assumes "rest = [] \<or> is_space (hd rest)"
  shows "read_layer (show_layer l @ rest) = Ok (l, rest) \<and> read_severity b old (show_severity v @ rest) = Ok (v, rest)"
  using read_word_append[OF _ _ assms, of "show_layer l"] read_word_append[OF _ _ assms, of "show_severity v"]
  by (simp add: read_layer_def read_severity_def layer_word severity_word parse_show_layer parse_show_severity)

theorem words_read_back_witness:
  "read_layer ''linux_alsa debug'' = Ok (Linux_alsa, '' debug'')
   \<and> read_severity Debug Info ''debug x'' = Ok (Debugging, '' x'')"
  using words_read_back[of "'' debug''" Linux_alsa Debug Info Debugging]
    words_read_back[of "'' x''" Linux_alsa Debug Info Debugging] by (simp add: is_space_def)

text \<open>Other words: a layer is refused, a severity ends a Debug build and is ignored by a Release build.\<close>

lemma parse_layer_cases: "parse_layer w = Throw Runtime_error \<or> (\<exists>l. parse_layer w = Ok l \<and> w = show_layer l)"
  by (simp add: parse_layer_def)

lemma unknown_layer: "(\<And>l. w \<noteq> show_layer l) \<Longrightarrow> parse_layer w = Throw Runtime_error"
  using parse_layer_cases[of w] by blast

lemma parse_severity_cases:
  "parse_severity b old w = rbind (boost_assert b False) (\<lambda>u. Ok old) \<or> (\<exists>v. parse_severity b old w = Ok v \<and> w = show_severity v)"
  by (simp add: parse_severity_def)

lemma unknown_severity:
  assumes "\<And>v. w \<noteq> show_severity v"
  shows "parse_severity b old w = (if b = Debug then Assert_failed else Ok old)"
proof -
  from parse_severity_cases[of b old w] assms have "parse_severity b old w = rbind (boost_assert b False) (\<lambda>u. Ok old)" by blast
  then show ?thesis by (cases b) (simp_all add: boost_assert_def)
qed


section \<open>Options and servers\<close>

record audio_options =
  layer :: layer
  jitter_buffer_max_packets :: int
  jitter_buffer_fast_accelerate :: bool
  jitter_buffer_min_delay_ms :: int
  jitter_buffer_enable_rtx_handling :: bool
  processing :: "(string \<times> bool) list"

record media_settings =
  use_ip_v6 :: bool
  ipv6_off_on_wifi :: bool
  audio :: audio_options

definition default_settings :: media_settings where
  "default_settings = \<lparr>use_ip_v6 = True, ipv6_off_on_wifi = False, audio = \<lparr>layer = Default,
     jitter_buffer_max_packets = 200, jitter_buffer_fast_accelerate = False, jitter_buffer_min_delay_ms = 0,
     jitter_buffer_enable_rtx_handling = False,
     processing = map (\<lambda>f. (f, True)) [''echo_canceller'', ''gain_controller'', ''high_pass_filter'', ''voice_detection'',
       ''noise_suppression'', ''typing_detection'']\<rparr>\<rparr>"

record server_options =
  server_host :: string
  server_service :: string
  server_secure :: bool
  server_target :: string

datatype backend = Google | Gstreamer

record core_options =
  rtc_backend :: backend
  signaling_server :: server_options
  matrix_server :: server_options
  temporary_server :: server_options
  versions_server :: server_options
  rtc_settings :: media_settings

definition default_server :: "string \<Rightarrow> server_options" where
  "default_server target = \<lparr>server_host = ''fubble.io'', server_service = ''https'', server_secure = True, server_target = target\<rparr>"

definition default_core :: core_options where
  "default_core = \<lparr>rtc_backend = Google, signaling_server = default_server ''/api/signaling/v0/'',
     matrix_server = default_server ''/api/matrix/v0/_matrix/client/r0/'',
     temporary_server = default_server ''/api/temporary_room/v0/'', versions_server = default_server ''/api/version/v0/'',
     rtc_settings = default_settings\<rparr>"

definition set_server :: "string \<Rightarrow> string \<Rightarrow> bool \<Rightarrow> server_options \<Rightarrow> server_options" where
  "set_server host service use_ssl s = s\<lparr>server_host := host, server_service := service, server_secure := use_ssl\<rparr>"

definition set_default_servers :: "string \<Rightarrow> string \<Rightarrow> bool \<Rightarrow> core_options \<Rightarrow> core_options" where
  "set_default_servers host service use_ssl c = (let f = set_server host service use_ssl in
     c\<lparr>signaling_server := f (signaling_server c), matrix_server := f (matrix_server c),
       temporary_server := f (temporary_server c), versions_server := f (versions_server c)\<rparr>)"

text \<open>A backend that is not compiled in leaves the module empty.\<close>

definition get_rtc_module :: "build \<Rightarrow> core_options \<Rightarrow> media_settings option res" where
  "get_rtc_module b c = (case rtc_backend c of
     Google \<Rightarrow> Ok (Some (rtc_settings c))
   | Gstreamer \<Rightarrow> rbind (boost_assert b False) (\<lambda>u. Ok None))"

text \<open>What the window's command line can set.\<close>

record gui_options =
  general_host :: string
  general_service :: string
  use_ipv6 :: bool
  use_ssl :: bool
  log_severity :: severity
  video_support :: bool
  desktop_support :: bool
  use_crash_catcher :: bool
  log_webrtc :: bool
  client_core :: core_options

definition default_gui :: gui_options where
  "default_gui = \<lparr>general_host = ''fubble.io'', general_service = ''https'', use_ipv6 = True, use_ssl = True,
     log_severity = Debugging, video_support = True, desktop_support = True, use_crash_catcher = True, log_webrtc = False,
     client_core = default_core\<rparr>"

datatype gui_option =
    Set_host string | Set_service string | Set_use_ipv6 bool | Set_use_ssl bool | Set_crash_catcher bool
  | Set_log_webrtc bool | Set_video bool | Set_log_severity string | Set_audio_layer string

text \<open>The options are cast from their text without skipping white space, and nothing may be left of it. The
  cast reads into a new value, which for a severity is the first one, \<open>trace\<close>.\<close>

definition option_value :: "(string \<Rightarrow> 'a res) \<Rightarrow> string \<Rightarrow> 'a res" where
  "option_value parse x = (let w = takeWhile (\<lambda>c. \<not> is_space c) x in
     rbind (parse w) (\<lambda>v. if w = [] \<or> w \<noteq> x then Throw Runtime_error else Ok v))"

fun set_option :: "build \<Rightarrow> gui_option \<Rightarrow> gui_options \<Rightarrow> gui_options res" where
  "set_option b (Set_host x) g = Ok (g\<lparr>general_host := x\<rparr>)"
| "set_option b (Set_service x) g = Ok (g\<lparr>general_service := x\<rparr>)"
| "set_option b (Set_use_ipv6 x) g = Ok (g\<lparr>use_ipv6 := x\<rparr>)"
| "set_option b (Set_use_ssl x) g = Ok (g\<lparr>use_ssl := x\<rparr>)"
| "set_option b (Set_crash_catcher x) g = Ok (g\<lparr>use_crash_catcher := x\<rparr>)"
| "set_option b (Set_log_webrtc x) g = Ok (g\<lparr>log_webrtc := x\<rparr>)"
| "set_option b (Set_video x) g = Ok (g\<lparr>video_support := x\<rparr>)"
| "set_option b (Set_log_severity x) g =
     rbind (option_value (parse_severity b Trace) x) (\<lambda>v. Ok (g\<lparr>log_severity := v\<rparr>))"
| "set_option b (Set_audio_layer x) g = rbind (option_value parse_layer x) (\<lambda>l. Ok (g\<lparr>client_core := (client_core g)
     \<lparr>rtc_settings := (rtc_settings (client_core g))\<lparr>audio := (audio (rtc_settings (client_core g)))\<lparr>layer := l\<rparr>\<rparr>\<rparr>\<rparr>))"

text \<open>An option that is given twice is refused.\<close>

primrec option_name :: "gui_option \<Rightarrow> string" where
  "option_name (Set_host x) = ''host''"
| "option_name (Set_service x) = ''service''"
| "option_name (Set_use_ipv6 x) = ''use-ipv6''"
| "option_name (Set_use_ssl x) = ''use-ssl''"
| "option_name (Set_crash_catcher x) = ''use-crash-catcher''"
| "option_name (Set_log_webrtc x) = ''log-webrtc''"
| "option_name (Set_video x) = ''video''"
| "option_name (Set_log_severity x) = ''log-severity''"
| "option_name (Set_audio_layer x) = ''audio-layer''"

definition same_option :: "gui_option \<Rightarrow> gui_option \<Rightarrow> bool" where
  "same_option x y \<longleftrightarrow> option_name x = option_name y"

fun store_options :: "build \<Rightarrow> gui_option list \<Rightarrow> gui_option list \<Rightarrow> gui_options \<Rightarrow> gui_options res" where
  "store_options b seen [] g = Ok g"
| "store_options b seen (x # xs) g = (if \<exists>y \<in> set seen. same_option x y then Throw Runtime_error
     else rbind (set_option b x g) (store_options b (x # seen) xs))"

definition parse_gui :: "build \<Rightarrow> gui_option list \<Rightarrow> gui_options res" where
  "parse_gui b xs = store_options b [] xs default_gui"

text \<open>How the window starts: what goes to the log, the core, the crash catcher and the cameras.\<close>

record gui_start =
  start_severity :: severity
  start_webrtc_log :: bool
  start_core :: core_options
  start_catcher :: bool
  start_video :: bool

definition start_gui :: "gui_options \<Rightarrow> gui_start" where
  "start_gui g = \<lparr>start_severity = log_severity g, start_webrtc_log = log_webrtc g,
     start_core = set_default_servers (general_host g) (general_service g) (use_ssl g) default_core,
     start_catcher = use_crash_catcher g, start_video = video_support g\<rparr>"

text \<open>All four services are asked at the host that was chosen, each at its own path.\<close>

lemma one_host:
  assumes "f \<in> {signaling_server, matrix_server, temporary_server, versions_server}"
  shows "f (set_default_servers h v ssl c) = (f c)\<lparr>server_host := h, server_service := v, server_secure := ssl\<rparr>"
  using assms by (auto simp: set_default_servers_def set_server_def)

text \<open>The layer and IPv6 are parsed, and then nothing is done with them: the window always starts with the default
  settings of the media library.\<close>

lemma media_options_ignored: "rtc_settings (start_core (start_gui g)) = default_settings"
  by (simp add: start_gui_def set_default_servers_def default_core_def Let_def)

text \<open>What of the command line is in a result: an option that was given, or the default of one that was not.\<close>

definition holds_option :: "build \<Rightarrow> gui_options \<Rightarrow> gui_option \<Rightarrow> bool" where
  "holds_option b g x = (case x of
     Set_host h \<Rightarrow> general_host g = h
   | Set_service v \<Rightarrow> general_service g = v
   | Set_use_ipv6 v \<Rightarrow> use_ipv6 g = v
   | Set_use_ssl v \<Rightarrow> use_ssl g = v
   | Set_crash_catcher v \<Rightarrow> use_crash_catcher g = v
   | Set_log_webrtc v \<Rightarrow> log_webrtc g = v
   | Set_video v \<Rightarrow> video_support g = v
   | Set_log_severity w \<Rightarrow> w = show_severity (log_severity g)
       \<or> b = Release \<and> (\<forall>v. w \<noteq> show_severity v) \<and> log_severity g = Trace
   | Set_audio_layer w \<Rightarrow> w = show_layer (layer (audio (rtc_settings (client_core g)))))"

definition like_default :: "gui_options \<Rightarrow> gui_option \<Rightarrow> bool" where
  "like_default g x = (case x of
     Set_host _ \<Rightarrow> general_host g = ''fubble.io''
   | Set_service _ \<Rightarrow> general_service g = ''https''
   | Set_use_ipv6 _ \<Rightarrow> use_ipv6 g
   | Set_use_ssl _ \<Rightarrow> use_ssl g
   | Set_crash_catcher _ \<Rightarrow> use_crash_catcher g
   | Set_log_webrtc _ \<Rightarrow> \<not> log_webrtc g
   | Set_video _ \<Rightarrow> video_support g
   | Set_log_severity _ \<Rightarrow> log_severity g = Debugging
   | Set_audio_layer _ \<Rightarrow> layer (audio (rtc_settings (client_core g))) = Default)"

lemma same_option_refl [simp]: "same_option x x"
  by (simp add: same_option_def)

lemma option_value_Ok: "option_value f x = Ok v \<longleftrightarrow> f x = Ok v \<and> x \<noteq> [] \<and> (\<forall>c \<in> set x. \<not> is_space c)"
proof -
  obtain w where w: "takeWhile (\<lambda>c. \<not> is_space c) x = w" by blast
  then have "w = x \<longleftrightarrow> (\<forall>c \<in> set x. \<not> is_space c)" using takeWhile_eq_all_conv by metis
  then show ?thesis by (auto simp: option_value_def Let_def rbind_Ok_iff w)
qed

lemma severity_Ok:
  "parse_severity b old w = Ok v \<Longrightarrow> w = show_severity v \<or> b = Release \<and> (\<forall>u. w \<noteq> show_severity u) \<and> v = old"
  using parse_show_severity unknown_severity[of w b old] by (metis res.distinct(3) res.inject(1) build.exhaust)

lemma layer_Ok: "parse_layer w = Ok l \<Longrightarrow> w = show_layer l"
  using parse_layer_cases[of w] by auto

lemma set_option_holds:
  assumes "set_option b x g = Ok h" "like_default g x"
  shows "holds_option b h x"
  using assms
  by (cases x) (auto simp: holds_option_def like_default_def rbind_Ok_iff option_value_Ok dest!: severity_Ok layer_Ok)

lemma set_option_keeps:
  assumes "set_option b x g = Ok h" "\<not> same_option x y"
  shows "holds_option b h y = holds_option b g y" "like_default h y = like_default g y"
  using assms
  by (cases x; cases y; auto simp: holds_option_def like_default_def rbind_Ok_iff same_option_def)+

lemma same_option_sym: "same_option x y = same_option y x"
  by (auto simp: same_option_def)

lemma same_option_trans: "same_option x y \<Longrightarrow> same_option y z \<Longrightarrow> same_option x z"
  by (simp add: same_option_def)

lemma store_options_result:
  assumes "store_options b seen xs g = Ok h"
    and "\<forall>x \<in> set seen. holds_option b g x" "\<forall>x. (\<forall>y \<in> set seen. \<not> same_option x y) \<longrightarrow> like_default g x"
  shows "(\<forall>x \<in> set seen \<union> set xs. holds_option b h x)
    \<and> distinct (map option_name xs) \<and> (\<forall>x \<in> set xs. \<forall>y \<in> set seen. \<not> same_option x y) \<and> (\<forall>x. (\<forall>y \<in> set seen \<union> set xs. \<not> same_option x y) \<longrightarrow> like_default h x)"
  using assms
proof (induction xs arbitrary: seen g)
  case Nil
  then show ?case by simp
next
  case (Cons x xs)
  from Cons.prems(1) obtain f where new: "\<forall>y \<in> set seen. \<not> same_option x y" and f: "set_option b x g = Ok f"
    "store_options b (x # seen) xs f = Ok h" by (auto simp: rbind_Ok_iff split: if_splits)
  have "\<forall>y \<in> set (x # seen). holds_option b f y"
    using set_option_holds[OF f(1)] set_option_keeps(1)[OF f(1)] new Cons.prems(2,3) by simp
  moreover have "\<forall>y. (\<forall>z \<in> set (x # seen). \<not> same_option y z) \<longrightarrow> like_default f y"
    using set_option_keeps(2)[OF f(1)] Cons.prems(3) same_option_sym by auto
  ultimately have "(\<forall>y \<in> set (x # seen) \<union> set xs. holds_option b h y) \<and> distinct (map option_name xs)
      \<and> (\<forall>y \<in> set xs. \<forall>z \<in> set (x # seen). \<not> same_option y z)
      \<and> (\<forall>y. (\<forall>z \<in> set (x # seen) \<union> set xs. \<not> same_option y z) \<longrightarrow> like_default h y)"
    by (rule Cons.IH[OF f(2)])
  with new show ?case by (auto simp: same_option_def)
qed

text \<open>C30. The command line of the window. If it is accepted, no option is given twice, and in whatever order they are
  given, each takes its value and all others keep their defaults; then all four services are asked at the one host
  that was chosen, log and cameras are as chosen, but the media library starts with its defaults: the options
  for IPv6 and for the audio layer have no effect. An option that takes words and is given none of them is not
  accepted, with one exception: a severity that is none is taken for \<open>trace\<close> by a Release build (and stops a Debug
  build).\<close>

theorem options_decide_start:
  assumes "parse_gui b xs = Ok g"
  shows "distinct (map option_name xs)
    \<and> (\<forall>x \<in> set xs. holds_option b g x) \<and> (\<forall>x. (\<forall>y \<in> set xs. \<not> same_option x y) \<longrightarrow> like_default g x)
    \<and> (\<forall>f \<in> {signaling_server, matrix_server, temporary_server, versions_server}.
        f (start_core (start_gui g)) = (f default_core)
          \<lparr>server_host := general_host g, server_service := general_service g, server_secure := use_ssl g\<rparr>)
    \<and> start_severity (start_gui g) = log_severity g \<and> start_webrtc_log (start_gui g) = log_webrtc g
    \<and> start_video (start_gui g) = video_support g \<and> rtc_settings (start_core (start_gui g)) = default_settings"
proof -
  have "like_default default_gui x" for x
    by (simp add: like_default_def default_gui_def default_core_def default_settings_def split: gui_option.split)
  with store_options_result[OF assms[unfolded parse_gui_def]] media_options_ignored[of g] one_host
  show ?thesis by (simp add: start_gui_def)
qed

theorem options_decide_start_witness:
  "\<exists>g. parse_gui Debug [Set_audio_layer ''linux_alsa'', Set_host ''a.b'', Set_log_severity ''error''] = Ok g
    \<and> start_severity (start_gui g) = Severe \<and> server_host (matrix_server (start_core (start_gui g))) = ''a.b''
    \<and> layer (audio (rtc_settings (client_core g))) = Linux_alsa
    \<and> layer (audio (rtc_settings (start_core (start_gui g)))) = Default"
proof -
  have "ran (parse_gui Debug [Set_audio_layer ''linux_alsa'', Set_host ''a.b'', Set_log_severity ''error'']) (\<lambda>g.
      log_severity g = Severe \<and> general_host g = ''a.b'' \<and> layer (audio (rtc_settings (client_core g))) = Linux_alsa)"
    by code_simp
  then obtain g where g: "parse_gui Debug [Set_audio_layer ''linux_alsa'', Set_host ''a.b'', Set_log_severity ''error''] = Ok g"
    "log_severity g = Severe" "general_host g = ''a.b''" "layer (audio (rtc_settings (client_core g))) = Linux_alsa"
    by (auto dest!: ranD)
  from options_decide_start[OF g(1)] g show ?thesis by (auto simp: default_settings_def)
qed


lemma unknown_severity_traces:
  "ran (parse_gui Release [Set_log_severity ''verbose'']) (\<lambda>g. log_severity g = Trace)"
  by code_simp


section \<open>The factory of the media library\<close>

record media_library =
  layer_works :: "layer \<Rightarrow> bool"
  makes_factory :: bool

record factory =
  factory_settings :: media_settings
  own_signaling_thread :: bool
  device_module :: "layer option"

definition instance_threads :: "bool \<Rightarrow> factory \<Rightarrow> factory" where
  "instance_threads given s = (if given then s else s\<lparr>own_signaling_thread := True\<rparr>)"

definition instance_audio_device_module :: "build \<Rightarrow> media_library \<Rightarrow> factory \<Rightarrow> factory res" where
  "instance_audio_device_module b lib s = (let l = layer (audio (factory_settings s)) in
     rbind (boost_assert b (layer_works lib l)) (\<lambda>u. Ok (s\<lparr>device_module := if layer_works lib l then Some l else None\<rparr>)))"

text \<open>\<open>audio_devices\<close> gets the module by reference.\<close>

definition instance_audio :: "build \<Rightarrow> media_library \<Rightarrow> factory \<Rightarrow> factory res" where
  "instance_audio b lib s = rbind (instance_audio_device_module b lib s) (\<lambda>s.
     if device_module s = None then Undefined else Ok s)"

definition instance_factory :: "media_library \<Rightarrow> factory \<Rightarrow> factory res" where
  "instance_factory lib s = (if makes_factory lib then Ok s else Throw Runtime_error)"

text \<open>\<open>encoder\<close> tells whether a factory for video encoders was given.\<close>

definition instance_video :: "build \<Rightarrow> bool \<Rightarrow> factory \<Rightarrow> factory res" where
  "instance_video b encoder s = rbind (boost_assert b encoder) (\<lambda>u. if encoder then Ok s else Undefined)"

definition new_factory :: "build \<Rightarrow> media_library \<Rightarrow> bool \<Rightarrow> bool \<Rightarrow> media_settings \<Rightarrow> factory res" where
  "new_factory b lib encoder given_thread st = block
     [\<lambda>s. Ok (instance_threads given_thread s), instance_audio b lib, instance_video b encoder, instance_factory lib]
     \<lparr>factory_settings = st, own_signaling_thread = False, device_module = None\<rparr>"

record rtc_configuration =
  disable_ipv6 :: bool
  disable_ipv6_on_wifi :: bool
  audio_jitter_buffer :: "int \<times> bool \<times> int \<times> bool"
  ice_servers :: "(string \<times> string) list"

definition configuration_of :: "media_settings \<Rightarrow> rtc_configuration" where
  "configuration_of st = \<lparr>disable_ipv6 = (\<not> use_ip_v6 st), disable_ipv6_on_wifi = ipv6_off_on_wifi st,
     audio_jitter_buffer = (jitter_buffer_max_packets (audio st), jitter_buffer_fast_accelerate (audio st),
       jitter_buffer_min_delay_ms (audio st), jitter_buffer_enable_rtx_handling (audio st)),
     ice_servers = [(''turn:fubble.io'', ''fubble'')]\<rparr>"

text \<open>\<open>made\<close> tells whether the media library makes the connection.\<close>

definition create_connection :: "build \<Rightarrow> bool \<Rightarrow> factory \<Rightarrow> (rtc_configuration \<times> peer) res" where
  "create_connection b made s = (if \<not> made then Throw Runtime_error
     else rbind (initialise b True new_peer) (\<lambda>p. Ok (configuration_of (factory_settings s), p)))"

text \<open>A source of another backend is a null pointer after the cast; a track that can not be made throws.\<close>

definition create_video_track :: "build \<Rightarrow> bool \<Rightarrow> bool \<Rightarrow> unit res" where
  "create_video_track b made source = rbind (boost_assert b made) (\<lambda>u. if \<not> made then Throw Runtime_error
     else rbind (boost_assert b source) (\<lambda>u. if source then Ok () else Undefined))"

definition create_audio_track :: "bool \<Rightarrow> unit res" where
  "create_audio_track source = (if source then Ok () else Undefined)"

lemma new_factory_Ok:
  assumes "layer_works lib (layer (audio st))" "makes_factory lib"
  shows "new_factory b lib True g st =
    Ok \<lparr>factory_settings = st, own_signaling_thread = (\<not> g), device_module = Some (layer (audio st))\<rparr>"
  using assms
  by (simp add: new_factory_def instance_threads_def instance_audio_def instance_audio_device_module_def instance_video_def
    instance_factory_def Let_def)

text \<open>A layer that the platform does not have is a word of the command line like the others, but no error the program
  could tell: a Debug build ends in an assertion and a Release build uses a null pointer.\<close>

lemma missing_layer:
  assumes "\<not> layer_works lib (layer (audio st))"
  shows "new_factory b lib encoder g st = (if b = Debug then Assert_failed else Undefined)"
  using assms
  by (cases b) (simp_all add: new_factory_def instance_audio_def instance_audio_device_module_def Let_def boost_assert_def
    instance_threads_def)

lemma connection_configured:
  "create_connection b True s = Ok (configuration_of (factory_settings s), new_peer\<lparr>initialised := True\<rparr>)"
  by (simp add: create_connection_def initialise_def new_peer_def)

end
