(* ===== verification/Two_Peers.thy ===== *)
theory Two_Peers
  imports Signaling_Server Negotiation
begin

text \<open>
  Two clients that negotiate through the signaling server: the composition of two ends
  (\<open>Negotiation\<close>, client/p2p/negotiation) with the server they are registered at
  (\<open>Registration\<close>, \<open>Device\<close>), as client/peer.cpp puts an end together.

  The clients are numbered \<open>False\<close> and \<open>True\<close>. Messages travel in order in both
  directions (\<open>Websocket\<close>): a client has sent \<open>signaled\<close>, the server \<open>sent\<close>, and
  counters say how much of it has arrived. Any order of deliveries, of the results of the
  media library and of new wishes is a run. Both are registered and stay connected; what
  a new registration does is in \<open>Signaling_Server\<close>.
\<close>

section \<open>The system\<close>

definition num :: "bool \<Rightarrow> nat" where
  "num i = (if i then 1 else 0)"

record two_peers =
  at_server :: server
  peers :: "bool \<Rightarrow> offer_answer"
  up_read :: "bool \<Rightarrow> nat"
  down_read :: "bool \<Rightarrow> nat"

fun to_wire :: "signal_message \<Rightarrow> message" where
  "to_wire signal_message.Want_to_negotiate = message.Want_to_negotiate"
| "to_wire (Send_offer t) = Offer \<lparr>offer_sdp = t\<rparr>"
| "to_wire (Send_answer t) = Answer \<lparr>answer_sdp = t\<rparr>"
| "to_wire (Send_candidate c) = Ice_candidate
     \<lparr>Json_Message.ice_candidate.mlineindex = word_of_int (Negotiation.mlineindex c),
      Json_Message.ice_candidate.mid = Negotiation.mid c, ice_sdp = candidate_sdp c\<rparr>"

text \<open>\<open>parses\<close> tells whether the media library can parse a candidate. The client expects no other message.\<close>

fun from_wire :: "bool \<Rightarrow> message \<Rightarrow> negotiation_event option" where
  "from_wire parses (Offer f) = Some (Got_offer (offer_sdp f))"
| "from_wire parses (Answer f) = Some (Got_answer (answer_sdp f))"
| "from_wire parses (Ice_candidate c) = Some (Got_candidate \<lparr>Negotiation.ice_candidate.mlineindex = sint (Json_Message.mlineindex c),
     Negotiation.ice_candidate.mid = Json_Message.mid c, candidate_sdp = ice_sdp c\<rparr> parses)"
| "from_wire parses message.Create_offer = Some Offer_wanted"
| "from_wire parses m = None"

definition up_queue :: "bool \<Rightarrow> two_peers \<Rightarrow> signal_message list" where
  "up_queue i s = drop (up_read s i) (signaled (peers s i))"

definition sent_to :: "nat \<Rightarrow> server \<Rightarrow> message list" where
  "sent_to c w = map snd (filter (\<lambda>(k, m). k = c) (sent w))"

definition down_queue :: "bool \<Rightarrow> two_peers \<Rightarrow> message list" where
  "down_queue i s = drop (down_read s i) (sent_to (num i) (at_server s))"

text \<open>A need to negotiate, the n-th future that ends (with the text of a description, if it is one
  of a description), a candidate that was found, and a message that arrives at the server or at the client.\<close>

datatype two_event =
    Needs bool
  | Ends bool nat "string res" "unit res"
  | Finds bool Negotiation.ice_candidate
  | Up bool
  | Down bool bool

definition description_of :: "continuation list \<Rightarrow> nat \<Rightarrow> string \<Rightarrow> session_description" where
  "description_of ks n t = \<lparr>sdp_type = (if n < length ks \<and> ks ! n = Offer_created then Sdp_offer else Sdp_answer), sdp = t\<rparr>"

definition at_peer :: "build \<Rightarrow> bool \<Rightarrow> negotiation_event \<Rightarrow> two_peers \<Rightarrow> two_peers res" where
  "at_peer b i e s = rbind (negotiation_step b (peers s i) e) (\<lambda>p. Ok (s\<lparr>peers := (peers s)(i := p)\<rparr>))"

definition arrive_up :: "build \<Rightarrow> bool \<Rightarrow> two_peers \<Rightarrow> two_peers res" where
  "arrive_up b i s = (case up_queue i s of [] \<Rightarrow> Ok s
     | m # ms \<Rightarrow> rbind (server_step b (at_server s) (Received (num i) (to_wire m)))
         (\<lambda>w. Ok (s\<lparr>at_server := w, up_read := (up_read s)(i := Suc (up_read s i))\<rparr>)))"

text \<open>A candidate that can not be parsed is an exception, which passes through the signal to the handler of the
  read (\<open>did_read\<close> of signaling/client/connection.cpp). The run of the connection ends with it, a Debug build
  asserts in \<open>run_done\<close>, and in a Release build the connection is destroyed in the middle of its read, as after a
  text that is no message (\<open>malformed_text_crashes\<close> in \<open>Client_Connection\<close>).\<close>

definition candidate_refused :: "build \<Rightarrow> two_peers res" where
  "candidate_refused b = rbind (boost_assert b False) (\<lambda>u. Undefined)"

definition arrive_down :: "build \<Rightarrow> bool \<Rightarrow> bool \<Rightarrow> two_peers \<Rightarrow> two_peers res" where
  "arrive_down b i parses s = (case down_queue i s of [] \<Rightarrow> Ok s
     | m # ms \<Rightarrow> (let t = s\<lparr>down_read := (down_read s)(i := Suc (down_read s i))\<rparr> in
         case from_wire parses m of None \<Rightarrow> rbind (boost_assert b False) (\<lambda>u. Ok t)
         | Some (Got_candidate c False) \<Rightarrow> candidate_refused b
         | Some e \<Rightarrow> at_peer b i e t))"

lemma not_refused [simp]: "candidate_refused b = Ok t \<longleftrightarrow> False"
  by (simp add: candidate_refused_def rbind_Ok_iff)

fun two_step :: "build \<Rightarrow> two_peers \<Rightarrow> two_event \<Rightarrow> two_peers res" where
  "two_step b s (Needs i) = at_peer b i Negotiation_needed s"
| "two_step b s (Ends i n d r) =
     at_peer b i (Completed n (rbind d (\<lambda>t. Ok (description_of (pending (peers s i)) n t))) r) s"
| "two_step b s (Finds i c) = at_peer b i (Candidate_found c) s"
| "two_step b s (Up i) = arrive_up b i s"
| "two_step b s (Down i parses) = arrive_down b i parses s"

text \<open>Both have registered with one key and different tokens, and know it.\<close>

definition both_registered :: "build \<Rightarrow> string \<Rightarrow> string \<Rightarrow> string \<Rightarrow> server res" where
  "both_registered b k t0 t1 = run_events (server_step b) initial_server
     [event.Connected, event.Connected, Received 0 (Registration \<lparr>key = k, reconnect_token = t0\<rparr>),
      Received 1 (Registration \<lparr>key = k, reconnect_token = t1\<rparr>)]"

definition two_start :: "server \<Rightarrow> (bool \<Rightarrow> bool \<times> bool) \<Rightarrow> two_peers" where
  "two_start w receives = \<lparr>at_server = w,
     peers = (\<lambda>i. (fresh_offer_answer (fst (receives i)) (snd (receives i)))\<lparr>connected := True\<rparr>),
     up_read = (\<lambda>i. 0), down_read = (\<lambda>i. 0)\<rparr>"


section \<open>The server and a pair\<close>

definition dev :: "bool \<Rightarrow> server \<Rightarrow> device" where
  "dev i w = the (devs w (num i))"

definition pair_at :: "server \<Rightarrow> bool" where
  "pair_at w \<longleftrightarrow> next_id w = 2 \<and> (\<forall>i. ws_alive w (num i) \<and> reading w (num i) \<and>
     (\<exists>x. devs w (num i) = Some x \<and> connection x = num i \<and> partner x = Some (num (\<not> i))))"

lemma num_inj [simp]: "num i = num j \<longleftrightarrow> i = j"
  by (simp add: num_def)

lemma pair_atD:
  assumes "pair_at w"
  shows "ws_alive w (num i)" "reading w (num i)" "devs w (num i) = Some (dev i w)" "connection (dev i w) = num i"
    "partner (dev i w) = Some (num (\<not> i))" "next_id w = 2"
proof -
  from assms obtain x where "devs w (num i) = Some x" "connection x = num i" "partner x = Some (num (\<not> i))"
    by (auto simp: pair_at_def)
  then show "devs w (num i) = Some (dev i w)" "connection (dev i w) = num i" "partner (dev i w) = Some (num (\<not> i))"
    by (simp_all add: dev_def)
qed (use assms in \<open>simp_all add: pair_at_def\<close>)

lemma subscribers_pair:
  assumes "pair_at w"
  shows "subscribers w (num i) = [num i]"
proof -
  have "[0..<next_id w] = [num False, num True]"
    by (simp add: pair_atD(6)[OF assms] num_def upt_rec)
  then show ?thesis
    using pair_atD(3,4)[OF assms, of False] pair_atD(3,4)[OF assms, of True]
    by (cases i) (simp_all add: subscribers_def)
qed

definition relayed :: "message \<Rightarrow> bool" where
  "relayed m \<longleftrightarrow> (case m of Registration r \<Rightarrow> False | message.Create_offer \<Rightarrow> False | _ \<Rightarrow> True)"

lemma server_step_pair:
  assumes "pair_at w" "relayed m"
  shows "server_step b w (Received (num i) m) = rbind (device_receive b (num i) m w) (run_next (num i))"
  using assms pair_atD(2,3)[OF assms(1), of i]
  by (cases m) (simp_all add: relayed_def message_visitor_def emit_to_devices_def subscribers_pair)

definition wanting :: "device \<Rightarrow> device" where
  "wanting x = x\<lparr>device.wants_to_negotiate := True\<rparr>"

definition asking :: "device \<Rightarrow> device" where
  "asking x = x\<lparr>active_negotiating := True, device.wants_to_negotiate := False\<rparr>"

definition done_asking :: "device \<Rightarrow> device" where
  "done_asking x = x\<lparr>active_negotiating := False\<rparr>"

definition tell :: "bool \<Rightarrow> message \<Rightarrow> server \<Rightarrow> server" where
  "tell i m w = w\<lparr>sent := sent w @ [(num i, m)]\<rparr>"

definition change :: "bool \<Rightarrow> (device \<Rightarrow> device) \<Rightarrow> server \<Rightarrow> server" where
  "change i f w = upd_dev (num i) f w"

lemma change_simps [simp]:
  "dev j (change i f w) = (if j = i then f (dev i w) else dev j w)" if "pair_at w"
proof -
  have "devs (change i f w) (num j) = (if j = i then Some (f (dev i w)) else Some (dev j w))"
    using pair_atD(3)[OF that] by (auto simp: change_def upd_dev_def)
  then show ?thesis by (simp add: dev_def)
qed

lemma tell_simps [simp]:
  "dev j (tell i m w) = dev j w" "sent_to (num j) (tell i m w) = sent_to (num j) w @ (if i = j then [m] else [])"
  "sent_to c (change i f w) = sent_to c w"
  by (simp_all add: tell_def dev_def sent_to_def change_def upd_dev_def)

lemma pair_at_tell [simp]: "pair_at (tell i m w) = pair_at w"
  by (simp add: pair_at_def tell_def)

lemma pair_at_change:
  assumes "pair_at w" "\<And>x. connection (f x) = connection x \<and> partner (f x) = partner x"
  shows "pair_at (change i f w)"
proof -
  have "devs (change i f w) (num j) = Some (if j = i then f (dev i w) else dev j w)" for j
    using pair_atD(3)[OF assms(1)] by (auto simp: change_def upd_dev_def)
  moreover have "connection (dev j w) = num j" "partner (dev j w) = Some (num (\<not> j))" for j
    using pair_atD[OF assms(1)] by simp_all
  moreover have "next_id (change i f w) = next_id w" "ws_alive (change i f w) = ws_alive w"
    "reading (change i f w) = reading w" by (simp_all add: change_def upd_dev_def)
  ultimately show ?thesis using assms by (simp add: pair_at_def)
qed

lemma pair_at_changes [simp]:
  assumes "pair_at w"
  shows "pair_at (change i wanting w)" "pair_at (change i asking w)" "pair_at (change i done_asking w)"
  using assms by (auto intro!: pair_at_change simp: wanting_def asking_def done_asking_def)

lemma run_next_pair [simp]: "pair_at w \<Longrightarrow> run_next (num i) w = Ok w"
  by (simp add: run_next_def pair_atD)

lemma negotiate_pair_eq:
  assumes "pair_at w"
  shows "negotiate (num i) w = Ok (if device.wants_to_negotiate (dev i w) \<and> \<not> active_negotiating (dev i w)
      \<and> \<not> active_negotiating (dev (\<not> i) w) then tell i message.Create_offer (change i asking w) else w)"
  using pair_atD[OF assms]
  by (auto simp: negotiate_def with_dev_def lock_partner_def conn_send_def tell_def change_def asking_def[abs_def] upd_dev_def)

lemma received_Offer:
  "pair_at w \<Longrightarrow> server_step b w (Received (num i) (Offer f)) = Ok (tell (\<not> i) (Offer f) w)"
  by (simp add: server_step_pair relayed_def Device.on_offer_def with_dev_def lock_partner_def send_offer_def send_on_def
    conn_send_def pair_atD run_next_def del: server_step.simps) (simp add: tell_def)

lemma received_Ice_candidate:
  "pair_at w \<Longrightarrow> server_step b w (Received (num i) (Ice_candidate f)) = Ok (tell (\<not> i) (Ice_candidate f) w)"
  by (simp add: server_step_pair relayed_def on_ice_candidate_def with_dev_def lock_partner_def send_ice_candidate_def
    send_on_def conn_send_def pair_atD run_next_def del: server_step.simps) (simp add: tell_def)

lemma received_Want:
  assumes "pair_at w"
  shows "server_step b w (Received (num i) message.Want_to_negotiate) =
    Ok (if active_negotiating (dev i w) \<or> active_negotiating (dev (\<not> i) w) then change i wanting w
        else tell i message.Create_offer (change i asking (change i wanting w)))"
proof -
  have w: "upd_dev (num i) (\<lambda>x. x\<lparr>device.wants_to_negotiate := True\<rparr>) w = change i wanting w"
    by (simp add: change_def wanting_def[abs_def])
  have p: "pair_at (change i wanting w)" using assms by simp
  have "on_want_to_negotiate (num i) w = negotiate (num i) (change i wanting w)"
    using pair_atD[OF p] by (simp add: on_want_to_negotiate_def w with_dev_def lock_partner_def)
  with assms p show ?thesis
    by (auto simp: server_step_pair relayed_def negotiate_pair_eq simp del: server_step.simps) (simp_all add: wanting_def)
qed

lemma received_Answer:
  assumes "pair_at w" "active_negotiating (dev (\<not> i) w)" "\<not> active_negotiating (dev i w)"
  shows "server_step b w (Received (num i) (Answer a)) =
    Ok (let v = change (\<not> i) done_asking (tell (\<not> i) (Answer a) w) in
        if device.wants_to_negotiate (dev (\<not> i) w) then tell (\<not> i) message.Create_offer (change (\<not> i) asking v)
        else if device.wants_to_negotiate (dev i w) then tell i message.Create_offer (change i asking v) else v)"
proof -
  let ?j = "\<not> i"
  let ?v = "change ?j done_asking (tell ?j (Answer a) w)"
  have p: "pair_at (tell ?j (Answer a) w)" "pair_at ?v" using assms(1) by simp_all
  have 1: "send_on (num ?j) (Answer a) w = Ok (tell ?j (Answer a) w)"
    using pair_atD[OF assms(1)] by (simp add: send_on_def with_dev_def conn_send_def tell_def)
  have 2: "is_active (tell ?j (Answer a) w) (num ?j)"
    using pair_atD(3)[OF p(1), of ?j] assms(2) by (simp add: is_active_def)
  have 3: "upd_dev (num ?j) (\<lambda>x. x\<lparr>active_negotiating := False\<rparr>) (tell ?j (Answer a) w) = ?v"
    by (simp add: change_def done_asking_def[abs_def])
  have flags: "device.wants_to_negotiate (done_asking x) = device.wants_to_negotiate x" "\<not> active_negotiating (done_asking x)"
    "active_negotiating (asking x)" for x by (simp_all add: done_asking_def asking_def)
  have "send_answer b (num ?j) a w =
    Ok (if device.wants_to_negotiate (dev ?j w) then tell ?j message.Create_offer (change ?j asking ?v)
        else if device.wants_to_negotiate (dev i w) then tell i message.Create_offer (change i asking ?v) else ?v)"
  proof (cases "device.wants_to_negotiate (dev ?j w)")
    case True
    let ?u = "tell ?j message.Create_offer (change ?j asking ?v)"
    have u: "pair_at ?u" using p(2) by simp
    have "negotiate (num ?j) ?v = Ok ?u" using True assms p by (simp add: negotiate_pair_eq flags)
    moreover have "active_negotiating (dev ?j ?u)" using p by (simp add: flags)
    ultimately show ?thesis
      using pair_atD[OF u] True by (simp add: send_answer_def 1 2 3 assert_stmt_def with_dev_def)
  next
    case False
    have "negotiate (num ?j) ?v = Ok ?v" using False assms p by (simp add: negotiate_pair_eq flags)
    moreover have "negotiate (num i) ?v = Ok (if device.wants_to_negotiate (dev i w)
        then tell i message.Create_offer (change i asking ?v) else ?v)"
      using False assms p by (simp add: negotiate_pair_eq flags)
    moreover have "\<not> active_negotiating (dev ?j ?v)" using p by (simp add: flags)
    ultimately show ?thesis
      using pair_atD[OF p(2)] False by (simp add: send_answer_def 1 2 3 assert_stmt_def with_dev_def lock_partner_def)
  qed
  moreover have "Device.on_answer b (num i) a w = send_answer b (num ?j) a w"
    using pair_atD[OF assms(1)] by (simp add: Device.on_answer_def with_dev_def lock_partner_def)
  moreover have "pair_at (tell i message.Create_offer (change i asking ?v))" "pair_at (tell ?j message.Create_offer (change ?j asking ?v))"
    using p by simp_all
  ultimately show ?thesis using assms(1) p by (simp add: server_step_pair relayed_def Let_def del: server_step.simps)
qed


section \<open>Rounds\<close>

text \<open>One round of negotiation, from the request for an offer to the relayed answer, as a machine of its own.
  The client that offers is part of the phase; a round is lost when a description can not be created or set.\<close>

datatype phase =
    Idle
  | Asked bool
  | Creating bool
  | Setting bool session_description
  | Offered bool string
  | Relayed bool string
  | Taking bool
  | Answering bool
  | Answer_setting bool session_description
  | Answered bool string
  | Lost bool

text \<open>An answer that the server has relayed and its client has not read; the next round may be under way.\<close>

type_synonym unread = "(bool \<times> string) option"

fun offering :: "phase \<Rightarrow> bool option" where
  "offering Idle = None"
| "offering (Asked i) = Some i"
| "offering (Creating i) = Some i"
| "offering (Setting i d) = Some i"
| "offering (Offered i t) = Some i"
| "offering (Relayed i t) = Some i"
| "offering (Taking i) = Some i"
| "offering (Answering i) = Some i"
| "offering (Answer_setting i d) = Some i"
| "offering (Answered i t) = Some i"
| "offering (Lost i) = Some i"

text \<open>Where an answer can still be unread: anywhere before the round has used the client it waits for.\<close>

fun unread_ok :: "phase \<Rightarrow> unread \<Rightarrow> bool" where
  "unread_ok p None = True"
| "unread_ok p (Some (k, t)) = (case p of Idle \<Rightarrow> True | Asked i \<Rightarrow> True
     | Creating i \<Rightarrow> k = (\<not> i) | Setting i d \<Rightarrow> k = (\<not> i) | Offered i u \<Rightarrow> k = (\<not> i) | Relayed i u \<Rightarrow> k = (\<not> i)
     | Lost i \<Rightarrow> k = (\<not> i) | _ \<Rightarrow> False)"

text \<open>What is on the way in each phase.\<close>

definition unread_at :: "unread \<Rightarrow> bool \<Rightarrow> message list" where
  "unread_at l k = (case l of Some (i, t) \<Rightarrow> if k = i then [Answer \<lparr>answer_sdp = t\<rparr>] else [] | None \<Rightarrow> [])"

fun going_down :: "phase \<Rightarrow> bool \<Rightarrow> message list" where
  "going_down (Asked i) k = (if k = i then [message.Create_offer] else [])"
| "going_down (Relayed i t) k = (if k = i then [] else [Offer \<lparr>offer_sdp = t\<rparr>])"
| "going_down p k = []"

fun going_up :: "phase \<Rightarrow> bool \<Rightarrow> signal_message list" where
  "going_up (Offered i t) k = (if k = i then [Send_offer t] else [])"
| "going_up (Answered i t) k = (if k = i then [] else [Send_answer t])"
| "going_up p k = []"

fun working :: "phase \<Rightarrow> bool \<Rightarrow> continuation list" where
  "working (Creating i) k = (if k = i then [Offer_created] else [])"
| "working (Setting i d) k = (if k = i then [Offer_local d] else [])"
| "working (Taking i) k = (if k = i then [] else [Offer_set])"
| "working (Answering i) k = (if k = i then [] else [Answer_created])"
| "working (Answer_setting i d) k = (if k = i then [] else [Answer_local d])"
| "working p k = []"

text \<open>The steps of a round.\<close>

inductive round_step :: "phase \<times> unread \<Rightarrow> phase \<times> unread \<Rightarrow> bool" where
  ask: "round_step (Idle, l) (Asked i, l)"
| create: "round_step (Asked i, l) (Creating i, l)"
| set: "round_step (Creating i, l) (Setting i d, l)"
| offer: "round_step (Setting i d, l) (Offered i (sdp d), l)"
| relay: "round_step (Offered i t, l) (Relayed i t, l)"
| take: "round_step (Relayed i t, l) (Taking i, l)"
| answer: "round_step (Taking i, l) (Answering i, l)"
| set_answer: "round_step (Answering i, l) (Answer_setting i d, l)"
| send_answer: "round_step (Answer_setting i d, l) (Answered i (sdp d), l)"
| end_round: "round_step (Answered i t, None) (Idle, Some (i, t))"
| next_round: "round_step (Answered i t, None) (Asked k, Some (i, t))"
| read_answer: "round_step (p, Some x) (p, None)"
| lose: "working p k \<noteq> [] \<Longrightarrow> offering p = Some i \<Longrightarrow> round_step (p, l) (Lost i, l)"

text \<open>The signaling state of a peer connection, from what was asked of it: descriptions are set in the order of
  offer and answer, an answer is only created for an offer.\<close>

datatype signaling_state = Stable | Have_local_offer | Have_remote_offer | Wrong

fun state_after :: "signaling_state \<Rightarrow> rtc_request \<Rightarrow> signaling_state" where
  "state_after Stable (Set_local d) = (if sdp_type d = Sdp_offer then Have_local_offer else Wrong)"
| "state_after Stable (Set_remote d) = (if sdp_type d = Sdp_offer then Have_remote_offer else Wrong)"
| "state_after Have_local_offer (Set_remote d) = (if sdp_type d = Sdp_answer then Stable else Wrong)"
| "state_after Have_remote_offer (Set_local d) = (if sdp_type d = Sdp_answer then Stable else Wrong)"
| "state_after Have_remote_offer rtc_request.Create_answer = Have_remote_offer"
| "state_after Stable (rtc_request.Create_offer a v) = Stable"
| "state_after x (Add_candidate c) = x"
| "state_after x r = Wrong"

definition state_of :: "rtc_request list \<Rightarrow> signaling_state" where
  "state_of rs = foldl state_after Stable rs"

lemma state_of_snoc [simp]: "state_of (rs @ [r]) = state_after (state_of rs) r"
  by (simp add: state_of_def)

lemma state_of_Nil [simp]: "state_of [] = Stable"
  by (simp add: state_of_def)

definition state_in :: "phase \<Rightarrow> unread \<Rightarrow> bool \<Rightarrow> signaling_state \<Rightarrow> bool" where
  "state_in p l k x \<longleftrightarrow> x \<noteq> Wrong \<and> (if unread_at l k \<noteq> [] then x = Have_local_offer else case p of
     Setting i d \<Rightarrow> x = (if k = i then Have_local_offer else Stable)
   | Offered i t \<Rightarrow> x = (if k = i then Have_local_offer else Stable)
   | Relayed i t \<Rightarrow> x = (if k = i then Have_local_offer else Stable)
   | Taking i \<Rightarrow> x = (if k = i then Have_local_offer else Have_remote_offer)
   | Answering i \<Rightarrow> x = (if k = i then Have_local_offer else Have_remote_offer)
   | Answer_setting i d \<Rightarrow> x = (if k = i then Have_local_offer else Stable)
   | Answered i t \<Rightarrow> x = (if k = i then Have_local_offer else Stable)
   | Lost i \<Rightarrow> True
   | _ \<Rightarrow> x = Stable)"

definition describing :: "signal_message \<Rightarrow> bool" where
  "describing m \<longleftrightarrow> (case m of Send_offer t \<Rightarrow> True | Send_answer t \<Rightarrow> True | _ \<Rightarrow> False)"

definition about_round :: "message \<Rightarrow> bool" where
  "about_round m \<longleftrightarrow> (case m of Offer t \<Rightarrow> True | Answer t \<Rightarrow> True | message.Create_offer \<Rightarrow> True | _ \<Rightarrow> False)"

text \<open>Client \<open>k\<close> with what it has on the way up and down and its device at the server.\<close>

definition side :: "phase \<Rightarrow> unread \<Rightarrow> bool \<Rightarrow> signal_message list \<Rightarrow> message list \<Rightarrow> offer_answer \<Rightarrow> device \<Rightarrow> bool" where
  "side p l k us ds c x \<longleftrightarrow> filter describing us = going_up p k \<and> filter about_round ds = unread_at l k @ going_down p k
     \<and> pending c = working p k \<and> state_in p l k (state_of (requested c)) \<and> connected c
     \<and> active_negotiating x = (offering p = Some k) \<and> (p = Idle \<longrightarrow> \<not> device.wants_to_negotiate x)"

definition reads_ok :: "two_peers \<Rightarrow> bool" where
  "reads_ok s \<longleftrightarrow> (\<forall>k. up_read s k \<le> length (signaled (peers s k)) \<and> down_read s k \<le> length (sent_to (num k) (at_server s)))"

fun in_round :: "two_peers \<Rightarrow> phase \<times> unread \<Rightarrow> bool" where
  "in_round s (p, l) \<longleftrightarrow> pair_at (at_server s) \<and> reads_ok s \<and> unread_ok p l
     \<and> (\<forall>k. side p l k (up_queue k s) (down_queue k s) (peers s k) (dev k (at_server s)))"

lemma both: "(\<forall>k. P k) \<longleftrightarrow> P i \<and> P (\<not> i)" for i :: bool
  by (cases i) (auto simp: all_bool_eq)

text \<open>What one end does.\<close>

lemma end_steps:
  "connected c \<Longrightarrow> negotiation_step b c Negotiation_needed = Ok (c\<lparr>signaled := signaled c @ [signal_message.Want_to_negotiate]\<rparr>)"
  "negotiation_step b c (Candidate_found x) = Ok (c\<lparr>signaled := signaled c @ [Send_candidate x]\<rparr>)"
  "negotiation_step b c (Got_candidate x p) = Ok (if p then c\<lparr>requested := requested c @ [Add_candidate x]\<rparr> else c)"
  "negotiation_step b c Offer_wanted = Ok (c\<lparr>requested := requested c @ [rtc_request.Create_offer (receive_audio c) (receive_video c)],
     pending := pending c @ [Offer_created]\<rparr>)"
  "negotiation_step b c (Got_offer t) = Ok (c\<lparr>requested := requested c @ [Set_remote \<lparr>sdp_type = Sdp_offer, sdp = t\<rparr>],
     pending := pending c @ [Offer_set]\<rparr>)"
  "negotiation_step b c (Got_answer t) = Ok (c\<lparr>requested := requested c @ [Set_remote \<lparr>sdp_type = Sdp_answer, sdp = t\<rparr>]\<rparr>)"
  by (simp_all add: negotiation_defs prog_eval)

lemma end_completes:
  assumes "pending c = [k]"
    and "negotiation_step b c (Completed n (rbind d (\<lambda>t. Ok (description_of [k] n t))) r) = Ok u"
  shows "u = c \<or> u = c\<lparr>pending := []\<rparr> \<or> (case k of
      Offer_created \<Rightarrow> \<exists>t. u = c\<lparr>requested := requested c @ [Set_local \<lparr>sdp_type = Sdp_offer, sdp = t\<rparr>],
        pending := [Offer_local \<lparr>sdp_type = Sdp_offer, sdp = t\<rparr>]\<rparr>
    | Offer_local x \<Rightarrow> u = c\<lparr>signaled := signaled c @ [Send_offer (sdp x)], pending := []\<rparr>
    | Offer_set \<Rightarrow> u = c\<lparr>requested := requested c @ [rtc_request.Create_answer], pending := [Answer_created]\<rparr>
    | Answer_created \<Rightarrow> \<exists>t. u = c\<lparr>requested := requested c @ [Set_local \<lparr>sdp_type = Sdp_answer, sdp = t\<rparr>],
        pending := [Answer_local \<lparr>sdp_type = Sdp_answer, sdp = t\<rparr>]\<rparr>
    | Answer_local x \<Rightarrow> u = c\<lparr>signaled := signaled c @ [Send_answer (sdp x)], pending := []\<rparr>)"
proof (cases n)
  case (Suc m)
  with assms show ?thesis by (simp add: negotiation_defs prog_eval)
next
  case 0
  have one: "erase_at 0 [x] = []" for x :: continuation by (simp add: erase_at_def)
  from 0 assms show ?thesis
    by (cases k; cases d; cases r)
      (auto simp: negotiation_defs prog_eval one description_of_def sassert_def boost_assert_def split: if_splits)
qed

lemma end_idle:
  "pending c = [] \<Longrightarrow> negotiation_step b c (Completed n d r) = Ok c"
  by (simp add: negotiation_defs prog_eval)

lemma at_peer_Ok:
  "at_peer b i e s = Ok t \<longleftrightarrow> (\<exists>c. negotiation_step b (peers s i) e = Ok c \<and> t = s\<lparr>peers := (peers s)(i := c)\<rparr>)"
  by (auto simp: at_peer_def rbind_Ok_iff)

text \<open>What is left to do: a wish that is on its way to the server costs more than one that waits there, and
  that more than a round.\<close>

fun phase_weight :: "phase \<Rightarrow> nat" where
  "phase_weight (Asked i) = 11"
| "phase_weight (Creating i) = 10"
| "phase_weight (Setting i d) = 9"
| "phase_weight (Offered i t) = 8"
| "phase_weight (Relayed i t) = 7"
| "phase_weight (Taking i) = 6"
| "phase_weight (Answering i) = 5"
| "phase_weight (Answer_setting i d) = 4"
| "phase_weight (Answered i t) = 3"
| "phase_weight p = 0"

fun signal_weight :: "signal_message \<Rightarrow> nat" where
  "signal_weight signal_message.Want_to_negotiate = 25"
| "signal_weight (Send_candidate c) = 2"
| "signal_weight m = 0"

definition side_weight :: "signal_message list \<Rightarrow> message list \<Rightarrow> device \<Rightarrow> nat" where
  "side_weight us ds x = sum_list (map signal_weight us) + length (filter (\<lambda>m. \<not> about_round m) ds)
     + (if device.wants_to_negotiate x then 24 else 0)"

definition queued_at :: "bool \<Rightarrow> two_peers \<Rightarrow> nat" where
  "queued_at k s = side_weight (up_queue k s) (down_queue k s) (dev k (at_server s))"

fun round_weight :: "phase \<times> unread \<Rightarrow> nat" where
  "round_weight (p, l) = phase_weight p + (if l = None then 0 else 1)"

definition weight :: "two_peers \<Rightarrow> phase \<times> unread \<Rightarrow> nat" where
  "weight s x = queued_at False s + queued_at True s + round_weight x"

lemma weight_sides: "weight s x = queued_at i s + queued_at (\<not> i) s + round_weight x"
  by (cases i) (simp_all add: weight_def)

fun lost :: "phase \<times> unread \<Rightarrow> bool" where
  "lost (Lost i, l) = True"
| "lost x = False"

text \<open>\<open>f\<close> tells whether something failed.\<close>

definition moves_on :: "bool \<Rightarrow> two_peers \<Rightarrow> phase \<times> unread \<Rightarrow> two_peers \<Rightarrow> bool" where
  "moves_on f s x t \<longleftrightarrow> (\<exists>y. in_round t y \<and> (y = x \<or> round_step x y) \<and> weight t y < weight s x \<and> (lost y \<longrightarrow> lost x \<or> f))"

text \<open>A step of a client that reads \<open>n\<close> messages.\<close>

lemma peer_queues:
  assumes "in_round s x" "signaled c = signaled (peers s i) @ ms"
    and t: "t = s\<lparr>peers := (peers s)(i := c), down_read := (down_read s)(i := down_read s i + n)\<rparr>"
  shows "up_queue i t = up_queue i s @ ms" "up_queue (\<not> i) t = up_queue (\<not> i) s"
    "down_queue i t = drop n (down_queue i s)" "down_queue (\<not> i) t = down_queue (\<not> i) s" "at_server t = at_server s"
proof -
  obtain p l0 where x: "x = (p, l0)" by (cases x)
  with assms(1) have "up_read s i \<le> length (signaled (peers s i))" by (auto simp: reads_ok_def)
  with assms(2) show "up_queue i t = up_queue i s @ ms" "up_queue (\<not> i) t = up_queue (\<not> i) s"
    by (simp_all add: up_queue_def t)
qed (simp_all add: down_queue_def add.commute t)

lemma peer_moves:
  assumes "in_round s x" "signaled c = signaled (peers s i) @ ms" "n \<le> length (down_queue i s)" "unread_ok q l"
    and "side q l i (up_queue i s @ ms) (drop n (down_queue i s)) c (dev i (at_server s))"
    and "side q l (\<not> i) (up_queue (\<not> i) s) (down_queue (\<not> i) s) (peers s (\<not> i)) (dev (\<not> i) (at_server s))"
  shows "in_round (s\<lparr>peers := (peers s)(i := c), down_read := (down_read s)(i := down_read s i + n)\<rparr>) (q, l)"
proof -
  let ?t = "s\<lparr>peers := (peers s)(i := c), down_read := (down_read s)(i := down_read s i + n)\<rparr>"
  obtain p l0 where x: "x = (p, l0)" by (cases x)
  with assms(1) have ok: "pair_at (at_server s)" "reads_ok s" by auto
  then have r: "up_read s k \<le> length (signaled (peers s k))" "down_read s k \<le> length (sent_to (num k) (at_server s))" for k
    by (auto simp: reads_ok_def)
  have "reads_ok ?t" using r[of i] r[of "\<not> i"] assms(2,3) by (auto simp: reads_ok_def both[of _ i] down_queue_def)
  moreover note peer_queues(1-4)[OF assms(1,2) refl, of n]
  ultimately show ?thesis using ok assms(4-6) by (simp add: both[of _ i])
qed

lemma peer_moves0:
  assumes "in_round s x" "signaled c = signaled (peers s i) @ ms" "unread_ok q l"
    and "side q l i (up_queue i s @ ms) (down_queue i s) c (dev i (at_server s))"
    and "side q l (\<not> i) (up_queue (\<not> i) s) (down_queue (\<not> i) s) (peers s (\<not> i)) (dev (\<not> i) (at_server s))"
  shows "in_round (s\<lparr>peers := (peers s)(i := c)\<rparr>) (q, l)"
  using peer_moves[of s x c i ms 0 q l] assms by simp

lemma peer_moves_on:
  assumes "in_round s x" "signaled c = signaled (peers s i) @ ms" "n \<le> length (down_queue i s)" "unread_ok q l"
    and "side q l i (up_queue i s @ ms) (drop n (down_queue i s)) c (dev i (at_server s))"
    and "side q l (\<not> i) (up_queue (\<not> i) s) (down_queue (\<not> i) s) (peers s (\<not> i)) (dev (\<not> i) (at_server s))"
    and t: "t = s\<lparr>peers := (peers s)(i := c), down_read := (down_read s)(i := down_read s i + n)\<rparr>"
    and "(q, l) = x \<or> round_step x (q, l)"
    and "sum_list (map signal_weight ms) + length (filter (\<lambda>m. \<not> about_round m) (drop n (down_queue i s))) + round_weight (q, l)
      < length (filter (\<lambda>m. \<not> about_round m) (down_queue i s)) + round_weight x"
    and "lost (q, l) \<longrightarrow> lost x \<or> f"
  shows "moves_on f s x t"
proof -
  have "in_round t (q, l)" unfolding t by (rule peer_moves[OF assms(1-6)])
  moreover have "weight t (q, l) < weight s x"
    using assms(9) peer_queues[OF assms(1,2) t] by (simp add: weight_sides[of _ _ i] queued_at_def side_weight_def)
  ultimately show ?thesis using assms(8,10) by (auto simp: moves_on_def simp del: in_round.simps)
qed

text \<open>A message that arrives at the server.\<close>

lemma server_queues:
  assumes "in_round s x" "up_queue i s = m # ms" "\<And>k. sent_to (num k) w = sent_to (num k) (at_server s) @ new k"
    and t: "t = s\<lparr>at_server := w, up_read := (up_read s)(i := Suc (up_read s i))\<rparr>"
  shows "up_queue i t = ms" "up_queue (\<not> i) t = up_queue (\<not> i) s" "down_queue k t = down_queue k s @ new k"
proof -
  obtain p l0 where x: "x = (p, l0)" by (cases x)
  with assms(1) have "down_read s k \<le> length (sent_to (num k) (at_server s))" for k by (auto simp: reads_ok_def)
  then show "down_queue k t = down_queue k s @ new k" using assms(3)[of k] by (simp add: down_queue_def t)
  show "up_queue i t = ms" "up_queue (\<not> i) t = up_queue (\<not> i) s"
    using assms(2) by (simp_all add: up_queue_def t) (metis drop_Suc list.sel(3) tl_drop)
qed

lemma server_moves:
  assumes "in_round s x" "up_queue i s = m # ms" "pair_at w" "unread_ok q l"
    and "\<And>k. sent_to (num k) w = sent_to (num k) (at_server s) @ new k"
    and "side q l i ms (down_queue i s @ new i) (peers s i) (dev i w)"
    and "side q l (\<not> i) (up_queue (\<not> i) s) (down_queue (\<not> i) s @ new (\<not> i)) (peers s (\<not> i)) (dev (\<not> i) w)"
  shows "in_round (s\<lparr>at_server := w, up_read := (up_read s)(i := Suc (up_read s i))\<rparr>) (q, l)"
proof -
  let ?t = "s\<lparr>at_server := w, up_read := (up_read s)(i := Suc (up_read s i))\<rparr>"
  obtain p l0 where x: "x = (p, l0)" by (cases x)
  with assms(1) have "reads_ok s" by auto
  then have r: "up_read s k \<le> length (signaled (peers s k))" "down_read s k \<le> length (sent_to (num k) (at_server s))" for k
    by (auto simp: reads_ok_def)
  have "up_read s i < length (signaled (peers s i))" using assms(2) by (auto simp: up_queue_def intro: ccontr)
  then have "reads_ok ?t" using r assms(5) by (auto simp: reads_ok_def intro: trans_le_add1)
  moreover note server_queues[OF assms(1,2,5) refl]
  ultimately show ?thesis using assms(3,4,6,7) by (simp add: both[of _ i])
qed

lemma server_moves_on:
  assumes "in_round s x" "up_queue i s = m # ms" "pair_at w" "unread_ok q l"
    and "\<And>k. sent_to (num k) w = sent_to (num k) (at_server s) @ new k"
    and "side q l i ms (down_queue i s @ new i) (peers s i) (dev i w)"
    and "side q l (\<not> i) (up_queue (\<not> i) s) (down_queue (\<not> i) s @ new (\<not> i)) (peers s (\<not> i)) (dev (\<not> i) w)"
    and t: "t = s\<lparr>at_server := w, up_read := (up_read s)(i := Suc (up_read s i))\<rparr>"
    and "(q, l) = x \<or> round_step x (q, l)"
    and "side_weight ms (down_queue i s @ new i) (dev i w)
        + side_weight (up_queue (\<not> i) s) (down_queue (\<not> i) s @ new (\<not> i)) (dev (\<not> i) w) + round_weight (q, l)
      < side_weight (m # ms) (down_queue i s) (dev i (at_server s))
        + side_weight (up_queue (\<not> i) s) (down_queue (\<not> i) s) (dev (\<not> i) (at_server s)) + round_weight x"
    and "lost (q, l) \<longrightarrow> lost x \<or> f"
  shows "moves_on f s x t"
proof -
  have "in_round t (q, l)" unfolding t by (rule server_moves[OF assms(1-7)])
  moreover have "weight t (q, l) < weight s x"
    using assms(10) server_queues[OF assms(1,2,5) t] by (simp add: weight_sides[of _ _ i] queued_at_def t assms(2))
  ultimately show ?thesis using assms(9,11) by (auto simp: moves_on_def simp del: in_round.simps)
qed

text \<open>Every step of the system is one of the round or leaves it alone.\<close>

lemmas round_defs = side_def state_in_def unread_at_def describing_def about_round_def

lemma side_keeps:
  assumes "side p l k us ds c x"
  shows "side p l k (us @ [signal_message.Want_to_negotiate]) ds c x"
    and "side p l k (us @ [Send_candidate a]) ds c x"
    and "c' = c\<lparr>signaled := ms\<rparr> \<Longrightarrow> side p l k us ds c' x"
  using assms by (auto simp: side_def describing_def)

lemma state_after_candidate [simp]: "state_after x (Add_candidate c) = x"
  by (cases x) simp_all

lemma side_skips:
  assumes "side p l k us (m # ms) c x" "\<not> about_round m"
  shows "side p l k us ms c x" "side p l k us ms (c\<lparr>requested := requested c @ [Add_candidate a]\<rparr>) x"
  using assms by (simp_all add: side_def)

lemma told_simulated:
  assumes "in_round s (p, l)" "e = Needs i \<or> e = Finds i a" "two_step b s e = Ok t"
  shows "in_round t (p, l)"
proof -
  from assms(1) have s: "unread_ok p l" "side p l k (up_queue k s) (down_queue k s) (peers s k) (dev k (at_server s))" for k
    by auto
  then have "connected (peers s i)" by (simp add: side_def)
  with assms(2,3) have "\<exists>m \<in> {signal_message.Want_to_negotiate, Send_candidate a}.
      t = s\<lparr>peers := (peers s)(i := (peers s i)\<lparr>signaled := signaled (peers s i) @ [m]\<rparr>)\<rparr>"
    by (elim disjE) (simp_all add: at_peer_Ok end_steps)
  then obtain m where m: "m = signal_message.Want_to_negotiate \<or> m = Send_candidate a"
    "t = s\<lparr>peers := (peers s)(i := (peers s i)\<lparr>signaled := signaled (peers s i) @ [m]\<rparr>)\<rparr>" by blast
  show ?thesis
    unfolding m(2) by (rule peer_moves0[OF assms(1), where ms = "[m]"]) (use s m(1) in \<open>auto intro: side_keeps\<close>)
qed

text \<open>A description that fails loses the round.\<close>

lemma failed_end:
  assumes "in_round s (p, l)" "working p i \<noteq> []" "t = s\<lparr>peers := (peers s)(i := (peers s i)\<lparr>pending := []\<rparr>)\<rparr>"
  shows "\<exists>j. in_round t (Lost j, l) \<and> moves_on True s (p, l) t"
proof -
  from assms(1) have u: "unread_ok p l" and sd: "side p l k (up_queue k s) (down_queue k s) (peers s k) (dev k (at_server s))" for k
    by auto
  from assms(2) obtain j where p: "offering p = Some j" "phase_weight p > 0"
    and none: "\<And>k. going_up p k = [] \<and> going_down p k = []" "\<And>k. k \<noteq> i \<Longrightarrow> working p k = []"
    by (cases p) (simp_all split: if_splits)
  have lost: "unread_ok (Lost j) l" using p(1) assms(2) u by (cases l; cases p) auto
  have "round_step (p, l) (Lost j, l)" by (rule lose[OF assms(2) p(1)])
  note j = p this lost none
  have "side (Lost j) l k (up_queue k s) (down_queue k s) (if k = i then (peers s k)\<lparr>pending := []\<rparr> else peers s k) (dev k (at_server s))" for k
    using sd[of k] j by (auto simp: side_def state_in_def)
  note new = this[of i] this[of "\<not> i"]
  have t: "t = s\<lparr>peers := (peers s)(i := (peers s i)\<lparr>pending := []\<rparr>), down_read := (down_read s)(i := down_read s i + 0)\<rparr>"
    by (simp add: assms(3))
  have "in_round t (Lost j, l)"
    unfolding t by (rule peer_moves[OF assms(1), where ms = "[]"]) (use new j in simp_all)
  moreover have "moves_on True s (p, l) t"
    by (rule peer_moves_on[OF assms(1) _ _ _ _ _ t, where ms = "[]" and q = "Lost j" and l = l]) (use new j in simp_all)
  ultimately show ?thesis by blast
qed

definition succeeds :: "two_event \<Rightarrow> bool" where
  "succeeds e \<longleftrightarrow> (case e of Ends i n d r \<Rightarrow> (\<exists>x. d = Ok x) \<and> (\<exists>x. r = Ok x) | _ \<Rightarrow> True)"

lemma success_shows:
  assumes "negotiation_step b c (Completed n (Ok d) (Ok r)) = Ok u" "pending c = [k]" "u \<noteq> c"
  shows "u \<noteq> c\<lparr>pending := []\<rparr>"
proof
  assume u: "u = c\<lparr>pending := []\<rparr>"
  with assms have "n = 0" by (cases n) (auto simp: negotiation_defs prog_eval)
  moreover from u have "pending u = []" "signaled u = signaled c" by simp_all
  ultimately show False using assms(1,2)
    by (cases k) (auto simp: negotiation_defs prog_eval erase_at_def)
qed

lemma ends_simulated:
  assumes "in_round s (p, l)" "two_step b s (Ends i n d r) = Ok t" "t \<noteq> s"
  shows "moves_on (\<not> succeeds (Ends i n d r)) s (p, l) t"
proof -
  from assms(1) have u: "unread_ok p l" and sd: "side p l k (up_queue k s) (down_queue k s) (peers s k) (dev k (at_server s))" for k
    by auto
  let ?c = "peers s i"
  from assms(2) obtain c where c: "negotiation_step b ?c (Completed n (rbind d (\<lambda>t. Ok (description_of (pending ?c) n t))) r) = Ok c"
    "t = s\<lparr>peers := (peers s)(i := c)\<rparr>" by (auto simp: at_peer_Ok)
  from assms(3) c have changed: "c \<noteq> ?c" by auto
  have pend: "pending ?c = working p i" using sd[of i] by (simp add: side_def)
  have work: "working p i \<noteq> []"
  proof
    assume "working p i = []"
    with end_idle[of ?c] pend c(1) changed show False by simp
  qed
  show ?thesis
  proof (cases "c = ?c\<lparr>pending := []\<rparr>")
    case True
    have "\<not> succeeds (Ends i n d r)"
    proof
      assume "succeeds (Ends i n d r)"
      then obtain x y where "d = Ok x" "r = Ok y" by (auto simp: succeeds_def)
      moreover obtain k where "working p i = [k]" using work by (cases p) (auto split: if_splits)
      ultimately show False using success_shows[of b ?c n _ _ c k] c(1) pend changed True by simp
    qed
    with True failed_end[OF assms(1) work] c(2) show ?thesis by auto
  next
    case failed: False
    have move: "moves_on (\<not> succeeds (Ends i n d r)) s (p, l) t"
      if "round_step (p, l) (q, l)" "unread_ok q l" "signaled c = signaled ?c @ ms"
        "sum_list (map signal_weight ms) = 0" "phase_weight q < phase_weight p" "\<not> lost (q, l)"
        "side q l i (up_queue i s @ ms) (down_queue i s) c (dev i (at_server s))"
        "side q l (\<not> i) (up_queue (\<not> i) s) (down_queue (\<not> i) s) (peers s (\<not> i)) (dev (\<not> i) (at_server s))" for q ms
      using peer_moves_on[OF assms(1) that(3) _ that(2), of 0 t] c(2) that by simp
    note sides = sd[of i] sd[of "\<not> i"]
    show ?thesis
    proof (cases p)
      case (Creating j)
      with work pend have one: "j = (i)" "pending ?c = [Offer_created]" by (auto split: if_splits)
      from end_completes[OF one(2) c(1)[unfolded one(2)]] changed failed
      obtain x where "c = ?c\<lparr>requested := requested ?c @ [Set_local \<lparr>sdp_type = Sdp_offer, sdp = x\<rparr>],
          pending := [Offer_local \<lparr>sdp_type = Sdp_offer, sdp = x\<rparr>]\<rparr>" by auto
      with Creating one sides u show ?thesis
        by (intro move[of "Setting j \<lparr>sdp_type = Sdp_offer, sdp = x\<rparr>" "[]"]; cases l) (auto simp: round_defs intro: round_step.intros)
    next
      case (Setting j x)
      with work pend have one: "j = (i)" "pending ?c = [Offer_local x]" by (auto split: if_splits)
      from end_completes[OF one(2) c(1)[unfolded one(2)]] changed failed
      have "c = ?c\<lparr>signaled := signaled ?c @ [Send_offer (sdp x)], pending := []\<rparr>" by auto
      with Setting one sides u show ?thesis
        by (intro move[of "Offered j (sdp x)" "[Send_offer (sdp x)]"]; cases l) (auto simp: round_defs intro: round_step.intros)
    next
      case (Taking j)
      with work pend have one: "j = (\<not> i)" "pending ?c = [Offer_set]" by (auto split: if_splits)
      from end_completes[OF one(2) c(1)[unfolded one(2)]] changed failed
      have "c = ?c\<lparr>requested := requested ?c @ [rtc_request.Create_answer],
          pending := [Answer_created]\<rparr>" by auto
      with Taking one sides u show ?thesis
        by (intro move[of "Answering j" "[]"]; cases l) (auto simp: round_defs intro: round_step.intros)
    next
      case (Answering j)
      with work pend have one: "j = (\<not> i)" "pending ?c = [Answer_created]" by (auto split: if_splits)
      from end_completes[OF one(2) c(1)[unfolded one(2)]] changed failed
      obtain x where "c = ?c\<lparr>requested := requested ?c @ [Set_local \<lparr>sdp_type = Sdp_answer, sdp = x\<rparr>],
          pending := [Answer_local \<lparr>sdp_type = Sdp_answer, sdp = x\<rparr>]\<rparr>" by auto
      with Answering one sides u show ?thesis
        by (intro move[of "Answer_setting j \<lparr>sdp_type = Sdp_answer, sdp = x\<rparr>" "[]"]; cases l) (auto simp: round_defs intro: round_step.intros)
    next
      case (Answer_setting j x)
      with work pend have one: "j = (\<not> i)" "pending ?c = [Answer_local x]" by (auto split: if_splits)
      from end_completes[OF one(2) c(1)[unfolded one(2)]] changed failed
      have "c = ?c\<lparr>signaled := signaled ?c @ [Send_answer (sdp x)], pending := []\<rparr>" by auto
      with Answer_setting one sides u show ?thesis
        by (intro move[of "Answered j (sdp x)" "[Send_answer (sdp x)]"]; cases l) (auto simp: round_defs intro: round_step.intros)
    qed (use work in simp_all)
  qed
qed

lemma device_changes [simp]:
  "active_negotiating (wanting x) = active_negotiating x" "device.wants_to_negotiate (wanting x)"
  "active_negotiating (asking x)" "\<not> device.wants_to_negotiate (asking x)"
  "\<not> active_negotiating (done_asking x)" "device.wants_to_negotiate (done_asking x) = device.wants_to_negotiate x"
  by (simp_all add: wanting_def asking_def done_asking_def)

text \<open>A wish, and an answer, arrive at the server.\<close>

lemma up_wish:
  assumes "in_round s (p, l)" "up_queue i s = signal_message.Want_to_negotiate # ms"
    and "server_step b (at_server s) (Received (num i) message.Want_to_negotiate) = Ok w"
    and "t = s\<lparr>at_server := w, up_read := (up_read s)(i := Suc (up_read s i))\<rparr>"
  shows "moves_on False s (p, l) t"
proof -
  let ?w = "at_server s"
  note Cons = assms(2) and w = assms(3,4)
  from assms(1) have u: "unread_ok p l" and pair: "pair_at ?w"
    and sd: "side p l k (up_queue k s) (down_queue k s) (peers s k) (dev k ?w)" for k by auto
  note sides = sd[of i] sd[of "\<not> i"] and move = server_moves_on[OF assms(1) Cons _ _ _ _ _ w(2), where f = False]
  have active: "active_negotiating (dev k ?w) = (offering p = Some k)" for k using sd[of k] by (simp add: side_def)
  show ?thesis
  proof (cases "p = Idle")
    case True
    then have eq: "w = tell i message.Create_offer (change i asking (change i wanting ?w))"
      using w(1) received_Want[OF pair] active by simp
    from True sides u Cons pair show ?thesis
      unfolding eq by (intro move[where q = "Asked i" and l = l and new = "\<lambda>k. if k = i then [message.Create_offer] else []", unfolded eq]; cases l)
        (auto simp: round_defs side_weight_def intro: round_step.intros)
  next
    case False
    then obtain k where "offering p = Some k" by (cases p) auto
    then have "active_negotiating (dev i ?w) \<or> active_negotiating (dev (\<not> i) ?w)" by (cases "k = i") (auto simp: active)
    then have eq: "w = change i wanting ?w"
      using w(1) received_Want[OF pair] by simp
    from False sides u Cons pair show ?thesis
      unfolding eq by (intro move[where q = p and l = l and new = "\<lambda>k. []", unfolded eq]) (auto simp: side_def describing_def side_weight_def)
  qed
qed

lemma up_answer:
  assumes "in_round s (p, l)" "up_queue i s = Send_answer x # ms"
    and "server_step b (at_server s) (Received (num i) (Answer \<lparr>answer_sdp = x\<rparr>)) = Ok w"
    and "t = s\<lparr>at_server := w, up_read := (up_read s)(i := Suc (up_read s i))\<rparr>"
  shows "moves_on False s (p, l) t"
proof -
  let ?w = "at_server s"
  note Cons = assms(2) and w = assms(3,4)
  from assms(1) have u: "unread_ok p l" and pair: "pair_at ?w"
    and sd: "side p l k (up_queue k s) (down_queue k s) (peers s k) (dev k ?w)" for k by auto
  note sides = sd[of i] sd[of "\<not> i"] and move = server_moves_on[OF assms(1) Cons _ _ _ _ _ w(2), where f = False]
  have active: "active_negotiating (dev k ?w) = (offering p = Some k)" for k using sd[of k] by (simp add: side_def)
  with sides(1) Cons have p: "p = Answered (\<not> i) x" "filter describing ms = []"
    by (cases p; simp add: side_def describing_def split: if_splits)+
  with u have l: "l = None" by (cases l) auto
  let ?j = "\<not> i"
  let ?v = "change ?j done_asking (tell ?j (Answer \<lparr>answer_sdp = x\<rparr>) ?w)"
  let ?new = "\<lambda>k. if k = i then [] else [Answer \<lparr>answer_sdp = x\<rparr>]"
  have p1: "pair_at (tell ?j (Answer \<lparr>answer_sdp = x\<rparr>) ?w)" "pair_at ?v" using pair by simp_all
  have eq: "w = (if device.wants_to_negotiate (dev ?j ?w) then tell ?j message.Create_offer (change ?j asking ?v)
      else if device.wants_to_negotiate (dev i ?w) then tell i message.Create_offer (change i asking ?v) else ?v)"
    using w(1) received_Answer[OF pair, of i b "\<lparr>answer_sdp = x\<rparr>"] active p(1) by (simp add: Let_def)
  consider (again) "w = tell ?j message.Create_offer (change ?j asking ?v)" "device.wants_to_negotiate (dev ?j ?w)"
    | (other) "w = tell i message.Create_offer (change i asking ?v)" "device.wants_to_negotiate (dev i ?w)"
    | (over) "w = ?v" "\<not> device.wants_to_negotiate (dev ?j ?w)" "\<not> device.wants_to_negotiate (dev i ?w)"
    using eq by presburger
  then show ?thesis
  proof cases
    case again
    from sides u p l Cons pair p1 again(2) show ?thesis
      unfolding again(1) by (intro move[where q = "Asked ?j" and l = "Some (?j, x)" and new = "\<lambda>k. ?new k @ (if k = i then [] else [message.Create_offer])", unfolded again(1)])
        (auto simp: round_defs side_weight_def intro: round_step.intros)
  next
    case other
    from sides u p l Cons pair p1 other(2) show ?thesis
      unfolding other(1) by (intro move[where q = "Asked i" and l = "Some (?j, x)" and new = "\<lambda>k. ?new k @ (if k = i then [message.Create_offer] else [])", unfolded other(1)])
        (auto simp: round_defs side_weight_def intro: round_step.intros)
  next
    case over
    from sides u p l Cons pair p1 over(2,3) show ?thesis
      unfolding over(1) by (intro move[where q = Idle and l = "Some (?j, x)" and new = "?new", unfolded over(1)])
        (auto simp: round_defs side_weight_def intro: round_step.intros)
  qed
qed

lemma up_simulated:
  assumes "in_round s (p, l)" "arrive_up b i s = Ok t" "up_queue i s = m # ms"
  shows "moves_on False s (p, l) t"
proof -
  let ?w = "at_server s"
  from assms(1) have u: "unread_ok p l" and pair: "pair_at ?w"
    and sd: "side p l k (up_queue k s) (down_queue k s) (peers s k) (dev k ?w)" for k by auto
  note Cons = assms(3)
  from assms(2) Cons obtain w where w: "server_step b ?w (Received (num i) (to_wire m)) = Ok w"
    "t = s\<lparr>at_server := w, up_read := (up_read s)(i := Suc (up_read s i))\<rparr>" by (auto simp: arrive_up_def rbind_Ok_iff)
  note sides = sd[of i] sd[of "\<not> i"] and move = server_moves_on[OF assms(1) Cons _ _ _ _ _ w(2), where f = False]
  show ?thesis
  proof (cases m)
    case Want_to_negotiate
    with up_wish[OF assms(1)] Cons w show ?thesis by (simp del: server_step.simps)
  next
    case (Send_candidate a)
    then have eq: "\<exists>c. w = tell (\<not> i) (Ice_candidate c) ?w" using w(1) received_Ice_candidate[OF pair] by auto
    then obtain c where eq: "w = tell (\<not> i) (Ice_candidate c) ?w" by blast
    from sides u Send_candidate Cons pair show ?thesis
      unfolding eq by (intro move[where q = p and l = l and new = "\<lambda>k. if k = i then [] else [Ice_candidate c]", unfolded eq])
        (auto simp: side_def describing_def about_round_def side_weight_def)
  next
    case (Send_offer x)
    with sides(1) Cons have p: "p = Offered i x" "filter describing ms = []"
      by (cases p; simp add: side_def describing_def split: if_splits)+
    have eq: "w = tell (\<not> i) (Offer \<lparr>offer_sdp = x\<rparr>) ?w" using w(1) Send_offer received_Offer[OF pair] by simp
    from sides u p Send_offer Cons pair show ?thesis
      unfolding eq by (intro move[where q = "Relayed i x" and l = l and new = "\<lambda>k. if k = i then [] else [Offer \<lparr>offer_sdp = x\<rparr>]", unfolded eq]; cases l)
        (auto simp: round_defs side_weight_def intro: round_step.intros)
  next
    case (Send_answer x)
    with up_answer[OF assms(1)] Cons w show ?thesis by (simp del: server_step.simps)
  qed
qed

lemma down_simulated:
  assumes "in_round s (p, l)" "arrive_down b i parses s = Ok t" "down_queue i s = m # ms"
  shows "moves_on False s (p, l) t"
proof -
  note Cons = assms(3)
  let ?c = "peers s i" and ?w = "at_server s"
  from assms(1) have u: "unread_ok p l" and sd: "side p l k (up_queue k s) (down_queue k s) (peers s k) (dev k ?w)" for k by auto
  note sides = sd[of i] sd[of "\<not> i"]
  have move: "moves_on False s (p, l) t"
    if "t = s\<lparr>peers := (peers s)(i := c), down_read := (down_read s)(i := Suc (down_read s i))\<rparr>"
      "(q, r) = (p, l) \<or> round_step (p, l) (q, r)" "unread_ok q r" "signaled c = signaled ?c"
      "side q r i (up_queue i s) ms c (dev i ?w)"
      "side q r (\<not> i) (up_queue (\<not> i) s) (down_queue (\<not> i) s) (peers s (\<not> i)) (dev (\<not> i) ?w)"
      "(if about_round m then 0 else 1) + round_weight (p, l) > round_weight (q, r)" "lost (q, r) \<longrightarrow> lost (p, l) \<or> False" for c q r
    using peer_moves_on[OF assms(1), of c i "[]" 1 q r t] Cons that by (cases "about_round m") auto
  show ?thesis
  proof (cases "about_round m")
    case False
    let ?u = "s\<lparr>down_read := (down_read s)(i := Suc (down_read s i))\<rparr>"
    from False have "from_wire parses m = None \<or> (\<exists>x. from_wire parses m = Some (Got_candidate x parses))"
      by (cases m) (auto simp: about_round_def)
    then have "\<exists>c. t = s\<lparr>peers := (peers s)(i := c), down_read := (down_read s)(i := Suc (down_read s i))\<rparr> \<and>
        (c = ?c \<or> (\<exists>x. c = ?c\<lparr>requested := requested ?c @ [Add_candidate x]\<rparr>))"
    proof (elim disjE exE)
      assume "from_wire parses m = None"
      with assms(2) Cons have "t = ?u" by (simp add: arrive_down_def rbind_Ok_iff)
      then show ?thesis by (intro exI[of _ ?c]) simp
    next
      fix x
      assume "from_wire parses m = Some (Got_candidate x parses)"
      with assms(2) Cons have "t = ?u\<lparr>peers := (peers s)(i := ?c\<lparr>requested := requested ?c @ [Add_candidate x]\<rparr>)\<rparr>"
        by (cases parses) (simp_all add: arrive_down_def at_peer_Ok end_steps)
      then show ?thesis
        by (intro exI[of _ "?c\<lparr>requested := requested ?c @ [Add_candidate x]\<rparr>"]) auto
    qed
    then obtain c where c: "t = s\<lparr>peers := (peers s)(i := c), down_read := (down_read s)(i := Suc (down_read s i))\<rparr>"
      "c = ?c \<or> (\<exists>x. c = ?c\<lparr>requested := requested ?c @ [Add_candidate x]\<rparr>)" by blast
    from sides False Cons c(2) u show ?thesis
      by (intro move[OF c(1), of p l]) (auto intro: side_skips)
  next
    case True
    have head: "unread_at l i @ going_down p i = m # filter about_round ms" using sides(1) Cons True by (simp add: side_def)
    show ?thesis
    proof (cases m)
      case (Answer f)
      with head have l: "l = Some (i, answer_sdp f)" "filter about_round ms = going_down p i"
        by (cases p; auto simp: unread_at_def split: option.splits if_splits)+
      let ?d = "?c\<lparr>requested := requested ?c @ [Set_remote \<lparr>sdp_type = Sdp_answer, sdp = answer_sdp f\<rparr>]\<rparr>"
      have t: "t = s\<lparr>peers := (peers s)(i := ?d), down_read := (down_read s)(i := Suc (down_read s i))\<rparr>"
        using assms(2) Cons Answer by (simp add: arrive_down_def at_peer_Ok end_steps)
      from sides l u show ?thesis
        by (intro move[OF t, of p None]; cases p) (auto simp: round_defs intro: round_step.intros)
    next
      case (Offer f)
      with head have p: "p = Relayed (\<not> i) (offer_sdp f)" "unread_at l i = []" "filter about_round ms = []"
        by (cases p; auto simp: unread_at_def split: option.splits if_splits)+
      with u have l: "l = None" by (cases l) (auto simp: unread_at_def)
      let ?d = "?c\<lparr>requested := requested ?c @ [Set_remote \<lparr>sdp_type = Sdp_offer, sdp = offer_sdp f\<rparr>],
        pending := pending ?c @ [Offer_set]\<rparr>"
      have t: "t = s\<lparr>peers := (peers s)(i := ?d), down_read := (down_read s)(i := Suc (down_read s i))\<rparr>"
        using assms(2) Cons Offer by (simp add: arrive_down_def at_peer_Ok end_steps)
      from sides l p show ?thesis
        by (intro move[OF t, of "Taking (\<not> i)" None]) (auto simp: round_defs intro: round_step.intros)
    next
      case Create_offer
      with head have p: "p = Asked i" "unread_at l i = []" "filter about_round ms = []"
        by (cases p; auto simp: unread_at_def split: option.splits if_splits)+
      let ?d = "?c\<lparr>requested := requested ?c @ [rtc_request.Create_offer (receive_audio ?c) (receive_video ?c)],
        pending := pending ?c @ [Offer_created]\<rparr>"
      have t: "t = s\<lparr>peers := (peers s)(i := ?d), down_read := (down_read s)(i := Suc (down_read s i))\<rparr>"
        using assms(2) Cons Create_offer by (simp add: arrive_down_def at_peer_Ok end_steps)
      from p(2) consider "l = None" | x where "l = Some (\<not> i, x)"
        by (cases l) (auto simp: unread_at_def split: if_splits)
      then show ?thesis
        by cases (use sides p in \<open>intro move[OF t, of "Creating i" l]; auto simp: round_defs intro: round_step.intros\<close>)+
    qed (use True in \<open>simp_all add: about_round_def\<close>)
  qed
qed

text \<open>Deliveries and futures that end do something that is left to do, or nothing.\<close>

fun inner :: "two_event \<Rightarrow> bool" where
  "inner (Needs i) = False"
| "inner (Finds i c) = False"
| "inner e = True"

lemma inner_moves_on:
  assumes "in_round s x" "two_step b s e = Ok t" "inner e" "t \<noteq> s"
  shows "moves_on (\<not> succeeds e) s x t"
proof -
  obtain p l where x: "x = (p, l)" by (cases x)
  note i = assms(1)[unfolded x]
  show ?thesis
  proof (cases e)
    case (Ends i n d r)
    with ends_simulated[OF i] assms(2,4) x show ?thesis by blast
  next
    case (Up k)
    with assms(2,4) have "up_queue k s \<noteq> []" by (auto simp: arrive_up_def)
    then obtain m ms where "up_queue k s = m # ms" by (cases "up_queue k s") auto
    with up_simulated[OF i] assms(2) Up x show ?thesis by (auto simp: succeeds_def)
  next
    case (Down k parses)
    with assms(2,4) have "down_queue k s \<noteq> []" by (auto simp: arrive_down_def)
    then obtain m ms where "down_queue k s = m # ms" by (cases "down_queue k s") auto
    with down_simulated[OF i] assms(2) Down x show ?thesis by (auto simp: succeeds_def)
  qed (use assms(3) in simp_all)
qed

lemma round_simulated:
  assumes "in_round s x" "two_step b s e = Ok t"
  shows "\<exists>y. in_round t y \<and> (y = x \<or> round_step x y) \<and> (lost y \<longrightarrow> lost x \<or> \<not> succeeds e)"
proof (cases "inner e")
  case True
  with inner_moves_on[OF assms] have "t = s \<or> moves_on (\<not> succeeds e) s x t" by blast
  with assms(1) show ?thesis by (elim disjE; unfold moves_on_def; blast)
next
  case False
  obtain p l where x: "x = (p, l)" by (cases x)
  from False obtain i a where "e = Needs i \<or> e = Finds i a" by (cases e) auto
  with told_simulated[OF assms(1)[unfolded x] _ assms(2)] x show ?thesis by blast
qed


section \<open>What is true of the two\<close>

lemma both_registered_pair:
  assumes "t0 \<noteq> t1"
  shows "\<exists>w. both_registered b k t0 t1 = Ok w \<and> pair_at w \<and> sent w = []
    \<and> (\<forall>i. \<not> active_negotiating (dev i w) \<and> \<not> device.wants_to_negotiate (dev i w))"
  using assms by (simp add: both_registered_def server_eval) (simp add: pair_at_def num_def dev_def)

lemma start_in_round:
  assumes "t0 \<noteq> t1" "both_registered b k t0 t1 = Ok w"
  shows "in_round (two_start w receives) (Idle, None)"
proof -
  from both_registered_pair[OF assms(1), of b k] assms(2)
  have w: "pair_at w" "sent w = []" "\<not> active_negotiating (dev i w)" "\<not> device.wants_to_negotiate (dev i w)" for i by auto
  have none: "sent_to c w = []" for c by (simp add: sent_to_def w(2))
  show ?thesis
    using w by (simp add: two_start_def none reads_ok_def up_queue_def down_queue_def side_def fresh_offer_answer_def
      state_in_def unread_at_def)
qed

lemma rounds_simulated:
  "in_round s x \<Longrightarrow> run_events (two_step b) s es = Ok t \<Longrightarrow> \<exists>y. in_round t y \<and> round_step\<^sup>*\<^sup>* x y"
proof (induction es arbitrary: s x)
  case Nil
  then show ?case by (intro exI[of _ x]) simp
next
  case (Cons e es)
  then obtain u where u: "two_step b s e = Ok u" "run_events (two_step b) u es = Ok t"
    by (auto simp: rbind_Ok_iff simp del: two_step.simps)
  from round_simulated[OF Cons.prems(1) u(1)] obtain y where y: "in_round u y" "y = x \<or> round_step x y" by blast
  from Cons.IH[OF y(1) u(2)] obtain z where "in_round t z" "round_step\<^sup>*\<^sup>* y z" by blast
  with y(2) show ?case by (blast intro: converse_rtranclp_into_rtranclp)
qed

text \<open>Two registered clients that both want to negotiate at once: one of them is asked for an offer.\<close>

definition demo_run_of :: "two_event list \<Rightarrow> two_peers res" where
  "demo_run_of es = rbind (both_registered Release ''room'' ''a'' ''b'') (\<lambda>w.
     run_events (two_step Release) (two_start w (\<lambda>i. (True, True))) es)"

definition both_want :: "two_event list" where
  "both_want = [Needs False, Needs True, Up False, Up True, Down False True]"

lemma demo_run_of_Ok:
  assumes "demo_run_of es = Ok s"
  obtains w where "both_registered Release ''room'' ''a'' ''b'' = Ok w"
    "run_events (two_step Release) (two_start w (\<lambda>i. (True, True))) es = Ok s"
  using assms by (auto simp: demo_run_of_def rbind_Ok_iff)

lemma both_want_run:
  "\<exists>s. demo_run_of both_want = Ok s \<and> pending (peers s False) = [Offer_created] \<and> pending (peers s True) = []"
proof -
  have "ran (demo_run_of both_want) (\<lambda>s. pending (peers s False) = [Offer_created] \<and> pending (peers s True) = [])" by code_simp
  then show ?thesis by (rule ranD)
qed











text \<open>Nothing the clients do breaks the server or an end, as long as futures end with a result or an exception and
  the candidates can be parsed.\<close>

definition ends_well :: "two_event \<Rightarrow> bool" where
  "ends_well e \<longleftrightarrow> (case e of Ends i n d r \<Rightarrow> ((\<exists>x. d = Ok x) \<or> (\<exists>x. d = Throw x)) \<and> ((\<exists>x. r = Ok x) \<or> (\<exists>x. r = Throw x))
     | Down i parses \<Rightarrow> parses
     | _ \<Rightarrow> True)"

lemma end_completes_ok:
  assumes "(\<exists>x. d = Ok x) \<or> (\<exists>x. d = Throw x)" "(\<exists>x. r = Ok x) \<or> (\<exists>x. r = Throw x)"
  shows "\<exists>c'. negotiation_step Release c (Completed n d r) = Ok c'"
proof (cases "n < length (pending c)")
  case True
  with assms show ?thesis
    by (cases "pending c ! n") (auto simp: negotiation_defs prog_eval sassert_def boost_assert_def)
qed (simp add: negotiation_defs prog_eval)

lemma two_step_ok:
  assumes "in_round s (p, l)" "ends_well e"
  shows "\<exists>t. two_step Release s e = Ok t"
proof (cases e)
  case (Needs i)
  have "connected (peers s i)" using assms(1) by (auto simp: side_def)
  with Needs show ?thesis by (simp add: at_peer_def end_steps)
next
  case (Ends i n d r)
  with assms(2) have "\<exists>c. negotiation_step Release (peers s i) (Completed n (rbind d (\<lambda>t. Ok (description_of (pending (peers s i)) n t))) r) = Ok c"
    by (intro end_completes_ok) (auto simp: ends_well_def)
  with Ends show ?thesis by (auto simp: at_peer_def)
next
  case (Finds i c)
  then show ?thesis by (simp add: at_peer_def end_steps)
next
  case (Up i)
  show ?thesis
  proof (cases "up_queue i s")
    case Nil
    with Up show ?thesis by (simp add: arrive_up_def)
  next
    case (Cons m ms)
    from assms(1) have pair: "pair_at (at_server s)" and u: "unread_ok p l"
      and sd: "side p l k (up_queue k s) (down_queue k s) (peers s k) (dev k (at_server s))" for k by auto
    have "\<exists>w. server_step Release (at_server s) (Received (num i) (to_wire m)) = Ok w"
    proof (cases m)
      case (Send_answer x)
      with sd[of i] Cons have "p = Answered (\<not> i) x" by (cases p; simp add: side_def describing_def split: if_splits)
      with sd[of i] sd[of "\<not> i"] Send_answer pair show ?thesis by (simp add: received_Answer side_def del: server_step.simps)
    qed (use pair in \<open>simp_all add: received_Want received_Offer received_Ice_candidate del: server_step.simps\<close>)
    with Up Cons show ?thesis by (auto simp: arrive_up_def simp del: server_step.simps)
  qed
next
  case (Down i parses)
  show ?thesis
  proof (cases "down_queue i s")
    case Nil
    with Down show ?thesis by (simp add: arrive_down_def)
  next
    case (Cons m ms)
    moreover from Down assms(2) have parses by (simp add: ends_well_def)
    ultimately show ?thesis using Down
      by (cases m) (simp_all add: arrive_down_def at_peer_def end_steps boost_assert_def Let_def)
  qed
qed

lemma two_run_ok:
  "in_round s x \<Longrightarrow> \<forall>e \<in> set es. ends_well e \<Longrightarrow> \<exists>t. run_events (two_step Release) s es = Ok t"
proof (induction es arbitrary: s x)
  case (Cons e es)
  obtain p l where x: "x = (p, l)" by (cases x)
  from two_step_ok[of s p l e] Cons.prems x obtain t where t: "two_step Release s e = Ok t" by auto
  from round_simulated[OF Cons.prems(1) t] Cons.IH[of t] Cons.prems(2) t show ?case by (auto simp del: two_step.simps)
qed simp

text \<open>C2. In a Release build, for two clients that stay connected, while the media library can parse the candidates:
  whatever order things come in and whatever futures end with, no step of the server or of the two ends runs into
  undefined behaviour, and both peer connections are asked for descriptions in an order their signaling state
  allows if what they are asked for is done: no offer ever meets an offer, and no answer comes that was not asked
  for. The condition is needed: a candidate that can not be parsed ends the program.\<close>

theorem negotiation_in_order:
  assumes "t0 \<noteq> t1" "both_registered Release k t0 t1 = Ok w" "\<forall>e \<in> set es. ends_well e"
  shows "\<exists>s. run_events (two_step Release) (two_start w receives) es = Ok s
    \<and> (\<forall>i. state_of (requested (peers s i)) \<noteq> Wrong)"
proof -
  from two_run_ok[OF start_in_round[OF assms(1,2)] assms(3)] obtain s where
    s: "run_events (two_step Release) (two_start w receives) es = Ok s" by blast
  from rounds_simulated[OF start_in_round[OF assms(1,2)] s] obtain p l where "in_round s (p, l)" by auto
  with s show ?thesis by (auto simp: side_def state_in_def)
qed

theorem negotiation_in_order_witness:
  "\<exists>w s. both_registered Release ''room'' ''a'' ''b'' = Ok w
    \<and> run_events (two_step Release) (two_start w (\<lambda>i. (True, True))) both_want = Ok s
    \<and> (\<forall>i. state_of (requested (peers s i)) \<noteq> Wrong)"
proof -
  obtain s where "demo_run_of both_want = Ok s" using both_want_run by blast
  then obtain w where w: "both_registered Release ''room'' ''a'' ''b'' = Ok w" by (rule demo_run_of_Ok)
  have "\<forall>e \<in> set both_want. ends_well e" by (simp add: both_want_def ends_well_def)
  from negotiation_in_order[OF _ w this, of "\<lambda>i. (True, True)"] w show ?thesis by auto
qed


section \<open>The end of a negotiation\<close>

text \<open>A run in which every event does something.\<close>

fun busy :: "build \<Rightarrow> two_peers \<Rightarrow> two_event list \<Rightarrow> bool" where
  "busy b s [] = True"
| "busy b s (e # es) = (inner e \<and> (\<exists>t. two_step b s e = Ok t \<and> t \<noteq> s \<and> busy b t es))"

definition work_left :: "two_peers \<Rightarrow> nat" where
  "work_left s = queued_at False s + queued_at True s + 12"

lemma busy_bounded:
  "in_round s x \<Longrightarrow> busy b s es \<Longrightarrow> length es \<le> weight s x"
proof (induction es arbitrary: s x)
  case (Cons e es)
  then obtain t where t: "two_step b s e = Ok t" "t \<noteq> s" "inner e" "busy b t es" by auto
  from inner_moves_on[OF Cons.prems(1) t(1,3,2)] obtain y where "in_round t y" "weight t y < weight s x"
    by (auto simp: moves_on_def)
  with Cons.IH[of t y] t(4) show ?case by simp
qed simp

lemma weight_work: "weight s x \<le> work_left s"
proof -
  have "phase_weight (fst x) \<le> 11" by (cases "fst x") simp_all
  then show ?thesis by (cases x) (simp add: weight_def work_left_def)
qed

lemma success_kept:
  "in_round s x \<Longrightarrow> \<not> lost x \<Longrightarrow> \<forall>e \<in> set es. succeeds e \<Longrightarrow> run_events (two_step b) s es = Ok t \<Longrightarrow>
    \<exists>y. in_round t y \<and> \<not> lost y"
proof (induction es arbitrary: s x)
  case Nil
  then show ?case by (intro exI[of _ x]) simp
next
  case (Cons e es)
  then obtain u where u: "two_step b s e = Ok u" "run_events (two_step b) u es = Ok t"
    by (auto simp: rbind_Ok_iff simp del: two_step.simps)
  from round_simulated[OF Cons.prems(1) u(1)] Cons.prems(2,3) obtain y where "in_round u y" "\<not> lost y" by auto
  with Cons.IH[of u y] Cons.prems(3) u(2) show ?case by simp
qed

definition at_rest :: "two_peers \<Rightarrow> bool" where
  "at_rest s \<longleftrightarrow> (\<forall>i. up_queue i s = [] \<and> down_queue i s = [] \<and> pending (peers s i) = [])"

lemma stuck_at_rest:
  assumes "in_round s (p, l)" "\<And>e. inner e \<Longrightarrow> ends_well e \<Longrightarrow> two_step Release s e = Ok s"
  shows "at_rest s"
proof -
  from assms(1) have sd: "side p l k (up_queue k s) (down_queue k s) (peers s k) (dev k (at_server s))" for k by auto
  have "up_queue i s = []" for i
  proof (rule ccontr)
    assume "up_queue i s \<noteq> []"
    then obtain m ms where m: "up_queue i s = m # ms" by (cases "up_queue i s") auto
    have "arrive_up Release i s = Ok s" using assms(2)[of "Up i"] by (simp add: ends_well_def)
    then have "up_read s i = Suc (up_read s i)"
      by (auto simp: arrive_up_def m rbind_Ok_iff simp del: server_step.simps dest!: arg_cong[where f = "\<lambda>s. up_read s i"])
    then show False by simp
  qed
  moreover have "down_queue i s = []" for i
  proof (rule ccontr)
    assume "down_queue i s \<noteq> []"
    then obtain m ms where m: "down_queue i s = m # ms" by (cases "down_queue i s") auto
    have "arrive_down Release i True s = Ok s" using assms(2)[of "Down i True"] by (simp add: ends_well_def)
    then have "down_read s i = Suc (down_read s i)"
      by (cases m) (auto simp: arrive_down_def m Let_def at_peer_Ok dest!: arg_cong[where f = "\<lambda>s. down_read s i"])
    then show False by simp
  qed
  moreover have "pending (peers s i) = []" for i
  proof (rule ccontr)
    assume "pending (peers s i) \<noteq> []"
    with sd[of i] obtain k where k: "pending (peers s i) = [k]" by (cases p) (auto simp: side_def split: if_splits)
    have "two_step Release s (Ends i 0 (Throw Runtime_error) (Throw Runtime_error)) = Ok s"
      by (rule assms(2)) (simp_all add: ends_well_def)
    with k have "pending (peers s i) = []"
      by (cases k) (auto simp: at_peer_Ok negotiation_defs prog_eval erase_at_def sassert_def boost_assert_def
        dest!: arg_cong[where f = "\<lambda>s. pending (peers s i)"])
    with k show False by simp
  qed
  ultimately show ?thesis by (simp add: at_rest_def)
qed

lemma nothing_going:
  assumes "\<And>k. going_up p k = [] \<and> going_down p k = [] \<and> working p k = []" "\<not> lost (p, l)"
  shows "p = Idle"
proof -
  from assms(1) have "\<forall>k. going_up p k = [] \<and> going_down p k = [] \<and> working p k = []" by blast
  with assms(2) show ?thesis by (cases p) (auto simp: all_bool_eq split: if_splits)
qed

text \<open>C3. In a Release build, for two clients that stay connected, as long as every result is a success, negotiation
  ends and serves every wish: from any state the clients can get into, only boundedly many deliveries and results
  can follow each other, and when none is left, nothing is on its way, nothing is waited for, and no client wants
  to negotiate or is negotiating.\<close>

theorem negotiation_settles:
  assumes "t0 \<noteq> t1" "both_registered Release k t0 t1 = Ok w" "\<forall>e \<in> set es. succeeds e"
    and "run_events (two_step Release) (two_start w receives) es = Ok s"
  shows "(\<forall>fs. busy Release s fs \<longrightarrow> length fs \<le> work_left s)
    \<and> ((\<forall>e. inner e \<and> ends_well e \<longrightarrow> two_step Release s e = Ok s) \<longrightarrow>
        at_rest s \<and> (\<forall>i. \<not> device.wants_to_negotiate (dev i (at_server s)) \<and> \<not> active_negotiating (dev i (at_server s))))"
proof -
  from success_kept[OF start_in_round[OF assms(1,2)] _ assms(3,4)] obtain p l where y: "in_round s (p, l)" "\<not> lost (p, l)" by auto
  have "length fs \<le> work_left s" if "busy Release s fs" for fs
    using busy_bounded[OF y(1) that] weight_work[of s "(p, l)"] by simp
  moreover have "at_rest s \<and> (\<forall>i. \<not> device.wants_to_negotiate (dev i (at_server s)) \<and> \<not> active_negotiating (dev i (at_server s)))"
    if "\<And>e. inner e \<and> ends_well e \<Longrightarrow> two_step Release s e = Ok s"
  proof -
    have rest: "at_rest s" by (rule stuck_at_rest[OF y(1)]) (rule that, simp)
    from y(1) have sd: "side p l k (up_queue k s) (down_queue k s) (peers s k) (dev k (at_server s))" for k by auto
    have "going_up p k = [] \<and> going_down p k = [] \<and> working p k = []" for k
      using sd[of k] rest by (auto simp: side_def at_rest_def)
    with y(2) have "p = Idle" using nothing_going by blast
    with sd rest show ?thesis by (simp add: side_def)
  qed
  ultimately show ?thesis by blast
qed

theorem negotiation_settles_witness:
  "\<exists>s. demo_run_of [Needs False] = Ok s \<and> work_left s = 37 \<and> (\<forall>fs. busy Release s fs \<longrightarrow> length fs \<le> 37)"
proof -
  have "ran (demo_run_of [Needs False]) (\<lambda>s. work_left s = 37)" by code_simp
  then obtain s where s: "demo_run_of [Needs False] = Ok s" "work_left s = 37" by (auto dest!: ranD)
  from s(1) obtain w where "both_registered Release ''room'' ''a'' ''b'' = Ok w"
    "run_events (two_step Release) (two_start w (\<lambda>i. (True, True))) [Needs False] = Ok s" by (rule demo_run_of_Ok)
  from negotiation_settles[OF _ this(1) _ this(2)] s show ?thesis by (auto simp: succeeds_def)
qed

text \<open>A failed description: the server waits for an answer that nobody will send.\<close>

inductive_cases lost_stepE: "round_step (Lost j, l) y"

definition harmless :: "rtc_request \<Rightarrow> bool" where
  "harmless r \<longleftrightarrow> (\<exists>c. r = Add_candidate c) \<or> (\<exists>d. r = Set_remote d \<and> sdp_type d = Sdp_answer)"

lemma lost_step:
  assumes "in_round s (Lost j, l)" "two_step b s e = Ok t"
  shows "\<exists>r. in_round t (Lost j, r)"
    and "\<exists>rs. requested (peers t k) = requested (peers s k) @ rs \<and> (\<forall>r \<in> set rs. harmless r)"
proof -
  from round_simulated[OF assms] obtain y where y: "in_round t y" "y = (Lost j, l) \<or> round_step (Lost j, l) y" by blast
  then show "\<exists>r. in_round t (Lost j, r)" by (auto elim!: lost_stepE simp del: in_round.simps)
  from assms(1) have sd: "side (Lost j) l k (up_queue k s) (down_queue k s) (peers s k) (dev k (at_server s))" for k by auto
  then have c: "connected (peers s i)" "pending (peers s i) = []" for i by (simp_all add: side_def)
  show "\<exists>rs. requested (peers t k) = requested (peers s k) @ rs \<and> (\<forall>r \<in> set rs. harmless r)"
  proof (cases e)
    case (Down i parses)
    show ?thesis
    proof (cases "down_queue i s")
      case Nil
      with assms(2) Down show ?thesis by (simp add: arrive_down_def)
    next
      case (Cons m ms)
      with sd[of i] have "\<not> about_round m \<or> (\<exists>a. m = Answer a)"
        by (auto simp: side_def unread_at_def about_round_def split: if_splits option.splits)
      with assms(2) Down Cons show ?thesis
        by (cases m; cases parses) (auto simp: arrive_down_def about_round_def at_peer_Ok end_steps Let_def rbind_Ok_iff harmless_def)
    qed
  next
    case (Ends i n d r)
    with assms(2) c show ?thesis by (auto simp: at_peer_Ok end_idle)
  next
    case (Up i)
    with assms(2) show ?thesis by (auto simp: arrive_up_def rbind_Ok_iff split: list.splits)
  qed (use assms(2) c in \<open>auto simp: at_peer_Ok end_steps\<close>)
qed

lemma lost_run:
  "in_round s (Lost j, l) \<Longrightarrow> run_events (two_step b) s es = Ok t \<Longrightarrow> (\<exists>r. in_round t (Lost j, r))
    \<and> (\<forall>k. \<exists>rs. requested (peers t k) = requested (peers s k) @ rs \<and> (\<forall>r \<in> set rs. harmless r))"
proof (induction es arbitrary: s l)
  case Nil
  then show ?case by (auto simp del: in_round.simps)
next
  case (Cons e es)
  then obtain u where u: "two_step b s e = Ok u" "run_events (two_step b) u es = Ok t"
    by (auto simp: rbind_Ok_iff simp del: two_step.simps)
  from lost_step(1)[OF Cons.prems(1) u(1)] obtain r where r: "in_round u (Lost j, r)" by blast
  have "\<exists>rs. requested (peers t k) = requested (peers s k) @ rs \<and> (\<forall>r \<in> set rs. harmless r)" for k
  proof -
    from lost_step(2)[OF Cons.prems(1) u(1), of k] Cons.IH[OF r u(2)] obtain xs ys where
      "requested (peers u k) = requested (peers s k) @ xs" "\<forall>r \<in> set xs. harmless r"
      "requested (peers t k) = requested (peers u k) @ ys" "\<forall>r \<in> set ys. harmless r" by blast
    then show ?thesis by (intro exI[of _ "xs @ ys"]) auto
  qed
  with Cons.IH[OF r u(2)] show ?case by blast
qed

text \<open>C6. One failed description ends all negotiation of two clients that stay connected (Release build). When the
  media library refuses to create the offer or to set it locally, or to set it at the partner, or to create the
  answer or to set it locally, the round is over without an answer, but the server does not learn it: from then on
  no end is ever asked for an offer or an answer again, however often both need to negotiate, while one device
  negotiates for ever. (Whether the answer can be set at the client that offered is not looked at by the code, and
  has no part in this. A new registration of one of them is not a step of this machine.)\<close>

theorem failed_description_stalls:
  assumes "t0 \<noteq> t1" "both_registered Release k t0 t1 = Ok w"
    and "run_events (two_step Release) (two_start w receives) es = Ok s" "pending (peers s i) \<noteq> []"
    and "two_step Release s (Ends i 0 (Throw e) (Throw e)) = Ok t" "run_events (two_step Release) t fs = Ok u"
  shows "(\<exists>j. active_negotiating (dev j (at_server u))) \<and> (\<forall>j. pending (peers u j) = [])
    \<and> (\<forall>j. \<exists>rs. requested (peers u j) = requested (peers t j) @ rs \<and> (\<forall>r \<in> set rs. harmless r))"
proof -
  from rounds_simulated[OF start_in_round[OF assms(1,2)] assms(3)] obtain p l where x: "in_round s (p, l)" by auto
  then have sd: "pending (peers s i) = working p i" by (auto simp: side_def)
  with assms(4) obtain x where p: "pending (peers s i) = [x]" "working p i \<noteq> []" by (cases p) (auto split: if_splits)
  with assms(5) have "t = s\<lparr>peers := (peers s)(i := (peers s i)\<lparr>pending := []\<rparr>)\<rparr>"
    by (cases x) (auto simp: at_peer_Ok negotiation_defs prog_eval erase_at_def sassert_def boost_assert_def)
  from failed_end[OF x p(2) this] obtain j where "in_round t (Lost j, l)" by blast
  from lost_run[OF this assms(6)] obtain r where r: "in_round u (Lost j, r)"
    and rs: "\<forall>k. \<exists>rs. requested (peers u k) = requested (peers t k) @ rs \<and> (\<forall>r \<in> set rs. harmless r)" by blast
  from r have "side (Lost j) r k (up_queue k u) (down_queue k u) (peers u k) (dev k (at_server u))" for k by auto
  then have "active_negotiating (dev j (at_server u))" "pending (peers u k) = []" for k by (simp_all add: side_def)
  with rs show ?thesis by blast
qed

theorem failed_description_stalls_witness:
  "\<exists>s t u. demo_run_of [Needs False, Up False, Down False True] = Ok s
    \<and> two_step Release s (Ends False 0 (Throw Runtime_error) (Throw Runtime_error)) = Ok t
    \<and> run_events (two_step Release) t [Needs True, Up True, Needs False, Up False] = Ok u
    \<and> (\<exists>j. active_negotiating (dev j (at_server u)))
    \<and> (\<forall>j. \<exists>rs. requested (peers u j) = requested (peers t j) @ rs \<and> (\<forall>r \<in> set rs. harmless r))"
proof -
  let ?e = "Ends False 0 (Throw Runtime_error) (Throw Runtime_error)" and ?fs = "[Needs True, Up True, Needs False, Up False]"
  have r: "ran (demo_run_of [Needs False, Up False, Down False True]) (\<lambda>s. pending (peers s False) \<noteq> []
    \<and> ran (two_step Release s ?e) (\<lambda>t. ran (run_events (two_step Release) t ?fs) (\<lambda>u. True)))" by code_simp
  from ranD[OF r] obtain s where s: "demo_run_of [Needs False, Up False, Down False True] = Ok s" "pending (peers s False) \<noteq> []"
    "ran (two_step Release s ?e) (\<lambda>t. ran (run_events (two_step Release) t ?fs) (\<lambda>u. True))" by iprover
  from ranD[OF s(3)] obtain t where t: "two_step Release s ?e = Ok t"
    "ran (run_events (two_step Release) t ?fs) (\<lambda>u. True)" by iprover
  from ranD[OF t(2)] obtain u where u: "run_events (two_step Release) t ?fs = Ok u" by iprover
  from s(1) obtain w where "both_registered Release ''room'' ''a'' ''b'' = Ok w"
    "run_events (two_step Release) (two_start w (\<lambda>i. (True, True))) [Needs False, Up False, Down False True] = Ok s"
    by (rule demo_run_of_Ok)
  from failed_description_stalls[OF _ this s(2) t(1) u] s(1) t(1) u show ?thesis by blast
qed


text \<open>One candidate of the partner that can not be parsed ends the program of the client it is relayed to.\<close>

theorem unparsable_candidate_ends_program:
  assumes "down_queue i s = Ice_candidate c # ms"
  shows "two_step b s (Down i False) = (if b = Debug then Assert_failed else Undefined)"
  using assms by (cases b) (simp_all add: arrive_down_def candidate_refused_def boost_assert_def)

theorem unparsable_candidate_ends_program_witness:
  "\<exists>s. demo_run_of [Finds False \<lparr>Negotiation.ice_candidate.mlineindex = 0, mid = ''0'', candidate_sdp = ''?''\<rparr>, Up False] = Ok s
    \<and> two_step Release s (Down True False) = Undefined"
proof -
  let ?es = "[Finds False \<lparr>Negotiation.ice_candidate.mlineindex = 0, mid = ''0'', candidate_sdp = ''?''\<rparr>, Up False]"
  have r: "ran (demo_run_of ?es) (\<lambda>s. down_queue True s = [Ice_candidate \<lparr>Json_Message.ice_candidate.mlineindex = 0,
      Json_Message.ice_candidate.mid = ''0'', ice_sdp = ''?''\<rparr>])" by code_simp
  from ranD[OF r] obtain s where s: "demo_run_of ?es = Ok s" "down_queue True s = [Ice_candidate
      \<lparr>Json_Message.ice_candidate.mlineindex = 0, Json_Message.ice_candidate.mid = ''0'', ice_sdp = ''?''\<rparr>]" by blast
  from s(1) unparsable_candidate_ends_program[OF s(2), of Release] show ?thesis by auto
qed

end
