(* ===== verification/Client_Connection.thy ===== *)
theory Client_Connection
  imports Signaling_Client Websocket
begin

text \<open>
  The connection of a signaling client (src/fubble/signaling/client/connection.cpp), which reads from the websocket
  connection it owns for as long as the client runs. The record of the websocket connection is extended by what the
  signaling connection adds: \<open>promise_held\<close> is its \<open>run_promise\<close>, \<open>reads_posted\<close> the tasks handed to the executor, and
  \<open>owner\<close> the reconnecting client that owns the connection (or its last one) and is told how \<open>run\<close> ends.

  The continuations of a read and of \<open>run\<close> have an inline executor, so they are run inside the handler of the
  websocket connection, before it goes on: the order of the statements there decides what the client may do. The
  machine of the client, of which \<open>Incoming\<close> and \<open>Run_done\<close> are events, is refined by the machine of this theory,
  where they come from the texts and errors the stream completes a read with.
\<close>

section \<open>State\<close>

record client_connection = connection_impl +
  conn_alive :: bool
  promise_held :: bool
  is_running :: bool
  reads_posted :: nat
  run_results :: "run_result list"
  owner :: reconnecting_client

text \<open>\<open>closed\<close> is the error of a stream that was closed by both ends.\<close>

datatype read_error = Closed | Aborted | Failed

definition run_code :: "read_error \<Rightarrow> run_result" where
  "run_code c = (case c of Closed \<Rightarrow> Run_stopped | Aborted \<Rightarrow> Run_aborted | Failed \<Rightarrow> Run_system_error)"

definition exn_code :: "exn \<Rightarrow> run_result" where
  "exn_code e = (if e = System_error then Run_system_error
     else if e = Operation_aborted then Run_aborted else Run_other_error)"

text \<open>The destructors: a promise that is still held is answered, then the websocket connection is destroyed. The
  continuation of a read that is broken there finds the promise answered; what that throws ends in the future of the
  continuation, which nobody holds.\<close>

definition destroy_connection :: "client_connection \<Rightarrow> client_connection res" where
  "destroy_connection s =
     (let s1 = if promise_held s then s\<lparr>run_results := run_results s @ [Run_aborted]\<rparr> else s
      in rbind (destroy s1) (\<lambda>s2. Ok (s2\<lparr>conn_alive := False, promise_held := False, is_running := False\<rparr>)))"


section \<open>Reading\<close>

definition read_next :: "build \<Rightarrow> client_connection \<Rightarrow> client_connection res" where
  "read_next b s = read b s"

definition post_read_next :: "client_connection \<Rightarrow> client_connection" where
  "post_read_next s = s\<lparr>reads_posted := Suc (reads_posted s)\<rparr>"

definition run :: "build \<Rightarrow> client_connection \<Rightarrow> client_connection res" where
  "run b s = read_next b (s\<lparr>is_running := True\<rparr>)"

text \<open>The promise is moved out and answered; its continuation is \<open>client_impl::run_done\<close>, which may make the owner
  let go of the client and so of this connection.\<close>

definition finish :: "build \<Rightarrow> run_result \<Rightarrow> client_connection \<Rightarrow> client_connection res" where
  "finish b r s =
     (let s1 = s\<lparr>is_running := False, promise_held := False, run_results := run_results s @ [r]\<rparr>
      in case delegate (owner s1) of
           None \<Rightarrow> Undefined
         | Some d \<Rightarrow> rbind (run_done b r d (owner s1)) (\<lambda>o'.
             let s2 = s1\<lparr>owner := o'\<rparr>
             in if delegate o' = None then destroy_connection s2 else Ok s2))"

definition parse_message ::
    "build \<Rightarrow> (string, 'j) json_ops \<Rightarrow> string \<Rightarrow> client_connection \<Rightarrow> client_connection res" where
  "parse_message b J t s =
     rbind (parse J t) (\<lambda>m. rbind (incoming b m (owner s)) (\<lambda>o'. Ok (s\<lparr>owner := o'\<rparr>)))"

definition did_read ::
    "build \<Rightarrow> (string, 'j) json_ops \<Rightarrow> read_error \<Rightarrow> string option \<Rightarrow> client_connection \<Rightarrow> client_connection res" where
  "did_read b J c r s = (case r of
     None \<Rightarrow> finish b (run_code c) s
   | Some t \<Rightarrow> (case parse_message b J t s of
       Throw e \<Rightarrow> finish b (exn_code e) s
     | out \<Rightarrow> rbind out (\<lambda>s. Ok (post_read_next s))))"

text \<open>The continuation of a read.\<close>

definition read_done ::
    "build \<Rightarrow> (string, 'j) json_ops \<Rightarrow> read_error \<Rightarrow> string option \<Rightarrow> client_connection \<Rightarrow> client_connection res" where
  "read_done b J c r s =
     (if \<not> promise_held s then if b = Debug then Assert_failed else Ok s
      else did_read b J c r s)"

text \<open>The posted task holds a bare pointer to the connection.\<close>

definition run_posted :: "build \<Rightarrow> client_connection \<Rightarrow> client_connection res" where
  "run_posted b s = (if \<not> conn_alive s then Undefined else read_next b (s\<lparr>reads_posted := reads_posted s - 1\<rparr>))"


section \<open>The client and its connection\<close>

definition no_connection :: "reconnecting_client \<Rightarrow> client_connection" where
  "no_connection c = connection_impl.extend fresh_connection
     (client_connection.fields False False False 0 [] c)"

text \<open>The client holds a connection from the end of a successful attempt until it is destroyed.\<close>

definition holds_connection :: "reconnecting_client \<Rightarrow> bool" where
  "holds_connection c = (case delegate c of None \<Rightarrow> False | Some d \<Rightarrow> has_connection d)"

definition new_connection :: "build \<Rightarrow> client_connection \<Rightarrow> client_connection res" where
  "new_connection b s = run b
     ((no_connection (owner s))\<lparr>conn_alive := True, promise_held := True, reads_posted := reads_posted s\<rparr>)"

datatype connection_event =
    Client client_event
  | Arrives string
  | Read_fails read_error
  | Posted_runs

definition from_connection :: "client_event \<Rightarrow> bool" where
  "from_connection e = (case e of Incoming m \<Rightarrow> True | Run_done r \<Rightarrow> True | _ \<Rightarrow> False)"

definition client_acts :: "build \<Rightarrow> client_event \<Rightarrow> client_connection \<Rightarrow> client_connection res" where
  "client_acts b e s = rbind (client_step b (owner s) e) (\<lambda>o'.
     let s1 = s\<lparr>owner := o'\<rparr>
     in if holds_connection o' \<and> \<not> conn_alive s then new_connection b s1
        else if \<not> holds_connection o' \<and> conn_alive s then destroy_connection s1
        else Ok s1)"

text \<open>The stream completes only a read that was started.\<close>

fun connection_step ::
    "build \<Rightarrow> (string, 'j) json_ops \<Rightarrow> client_connection \<Rightarrow> connection_event \<Rightarrow> client_connection res" where
  "connection_step b J s (Client e) = (if from_connection e then Ok s else client_acts b e s)"
| "connection_step b J s (Arrives t) =
     (if conn_alive s \<and> is_reading s then on_read False (read_done b J Failed) (s\<lparr>read_buffer := t\<rparr>) else Ok s)"
| "connection_step b J s (Read_fails c) =
     (if conn_alive s \<and> is_reading s then on_read True (read_done b J c) s else Ok s)"
| "connection_step b J s Posted_runs = (if reads_posted s = 0 then Ok s else run_posted b s)"

text \<open>What the client sees of an event.\<close>

fun client_view :: "(string, 'j) json_ops \<Rightarrow> client_connection \<Rightarrow> connection_event \<Rightarrow> client_event list" where
  "client_view J s (Client e) = (if from_connection e then [] else [e])"
| "client_view J s (Arrives t) = (if conn_alive s \<and> is_reading s
     then case parse J t of Ok m \<Rightarrow> [Incoming m] | _ \<Rightarrow> [] else [])"
| "client_view J s (Read_fails c) = (if conn_alive s \<and> is_reading s then [Run_done (run_code c)] else [])"
| "client_view J s Posted_runs = []"

fun client_views ::
    "build \<Rightarrow> (string, 'j) json_ops \<Rightarrow> client_connection \<Rightarrow> connection_event list \<Rightarrow> client_event list" where
  "client_views b J s [] = []"
| "client_views b J s (e # es) = client_view J s e @
     (case connection_step b J s e of Ok t \<Rightarrow> client_views b J t es | _ \<Rightarrow> [])"


section \<open>The client as its connection sees it\<close>

definition client_runs :: "reconnecting_client \<Rightarrow> bool" where
  "client_runs c = (case delegate c of None \<Rightarrow> False | Some d \<Rightarrow> running d)"

definition owner_ok :: "reconnecting_client \<Rightarrow> bool" where
  "owner_ok c \<longleftrightarrow> (pending (timer c) \<longrightarrow> delegate c = None) \<and>
     (case delegate c of None \<Rightarrow> True | Some d \<Rightarrow>
       (connecting d \<longrightarrow> \<not> has_connection d \<and> \<not> running d) \<and> (running d \<longrightarrow> has_connection d))"

lemmas owner_defs = client_runs_def owner_ok_def holds_connection_def

text \<open>What an event of the application, of an attempt or of the timer does to the connection of the client.\<close>

definition same_connection :: "reconnecting_client \<Rightarrow> reconnecting_client \<Rightarrow> bool" where
  "same_connection c c' \<longleftrightarrow> holds_connection c' = holds_connection c \<and> client_runs c' = client_runs c"

definition gets_connection :: "reconnecting_client \<Rightarrow> reconnecting_client \<Rightarrow> bool" where
  "gets_connection c c' \<longleftrightarrow> \<not> holds_connection c \<and> holds_connection c' \<and> client_runs c'"

lemma quiet_same: "quiet c c' \<Longrightarrow> owner_ok c \<Longrightarrow> owner_ok c' \<and> same_connection c c'"
  by (simp add: quiet_def owner_defs same_connection_def)

lemma got_registered_delegate: "got_registered b c = Ok c' \<Longrightarrow> delegate c' = delegate c \<and> timer c' = timer c"
  unfolding got_registered_def
  by (drule rc_send_cache_quiet) (simp add: quiet_def emit_def split: if_splits)

lemma reconnect_same:
  assumes "reconnect b c = Ok c'" "delegate c = None" "\<not> pending (timer c)"
  shows "owner_ok c' \<and> same_connection c c'"
  using assms
  by (auto simp: reconnect_def impl_connect_def create_impl_def owner_defs same_connection_def emit_def Let_def
      split: if_splits)

lemma attempt_connection:
  assumes "connected b a d c = Ok c'" "delegate c = Some d" "connecting d" "owner_ok c"
  shows "owner_ok c' \<and> (same_connection c c' \<or> gets_connection c c')"
proof (cases a)
  case Attempt_ok
  from assms(2-4) have h: "\<not> has_connection d" "\<not> running d" "\<not> pending (timer c)"
    by (auto simp: owner_ok_def)
  let ?d = "d\<lparr>connecting := False, has_connection := True\<rparr>"
  from assms(1) Attempt_ok h obtain u v where
    u: "connection_send b (Registration \<lparr>key = reg_key c, reconnect_token = rc_token c\<rparr>)
      (c\<lparr>delegate := Some ?d\<rparr>) = Ok u"
    and v: "got_registered b u = Ok v"
    and c': "c' = v\<lparr>delegate := map_option (\<lambda>d. d\<lparr>running := True\<rparr>) (delegate v)\<rparr>"
    by (auto simp: connected_def Let_def rbind_Ok_iff)
  from u have "delegate u = Some ?d" "timer u = timer c"
    by (auto simp: connection_send_def split: if_splits)
  with got_registered_delegate[OF v] c' h assms(2) show ?thesis
    by (auto simp: owner_defs gets_connection_def)
qed (use assms in \<open>auto simp: connected_def owner_defs same_connection_def Let_def split: if_splits\<close>)

lemma client_event_connection:
  assumes "client_step b c e = Ok c'" "owner_ok c" "\<not> from_connection e" "\<And>t k. e \<noteq> Connect t k"
  shows "owner_ok c' \<and> (same_connection c c' \<or> gets_connection c c')"
proof (cases e)
  case Close
  with assms show ?thesis
    by (auto simp: rc_close_def impl_close_def owner_defs same_connection_def split: option.splits if_splits)
next
  case (Attempt a)
  with assms attempt_connection show ?thesis
    by (auto simp: same_connection_def split: option.splits if_splits)
next
  case Timer_expired
  show ?thesis
  proof (cases "pending (timer c)")
    case True
    with assms(2) have "delegate c = None" by (simp add: owner_ok_def)
    moreover from Timer_expired True assms(1) obtain t where
      "reconnect b (c\<lparr>timer := t\<rparr>) = Ok c'" "\<not> pending t"
      by (auto simp: timer_expired_def rbind_Ok_iff one_shot_timeout_def split: option.splits if_splits)
    ultimately show ?thesis
      using reconnect_same[of b "c\<lparr>timer := t\<rparr>" c'] by (simp add: same_connection_def owner_defs)
  next
    case False
    with Timer_expired assms(1,2) show ?thesis by (simp add: same_connection_def)
  qed
qed (use assms in \<open>auto dest!: rc_send_quiet quiet_same[OF _ assms(2)] simp: from_connection_def\<close>)


section \<open>The loop\<close>

text \<open>While the client runs, the websocket connection reads or the next read is posted, and never both.\<close>

definition reading_inv :: "client_connection \<Rightarrow> bool" where
  "reading_inv s \<longleftrightarrow> owner_ok (owner s) \<and> conn_alive s = holds_connection (owner s) \<and>
     promise_held s = client_runs (owner s) \<and> is_running s = client_runs (owner s) \<and>
     is_reading s = (read_promise s \<noteq> None) \<and>
     reads_posted s = (if client_runs (owner s) \<and> \<not> is_reading s then 1 else 0) \<and>
     (is_reading s \<longrightarrow> client_runs (owner s))"

definition owner_of :: "client_connection res \<Rightarrow> reconnecting_client res" where
  "owner_of r = rbind r (\<lambda>s. Ok (owner s))"

text \<open>Texts that are messages.\<close>

definition well_formed :: "(string, 'j) json_ops \<Rightarrow> connection_event \<Rightarrow> bool" where
  "well_formed J e = (case e of
     Client (Connect t k) \<Rightarrow> False
   | Arrives t \<Rightarrow> (case parse J t of Ok m \<Rightarrow> True | _ \<Rightarrow> False)
   | _ \<Rightarrow> True)"

lemma runs_holds: "owner_ok c \<Longrightarrow> client_runs c \<Longrightarrow> holds_connection c"
  by (auto simp: owner_defs split: option.splits)

lemma new_connection_reads:
  assumes "owner_ok (owner s)" "holds_connection (owner s)" "client_runs (owner s)" "reads_posted s = 0"
  shows "\<exists>t. new_connection b s = Ok t \<and> owner t = owner s \<and> reading_inv t"
  using assms
  by (simp add: new_connection_def run_def read_next_def read_def no_connection_def connection_impl.defs
      client_connection.defs fresh_connection_def reading_inv_def)

lemma client_acts_sim:
  assumes "reading_inv s" "\<not> from_connection e"
    and ok: "\<And>c'. client_step b (owner s) e = Ok c' \<Longrightarrow>
      owner_ok c' \<and> (same_connection (owner s) c' \<or> gets_connection (owner s) c')"
  shows "owner_of (client_acts b e s) = client_step b (owner s) e \<and>
    (\<forall>t. client_acts b e s = Ok t \<longrightarrow> reading_inv t)"
proof (cases "client_step b (owner s) e")
  case (Ok c')
  from ok[OF Ok] consider (same) "owner_ok c'" "same_connection (owner s) c'"
    | (new) "owner_ok c'" "gets_connection (owner s) c'" by blast
  then show ?thesis
  proof cases
    case same
    with Ok assms(1) show ?thesis
      by (auto simp: client_acts_def owner_of_def same_connection_def reading_inv_def)
  next
    case new
    from assms(1) new have "\<not> conn_alive s" "\<not> client_runs (owner s)"
      by (auto simp: reading_inv_def gets_connection_def dest: runs_holds)
    moreover from this assms(1) have "reads_posted s = 0" by (simp add: reading_inv_def)
    moreover from new new_connection_reads[of "s\<lparr>owner := c'\<rparr>" b] \<open>reads_posted s = 0\<close> obtain t where
      "new_connection b (s\<lparr>owner := c'\<rparr>) = Ok t" "owner t = c'" "reading_inv t"
      by (auto simp: gets_connection_def)
    ultimately show ?thesis using Ok new by (simp add: client_acts_def owner_of_def gets_connection_def)
  qed
qed (simp_all add: client_acts_def owner_of_def)

lemma incoming_no_throw: "incoming b m c \<noteq> Throw e"
  by (simp add: incoming_def split: message.split)

lemma arrives_sim:
  assumes "reading_inv s" "is_reading s" "parse J t = Ok m"
  shows "owner_of (connection_step b J s (Arrives t)) = client_step b (owner s) (Incoming m) \<and>
    (\<forall>u. connection_step b J s (Arrives t) = Ok u \<longrightarrow> reading_inv u)"
proof -
  from assms(1,2) obtain p d where s: "read_promise s = Some p" "delegate (owner s) = Some d" "running d"
    "conn_alive s" "promise_held s" "reads_posted s = 0" "is_running s"
    using runs_holds[of "owner s"] by (auto simp: reading_inv_def client_runs_def split: option.splits)
  have same: "owner_ok c' \<and> same_connection (owner s) c'" if "incoming b m (owner s) = Ok c'" for c'
    using that assms(1)
    by (auto simp: incoming_def reading_inv_def owner_defs same_connection_def split: message.splits if_splits)
  show ?thesis
    using s assms same
    by (cases "incoming b m (owner s)")
      (auto simp: on_read_def read_done_def did_read_def parse_message_def post_read_next_def owner_of_def
        reading_inv_def same_connection_def Let_def incoming_no_throw)
qed

lemma read_fails_sim:
  assumes "reading_inv s" "is_reading s"
  shows "owner_of (connection_step b J s (Read_fails c)) = client_step b (owner s) (Run_done (run_code c)) \<and>
    (\<forall>u. connection_step b J s (Read_fails c) = Ok u \<longrightarrow> reading_inv u)"
proof -
  from assms obtain p d where s: "read_promise s = Some p" "delegate (owner s) = Some d" "running d"
    "has_connection d" "\<not> connecting d" "conn_alive s" "promise_held s" "reads_posted s = 0" "\<not> pending (timer (owner s))"
    using runs_holds[of "owner s"]
    by (auto simp: reading_inv_def owner_defs split: option.splits)
  have c: "run_code c \<noteq> Run_other_error" by (simp add: run_code_def split: read_error.split)
  show ?thesis
  proof (cases "reconnect_after_timeout b ((owner s)\<lparr>delegate := Some (d\<lparr>running := False\<rparr>)\<rparr>)")
    case (Ok c')
    then have "if shall_reconnect (owner s) then delegate c' = None
      else c' = (owner s)\<lparr>delegate := Some (d\<lparr>running := False\<rparr>)\<rparr>"
      by (auto simp: reconnect_after_timeout_def rbind_Ok_iff split: if_splits)
    with s assms c Ok show ?thesis
      by (cases "shall_reconnect (owner s)")
        (auto simp: on_read_def read_done_def did_read_def finish_def run_done_def destroy_connection_def destroy_def
          owner_of_def reading_inv_def owner_defs Let_def)
  qed (use s assms c in \<open>simp_all add: on_read_def read_done_def did_read_def finish_def run_done_def owner_of_def
      Let_def\<close>)
qed

lemma connection_step_sim:
  assumes "reading_inv s" "well_formed J e"
  shows "owner_of (connection_step b J s e) = run_events (client_step b) (owner s) (client_view J s e) \<and>
    (\<forall>t. connection_step b J s e = Ok t \<longrightarrow> reading_inv t)"
proof (cases e)
  case (Client x)
  show ?thesis
  proof (cases "from_connection x")
    case False
    from assms have "owner_ok (owner s)" "\<And>t k. x \<noteq> Connect t k"
      by (auto simp: reading_inv_def well_formed_def Client)
    then have "owner_of (client_acts b x s) = client_step b (owner s) x \<and>
      (\<forall>t. client_acts b x s = Ok t \<longrightarrow> reading_inv t)"
      using client_event_connection[OF _ _ False] by (intro client_acts_sim assms(1) False) blast
    with Client False show ?thesis by simp
  qed (use assms Client in \<open>simp add: owner_of_def\<close>)
next
  case (Arrives t)
  show ?thesis
  proof (cases "conn_alive s \<and> is_reading s")
    case True
    from assms(2) Arrives obtain m where "parse J t = Ok m" by (auto simp: well_formed_def split: res.splits)
    with arrives_sim[OF assms(1) _ this] True Arrives show ?thesis by (simp del: connection_step.simps)
  qed (use assms Arrives in \<open>auto simp: owner_of_def\<close>)
next
  case (Read_fails c)
  show ?thesis
  proof (cases "conn_alive s \<and> is_reading s")
    case True
    with read_fails_sim[OF assms(1)] Read_fails show ?thesis by (simp del: connection_step.simps)
  qed (use assms Read_fails in \<open>auto simp: owner_of_def\<close>)
next
  case Posted_runs
  with assms(1) runs_holds[of "owner s"] show ?thesis
    by (auto simp: run_posted_def read_next_def read_def owner_of_def reading_inv_def)
qed

lemma connection_run_sim:
  assumes "reading_inv s" "list_all (well_formed J) es"
  shows "owner_of (run_events (connection_step b J) s es) =
      run_events (client_step b) (owner s) (client_views b J s es) \<and>
    (\<forall>t. run_events (connection_step b J) s es = Ok t \<longrightarrow> reading_inv t)"
  using assms
proof (induction es arbitrary: s)
  case (Cons e es)
  from Cons.prems connection_step_sim[of s J e b] have
    1: "owner_of (connection_step b J s e) = run_events (client_step b) (owner s) (client_view J s e)"
    "\<And>t. connection_step b J s e = Ok t \<Longrightarrow> reading_inv t" by auto
  show ?case
  proof (cases "connection_step b J s e")
    case (Ok t)
    with 1(1) have "run_events (client_step b) (owner s) (client_view J s e) = Ok (owner t)"
      by (simp add: owner_of_def)
    with Cons.IH[OF 1(2)[OF Ok]] Cons.prems Ok show ?thesis by (simp add: run_events_append owner_of_def)
  qed (use 1(1) in \<open>simp_all add: run_events_append owner_of_def\<close>)
qed (simp add: owner_of_def)


lemma connect_sim:
  assumes "c = fresh_client i"
  shows "owner_of (client_acts b (Connect t k) (no_connection c)) = client_step b c (Connect t k) \<and>
    (\<forall>s. client_acts b (Connect t k) (no_connection c) = Ok s \<longrightarrow> reading_inv s)"
proof -
  have c: "owner (no_connection c) = c" by (simp add: no_connection_def connection_impl.defs client_connection.defs)
  have "reading_inv (no_connection c)"
    by (simp add: assms no_connection_def connection_impl.defs client_connection.defs fresh_client_def
        fresh_connection_def reading_inv_def owner_defs)
  moreover have "owner_ok c' \<and> same_connection c c'" if "client_step b c (Connect t k) = Ok c'" for c'
    using that reconnect_same[of b "c\<lparr>rc_token := t, reg_key := k\<rparr>" c']
    by (auto simp: rc_connect_def assms fresh_client_def same_connection_def owner_defs split: if_splits)
  ultimately show ?thesis
    using client_acts_sim[of "no_connection c" "Connect t k" b] by (simp add: c from_connection_def)
qed

text \<open>The client is connected once, from the start.\<close>

definition connection_run ::
    "build \<Rightarrow> (string, 'j) json_ops \<Rightarrow> connect_information \<Rightarrow> string \<Rightarrow> string \<Rightarrow> connection_event list \<Rightarrow>
     client_connection res" where
  "connection_run b J i t k es =
     run_events (connection_step b J) (no_connection (fresh_client i)) (Client (Connect t k) # es)"

definition connection_views ::
    "build \<Rightarrow> (string, 'j) json_ops \<Rightarrow> connect_information \<Rightarrow> string \<Rightarrow> string \<Rightarrow> connection_event list \<Rightarrow>
     client_event list" where
  "connection_views b J i t k es =
     client_views b J (no_connection (fresh_client i)) (Client (Connect t k) # es)"

lemma connection_run_views:
  assumes "list_all (well_formed J) es"
  shows "owner_of (connection_run b J i t k es) = run_events (client_step b) (fresh_client i) (connection_views b J i t k es) \<and>
    (\<forall>s. connection_run b J i t k es = Ok s \<longrightarrow> reading_inv s)"
proof -
  let ?s = "no_connection (fresh_client i)"
  have 1: "owner_of (client_acts b (Connect t k) ?s) = client_step b (fresh_client i) (Connect t k)"
    "\<And>u. client_acts b (Connect t k) ?s = Ok u \<Longrightarrow> reading_inv u"
    using connect_sim[of "fresh_client i" i b t k] by auto
  show ?thesis
  proof (cases "client_acts b (Connect t k) ?s")
    case (Ok u)
    with 1(1) have "client_step b (fresh_client i) (Connect t k) = Ok (owner u)" by (simp add: owner_of_def)
    with connection_run_sim[OF 1(2)[OF Ok] assms, of b] Ok show ?thesis
      by (simp add: connection_run_def connection_views_def from_connection_def owner_of_def del: client_step.simps)
  qed (use 1(1) in \<open>simp_all add: connection_run_def connection_views_def from_connection_def owner_of_def
      del: client_step.simps\<close>)
qed


section \<open>What the connection guarantees\<close>



text \<open>A JSON library with two texts.\<close>

definition two_texts :: "(string, json) json_ops" where
  "two_texts = \<lparr>json_parse = (\<lambda>t. if t = ''offer please'' then Ok (JObject [(''type'', JString ''create_offer'')])
       else Throw Json_error),
     json_dump = (\<lambda>j. Ok []), json_at = plain_at, json_eq = (\<lambda>j s. j = JString s), json_to_string = plain_to_string,
     json_to_int = plain_to_int, json_of_string = JString, json_of_int = (\<lambda>i. JInt (sint i)),
     json_object = JObject\<rparr>"

lemma two_texts_parse:
  "parse two_texts ''offer please'' = Ok Create_offer" "parse two_texts ''{'' = Throw Json_error"
  by (simp_all add: parse_def two_texts_def)

definition somewhere :: connect_information where
  "somewhere = \<lparr>secure = True, host = ''h'', service = ''s'', target = ''t''\<rparr>"

lemmas connection_eval = connection_run_def client_acts_def rc_connect_def reconnect_def impl_connect_def
  create_impl_def somewhere_def fresh_client_def emit_def from_connection_def holds_connection_def connected_def
  connection_send_def serialize_asserts_def got_registered_def rc_send_cache_def new_connection_def run_def
  read_next_def read_def no_connection_def connection_impl.defs client_connection.defs fresh_connection_def
  on_read_def read_done_def did_read_def parse_message_def incoming_def post_read_next_def two_texts_parse
  run_posted_def finish_def run_done_def run_code_def reconnect_after_timeout_def one_shot_start_def
  destroy_connection_def destroy_def Let_def


text \<open>C18. One text that is no message ends the program: the websocket connection hands it over before it resets
  \<open>reading\<close>, the client ends its run and its owner destroys it in the middle of that, and the destructor of the
  websocket connection answers a promise it no longer has. A Debug build stops at an assertion before.\<close>

theorem malformed_text_crashes:
  assumes "list_all (well_formed J) es" "connection_run b J i t k es = Ok s"
    and "conn_alive s" "is_reading s" "shall_reconnect (owner s)"
    and "parse J x = Throw e" "e \<notin> {System_error, Operation_aborted}"
  shows "connection_step b J s (Arrives x) = (if b = Debug then Assert_failed else Undefined)"
proof -
  from connection_run_views[OF assms(1), of b i t k] assms(2) have "reading_inv s" by simp
  with assms(3,4) obtain p d where "read_promise s = Some p" "delegate (owner s) = Some d" "promise_held s"
    by (auto simp: reading_inv_def client_runs_def split: option.splits)
  with assms(3-) show ?thesis
    by (cases b) (simp_all add: on_read_def read_done_def did_read_def parse_message_def finish_def exn_code_def
        run_done_def reconnect_after_timeout_def one_shot_start_def destroy_connection_def destroy_def Let_def)
qed

lemma malformed_text_crashes_witness:
  "\<exists>s. connection_run Release two_texts somewhere ''t'' ''k'' [Client (Attempt Attempt_ok)] = Ok s \<and>
    connection_step Release two_texts s (Arrives ''{'') = Undefined"
proof -
  have "ran (connection_run Release two_texts somewhere ''t'' ''k'' [Client (Attempt Attempt_ok)])
    (\<lambda>s. conn_alive s \<and> is_reading s \<and> shall_reconnect (owner s))"
    by (simp add: ran_def connection_eval)
  then obtain s where s: "connection_run Release two_texts somewhere ''t'' ''k'' [Client (Attempt Attempt_ok)] = Ok s"
    "conn_alive s" "is_reading s" "shall_reconnect (owner s)" by (auto dest: ranD)
  with malformed_text_crashes[OF _ s two_texts_parse(2)] show ?thesis
    by (auto simp: well_formed_def simp del: connection_step.simps)
qed

text \<open>The destructor of the reconnecting client.\<close>

definition destroy_client :: "client_connection \<Rightarrow> client_connection res" where
  "destroy_client s =
     (let c = owner s;
          s1 = s\<lparr>owner := c\<lparr>signal_connections := 0, timer := one_shot_stop (timer c), delegate := None\<rparr>\<rparr>
      in if conn_alive s1 then destroy_connection s1 else Ok s1)"

text \<open>Leaving is safe while a read is under way: what the read and the run are waited for with is answered. Between
  two reads it is not: the posted task reads through a pointer to the connection that is gone.\<close>

theorem left_between_reads:
  assumes "list_all (well_formed J) es" "connection_run b J i t k es = Ok s" "client_runs (owner s)"
  shows "\<exists>u. destroy_client s = Ok u \<and> run_results u = run_results s @ [Run_aborted] \<and>
    connection_step b J u Posted_runs = (if is_reading s then Ok u else Undefined)"
proof -
  from connection_run_views[OF assms(1), of b i t k] assms(2) have i: "reading_inv s" by simp
  with assms(3) have "conn_alive s" "promise_held s" by (auto simp: reading_inv_def dest: runs_holds)
  with i assms(3) show ?thesis
    by (cases "read_promise s")
      (auto simp: destroy_client_def destroy_connection_def destroy_def reading_inv_def run_posted_def Let_def)
qed

lemma left_between_reads_witness:
  "\<exists>s u. connection_run Release two_texts somewhere ''t'' ''k'' [Client (Attempt Attempt_ok), Arrives ''offer please''] = Ok s \<and>
    destroy_client s = Ok u \<and> connection_step Release two_texts u Posted_runs = Undefined"
proof -
  let ?es = "[Client (Attempt Attempt_ok), Arrives ''offer please'']"
  have "ran (connection_run Release two_texts somewhere ''t'' ''k'' ?es) (\<lambda>s. client_runs (owner s) \<and> \<not> is_reading s)"
    by (simp add: ran_def connection_eval client_runs_def)
  then obtain s where s: "connection_run Release two_texts somewhere ''t'' ''k'' ?es = Ok s"
    "client_runs (owner s)" "\<not> is_reading s" by (auto dest: ranD)
  have "list_all (well_formed two_texts) ?es" by (simp add: well_formed_def two_texts_parse)
  from left_between_reads[OF this s(1,2)] s show ?thesis by (auto simp del: connection_step.simps)
qed

end
