(* ===== verification/Spec2Isabelle.thy ===== *)
theory Spec2Isabelle
  imports Signaling_Server Websocket Signaling_Client Temporary_Rooms Media_Control Desktop_Sharing
    Participants Negotiation Rtc_Connection Audio_Level Video_Layout Http Room_View Hw_Encoder
    Signal_Guarantees Own_Controls Screens Sound_Devices Camera_Choice Websocket_Setup Gst_Connection
    Signaling_Clients Wiring Sign_In Program_Settings Two_Peers
    Client_Connection
begin

text \<open>
  Fubble is a program for video conferences. Clients find each other in a matrix room,
  whose id a temporary-room server gives out for a name, and connect to each other
  directly: two clients negotiate a peer connection through the signaling server, and
  exchange cameras, microphones and shared screens over it.

  What runs where, and which theory models it (paths below src/fubble):

  \<^item> \<open>Prelude\<close>: outcomes (a value, an exception, a failed assertion, undefined
    behaviour), builds (with and without \<open>NDEBUG\<close>), runs of events, the locales
    \<open>state_machine\<close> and \<open>total_machine\<close>, vectors searched by a key. \<open>Stateful\<close>: programs
    that keep their state when they throw.
  \<^item> the signaling server: \<open>Json_Message\<close> (signaling/json\_message.cpp) encodes and parses
    what clients and server say; \<open>Device\<close> (signaling/device/device.cpp) relays and caches
    for one client, and decides who of two may make an offer; \<open>Registration\<close>
    (signaling/registration\_handler.cpp and signaling/server) pairs the clients of a key;
    \<open>Signaling_Server\<close> holds what is true in every reachable state.
  \<^item> the signaling client: \<open>Timer\<close> (utils/timer.cpp), \<open>Websocket\<close>
    (websocket/connection\_impl.cpp) and \<open>Websocket_Setup\<close> (its connector and acceptor),
    \<open>Signaling_Client\<close> (signaling/client) with its reconnection and its cache,
    \<open>Signaling_Clients\<close>, all clients of a program and the timer they share, and
    \<open>Client_Connection\<close> (signaling/client/connection.cpp), which reads from the websocket
    for a client and implements what the client is proved with.
  \<^item> matrix: \<open>Http\<close> (http) asks and is answered; \<open>Matrix_Room\<close> (users, one room, its
    members, custom state and chat) and \<open>Matrix_Client\<close> (requests, the sync loop and its
    synchronizer) in matrix; \<open>Sign_In\<close> (version, matrix/authentification.cpp).
  \<^item> \<open>Temporary_Rooms\<close> (temporary\_room): rooms by normalised name, waiting requests and
    invitations; the server and the client that ask over a websocket.
  \<^item> the conference: \<open>Participants\<close> (client/participants.cpp, joining and leaving),
    \<open>Negotiation\<close> (client/p2p/negotiation), \<open>Two_Peers\<close> (two of its ends with the signaling
    server between them, as client/peer.cpp connects them), \<open>Rtc_Connection\<close> (tracks in
    rtc/google/connection.cpp and client/remote\_participant.cpp), \<open>Descriptions\<close>
    (descriptions and data channels in rtc/google), \<open>Gst_Connection\<close> (rtc/gstreamer, the
    other backend), \<open>Media_Control\<close> (volumes, muting, and telling the others of it),
    \<open>Audio_Level\<close> (client/audio\_level\_calculator.cpp), \<open>Video_Sharing\<close> (the
    camera), \<open>Desktop_Sharing\<close> (screens, windows, and what sharing does to the camera),
    \<open>Hw_Encoder\<close> (v4l2\_hw\_h264: a camera that encodes).
  \<^item> what is shown (the models in app): \<open>Room_View\<close> (a room), \<open>Screens\<close> (joining, leaving,
    errors, the language), \<open>Own_Controls\<close> (the own switches), \<open>Sound_Devices\<close> and
    \<open>Camera_Choice\<close> (the dialog of devices, with rtc/google/audio\_devices.cpp), and
    \<open>Video_Layout\<close> (video\_layout).
  \<^item> the program: \<open>Wiring\<close> (which part the modules create from which), \<open>Program_Settings\<close>
    (command line, settings, the factory of the media library).
  \<^item> \<open>Signal_Slot\<close> is the signal library (utils/signal.hpp) that carries all callbacks,
    \<open>Signal_Guarantees\<close> what it promises.

  How the code is translated. A class is a record of its members; members that only hold
  references, loggers and executors are left out, and the record gains what the class
  has told others (its signals, in their order), which a theorem can speak of. A method
  is a definition; one that can assert, throw or run into undefined behaviour has the
  type \<open>res\<close>, one whose caller catches is a \<open>prog\<close>. A callback, a slot or the continuation
  of a future is an event: the events of a component form its step function, and a
  theorem over \<open>run_events\<close> is one over every order of them. Where a step is guarded
  (\<open>..._ok\<close>) the guard is what the callers respect, and the text says why. Code outside
  the repository (JSON, the matrix server, sockets, the media and capture libraries, the
  rectangle packer, the kernel) is a parameter: functions, the results a handler gets, or
  the answers in an event, with hypotheses only where its documentation promises
  something. Doubles are rationals; integers are unbounded where the code can not reach
  their limits, and the limits are written out where it can (\<open>Audio_Level\<close>, \<open>Video_Layout\<close>).

  The groups of theorems:

  \<^item> invariants and safety: never both ends negotiate, no dangling device, no assertion
    whatever comes (registration, camera, video wall, layout; sharing, if the capture library
    answers at once; the screens, if no exception is unknown), references of the sync loop
    stay valid, every request of the HTTP client is accounted for exactly once, and so is
    every description a negotiating end sets and tells;
  \<^item> two clients and the server (in a Release build, while both stay connected and their
    candidates can be parsed): they refine a machine with one round of offer and answer
    at a time, no description ever meets another, negotiation ends and serves every wish,
    and one failed description ends it for good;
  \<^item> refinement and equivalence: the write queue of the websocket is a fifo; participants
    and remote tracks mirror what matrix and the peer connection report; custom state
    converges; both ends compute one key;
  \<^item> function: relaying, replaying, restoring the camera, one room for a group, which parts
    of the program share which objects; round trips of messages;
  \<^item> termination, liveness and bounds: the wait for the closing participants, the search
    for a layout, the enumeration of controls; wishes to negotiate are served; levels and
    placed items stay within their limits;
  \<^item> errors: what the code does when something fails, with the flaws that were found
    proved as theorems about the code as it is.

  Bounds and fuel. The growth of the packer ends because each
  turn adds to an \<open>int\<close> below its limit; the waiter because its index grows; loops over
  the kernel are \<open>while_option\<close>, with a result only if they end, and the outcome
  \<open>Undefined\<close> stands for not returning there. The one recursion with fuel is
  \<open>Desktop_Sharing.pause_nested\<close>: the slot of the paused camera calls the
  sharing, which may pause the camera again. One level is enough, \<open>pause_depth\<close> proves that
  more of it changes nothing.

  Handlers run one at a time, as the code posts them to one executor. Only the emissions of
  the signal library are taken apart: there the calls of the slots are steps of their own,
  between which slots connect, disconnect and end other emissions.

  Not modelled: threads and executors (utils/executor\_asio.cpp and the like, glue), the
  sinks of the log, the programs that evaluate a library and the command line client (no
  logic of the product), the thin layers that hand samples and frames to the media
  library or pixels to the screen (rtc/google/capture, client/ui), crash reports, and
  QML. Sockets, TLS, JSON and HTTP framing are libraries.
\<close>

end
